(* ===== verification/Prelude.thy ===== *)
theory Prelude
  imports "HOL-Library.Word"
begin

text \<open>
  Shared vocabulary of the development: the C integer types as words, the outcome of a C
  function (a value, a kernel panic, undefined behaviour, or going to sleep), byte-addressed memory with
  little-endian 64-bit loads and stores, and the word lemmas the components use.

  \<^item> \<open>Ret x\<close>: the function returned \<open>x\<close>;
  \<^item> \<open>Panic msg\<close>: it called \<open>panic(msg)\<close> (kernel/printf.c), which never returns;
  \<^item> \<open>Undef\<close>: C gives the execution no meaning (an array index out of range, a null pointer
    dereferenced, a signed overflow);
  \<^item> \<open>Wait\<close>: it went to sleep until another process acts, in code that is modelled as one run of
    one process (the file system takes its sleep locks that way).

  A theorem whose conclusion is \<open>Ret\<close> therefore also shows that none of the others happens.
\<close>

unbundle bit_operations_syntax

named_theorems result_simps \<open>inversion of the outcomes of a bound computation\<close>

section \<open>C integer types and outcomes\<close>

type_synonym u8 = "8 word"
type_synonym u16 = "16 word"
type_synonym u32 = "32 word"
type_synonym u64 = "64 word"

datatype 'a result = Ret 'a | Panic string | Undef | Wait

primrec rbind :: "'a result \<Rightarrow> ('a \<Rightarrow> 'b result) \<Rightarrow> 'b result" where
  "rbind (Ret x) f = f x"
| "rbind (Panic msg) f = Panic msg"
| "rbind Undef f = Undef"
| "rbind Wait f = Wait"

lemma rbind_cong [fundef_cong]:
  "r = r' \<Longrightarrow> (\<And>x. r' = Ret x \<Longrightarrow> f x = g x) \<Longrightarrow> rbind r f = rbind r' g"
  by (cases r') auto

lemma rbind_eq_Ret [result_simps]: "rbind r f = Ret y \<longleftrightarrow> (\<exists>x. r = Ret x \<and> f x = Ret y)"
  by (cases r) auto

lemma rbind_eq_Panic [result_simps]:
  "rbind r f = Panic m \<longleftrightarrow> r = Panic m \<or> (\<exists>x. r = Ret x \<and> f x = Panic m)"
  by (cases r) auto

lemma rbind_eq_Undef [result_simps]: "rbind r f = Undef \<longleftrightarrow> r = Undef \<or> (\<exists>x. r = Ret x \<and> f x = Undef)"
  by (cases r) auto

lemma rbind_eq_Wait [result_simps]: "rbind r f = Wait \<longleftrightarrow> r = Wait \<or> (\<exists>x. r = Ret x \<and> f x = Wait)"
  by (cases r) auto

lemma rbind_assoc: "rbind (rbind r f) g = rbind r (\<lambda>x. rbind (f x) g)"
  by (cases r) auto

section \<open>Ranges and conversions of words\<close>

lemma unat_lt8: "unat (a :: u8) < 256"
  using unsigned_less [of a, where 'a = nat] by simp

lemma unat_lt16: "unat (a :: u16) < 65536"
  using unsigned_less [of a, where 'a = nat] by simp

lemma unat_lt32: "unat (a :: u32) < 4294967296"
  using unsigned_less [of a, where 'a = nat] by simp

lemma unat_lt64: "unat (a :: u64) < 18446744073709551616"
  using unsigned_less [of a, where 'a = nat] by simp

lemma unat_ucast: "unat (ucast (w :: 'a::len word) :: 'b::len word) = unat w mod 2 ^ LENGTH('b)"
  by (simp add: unsigned_ucast_eq take_bit_eq_mod)

lemma unat_ucast_up:
  "LENGTH('a) \<le> LENGTH('b) \<Longrightarrow> unat (ucast (w :: 'a::len word) :: 'b::len word) = unat w"
  by (simp add: unsigned_ucast_eq take_bit_eq_mod)
     (meson unsigned_less mod_less order_less_le_trans power_increasing one_le_numeral)

section \<open>Byte-addressed memory\<close>

text \<open>
  Addresses wrap at \<open>2^64\<close>; \<open>unat (x - a) < n\<close> says that \<open>x\<close> lies in the \<open>n\<close> bytes from \<open>a\<close>.
\<close>

type_synonym memory = "u64 \<Rightarrow> u8"

primrec read_bytes :: "memory \<Rightarrow> u64 \<Rightarrow> nat \<Rightarrow> u8 list" where
  "read_bytes m a 0 = []"
| "read_bytes m a (Suc n) = m a # read_bytes m (a + 1) n"

primrec write_bytes :: "memory \<Rightarrow> u64 \<Rightarrow> u8 list \<Rightarrow> memory" where
  "write_bytes m a [] = m"
| "write_bytes m a (b # bs) = write_bytes (m(a := b)) (a + 1) bs"

lemma length_read_bytes [simp]: "length (read_bytes m a n) = n"
  by (induction n arbitrary: a) auto

lemma nth_read_bytes [simp]: "i < n \<Longrightarrow> read_bytes m a n ! i = m (a + of_nat i)"
proof (induction n arbitrary: a i)
  case 0
  then show ?case by simp
next
  case (Suc n)
  then show ?case by (cases i) (auto simp: algebra_simps)
qed

lemma unat_sub_one:
  fixes x a :: u64
  assumes "x \<noteq> a" shows "unat (x - a) = Suc (unat (x - (a + 1)))"
proof -
  have "x - a \<noteq> 0" using assms by simp
  then have "unat (x - a - 1) = unat (x - a) - 1" and "unat (x - a) \<noteq> 0"
    by (simp_all add: unat_minus_one unat_eq_zero)
  then show ?thesis by (simp add: algebra_simps)
qed

lemma write_bytes_apply:
  assumes "length bs \<le> 2 ^ 64"
  shows "write_bytes m a bs x = (if unat (x - a) < length bs then bs ! unat (x - a) else m x)"
  using assms
proof (induction bs arbitrary: m a)
  case Nil
  then show ?case by simp
next
  case (Cons b bs)
  have IH: "write_bytes (m(a := b)) (a + 1) bs x =
      (if unat (x - (a + 1)) < length bs then bs ! unat (x - (a + 1)) else (m(a := b)) x)"
    using Cons by simp
  show ?case
  proof (cases "x = a")
    case True
    have "a - (a + 1) = - 1" by simp
    then have "unat (a - (a + 1)) = 2 ^ 64 - 1"
      by (simp only: unsigned_minus_1_eq_mask) (simp add: mask_eq_exp_minus_1)
    then show ?thesis using True IH Cons.prems by simp
  next
    case False
    then show ?thesis using IH unat_sub_one [OF False] by simp
  qed
qed

lemma read_bytes_cong: "(\<And>i. i < n \<Longrightarrow> m (a + of_nat i) = m' (a + of_nat i)) \<Longrightarrow> read_bytes m a n = read_bytes m' a n"
  by (auto intro!: nth_equalityI)

lemma read_write_bytes_same:
  assumes "length bs < 2 ^ 64"
  shows "read_bytes (write_bytes m a bs) a (length bs) = bs"
proof (rule nth_equalityI)
  fix i assume "i < length (read_bytes (write_bytes m a bs) a (length bs))"
  then have i: "i < length bs" by simp
  then have "unat (of_nat i :: u64) = i" using assms by (simp add: unat_of_nat)
  then show "read_bytes (write_bytes m a bs) a (length bs) ! i = bs ! i"
    using i assms by (simp add: write_bytes_apply)
qed simp

section \<open>Little-endian encoding\<close>

primrec le_bytes :: "nat \<Rightarrow> 'a::len word \<Rightarrow> u8 list" where
  "le_bytes 0 v = []"
| "le_bytes (Suc n) v = ucast v # le_bytes n (drop_bit 8 v)"

primrec of_le_bytes :: "u8 list \<Rightarrow> 'a::len word" where
  "of_le_bytes [] = 0"
| "of_le_bytes (b # bs) = ucast b OR push_bit 8 (of_le_bytes bs)"

lemma length_le_bytes [simp]: "length (le_bytes n v) = n"
  by (induction n arbitrary: v) auto

lemma of_le_bytes_le_bytes: "of_le_bytes (le_bytes n v) = take_bit (8 * n) (v :: 'a::len word)"
proof (induction n arbitrary: v)
  case 0
  then show ?case by simp
next
  case (Suc n)
  show ?case
  proof (rule bit_eqI)
    fix i
    show "bit (of_le_bytes (le_bytes (Suc n) v) :: 'a word) i = bit (take_bit (8 * Suc n) v) i"
      by (auto simp: Suc bit_simps dest: bit_imp_le_length)
  qed
qed

lemma nth_le_bytes: "i < n \<Longrightarrow> le_bytes n v ! i = ucast (drop_bit (8 * i) v)"
proof (induction n arbitrary: v i)
  case 0
  then show ?case by simp
next
  case (Suc n)
  then show ?case by (cases i) (simp_all add: add.commute)
qed

lemma bit_of_le_bytes:
  "bit (of_le_bytes bs :: 'a::len word) i \<longleftrightarrow>
     i < LENGTH('a) \<and> i < 8 * length bs \<and> bit (bs ! (i div 8)) (i mod 8)"
proof (induction bs arbitrary: i)
  case Nil
  then show ?case by simp
next
  case (Cons b bs)
  show ?case
  proof (cases "i < 8")
    case True
    then show ?thesis by (auto simp: bit_simps)
  next
    case False
    then obtain k where k: "i = 8 + k" by (metis le_add_diff_inverse not_less)
    then have "(8 + k) div 8 = Suc (k div 8)" and "(8 + k) mod 8 = k mod 8" by simp_all
    with k show ?thesis by (auto simp: bit_simps Cons dest: bit_imp_le_length)
  qed
qed

lemma le_bytes_of_le_bytes:
  assumes "8 * length bs \<le> LENGTH('a)"
  shows "le_bytes (length bs) (of_le_bytes bs :: 'a::len word) = bs"
proof (rule nth_equalityI)
  fix i assume "i < length (le_bytes (length bs) (of_le_bytes bs :: 'a word))"
  then have i: "i < length bs" by simp
  have "ucast (drop_bit (8 * i) (of_le_bytes bs :: 'a word)) = bs ! i"
  proof (rule bit_eqI)
    fix k assume "possible_bit TYPE(u8) k"
    then have k: "k < 8" by simp
    then have "(8 * i + k) div 8 = i" and "(8 * i + k) mod 8 = k" by simp_all
    with i k assms show "bit (ucast (drop_bit (8 * i) (of_le_bytes bs :: 'a word)) :: u8) k = bit (bs ! i) k"
      by (simp add: bit_simps bit_of_le_bytes)
  qed
  with i show "le_bytes (length bs) (of_le_bytes bs :: 'a word) ! i = bs ! i"
    by (simp add: nth_le_bytes)
qed simp

definition load64 :: "memory \<Rightarrow> u64 \<Rightarrow> u64" where
  "load64 m a = of_le_bytes (read_bytes m a 8)"

definition store64 :: "memory \<Rightarrow> u64 \<Rightarrow> u64 \<Rightarrow> memory" where
  "store64 m a v = write_bytes m a (le_bytes 8 v)"

lemma load64_store64_same [simp]: "load64 (store64 m a v) a = v"
proof -
  have "read_bytes (write_bytes m a (le_bytes 8 v)) a (length (le_bytes 8 v)) = le_bytes 8 v"
    by (rule read_write_bytes_same) simp
  then show ?thesis
    by (simp add: load64_def store64_def of_le_bytes_le_bytes take_bit_word_eq_self del: le_bytes.simps)
qed

section \<open>Pages and bit masks\<close>

definition page_index :: "u64 \<Rightarrow> nat" where
  "page_index a = unat a div 4096"

lemma unat_mod_word: "unat (a mod b) = unat a mod unat (b :: 'a::len word)"
  by (simp add: unat_mod_distrib)

lemma and_not_mask_eq: "(a :: 'a::len word) AND NOT (mask n) = a - take_bit n a"
proof -
  have "a AND NOT (mask n) = push_bit n (drop_bit n a)"
    by (rule bit_eqI) (auto simp: bit_simps)
  moreover have "push_bit n (drop_bit n a) + take_bit n a = a"
    by (rule bits_ident)
  ultimately show ?thesis by (simp add: algebra_simps)
qed

lemma unat_take_bit: "unat (take_bit n (a :: 'a::len word)) = unat a mod 2 ^ n"
  by (simp add: unsigned_take_bit_eq flip: take_bit_eq_mod)

lemma unat_and_not_mask: "unat ((a :: 'a::len word) AND NOT (mask n)) = unat a - unat a mod 2 ^ n"
proof -
  have "take_bit n a \<le> a"
    by (simp add: word_le_nat_alt unat_take_bit)
  then show ?thesis
    by (simp add: and_not_mask_eq unat_sub unat_take_bit)
qed

lemma unat_less_bits:
  assumes "unat (f :: 'a::len word) < 2 ^ n" and "bit f i" shows "i < n"
proof -
  have "take_bit n f = f"
    using assms(1) by (simp add: word_unat_eq_iff unat_take_bit)
  with assms(2) have "bit (take_bit n f) i" by simp
  then show ?thesis by (simp add: bit_simps)
qed

lemma unat_mod_bits:
  assumes "unat (f :: 'a::len word) mod 2 ^ n = 0" and "bit f i" shows "n \<le> i"
proof (rule ccontr)
  have "take_bit n f = 0"
    using assms(1) by (simp add: word_unat_eq_iff unat_take_bit)
  moreover assume "\<not> n \<le> i"
  with assms(2) have "bit (take_bit n f) i" by (simp add: bit_simps)
  ultimately show False by simp
qed

section \<open>Transition systems\<close>

text \<open>
  The states a system reaches from its initial ones. A component with a step relation and an
  inductive invariant is an interpretation of \<open>transitions\<close>.
\<close>

definition reach :: "('s \<Rightarrow> bool) \<Rightarrow> ('s \<Rightarrow> 's \<Rightarrow> bool) \<Rightarrow> 's \<Rightarrow> bool" where
  "reach init step t \<longleftrightarrow> (\<exists>s. init s \<and> step\<^sup>*\<^sup>* s t)"

lemma reach_start: "init s \<Longrightarrow> reach init step s"
  by (auto simp: reach_def)

lemma reach_step: "reach init step s \<Longrightarrow> step s t \<Longrightarrow> reach init step t"
  by (auto simp: reach_def intro: rtranclp.rtrancl_into_rtrancl)

locale transitions =
  fixes init :: "'s \<Rightarrow> bool" and step :: "'s \<Rightarrow> 's \<Rightarrow> bool" and inv :: "'s \<Rightarrow> bool"
  assumes init_inv: "init s \<Longrightarrow> inv s" and step_inv: "step s t \<Longrightarrow> inv s \<Longrightarrow> inv t"
begin

lemma runs_inv: "step\<^sup>*\<^sup>* s t \<Longrightarrow> inv s \<Longrightarrow> inv t"
  by (induction rule: rtranclp_induct) (auto intro: step_inv)

lemma reach_inv: "reach init step t \<Longrightarrow> inv t"
  using runs_inv init_inv by (auto simp: reach_def)

end

end
