(* ===== verification/Kstring.thy ===== *)
theory Kstring
  imports Prelude
begin

text \<open>
  kernel/string.c over byte-addressed memory. Each function takes the memory and returns it
  updated (the pointer the C function returns is its first argument). A \<open>while(n-- > 0)\<close>
  loop is recursion on the remaining count. \<open>strlen\<close> counts in an \<open>int\<close>, so a string with no
  terminator within \<open>2^31\<close> bytes is undefined behaviour.
\<close>

section \<open>The functions\<close>

primrec memset_loop :: "memory \<Rightarrow> u64 \<Rightarrow> u8 \<Rightarrow> nat \<Rightarrow> memory" where
  "memset_loop m d c 0 = m"
| "memset_loop m d c (Suc k) = memset_loop (m(d := c)) (d + 1) c k"

definition memset :: "memory \<Rightarrow> u64 \<Rightarrow> u32 \<Rightarrow> u32 \<Rightarrow> memory" where
  "memset m dst c n = memset_loop m dst (ucast c) (unat n)"

primrec memcmp :: "memory \<Rightarrow> u64 \<Rightarrow> u64 \<Rightarrow> nat \<Rightarrow> int" where
  "memcmp m s1 s2 0 = 0"
| "memcmp m s1 s2 (Suc n) =
     (if m s1 \<noteq> m s2 then uint (m s1) - uint (m s2) else memcmp m (s1 + 1) (s2 + 1) n)"

primrec copy_fwd :: "memory \<Rightarrow> u64 \<Rightarrow> u64 \<Rightarrow> nat \<Rightarrow> memory" where
  "copy_fwd m d s 0 = m"
| "copy_fwd m d s (Suc n) = copy_fwd (m(d := m s)) (d + 1) (s + 1) n"

primrec copy_bwd :: "memory \<Rightarrow> u64 \<Rightarrow> u64 \<Rightarrow> nat \<Rightarrow> memory" where
  "copy_bwd m d s 0 = m"
| "copy_bwd m d s (Suc n) = copy_bwd (m(d - 1 := m (s - 1))) (d - 1) (s - 1) n"

definition memmove :: "memory \<Rightarrow> u64 \<Rightarrow> u64 \<Rightarrow> u32 \<Rightarrow> memory" where
  "memmove m dst src n =
     (if n = 0 then m
      else if src < dst \<and> src + ucast n > dst
      then copy_bwd m (dst + ucast n) (src + ucast n) (unat n)
      else copy_fwd m dst src (unat n))"

primrec strncmp :: "memory \<Rightarrow> u64 \<Rightarrow> u64 \<Rightarrow> nat \<Rightarrow> int" where
  "strncmp m p q 0 = 0"
| "strncmp m p q (Suc n) =
     (if m p \<noteq> 0 \<and> m p = m q then strncmp m (p + 1) (q + 1) n else uint (m p) - uint (m q))"

primrec strncpy_loop :: "memory \<Rightarrow> u64 \<Rightarrow> u64 \<Rightarrow> nat \<Rightarrow> memory" where
  "strncpy_loop m s t 0 = m"
| "strncpy_loop m s t (Suc n) =
     (if m t \<noteq> 0 then strncpy_loop (m(s := m t)) (s + 1) (t + 1) n
      else memset_loop (m(s := m t)) (s + 1) 0 n)"

definition strncpy :: "memory \<Rightarrow> u64 \<Rightarrow> u64 \<Rightarrow> int \<Rightarrow> memory" where
  "strncpy m s t n = strncpy_loop m s t (nat n)"

primrec safestrcpy_loop :: "memory \<Rightarrow> u64 \<Rightarrow> u64 \<Rightarrow> nat \<Rightarrow> memory" where
  "safestrcpy_loop m s t 0 = m(s := 0)"
| "safestrcpy_loop m s t (Suc k) =
     (if m t \<noteq> 0 then safestrcpy_loop (m(s := m t)) (s + 1) (t + 1) k
      else m(s := m t, s + 1 := 0))"

definition safestrcpy :: "memory \<Rightarrow> u64 \<Rightarrow> u64 \<Rightarrow> int \<Rightarrow> memory" where
  "safestrcpy m s t n = (if n \<le> 0 then m else safestrcpy_loop m s t (nat n - 1))"

function strlen_loop :: "memory \<Rightarrow> u64 \<Rightarrow> nat \<Rightarrow> int result" where
  "strlen_loop m s n =
     (if m (s + of_nat n) = 0 then Ret (int n)
      else if n < 2 ^ 31 - 1 then strlen_loop m s (Suc n) else Undef)"
  by pat_completeness auto
termination
  by (relation "measure (\<lambda>(m, s, n). 2 ^ 31 - n)") auto

declare strlen_loop.simps [simp del]

definition strlen :: "memory \<Rightarrow> u64 \<Rightarrow> int result" where
  "strlen m s = strlen_loop m s 0"

section \<open>What the comparisons and strlen compute\<close>

definition cstr :: "memory \<Rightarrow> u64 \<Rightarrow> nat \<Rightarrow> u8 list" where
  "cstr m a n = takeWhile (\<lambda>b. b \<noteq> 0) (read_bytes m a n)"

lemma cstr_0 [simp]: "cstr m a 0 = []"
  by (simp add: cstr_def)

lemma cstr_Suc: "cstr m a (Suc n) = (if m a = 0 then [] else m a # cstr m (a + 1) n)"
  by (simp add: cstr_def)

lemma length_cstr: "length (cstr m a n) \<le> n"
  using length_takeWhile_le [of "\<lambda>b. b \<noteq> 0" "read_bytes m a n"] by (simp add: cstr_def)

lemma strncmp_eq_0: "strncmp m p q n = 0 \<longleftrightarrow> cstr m p n = cstr m q n"
proof (induction n arbitrary: p q)
  case 0
  then show ?case by simp
next
  case (Suc n)
  have "uint (m p) - uint (m q) = 0 \<longleftrightarrow> m p = m q" by (simp add: word_uint_eq_iff)
  then show ?case by (auto simp: Suc cstr_Suc)
qed

lemma strlen_loop_find:
  assumes "n \<le> k" "k < 2 ^ 31" "m (s + of_nat k) = 0" "\<And>i. n \<le> i \<Longrightarrow> i < k \<Longrightarrow> m (s + of_nat i) \<noteq> 0"
  shows "strlen_loop m s n = Ret (int k)"
  using assms
proof (induction m s n rule: strlen_loop.induct)
  case (1 m s n)
  show ?case
  proof (cases "n = k")
    case True
    then show ?thesis using "1.prems" by (subst strlen_loop.simps) simp
  next
    case False
    then have "m (s + of_nat n) \<noteq> 0" "n < 2 ^ 31 - 1" "n < k" using "1.prems" by auto
    then show ?thesis using "1.IH" "1.prems" by (subst strlen_loop.simps) auto
  qed
qed

section \<open>What the copies write\<close>

lemma memset_loop_write: "memset_loop m d c k = write_bytes m d (replicate k c)"
  by (induction k arbitrary: m d) auto

lemma memset_apply:
  "memset m dst c n x = (if unat (x - dst) < unat n then ucast c else m x)"
proof -
  have "unat n \<le> 2 ^ 64" using unat_lt32 [of n] by simp
  then show ?thesis
    by (simp add: memset_def memset_loop_write write_bytes_apply)
qed

text \<open>Forward: correct if no destination byte is written before it is read.\<close>

lemma copy_fwd_apply:
  assumes "n \<le> 2 ^ 64" and "\<And>i j. i < j \<Longrightarrow> j < n \<Longrightarrow> d + of_nat i \<noteq> s + of_nat j"
  shows "copy_fwd m d s n x = (if unat (x - d) < n then m (s + (x - d)) else m x)"
  using assms
proof (induction n arbitrary: m d s)
  case 0
  then show ?case by simp
next
  case (Suc n)
  have IH: "copy_fwd (m(d := m s)) (d + 1) (s + 1) n x =
    (if unat (x - (d + 1)) < n then (m(d := m s)) (s + 1 + (x - (d + 1))) else (m(d := m s)) x)"
  proof (rule Suc.IH)
    fix i j :: nat assume "i < j" "j < n"
    then show "d + 1 + of_nat i \<noteq> s + 1 + of_nat j"
      using Suc.prems(2) [of "Suc i" "Suc j"] by (simp add: algebra_simps)
  qed (use Suc.prems in simp)
  show ?case
  proof (cases "x = d")
    case True
    have "d - (d + 1) = - 1" by simp
    then have "unat (d - (d + 1)) = 2 ^ 64 - 1"
      by (simp only: unsigned_minus_1_eq_mask) (simp add: mask_eq_exp_minus_1)
    then show ?thesis using True IH Suc.prems by simp
  next
    case False
    have e: "s + 1 + (x - (d + 1)) = s + (x - d)" by simp
    have "s + (x - d) \<noteq> d" if "unat (x - (d + 1)) < n"
    proof -
      let ?j = "unat (x - d)"
      have "?j < Suc n" "0 < ?j" using that unat_sub_one [OF False] by simp_all
      with Suc.prems(2) [of 0 ?j] show ?thesis by simp
    qed
    then show ?thesis using False IH e unat_sub_one [OF False] by simp
  qed
qed

lemma copy_bwd_apply:
  assumes "n \<le> 2 ^ 64" and "\<And>i j. i < j \<Longrightarrow> j < n \<Longrightarrow> d + of_nat j \<noteq> s + of_nat i"
  shows "copy_bwd m (d + of_nat n) (s + of_nat n) n x = (if unat (x - d) < n then m (s + (x - d)) else m x)"
  using assms
proof (induction n arbitrary: m)
  case 0
  then show ?case by simp
next
  case (Suc n)
  let ?m = "m(d + of_nat n := m (s + of_nat n))"
  have IH: "copy_bwd ?m (d + of_nat n) (s + of_nat n) n x = (if unat (x - d) < n then ?m (s + (x - d)) else ?m x)"
    using Suc by simp
  have u: "copy_bwd m (d + of_nat (Suc n)) (s + of_nat (Suc n)) (Suc n) x = copy_bwd ?m (d + of_nat n) (s + of_nat n) n x"
    by (simp add: algebra_simps)
  have nn: "unat (of_nat n :: u64) = n" using Suc.prems(1) by (simp add: unat_of_nat)
  show ?case
  proof (cases "unat (x - d) < n")
    case True
    have "s + (x - d) \<noteq> d + of_nat n"
      using Suc.prems(2) [of "unat (x - d)" n] True by simp
    moreover have "d + of_nat n \<noteq> x" using True nn by auto
    ultimately show ?thesis using True IH u by simp
  next
    case False
    have "x = d + of_nat n \<longleftrightarrow> x - d = of_nat n" by (auto simp: algebra_simps)
    also have "\<dots> \<longleftrightarrow> unat (x - d) = n" using nn by (simp add: word_unat_eq_iff)
    finally have "x = d + of_nat n \<longleftrightarrow> unat (x - d) = n" .
    then show ?thesis using False IH u by auto
  qed
qed

text \<open>The branch taken makes the copy direction safe.\<close>

lemma add_of_nat_eq_iff:
  fixes d s :: u64
  assumes "unat d + i < 2 ^ 64" "unat s + j < 2 ^ 64"
  shows "d + of_nat i = s + of_nat j \<longleftrightarrow> unat d + i = unat s + j"
proof -
  have "unat (d + of_nat i) = unat d + i" "unat (s + of_nat j) = unat s + j"
    using assms by (simp_all add: unat_word_ariths unat_of_nat)
  then show ?thesis by (simp add: word_unat_eq_iff)
qed

lemma memmove_apply:
  assumes "unat src + unat n < 2 ^ 64" and "unat dst + unat n < 2 ^ 64"
  shows "memmove m dst src n x = (if unat (x - dst) < unat n then m (src + (x - dst)) else m x)"
proof -
  have n: "unat n \<le> 2 ^ 64" using unat_lt32 [of n] by simp
  have e: "(ucast n :: u64) = of_nat (unat n)" by simp
  have un: "unat (src + ucast n) = unat src + unat n"
    using assms(1) by (simp add: unat_word_ariths unat_ucast_up)
  show ?thesis
  proof (cases "n = 0")
    case True then show ?thesis by (simp add: memmove_def)
  next
    case nz: False
    show ?thesis
    proof (cases "src < dst \<and> src + ucast n > dst")
      case True
      have "copy_bwd m (dst + of_nat (unat n)) (src + of_nat (unat n)) (unat n) x =
        (if unat (x - dst) < unat n then m (src + (x - dst)) else m x)"
      proof (rule copy_bwd_apply [OF n])
        fix i j assume "i < j" "j < unat n"
        then show "dst + of_nat j \<noteq> src + of_nat i"
          using True assms by (subst add_of_nat_eq_iff) (auto simp: word_less_nat_alt)
      qed
      then show ?thesis using True nz by (simp add: memmove_def)
    next
      case False
      then have o: "unat dst \<le> unat src \<or> unat src + unat n \<le> unat dst"
        by (auto simp: word_less_nat_alt un not_less)
      have "copy_fwd m dst src (unat n) x =
        (if unat (x - dst) < unat n then m (src + (x - dst)) else m x)"
      proof (rule copy_fwd_apply [OF n])
        fix i j assume "i < j" "j < unat n"
        then show "dst + of_nat i \<noteq> src + of_nat j"
          using o assms by (subst add_of_nat_eq_iff) auto
      qed
      then show ?thesis using False nz by (auto simp: memmove_def)
    qed
  qed
qed

definition pad0 :: "nat \<Rightarrow> u8 list \<Rightarrow> u8 list" where
  "pad0 n xs = xs @ replicate (n - length xs) 0"

lemma cstr_cong: "(\<And>i. i < n \<Longrightarrow> m (a + of_nat i) = m' (a + of_nat i)) \<Longrightarrow> cstr m a n = cstr m' a n"
  unfolding cstr_def by (simp cong: read_bytes_cong)

lemma strncpy_loop_write:
  assumes "\<And>i j. i < n \<Longrightarrow> j < n \<Longrightarrow> s + of_nat i \<noteq> t + of_nat j"
  shows "strncpy_loop m s t n = write_bytes m s (pad0 n (cstr m t n))"
  using assms
proof (induction n arbitrary: m s t)
  case 0
  then show ?case by (simp add: pad0_def)
next
  case (Suc n)
  have IH: "strncpy_loop (m(s := m t)) (s + 1) (t + 1) n =
      write_bytes (m(s := m t)) (s + 1) (pad0 n (cstr (m(s := m t)) (t + 1) n))"
  proof (rule Suc.IH)
    fix i j assume "i < n" "j < n"
    then show "s + 1 + of_nat i \<noteq> t + 1 + of_nat j"
      using Suc.prems [of "Suc i" "Suc j"] by (simp add: algebra_simps)
  qed
  have "cstr (m(s := m t)) (t + 1) n = cstr m (t + 1) n"
  proof (rule cstr_cong)
    fix i assume "i < n"
    then show "(m(s := m t)) (t + 1 + of_nat i) = m (t + 1 + of_nat i)"
      using Suc.prems [of 0 "Suc i"] by (simp add: algebra_simps)
  qed
  with IH show ?case
    by (auto simp: cstr_Suc pad0_def memset_loop_write)
qed

end
