(* ===== verification/Riscv.thy ===== *)
theory Riscv
  imports Prelude
begin

text \<open>
  The page and page-table-entry macros of kernel/riscv.h and the physical memory bounds of
  kernel/memlayout.h, with the lemmas on page-aligned addresses that the allocator and the
  page-table code share.
\<close>

section \<open>Macros\<close>

definition PGSIZE :: u64 where "PGSIZE = 4096"

definition PGROUNDUP :: "u64 \<Rightarrow> u64" where
  "PGROUNDUP sz = (sz + PGSIZE - 1) AND NOT (PGSIZE - 1)"

definition PGROUNDDOWN :: "u64 \<Rightarrow> u64" where
  "PGROUNDDOWN a = a AND NOT (PGSIZE - 1)"

definition PTE_V :: u64 where "PTE_V = push_bit 0 1"

definition PTE_R :: u64 where "PTE_R = push_bit 1 1"

definition PTE_W :: u64 where "PTE_W = push_bit 2 1"

definition PTE_X :: u64 where "PTE_X = push_bit 3 1"

definition PTE_U :: u64 where "PTE_U = push_bit 4 1"

definition PA2PTE :: "u64 \<Rightarrow> u64" where "PA2PTE pa = push_bit 10 (drop_bit 12 pa)"

definition PTE2PA :: "u64 \<Rightarrow> u64" where "PTE2PA pte = push_bit 12 (drop_bit 10 pte)"

definition PTE_FLAGS :: "u64 \<Rightarrow> u64" where "PTE_FLAGS pte = pte AND 0x3FF"

definition PXSHIFT :: "nat \<Rightarrow> nat" where "PXSHIFT level = 12 + 9 * level"

definition PX :: "nat \<Rightarrow> u64 \<Rightarrow> u64" where "PX level va = drop_bit (PXSHIFT level) va AND 0x1FF"

definition MAXVA :: u64 where "MAXVA = push_bit (9 + 9 + 9 + 12 - 1) 1"

definition KERNBASE :: u64 where "KERNBASE = 0x80000000"

definition PHYSTOP :: u64 where "PHYSTOP = KERNBASE + 128 * 1024 * 1024"

section \<open>Page-aligned addresses\<close>

lemma PGSIZE_mask: "PGSIZE - 1 = mask 12"
  by (simp add: PGSIZE_def mask_eq_exp_minus_1)

lemma unat_PGROUNDDOWN: "unat (PGROUNDDOWN a) = unat a - unat a mod 4096"
  by (simp add: PGROUNDDOWN_def PGSIZE_mask unat_and_not_mask)

lemma page_index_PGROUNDDOWN [simp]: "page_index (PGROUNDDOWN a) = page_index a"
  by (simp add: page_index_def unat_PGROUNDDOWN minus_mod_eq_mult_div)

definition pg_aligned :: "u64 \<Rightarrow> bool" where
  "pg_aligned a \<longleftrightarrow> a mod PGSIZE = 0"

lemma unat_PGSIZE [simp]: "unat PGSIZE = 4096"
  by (simp add: PGSIZE_def)

lemma pg_aligned_unat: "pg_aligned p \<longleftrightarrow> unat p mod 4096 = 0"
  by (simp add: pg_aligned_def word_unat_eq_iff unat_mod_word)

lemma pg_alignedE:
  assumes "pg_aligned p" obtains k where "unat p = 4096 * k"
  using assms unfolding pg_aligned_unat by auto

lemma PGROUNDDOWN_aligned [simp]: "pg_aligned (PGROUNDDOWN a)"
  by (simp add: pg_aligned_unat unat_PGROUNDDOWN minus_mod_eq_mult_div)

lemma unat_div_PGSIZE: "unat (pa div PGSIZE) = page_index pa"
  by (simp add: unat_div page_index_def)

lemma div_page_eq: "x div 4096 = q \<longleftrightarrow> 4096 * q \<le> x \<and> x < 4096 * q + (4096 :: nat)"
  by linarith

lemma in_page_iff:
  assumes "pg_aligned p"
  shows "unat (x - p) < 4096 \<longleftrightarrow> page_index x = page_index p"
proof -
  obtain q where q: "unat p = 4096 * q" using assms by (rule pg_alignedE)
  have b: "unat p < 2 ^ 64" "unat x < 2 ^ 64" using unsigned_less [of p] unsigned_less [of x] by simp_all
  show ?thesis
  proof (cases "p \<le> x")
    case True
    then show ?thesis using q by (auto simp: unat_sub page_index_def word_le_nat_alt div_page_eq)
  next
    case False
    then have "unat x < unat p" by (simp add: word_le_nat_alt)
    moreover have "unat (x - p) = unat x + 2 ^ 64 - unat p" using False by (simp add: unat_sub_if' word_le_nat_alt)
    ultimately show ?thesis using q b by (simp add: page_index_def div_page_eq)
  qed
qed

lemma PTE2PA_PA2PTE:
  assumes "pg_aligned pa" "unat pa < 2 ^ 56" "unat f < 1024"
  shows "PTE2PA (PA2PTE pa OR f) = pa"
proof (rule bit_eqI)
  have "unat pa mod 2 ^ 12 = 0" using assms(1) by (simp add: pg_aligned_unat)
  then have pa: "bit pa i \<Longrightarrow> 12 \<le> i \<and> i < 56" for i
    using unat_mod_bits [of pa 12 i] unat_less_bits [of pa 56 i] assms(2) by simp
  have f: "bit f i \<Longrightarrow> i < 10" for i
    using unat_less_bits [of f 10] assms(3) by simp
  fix n assume "possible_bit TYPE(u64) n"
  then show "bit (PTE2PA (PA2PTE pa OR f)) n = bit pa n"
    using pa [of n] f [of "n - 2"] by (auto simp: PTE2PA_def PA2PTE_def bit_simps)
qed

lemma PTE_FLAGS_PA2PTE:
  assumes "unat f < 1024"
  shows "PTE_FLAGS (PA2PTE pa OR f) = f"
proof (rule bit_eqI)
  have f: "bit f i \<Longrightarrow> i < 10" for i
    using unat_less_bits [of f 10] assms by simp
  have m: "(0x3FF :: u64) = mask 10" by (simp add: mask_eq_exp_minus_1)
  fix n assume "possible_bit TYPE(u64) n"
  then show "bit (PTE_FLAGS (PA2PTE pa OR f)) n = bit f n"
    using f [of n] unfolding PTE_FLAGS_def m by (auto simp: PA2PTE_def bit_simps)
qed

lemma unat_PHYSTOP: "unat PHYSTOP = 2281701376"
  by (simp add: PHYSTOP_def KERNBASE_def)

lemma page_index_inj:
  assumes "pg_aligned p" "pg_aligned q" "page_index p = page_index q"
  shows "p = q"
proof -
  have "unat p = 4096 * page_index p" "unat q = 4096 * page_index q"
    using assms(1,2) unfolding pg_aligned_unat page_index_def by auto
  then show ?thesis using assms(3) by (simp add: word_unat_eq_iff)
qed

lemma page_index_add:
  assumes "pg_aligned p" "i < 4096"
  shows "page_index (p + of_nat i) = page_index p"
proof -
  have "unat (p + of_nat i - p) < 4096" using assms(2) by (simp add: unat_of_nat)
  then show ?thesis using in_page_iff [OF assms(1)] by blast
qed

lemma load64_cong:
  assumes "\<And>i. i < 8 \<Longrightarrow> m (a + of_nat i) = m' (a + of_nat i)"
  shows "load64 m a = load64 m' a"
  using read_bytes_cong [of 8 m a m'] assms by (simp add: load64_def)

lemma load64_page_cong:
  assumes "pg_aligned p" "\<And>x. page_index x = page_index p \<Longrightarrow> m x = m' x"
  shows "load64 m p = load64 m' p"
  by (rule load64_cong) (simp add: assms page_index_add)

lemma store64_page:
  assumes "pg_aligned p" "page_index x \<noteq> page_index p"
  shows "store64 m p v x = m x"
proof -
  have "\<not> unat (x - p) < 8" using in_page_iff [OF assms(1), of x] assms(2) by linarith
  then show ?thesis by (simp add: store64_def write_bytes_apply del: le_bytes.simps)
qed

lemma page_step:
  assumes "pg_aligned p" "p < PHYSTOP"
  shows "unat (p + PGSIZE) = unat p + 4096" "pg_aligned (p + PGSIZE)" "p + PGSIZE \<le> PHYSTOP"
proof -
  have lt: "unat p < 2281701376" using assms(2) by (simp add: word_less_nat_alt unat_PHYSTOP)
  then show u: "unat (p + PGSIZE) = unat p + 4096" by (simp add: unat_word_ariths)
  obtain q where q: "unat p = 4096 * q" using assms(1) by (rule pg_alignedE)
  from q u show "pg_aligned (p + PGSIZE)" unfolding pg_aligned_unat by simp
  from q lt have "unat p + 4096 \<le> 2281701376" by simp
  with u show "p + PGSIZE \<le> PHYSTOP" by (simp add: word_le_nat_alt unat_PHYSTOP)
qed

lemma page_below_step:
  assumes "pg_aligned p" "p < PHYSTOP" "pg_aligned q"
  shows "q < p + PGSIZE \<longleftrightarrow> q = p \<or> q < p"
proof -
  obtain i j where "unat p = 4096 * i" "unat q = 4096 * j"
    using assms(1,3) by (meson pg_alignedE)
  then show ?thesis using page_step(1) [OF assms(1,2)] by (auto simp: word_less_nat_alt word_unat_eq_iff)
qed

lemma unat_PGROUNDUP:
  assumes "unat a + 4095 < 2 ^ 64"
  shows "unat (PGROUNDUP a) = (unat a + 4095) div 4096 * 4096"
proof -
  have "unat (a + PGSIZE - 1) = unat a + 4095"
    using assms by (simp add: PGSIZE_def unat_word_ariths)
  then show ?thesis
    by (simp add: PGROUNDUP_def PGSIZE_mask unat_and_not_mask minus_mod_eq_div_mult)
qed

lemma PGROUNDUP_props:
  assumes "a \<le> PHYSTOP"
  shows "pg_aligned (PGROUNDUP a)" "a \<le> PGROUNDUP a" "PGROUNDUP a \<le> PHYSTOP"
    "\<And>q. pg_aligned q \<Longrightarrow> a \<le> q \<Longrightarrow> PGROUNDUP a \<le> q"
proof -
  have le: "unat a \<le> 2281701376" using assms by (simp add: word_le_nat_alt unat_PHYSTOP)
  then have u: "unat (PGROUNDUP a) = (unat a + 4095) div 4096 * 4096" by (intro unat_PGROUNDUP) simp
  show "pg_aligned (PGROUNDUP a)" by (simp add: pg_aligned_unat u)
  show "a \<le> PGROUNDUP a" unfolding word_le_nat_alt u by linarith
  have "(unat a + 4095) div 4096 \<le> (2281701376 + 4095) div 4096" using le by (intro div_le_mono) simp
  then show "PGROUNDUP a \<le> PHYSTOP" unfolding word_le_nat_alt u unat_PHYSTOP by simp
  fix q :: u64 assume "pg_aligned q" "a \<le> q"
  then obtain k where "unat q = 4096 * k" "unat a \<le> 4096 * k"
    by (metis pg_alignedE word_le_nat_alt)
  then show "PGROUNDUP a \<le> q" unfolding word_le_nat_alt u by simp
qed

end
