(* ===== verification/Kalloc.thy ===== *)
theory Kalloc
  imports Kstring Riscv
begin

text \<open>
  The physical page allocator, kernel/kalloc.c. Free pages are linked through their first
  eight bytes (\<open>struct run\<close>), and every page has a reference count so that \<open>fork\<close> can share
  pages copy-on-write. \<open>kend\<close> is the linker symbol \<open>end\<close>. A body between \<open>acquire\<close> and
  \<open>release\<close> of \<open>kmem.lock\<close> is one atomic step; \<open>kfree\<close> has two such bodies, \<open>kfree_drop\<close> and
  \<open>kfree_push\<close>. An index of \<open>refcnt\<close> outside its \<open>PHYSTOP/PGSIZE\<close> entries is \<open>Undef\<close>.
\<close>

section \<open>State and operations\<close>

record kmem =
  freelist :: u64
  refcnt :: "nat \<Rightarrow> int"
  mem :: memory

definition NREF :: nat where
  "NREF = unat (PHYSTOP div PGSIZE)"

definition page_ok :: "u64 \<Rightarrow> u64 \<Rightarrow> bool" where
  "page_ok kend pa \<longleftrightarrow> pg_aligned pa \<and> kend \<le> pa \<and> pa < PHYSTOP"

definition kfree_drop :: "u64 \<Rightarrow> kmem \<Rightarrow> (int \<times> kmem) result" where
  "kfree_drop pa s =
     (let pn = unat (pa div PGSIZE) in
      if \<not> pn < NREF then Undef
      else if refcnt s pn < 1 then Panic ''kfree panic''
      else let s1 = s\<lparr>refcnt := (refcnt s)(pn := refcnt s pn - 1)\<rparr> in Ret (refcnt s1 pn, s1))"

definition kfree_push :: "u64 \<Rightarrow> kmem \<Rightarrow> kmem" where
  "kfree_push pa s = s\<lparr>mem := store64 (mem s) pa (freelist s), freelist := pa\<rparr>"

definition kfree :: "u64 \<Rightarrow> u64 \<Rightarrow> kmem \<Rightarrow> kmem result" where
  "kfree kend pa s =
     (if pa mod PGSIZE \<noteq> 0 \<or> pa < kend \<or> PHYSTOP \<le> pa then Panic ''kfree''
      else rbind (kfree_drop pa s) (\<lambda>(tmp, s).
        if tmp > 0 then Ret s
        else Ret (kfree_push pa (s\<lparr>mem := memset (mem s) pa 1 4096\<rparr>))))"

definition kalloc :: "kmem \<Rightarrow> (u64 \<times> kmem) result" where
  "kalloc s =
     (let r = freelist s in
      if r \<noteq> 0 then
        let pn = unat (r div PGSIZE) in
        if \<not> pn < NREF then Undef
        else if refcnt s pn \<noteq> 0 then Panic ''refcnt kalloc''
        else let s1 = s\<lparr>refcnt := (refcnt s)(pn := 1), freelist := load64 (mem s) r\<rparr> in
          Ret (r, s1\<lparr>mem := memset (mem s1) r 5 4096\<rparr>)
      else Ret (0, s))"

definition increse :: "u64 \<Rightarrow> kmem \<Rightarrow> kmem result" where
  "increse pa s =
     (let pn = unat (pa div PGSIZE) in
      if pa > PHYSTOP then Panic ''increase ref cnt''
      else if \<not> pn < NREF then Undef
      else if refcnt s pn < 1 then Panic ''increase ref cnt''
      else Ret (s\<lparr>refcnt := (refcnt s)(pn := refcnt s pn + 1)\<rparr>))"

lemma kfree_Ret_range: "kfree kend p s = Ret s' \<Longrightarrow> pg_aligned p \<and> p < PHYSTOP"
  by (auto simp: pg_aligned_def kfree_def split: if_splits)

function freerange_loop :: "u64 \<Rightarrow> u64 \<Rightarrow> u64 \<Rightarrow> kmem \<Rightarrow> kmem result" where
  "freerange_loop kend p pa_end s =
     (if p + PGSIZE \<le> pa_end then
        (let pn = unat (p div PGSIZE) in
         if \<not> pn < NREF then Undef
         else rbind (kfree kend p (s\<lparr>refcnt := (refcnt s)(pn := 1)\<rparr>)) (\<lambda>s'.
           freerange_loop kend (p + PGSIZE) pa_end s'))
      else Ret s)"
  by pat_completeness auto
termination
proof (relation "measure (\<lambda>(kend, p, pa_end, s). unat PHYSTOP - unat p)", simp)
  fix kend p pa_end s pn x
  assume "kfree kend p (s\<lparr>refcnt := (refcnt s)(pn := 1)\<rparr>) = Ret x"
  then have "p < PHYSTOP" using kfree_Ret_range by blast
  then have "unat p < 2281701376" by (simp add: word_less_nat_alt unat_PHYSTOP)
  moreover from this have "unat (p + PGSIZE) = unat p + 4096"
    by (simp add: unat_word_ariths unat_PGSIZE)
  ultimately show "((kend, p + PGSIZE, pa_end, x), (kend, p, pa_end, s)) \<in> measure (\<lambda>(kend, p, pa_end, s). unat PHYSTOP - unat p)"
    by (simp add: unat_PHYSTOP)
qed

declare freerange_loop.simps [simp del]

definition freerange :: "u64 \<Rightarrow> u64 \<Rightarrow> u64 \<Rightarrow> kmem \<Rightarrow> kmem result" where
  "freerange kend pa_start pa_end s = freerange_loop kend (PGROUNDUP pa_start) pa_end s"

definition kinit :: "u64 \<Rightarrow> kmem \<Rightarrow> kmem result" where
  "kinit kend s = freerange kend kend PHYSTOP s"

primrec run_list :: "memory \<Rightarrow> u64 \<Rightarrow> u64 list \<Rightarrow> bool" where
  "run_list m r [] \<longleftrightarrow> r = 0"
| "run_list m r (p # ps) \<longleftrightarrow> r = p \<and> r \<noteq> 0 \<and> run_list m (load64 m p) ps"

definition kmem_ok :: "u64 set \<Rightarrow> u64 list \<Rightarrow> kmem \<Rightarrow> bool" where
  "kmem_ok S fl s \<longleftrightarrow>
     run_list (mem s) (freelist s) fl \<and> distinct fl \<and>
     (\<forall>p \<in> S. pg_aligned p \<and> 0 < p \<and> p < PHYSTOP) \<and>
     set fl = {p \<in> S. refcnt s (page_index p) = 0} \<and>
     (\<forall>n. 0 \<le> refcnt s n)"

lemma NREF_val: "NREF = 557056"
  by (simp add: NREF_def unat_div_PGSIZE page_index_def unat_PHYSTOP)

lemma page_index_lt_NREF: "pa < PHYSTOP \<Longrightarrow> page_index pa < NREF"
  by (auto simp: page_index_def NREF_val word_less_nat_alt unat_PHYSTOP)

lemma run_list_cong:
  assumes "\<And>p x. p \<in> set fl \<Longrightarrow> page_index x = page_index p \<Longrightarrow> m x = m' x"
    and "\<And>p. p \<in> set fl \<Longrightarrow> pg_aligned p"
  shows "run_list m r fl = run_list m' r fl"
  using assms
proof (induction fl arbitrary: r)
  case (Cons p fl)
  have "load64 m p = load64 m' p" by (rule load64_page_cong) (use Cons.prems in auto)
  then show ?case using Cons by auto
qed simp

lemma memset_page:
  assumes "pg_aligned p"
  shows "memset m p c 4096 x = (if page_index x = page_index p then ucast c else m x)"
  by (simp add: memset_apply in_page_iff [OF assms])


lemma kmem_ok_aligned: "kmem_ok S fl s \<Longrightarrow> p \<in> S \<Longrightarrow> pg_aligned p \<and> 0 < p \<and> p < PHYSTOP"
  by (simp add: kmem_ok_def)

lemma kmem_ok_free: "kmem_ok S fl s \<Longrightarrow> p \<in> set fl \<longleftrightarrow> p \<in> S \<and> refcnt s (page_index p) = 0"
  by (auto simp: kmem_ok_def)

lemma kmem_ok_runs: "kmem_ok S fl s \<Longrightarrow> run_list (mem s) (freelist s) fl \<and> distinct fl"
  by (simp add: kmem_ok_def)

lemma kalloc_empty: "kmem_ok S [] s \<Longrightarrow> kalloc s = Ret (0, s)"
  by (simp add: kalloc_def kmem_ok_def)

lemma kalloc_cons:
  assumes ok: "kmem_ok S (p # fl) s"
  shows "\<exists>s'. kalloc s = Ret (p, s') \<and> kmem_ok S fl s' \<and> refcnt s' = (refcnt s)(page_index p := 1) \<and>
    (\<forall>x. mem s' x = (if page_index x = page_index p then 5 else mem s x))"
proof -
  have p: "p \<in> S" "refcnt s (page_index p) = 0" "pg_aligned p" "p < PHYSTOP" "0 < p"
    using kmem_ok_free [OF ok, of p] kmem_ok_aligned [OF ok, of p] by auto
  have r: "freelist s = p" "run_list (mem s) (load64 (mem s) p) fl" "p \<notin> set fl" "distinct fl"
    using kmem_ok_runs [OF ok] by auto
  let ?s = "s\<lparr>refcnt := (refcnt s)(page_index p := 1), freelist := load64 (mem s) p, mem := memset (mem s) p 5 4096\<rparr>"
  have "kalloc s = Ret (p, ?s)"
    using p r by (simp add: kalloc_def unat_div_PGSIZE page_index_lt_NREF Let_def word_neq_0_conv)
  moreover have m: "mem ?s x = (if page_index x = page_index p then 5 else mem s x)" for x
    by (simp add: memset_page [OF p(3)])
  moreover have "kmem_ok S fl ?s"
  proof -
    have al: "q \<in> S \<Longrightarrow> pg_aligned q" for q using kmem_ok_aligned [OF ok] by blast
    have sub: "q \<in> set fl \<Longrightarrow> q \<in> S" for q using kmem_ok_free [OF ok, of q] by simp
    have inj: "page_index q = page_index p \<longleftrightarrow> q = p" if "q \<in> S" for q
      using page_index_inj al that p by blast
    have "run_list (mem ?s) (load64 (mem s) p) fl = run_list (mem s) (load64 (mem s) p) fl"
    proof (rule run_list_cong)
      fix q x assume "q \<in> set fl" "page_index x = page_index q"
      then show "mem ?s x = mem s x" using m [of x] inj [of q] sub r by auto
    qed (use al sub in blast)
    moreover have "set fl = {q \<in> S. refcnt ?s (page_index q) = 0}"
      using kmem_ok_free [OF ok] inj r(3) by (auto split: if_splits)
    ultimately show ?thesis using ok r by (auto simp: kmem_ok_def)
  qed
  ultimately show ?thesis by auto
qed

lemma kfree_shared:
  assumes ok: "kmem_ok S fl s" and p: "p \<in> S" "page_ok kend p" "1 < refcnt s (page_index p)"
  shows "\<exists>s'. kfree kend p s = Ret s' \<and> kmem_ok S fl s' \<and>
    refcnt s' = (refcnt s)(page_index p := refcnt s (page_index p) - 1) \<and> mem s' = mem s"
proof -
  let ?s = "s\<lparr>refcnt := (refcnt s)(page_index p := refcnt s (page_index p) - 1)\<rparr>"
  have "kfree kend p s = Ret ?s"
    using p by (auto simp: kfree_def kfree_drop_def unat_div_PGSIZE page_index_lt_NREF Let_def page_ok_def pg_aligned_def)
  moreover have "kmem_ok S fl ?s"
    using ok p by (auto simp: kmem_ok_def)
  ultimately show ?thesis by auto
qed

lemma kfree_last:
  assumes ok: "kmem_ok S fl s" and p: "p \<in> S" "page_ok kend p" "refcnt s (page_index p) = 1"
  shows "\<exists>s'. kfree kend p s = Ret s' \<and> kmem_ok S (p # fl) s' \<and>
    refcnt s' = (refcnt s)(page_index p := 0) \<and>
    (\<forall>x. page_index x \<noteq> page_index p \<longrightarrow> mem s' x = mem s x)"
proof -
  have al: "q \<in> S \<Longrightarrow> pg_aligned q" for q using kmem_ok_aligned [OF ok] by blast
  have inj: "page_index q = page_index p \<longleftrightarrow> q = p" if "q \<in> S" for q
    using page_index_inj al that p by blast
  have nin: "p \<notin> set fl" using kmem_ok_free [OF ok, of p] p by simp
  let ?m = "store64 (memset (mem s) p 1 4096) p (freelist s)"
  let ?s = "s\<lparr>refcnt := (refcnt s)(page_index p := 0), mem := ?m, freelist := p\<rparr>"
  have "kfree kend p s = Ret ?s"
    using p by (auto simp: kfree_def kfree_drop_def kfree_push_def unat_div_PGSIZE page_index_lt_NREF Let_def page_ok_def pg_aligned_def)
  moreover have m: "mem ?s x = mem s x" if "page_index x \<noteq> page_index p" for x
    using that al p by (simp add: store64_page memset_page)
  moreover have "kmem_ok S (p # fl) ?s"
  proof -
    have "run_list ?m (freelist s) fl = run_list (mem s) (freelist s) fl"
    proof (rule run_list_cong)
      fix q x assume "q \<in> set fl" "page_index x = page_index q"
      then show "?m x = mem s x" using m [of x] inj [of q] kmem_ok_free [OF ok, of q] nin by auto
    qed (use al kmem_ok_free [OF ok] in blast)
    moreover have "set (p # fl) = {q \<in> S. refcnt ?s (page_index q) = 0}"
      using kmem_ok_free [OF ok] inj p by (auto split: if_splits)
    moreover have "0 < p" using kmem_ok_aligned [OF ok] p by blast
    ultimately show ?thesis using ok nin kmem_ok_runs [OF ok] by (auto simp: kmem_ok_def word_neq_0_conv)
  qed
  ultimately show ?thesis by auto
qed

lemma increse_ok:
  assumes ok: "kmem_ok S fl s" and p: "p \<in> S" "0 < refcnt s (page_index p)"
  shows "\<exists>s'. increse p s = Ret s' \<and> kmem_ok S fl s' \<and>
    refcnt s' = (refcnt s)(page_index p := refcnt s (page_index p) + 1) \<and> mem s' = mem s"
proof -
  let ?s = "s\<lparr>refcnt := (refcnt s)(page_index p := refcnt s (page_index p) + 1)\<rparr>"
  have "p < PHYSTOP" using kmem_ok_aligned [OF ok] p by blast
  then have "increse p s = Ret ?s"
    using p by (auto simp: increse_def unat_div_PGSIZE page_index_lt_NREF Let_def not_less)
  moreover have "kmem_ok S fl ?s"
    using ok p by (auto simp: kmem_ok_def)
  ultimately show ?thesis by auto
qed


lemma kmem_ok_add:
  assumes ok: "kmem_ok S fl s" and p: "p \<notin> S" "pg_aligned p" "0 < p" "p < PHYSTOP"
  shows "kmem_ok (insert p S) fl (s\<lparr>refcnt := (refcnt s)(page_index p := 1)\<rparr>)"
proof -
  have "page_index q = page_index p \<longleftrightarrow> q = p" if "q \<in> S" for q
    using page_index_inj kmem_ok_aligned [OF ok] that p by blast
  then show ?thesis using ok p by (auto simp: kmem_ok_def split: if_splits)
qed

lemma freerange_loop_ok:
  assumes "kmem_ok {q. page_ok kend q \<and> q < p} fl s" and "set fl = {q. page_ok kend q \<and> q < p}"
    and "pg_aligned p" "0 < kend" "kend \<le> p" "p \<le> PHYSTOP"
  shows "\<exists>fl' s'. freerange_loop kend p PHYSTOP s = Ret s' \<and> kmem_ok {q. page_ok kend q} fl' s' \<and>
    set fl' = {q. page_ok kend q}"
  using assms
proof (induction "unat PHYSTOP - unat p" arbitrary: p s fl rule: less_induct)
  case less
  show ?case
  proof (cases "p = PHYSTOP")
    case True
    have "\<not> PHYSTOP + PGSIZE \<le> PHYSTOP" by (simp add: PHYSTOP_def KERNBASE_def PGSIZE_def)
    moreover have "{q. page_ok kend q \<and> q < PHYSTOP} = {q. page_ok kend q}" by (auto simp: page_ok_def)
    ultimately show ?thesis using less.prems True by (auto simp: freerange_loop.simps)
  next
    case False
    with less.prems have lt: "p < PHYSTOP" by simp
    note st = page_step [OF less.prems(3) lt] and below = page_below_step [OF less.prems(3) lt]
    have okp: "page_ok kend p" using less.prems lt by (simp add: page_ok_def)
    have p0: "0 < p" using less.prems by (metis order_less_le_trans)
    let ?S = "{q. page_ok kend q \<and> q < p}"
    let ?s = "s\<lparr>refcnt := (refcnt s)(page_index p := 1)\<rparr>"
    have "kmem_ok (insert p ?S) fl ?s"
      using less.prems p0 lt by (intro kmem_ok_add) auto
    then obtain s' where s': "kfree kend p ?s = Ret s'" "kmem_ok (insert p ?S) (p # fl) s'"
      using kfree_last [of "insert p ?S" fl ?s p kend] okp by auto
    have S: "insert p ?S = {q. page_ok kend q \<and> q < p + PGSIZE}"
      using below okp by (auto simp: page_ok_def)
    have "\<exists>fl' s''. freerange_loop kend (p + PGSIZE) PHYSTOP s' = Ret s'' \<and>
        kmem_ok {q. page_ok kend q} fl' s'' \<and> set fl' = {q. page_ok kend q}"
    proof (rule less.hyps)
      show "unat PHYSTOP - unat (p + PGSIZE) < unat PHYSTOP - unat p"
        using st lt by (simp add: word_less_nat_alt)
      show "kmem_ok {q. page_ok kend q \<and> q < p + PGSIZE} (p # fl) s'" using s' S by simp
      show "set (p # fl) = {q. page_ok kend q \<and> q < p + PGSIZE}" using less.prems(2) S by simp
      show "kend \<le> p + PGSIZE"
        using less.prems(5) st(1) by (simp add: word_le_nat_alt)
    qed (use st less.prems in auto)
    then show ?thesis
      using st lt s' by (subst freerange_loop.simps) (auto simp: unat_div_PGSIZE page_index_lt_NREF Let_def)
  qed
qed

lemma kinit_ok:
  assumes "0 < kend" "kend \<le> PHYSTOP" "freelist s = 0" "refcnt s = (\<lambda>_. 0)"
  shows "\<exists>fl s'. kinit kend s = Ret s' \<and> kmem_ok {q. page_ok kend q} fl s' \<and> set fl = {q. page_ok kend q}"
proof -
  note up = PGROUNDUP_props [OF assms(2)]
  have "{q. page_ok kend q \<and> q < PGROUNDUP kend} = {}"
    using up(4) by (auto simp: page_ok_def not_less [symmetric])
  then have "kmem_ok {q. page_ok kend q \<and> q < PGROUNDUP kend} [] s"
      "set [] = {q. page_ok kend q \<and> q < PGROUNDUP kend}"
    using assms by (auto simp: kmem_ok_def)
  then show ?thesis unfolding kinit_def freerange_def
    using up(1) assms(1) up(2,3) by (rule freerange_loop_ok)
qed


definition kmem_inv :: "u64 \<Rightarrow> kmem \<Rightarrow> bool" where
  "kmem_inv kend s \<longleftrightarrow> (\<exists>fl. kmem_ok {p. page_ok kend p} fl s)"

lemma kalloc_law:
  assumes "kmem_inv kend s"
  shows "\<exists>p s'. kalloc s = Ret (p, s') \<and> kmem_inv kend s' \<and>
    (if p = 0 then s' = s \<and> (\<forall>q. page_ok kend q \<longrightarrow> 0 < refcnt s (page_index q))
     else page_ok kend p \<and> refcnt s (page_index p) = 0 \<and>
       refcnt s' = (refcnt s)(page_index p := 1) \<and>
       (\<forall>x. mem s' x = (if page_index x = page_index p then 5 else mem s x)))"
proof -
  obtain fl where fl: "kmem_ok {p. page_ok kend p} fl s" using assms by (auto simp: kmem_inv_def)
  show ?thesis
  proof (cases fl)
    case Nil
    have "0 < refcnt s (page_index q)" if "page_ok kend q" for q
      using fl that kmem_ok_free [OF fl, of q] Nil by (simp add: kmem_ok_def order_less_le)
    then show ?thesis using fl Nil kalloc_empty assms by fastforce
  next
    case (Cons p fl')
    obtain s' where s': "kalloc s = Ret (p, s')" "kmem_ok {p. page_ok kend p} fl' s'"
        "refcnt s' = (refcnt s)(page_index p := 1)"
        "\<forall>x. mem s' x = (if page_index x = page_index p then 5 else mem s x)"
      using kalloc_cons fl Cons by blast
    have "page_ok kend p" "refcnt s (page_index p) = 0" "p \<noteq> 0"
      using kmem_ok_free [OF fl, of p] kmem_ok_aligned [OF fl, of p] Cons by auto
    then show ?thesis using s' by (auto simp: kmem_inv_def)
  qed
qed

lemma kfree_law:
  assumes "kmem_inv kend s" "page_ok kend p" "0 < refcnt s (page_index p)"
  shows "\<exists>s'. kfree kend p s = Ret s' \<and> kmem_inv kend s' \<and>
    refcnt s' = (refcnt s)(page_index p := refcnt s (page_index p) - 1) \<and>
    (\<forall>x. 1 < refcnt s (page_index p) \<or> page_index x \<noteq> page_index p \<longrightarrow> mem s' x = mem s x)"
proof -
  obtain fl where fl: "kmem_ok {p. page_ok kend p} fl s" using assms by (auto simp: kmem_inv_def)
  consider "refcnt s (page_index p) = 1" | "1 < refcnt s (page_index p)" using assms(3) by linarith
  then show ?thesis
  proof cases
    case 1
    then show ?thesis using kfree_last [OF fl, of p kend] assms(2) by (auto simp: kmem_inv_def)
  next
    case 2
    then show ?thesis using kfree_shared [OF fl, of p kend] assms(2) by (auto simp: kmem_inv_def)
  qed
qed

lemma increse_law:
  assumes "kmem_inv kend s" "page_ok kend p" "0 < refcnt s (page_index p)"
  shows "\<exists>s'. increse p s = Ret s' \<and> kmem_inv kend s' \<and>
    refcnt s' = (refcnt s)(page_index p := refcnt s (page_index p) + 1) \<and> mem s' = mem s"
  using assms increse_ok by (auto simp: kmem_inv_def) blast

locale page_allocator =
  fixes inv :: "'s \<Rightarrow> bool"
    and managed :: "u64 \<Rightarrow> bool"
    and refs :: "'s \<Rightarrow> nat \<Rightarrow> int"
    and bytes :: "'s \<Rightarrow> memory"
    and alloc :: "'s \<Rightarrow> (u64 \<times> 's) result"
    and free :: "u64 \<Rightarrow> 's \<Rightarrow> 's result"
    and share :: "u64 \<Rightarrow> 's \<Rightarrow> 's result"
  assumes managed_aligned: "managed p \<Longrightarrow> pg_aligned p \<and> p < PHYSTOP"
    and alloc_law: "inv s \<Longrightarrow> \<exists>p s'. alloc s = Ret (p, s') \<and> inv s' \<and>
      (if p = 0 then s' = s \<and> (\<forall>q. managed q \<longrightarrow> 0 < refs s (page_index q))
       else managed p \<and> refs s (page_index p) = 0 \<and> refs s' = (refs s)(page_index p := 1) \<and>
         (\<forall>x. page_index x \<noteq> page_index p \<longrightarrow> bytes s' x = bytes s x))"
    and free_law: "inv s \<Longrightarrow> managed p \<Longrightarrow> 0 < refs s (page_index p) \<Longrightarrow>
      \<exists>s'. free p s = Ret s' \<and> inv s' \<and>
        refs s' = (refs s)(page_index p := refs s (page_index p) - 1) \<and>
        (\<forall>x. 1 < refs s (page_index p) \<or> page_index x \<noteq> page_index p \<longrightarrow> bytes s' x = bytes s x)"
    and share_law: "inv s \<Longrightarrow> managed p \<Longrightarrow> 0 < refs s (page_index p) \<Longrightarrow>
      \<exists>s'. share p s = Ret s' \<and> inv s' \<and>
        refs s' = (refs s)(page_index p := refs s (page_index p) + 1) \<and> bytes s' = bytes s"
begin

lemma alloc_fresh:
  assumes "inv s" "alloc s = Ret (p, s')" "p \<noteq> 0" "0 < refs s (page_index q)"
  shows "page_index p \<noteq> page_index q" "refs s' (page_index q) = refs s (page_index q)"
    "\<And>x. page_index x = page_index q \<Longrightarrow> bytes s' x = bytes s x"
  using alloc_law [OF assms(1)] assms(2-4) by (auto, metis less_irrefl)

lemma alloc_then_free:
  assumes "inv s" "alloc s = Ret (p, s')" "p \<noteq> 0"
  shows "\<exists>s''. free p s' = Ret s'' \<and> inv s'' \<and> refs s'' = refs s"
proof -
  have p: "inv s'" "managed p" "refs s (page_index p) = 0" "refs s' = (refs s)(page_index p := 1)"
    using alloc_law [OF assms(1)] assms(2,3) by auto
  then obtain s'' where "free p s' = Ret s''" "inv s''" "refs s'' = (refs s')(page_index p := 0)"
    using free_law [of s' p] by auto
  with p show ?thesis by (auto simp: fun_eq_iff)
qed

lemma share_then_free:
  assumes "inv s" "managed p" "0 < refs s (page_index p)"
  shows "\<exists>s' s''. share p s = Ret s' \<and> free p s' = Ret s'' \<and> inv s'' \<and> refs s'' = refs s \<and> bytes s'' = bytes s"
proof -
  obtain s' where s': "share p s = Ret s'" "inv s'"
      "refs s' = (refs s)(page_index p := refs s (page_index p) + 1)" "bytes s' = bytes s"
    using share_law [OF assms] by blast
  then obtain s'' where "free p s' = Ret s''" "inv s''"
      "refs s'' = (refs s')(page_index p := refs s (page_index p))" "\<forall>x. bytes s'' x = bytes s' x"
    using free_law [of s' p] assms by auto
  with s' show ?thesis by (auto simp: fun_eq_iff)
qed

end

interpretation kpool: page_allocator "kmem_inv kend" "page_ok kend" refcnt mem kalloc "kfree kend" increse
  for kend
proof unfold_locales
  fix s assume "kmem_inv kend s"
  then show "\<exists>p s'. kalloc s = Ret (p, s') \<and> kmem_inv kend s' \<and>
      (if p = 0 then s' = s \<and> (\<forall>q. page_ok kend q \<longrightarrow> 0 < refcnt s (page_index q))
       else page_ok kend p \<and> refcnt s (page_index p) = 0 \<and> refcnt s' = (refcnt s)(page_index p := 1) \<and>
         (\<forall>x. page_index x \<noteq> page_index p \<longrightarrow> mem s' x = mem s x))"
    using kalloc_law [of kend s] by (auto split: if_splits)
qed (auto simp: page_ok_def dest: kfree_law increse_law)

inductive kmem_reach :: "u64 \<Rightarrow> kmem \<Rightarrow> bool" for kend where
  boot: "freelist s = 0 \<Longrightarrow> refcnt s = (\<lambda>_. 0) \<Longrightarrow> kinit kend s = Ret s' \<Longrightarrow> kmem_reach kend s'"
| alloc: "kmem_reach kend s \<Longrightarrow> kalloc s = Ret (p, s') \<Longrightarrow> kmem_reach kend s'"
| free: "kmem_reach kend s \<Longrightarrow> kfree kend p s = Ret s' \<Longrightarrow> kmem_reach kend s'"
| share: "kmem_reach kend s \<Longrightarrow> increse p s = Ret s' \<Longrightarrow> page_ok kend p \<Longrightarrow> kmem_reach kend s'"
| store: "kmem_reach kend s \<Longrightarrow> page_ok kend p \<Longrightarrow> 0 < refcnt s (page_index p) \<Longrightarrow> page_index x = page_index p \<Longrightarrow>
    kmem_reach kend (s\<lparr>mem := (mem s)(x := v)\<rparr>)"


lemma kfree_Ret_iff:
  assumes "kmem_inv kend s" "kfree kend p s = Ret s'"
  shows "page_ok kend p \<and> 0 < refcnt s (page_index p)"
  using assms(2) by (auto simp: kfree_def kfree_drop_def page_ok_def pg_aligned_def unat_div_PGSIZE
      Let_def not_less not_le split: if_splits)

lemma increse_Ret_iff: "increse p s = Ret s' \<Longrightarrow> 0 < refcnt s (page_index p)"
  by (auto simp: increse_def unat_div_PGSIZE Let_def split: if_splits)

lemma kmem_inv_store:
  assumes inv: "kmem_inv kend s" and p: "page_ok kend p" "0 < refcnt s (page_index p)"
    and x: "page_index x = page_index p"
  shows "kmem_inv kend (s\<lparr>mem := (mem s)(x := v)\<rparr>)"
proof -
  obtain fl where ok: "kmem_ok {p. page_ok kend p} fl s" using inv by (auto simp: kmem_inv_def)
  have "run_list ((mem s)(x := v)) (freelist s) fl = run_list (mem s) (freelist s) fl"
  proof (rule run_list_cong)
    fix q y assume q: "q \<in> set fl" "page_index y = page_index q"
    then have "refcnt s (page_index q) = 0" using kmem_ok_free [OF ok] by blast
    then show "((mem s)(x := v)) y = mem s y" using p x q by auto
  qed (use kmem_ok_free [OF ok] kmem_ok_aligned [OF ok] in blast)
  then have "kmem_ok {p. page_ok kend p} fl (s\<lparr>mem := (mem s)(x := v)\<rparr>)"
    using ok by (simp add: kmem_ok_def)
  then show ?thesis by (auto simp: kmem_inv_def)
qed

lemma kmem_reach_inv:
  assumes "0 < kend" "kend \<le> PHYSTOP" "kmem_reach kend s"
  shows "kmem_inv kend s"
  using assms(3)
proof (induction rule: kmem_reach.induct)
  case (boot s s')
  then show ?case using kinit_ok [OF assms(1,2) boot(1,2)] by (auto simp: kmem_inv_def)
next
  case (alloc s p s')
  then show ?case using kalloc_law [of kend s] by auto
next
  case (free s p s')
  then show ?case using kfree_law [of kend s p] kfree_Ret_iff [of kend s p s'] by auto
next
  case (share s p s')
  then show ?case using increse_law [of kend s p] increse_Ret_iff [of p s s'] by auto
next
  case (store s p x v)
  then show ?case using kmem_inv_store by blast
qed


lemma page_ok_last: "page_ok 0x87fff000 p \<longleftrightarrow> p = 0x87fff000"
proof
  assume ok: "page_ok 0x87fff000 p"
  then obtain k where k: "unat p = 4096 * k" by (auto simp: page_ok_def elim: pg_alignedE)
  have "2281697280 \<le> unat p" "unat p < 2281701376"
    using ok by (simp_all add: page_ok_def word_le_nat_alt word_less_nat_alt unat_PHYSTOP)
  then have "unat p = 2281697280" using k by simp
  then show "p = 0x87fff000" by (simp add: word_unat_eq_iff)
qed (simp add: page_ok_def pg_aligned_unat PHYSTOP_def KERNBASE_def)

definition kmem_one :: kmem where
  "kmem_one = \<lparr>freelist = 0x87fff000, refcnt = (\<lambda>_. 0), mem = (\<lambda>_. 0)\<rparr>"

lemma load64_zero: "load64 (\<lambda>_. 0) a = 0"
  by (simp add: load64_def numeral_eq_Suc)

lemma kmem_one_inv: "kmem_inv 0x87fff000 kmem_one"
proof -
  have "kmem_ok {p. page_ok 0x87fff000 p} [0x87fff000] kmem_one"
    by (simp add: kmem_ok_def kmem_one_def page_ok_last load64_zero pg_aligned_unat PHYSTOP_def KERNBASE_def)
  then show ?thesis by (auto simp: kmem_inv_def)
qed

section \<open>Properties\<close>

text \<open>
  Boot establishes the allocator: from the zeroed \<open>kmem\<close> and \<open>refcnt\<close> of the kernel image,
  \<open>kinit\<close> returns (no panic, no index out of range) in a state whose free list is duplicate
  free and holds exactly the page-aligned addresses between \<open>end\<close> and \<open>PHYSTOP\<close>.
\<close>

theorem kinit_frees_all:
  assumes "0 < kend" "kend \<le> PHYSTOP" "freelist s = 0" "refcnt s = (\<lambda>_. 0)"
  shows "\<exists>fl s'. kinit kend s = Ret s' \<and> run_list (mem s') (freelist s') fl \<and> distinct fl \<and>
    set fl = {p. page_ok kend p} \<and> (\<forall>p. page_ok kend p \<longrightarrow> refcnt s' (page_index p) = 0)"
proof -
  obtain fl s' where s': "kinit kend s = Ret s'" "kmem_ok {q. page_ok kend q} fl s'" "set fl = {q. page_ok kend q}"
    using kinit_ok [OF assms] by blast
  then show ?thesis using kmem_ok_runs [OF s'(2)] kmem_ok_free [OF s'(2)] by auto
qed

theorem kinit_frees_all_witness:
  "\<exists>fl s'. kinit 0x87fff000 \<lparr>freelist = 0, refcnt = (\<lambda>_. 0), mem = (\<lambda>_. 0)\<rparr> = Ret s' \<and>
    run_list (mem s') (freelist s') fl \<and> distinct fl \<and> set fl = {0x87fff000}"
  using kinit_frees_all [of "0x87fff000" "\<lparr>freelist = 0, refcnt = (\<lambda>_. 0), mem = (\<lambda>_. 0)\<rparr>"]
  by (auto simp: page_ok_last PHYSTOP_def KERNBASE_def)

text \<open>
  C13. In every state reached from boot by allocating, freeing, sharing and writing pages that
  are in use, \<open>kalloc\<close> returns: 0 and no change when every managed page is referenced, and
  otherwise a managed page that nobody references, whose count becomes 1, with every byte
  outside the page unchanged. It never panics and never hands out a page twice.
\<close>

theorem kalloc_fresh_page:
  assumes "0 < kend" "kend \<le> PHYSTOP" "kmem_reach kend s"
  shows "\<exists>p s'. kalloc s = Ret (p, s') \<and>
    (if p = 0 then s' = s \<and> (\<forall>q. page_ok kend q \<longrightarrow> 0 < refcnt s (page_index q))
     else page_ok kend p \<and> refcnt s (page_index p) = 0 \<and>
       refcnt s' = (refcnt s)(page_index p := 1) \<and>
       (\<forall>x. mem s' x = (if page_index x = page_index p then 5 else mem s x)))"
  using kalloc_law [OF kmem_reach_inv [OF assms]] by blast

theorem kalloc_fresh_page_witness:
  "\<exists>s p s'. kmem_reach 0x87fff000 s \<and> kalloc s = Ret (p, s') \<and> p = 0x87fff000"
proof -
  let ?s = "\<lparr>freelist = 0, refcnt = (\<lambda>_. 0), mem = (\<lambda>_. 0)\<rparr>"
  have k: "0 < (0x87fff000 :: u64)" "0x87fff000 \<le> PHYSTOP" by (simp_all add: PHYSTOP_def KERNBASE_def)
  obtain fl s where s: "kinit 0x87fff000 ?s = Ret s" "kmem_ok {q. page_ok 0x87fff000 q} fl s"
      "set fl = {q. page_ok 0x87fff000 q}"
    using kinit_ok [OF k, of ?s] by auto
  have r: "kmem_reach 0x87fff000 s" using s(1) by (intro kmem_reach.boot) auto
  have "refcnt s (page_index 0x87fff000) = 0"
    using kmem_ok_free [OF s(2), of "0x87fff000"] s(3) by (simp add: page_ok_last)
  then show ?thesis using kalloc_fresh_page [OF k r] r
    by (auto simp: page_ok_last split: if_splits)
qed

text \<open>
  C29. Dropping a reference: on a page in use \<open>kfree\<close> returns with the page's count one lower
  and every other count unchanged, keeps the allocator invariant, and leaves the contents of
  all other pages alone; the page's own contents survive as long as another reference remains,
  which is what copy-on-write sharing relies on.
\<close>

theorem kfree_drops_reference:
  assumes "kmem_inv kend s" "page_ok kend p" "0 < refcnt s (page_index p)"
  shows "\<exists>s'. kfree kend p s = Ret s' \<and> kmem_inv kend s' \<and>
    refcnt s' = (refcnt s)(page_index p := refcnt s (page_index p) - 1) \<and>
    (\<forall>x. 1 < refcnt s (page_index p) \<or> page_index x \<noteq> page_index p \<longrightarrow> mem s' x = mem s x)"
  using kpool.free_law [OF assms] by blast

theorem kfree_drops_reference_witness:
  "\<exists>p s s'. kalloc kmem_one = Ret (p, s) \<and> kfree 0x87fff000 p s = Ret s' \<and> kmem_inv 0x87fff000 s' \<and>
    refcnt s' (page_index p) = 0"
proof -
  obtain p s where s: "kalloc kmem_one = Ret (p, s)" "kmem_inv 0x87fff000 s" "page_ok 0x87fff000 p"
      "refcnt s (page_index p) = 1"
    using kalloc_law [OF kmem_one_inv] by (auto simp: page_ok_last kmem_one_def split: if_splits)
  then show ?thesis using kfree_drops_reference [of "0x87fff000" s p] by auto
qed



end
