(* ===== verification/Vm.thy ===== *)
theory Vm
  imports Kalloc
begin

text \<open>
  Sv39 page tables, kernel/vm.c, with the copy-on-write fault handler \<open>cowfault\<close> of
  kernel/trap.c that \<open>copyout\<close> calls. Page-table pages live in the byte-addressed memory of
  the allocator state, so \<open>walk\<close> reads and writes real page-table entries. Kernel buffers on
  the other side of \<open>copyin\<close>, \<open>copyout\<close> and \<open>copyinstr\<close> are byte lists: the source of a copy
  out, and the bytes written so far for a copy in. A C \<open>int\<close> result is an \<open>int\<close>.
\<close>

section \<open>Walking and mapping\<close>

primrec walk_level :: "nat \<Rightarrow> u64 \<Rightarrow> u64 \<Rightarrow> bool \<Rightarrow> kmem \<Rightarrow> (u64 \<times> kmem) result" where
  "walk_level 0 pagetable va alloc s = Ret (pagetable + 8 * PX 0 va, s)"
| "walk_level (Suc level) pagetable va alloc s =
     (let pte = pagetable + 8 * PX (Suc level) va in
      if load64 (mem s) pte AND PTE_V \<noteq> 0
      then walk_level level (PTE2PA (load64 (mem s) pte)) va alloc s
      else if \<not> alloc then Ret (0, s)
      else rbind (kalloc s) (\<lambda>(pagetable', s).
        if pagetable' = 0 then Ret (0, s)
        else let s = s\<lparr>mem := memset (mem s) pagetable' 0 4096\<rparr>;
                 s = s\<lparr>mem := store64 (mem s) pte (PA2PTE pagetable' OR PTE_V)\<rparr>
          in walk_level level pagetable' va alloc s))"

definition walk :: "u64 \<Rightarrow> u64 \<Rightarrow> bool \<Rightarrow> kmem \<Rightarrow> (u64 \<times> kmem) result" where
  "walk pagetable va alloc s =
     (if va \<ge> MAXVA then Panic ''walk'' else walk_level 2 pagetable va alloc s)"

definition walkaddr :: "u64 \<Rightarrow> u64 \<Rightarrow> kmem \<Rightarrow> u64 result" where
  "walkaddr pagetable va s =
     (if va \<ge> MAXVA then Ret 0
      else rbind (walk pagetable va False s) (\<lambda>(pte, s).
        if pte = 0 then Ret 0
        else if load64 (mem s) pte AND PTE_V = 0 then Ret 0
        else if load64 (mem s) pte AND PTE_U = 0 then Ret 0
        else Ret (PTE2PA (load64 (mem s) pte))))"

lemma walk_Ret_MAXVA: "walk pagetable va alloc s = Ret r \<Longrightarrow> va < MAXVA"
  by (auto simp: walk_def split: if_splits)

lemma unat_MAXVA: "unat MAXVA = 2 ^ 38"
  by (simp add: MAXVA_def push_bit_eq_mult)

lemma below_MAXVA_step:
  "a < MAXVA \<Longrightarrow> unat (a + PGSIZE) = unat a + 4096 \<and> unat MAXVA - unat (a + PGSIZE) < unat MAXVA - unat a"
  by (auto simp: word_less_nat_alt unat_MAXVA unat_word_ariths)

function mappages_loop ::
  "u64 \<Rightarrow> u64 \<Rightarrow> u64 \<Rightarrow> u64 \<Rightarrow> u64 \<Rightarrow> kmem \<Rightarrow> (int \<times> kmem) result" where
  "mappages_loop pagetable a lst pa perm s =
     rbind (walk pagetable a True s) (\<lambda>(pte, s).
       if pte = 0 then Ret (- 1, s)
       else if load64 (mem s) pte AND PTE_V \<noteq> 0 then Panic ''mappages: remap''
       else let s = s\<lparr>mem := store64 (mem s) pte (PA2PTE pa OR perm OR PTE_V)\<rparr> in
         if a = lst then Ret (0, s)
         else mappages_loop pagetable (a + PGSIZE) lst (pa + PGSIZE) perm s)"
  by pat_completeness auto
termination
  by (relation "measure (\<lambda>(pagetable, a, lst, pa, perm, s). unat MAXVA - unat a)")
     (auto dest: walk_Ret_MAXVA below_MAXVA_step)

declare mappages_loop.simps [simp del]

definition mappages :: "u64 \<Rightarrow> u64 \<Rightarrow> u64 \<Rightarrow> u64 \<Rightarrow> u64 \<Rightarrow> kmem \<Rightarrow> (int \<times> kmem) result" where
  "mappages pagetable va sz pa perm s =
     (if sz = 0 then Panic ''mappages: size''
      else mappages_loop pagetable (PGROUNDDOWN va) (PGROUNDDOWN (va + sz - 1)) pa perm s)"

definition kvmmap :: "u64 \<Rightarrow> u64 \<Rightarrow> u64 \<Rightarrow> u64 \<Rightarrow> u64 \<Rightarrow> kmem \<Rightarrow> kmem result" where
  "kvmmap kpgtbl va pa sz perm s =
     rbind (mappages kpgtbl va sz pa perm s) (\<lambda>(r, s).
       if r \<noteq> 0 then Panic ''kvmmap'' else Ret s)"

function uvmunmap_loop :: "u64 \<Rightarrow> u64 \<Rightarrow> u64 \<Rightarrow> u64 \<Rightarrow> bool \<Rightarrow> kmem \<Rightarrow> kmem result" where
  "uvmunmap_loop kend pagetable a stop do_free s =
     (if a < stop then
        rbind (walk pagetable a False s) (\<lambda>(pte, s).
          if pte = 0 then Panic ''uvmunmap: walk''
          else if load64 (mem s) pte AND PTE_V = 0 then Panic ''uvmunmap: not mapped''
          else if PTE_FLAGS (load64 (mem s) pte) = PTE_V then Panic ''uvmunmap: not a leaf''
          else rbind (if do_free then kfree kend (PTE2PA (load64 (mem s) pte)) s else Ret s) (\<lambda>s.
            uvmunmap_loop kend pagetable (a + PGSIZE) stop do_free
              (s\<lparr>mem := store64 (mem s) pte 0\<rparr>)))
      else Ret s)"
  by pat_completeness auto
termination
  by (relation "measure (\<lambda>(kend, pagetable, a, stop, do_free, s). unat MAXVA - unat a)")
     (auto dest: walk_Ret_MAXVA below_MAXVA_step)

declare uvmunmap_loop.simps [simp del]

definition uvmunmap :: "u64 \<Rightarrow> u64 \<Rightarrow> u64 \<Rightarrow> u64 \<Rightarrow> bool \<Rightarrow> kmem \<Rightarrow> kmem result" where
  "uvmunmap kend pagetable va npages do_free s =
     (if va mod PGSIZE \<noteq> 0 then Panic ''uvmunmap: not aligned''
      else uvmunmap_loop kend pagetable va (va + npages * PGSIZE) do_free s)"

definition uvmcreate :: "kmem \<Rightarrow> (u64 \<times> kmem) result" where
  "uvmcreate s =
     rbind (kalloc s) (\<lambda>(pagetable, s).
       if pagetable = 0 then Ret (0, s)
       else Ret (pagetable, s\<lparr>mem := memset (mem s) pagetable 0 4096\<rparr>))"

definition uvmdealloc :: "u64 \<Rightarrow> u64 \<Rightarrow> u64 \<Rightarrow> u64 \<Rightarrow> kmem \<Rightarrow> (u64 \<times> kmem) result" where
  "uvmdealloc kend pagetable oldsz newsz s =
     (if newsz \<ge> oldsz then Ret (oldsz, s)
      else rbind
        (if PGROUNDUP newsz < PGROUNDUP oldsz
         then uvmunmap kend pagetable (PGROUNDUP newsz)
                (scast (ucast ((PGROUNDUP oldsz - PGROUNDUP newsz) div PGSIZE) :: u32)) True s
         else Ret s)
        (\<lambda>s. Ret (newsz, s)))"


lemma mappages_loop_Ret: "mappages_loop pagetable a lst pa perm s = Ret r \<Longrightarrow> a < MAXVA"
  by (subst (asm) mappages_loop.simps) (auto simp: result_simps dest: walk_Ret_MAXVA)

lemma PGROUNDDOWN_below_MAXVA: "PGROUNDDOWN a < MAXVA \<Longrightarrow> a < MAXVA"
proof -
  assume "PGROUNDDOWN a < MAXVA"
  then have "unat a div 4096 < 2 ^ 26"
    by (simp add: word_less_nat_alt unat_MAXVA unat_PGROUNDDOWN minus_mod_eq_mult_div)
  then show ?thesis
    by (simp add: word_less_nat_alt unat_MAXVA div_less_iff_less_mult)
qed

lemma mappages_Ret: "mappages pagetable va sz pa perm s = Ret r \<Longrightarrow> va < MAXVA"
  by (auto simp: mappages_def split: if_splits dest: mappages_loop_Ret PGROUNDDOWN_below_MAXVA)

function uvmalloc_loop ::
  "u64 \<Rightarrow> u64 \<Rightarrow> u64 \<Rightarrow> u64 \<Rightarrow> u64 \<Rightarrow> u64 \<Rightarrow> kmem \<Rightarrow> (u64 \<times> kmem) result" where
  "uvmalloc_loop kend pagetable oldsz a newsz xperm s =
     (if a < newsz then
        rbind (kalloc s) (\<lambda>(mm, s).
          if mm = 0 then
            rbind (uvmdealloc kend pagetable a oldsz s) (\<lambda>(_, s). Ret (0, s))
          else rbind (mappages pagetable a PGSIZE mm (PTE_R OR PTE_U OR xperm)
                       (s\<lparr>mem := memset (mem s) mm 0 4096\<rparr>)) (\<lambda>(r, s).
            if r \<noteq> 0 then
              rbind (kfree kend mm s) (\<lambda>s.
              rbind (uvmdealloc kend pagetable a oldsz s) (\<lambda>(_, s). Ret (0, s)))
            else uvmalloc_loop kend pagetable oldsz (a + PGSIZE) newsz xperm s))
      else Ret (newsz, s))"
  by pat_completeness auto
termination
  by (relation "measure (\<lambda>(kend, pagetable, oldsz, a, newsz, xperm, s). unat MAXVA - unat a)")
     (auto dest: mappages_Ret below_MAXVA_step)

declare uvmalloc_loop.simps [simp del]

definition uvmalloc :: "u64 \<Rightarrow> u64 \<Rightarrow> u64 \<Rightarrow> u64 \<Rightarrow> u64 \<Rightarrow> kmem \<Rightarrow> (u64 \<times> kmem) result" where
  "uvmalloc kend pagetable oldsz newsz xperm s =
     (if newsz < oldsz then Ret (oldsz, s)
      else uvmalloc_loop kend pagetable (PGROUNDUP oldsz) (PGROUNDUP oldsz) newsz xperm s)"

definition uvmfirst :: "u64 \<Rightarrow> u8 list \<Rightarrow> kmem \<Rightarrow> kmem result" where
  "uvmfirst pagetable src s =
     (if length src \<ge> 4096 then Panic ''uvmfirst: more than a page''
      else rbind (kalloc s) (\<lambda>(mm, s).
        if mm = 0 then Undef
        else rbind (mappages pagetable 0 PGSIZE mm (PTE_W OR PTE_R OR PTE_X OR PTE_U)
                     (s\<lparr>mem := memset (mem s) mm 0 4096\<rparr>)) (\<lambda>(_, s).
          Ret (s\<lparr>mem := write_bytes (mem s) mm src\<rparr>))))"

primrec freewalk_entries ::
  "(u64 \<Rightarrow> kmem \<Rightarrow> kmem result) \<Rightarrow> u64 \<Rightarrow> nat list \<Rightarrow> kmem \<Rightarrow> kmem result" where
  "freewalk_entries free_child pagetable [] s = Ret s"
| "freewalk_entries free_child pagetable (i # is) s =
     (let pte = load64 (mem s) (pagetable + 8 * of_nat i) in
      if pte AND PTE_V \<noteq> 0 \<and> pte AND (PTE_R OR PTE_W OR PTE_X) = 0 then
        rbind (free_child (PTE2PA pte) s) (\<lambda>s.
          freewalk_entries free_child pagetable is
            (s\<lparr>mem := store64 (mem s) (pagetable + 8 * of_nat i) 0\<rparr>))
      else if pte AND PTE_V \<noteq> 0 then Panic ''freewalk: leaf''
      else freewalk_entries free_child pagetable is s)"

primrec freewalk_depth :: "nat \<Rightarrow> u64 \<Rightarrow> u64 \<Rightarrow> kmem \<Rightarrow> kmem result" where
  "freewalk_depth 0 kend pagetable s = Undef"
| "freewalk_depth (Suc d) kend pagetable s =
     rbind (freewalk_entries (freewalk_depth d kend) pagetable [0..<512] s) (\<lambda>s.
       kfree kend pagetable s)"

definition freewalk :: "u64 \<Rightarrow> u64 \<Rightarrow> kmem \<Rightarrow> kmem result" where
  "freewalk kend pagetable s = freewalk_depth 3 kend pagetable s"

definition uvmfree :: "u64 \<Rightarrow> u64 \<Rightarrow> u64 \<Rightarrow> kmem \<Rightarrow> kmem result" where
  "uvmfree kend pagetable sz s =
     rbind (if sz > 0 then uvmunmap kend pagetable 0 (PGROUNDUP sz div PGSIZE) True s else Ret s)
       (\<lambda>s. freewalk kend pagetable s)"

function uvmcopy_loop :: "u64 \<Rightarrow> u64 \<Rightarrow> u64 \<Rightarrow> u64 \<Rightarrow> u64 \<Rightarrow> kmem \<Rightarrow> (int \<times> kmem) result" where
  "uvmcopy_loop kend old new i sz s =
     (if i < sz then
        rbind (walk old i False s) (\<lambda>(pte, s).
          if pte = 0 then Panic ''uvmcopy: pte should exist''
          else if load64 (mem s) pte AND PTE_V = 0 then Panic ''uvmcopy: page not present''
          else
            let pa = PTE2PA (load64 (mem s) pte);
                s = s\<lparr>mem := store64 (mem s) pte (load64 (mem s) pte AND NOT PTE_W)\<rparr>;
                flags = PTE_FLAGS (load64 (mem s) pte)
            in rbind (increse pa s) (\<lambda>s.
              rbind (mappages new i PGSIZE pa flags s) (\<lambda>(r, s).
                if r \<noteq> 0 then rbind (uvmunmap kend new 0 (i div PGSIZE) True s) (\<lambda>s. Ret (- 1, s))
                else uvmcopy_loop kend old new (i + PGSIZE) sz s)))
      else Ret (0, s))"
  by pat_completeness auto
termination
  by (relation "measure (\<lambda>(kend, old, new, i, sz, s). unat MAXVA - unat i)")
     (auto dest: walk_Ret_MAXVA below_MAXVA_step)

declare uvmcopy_loop.simps [simp del]

definition uvmcopy :: "u64 \<Rightarrow> u64 \<Rightarrow> u64 \<Rightarrow> u64 \<Rightarrow> kmem \<Rightarrow> (int \<times> kmem) result" where
  "uvmcopy kend old new sz s = uvmcopy_loop kend old new 0 sz s"

definition uvmclear :: "u64 \<Rightarrow> u64 \<Rightarrow> kmem \<Rightarrow> kmem result" where
  "uvmclear pagetable va s =
     rbind (walk pagetable va False s) (\<lambda>(pte, s).
       if pte = 0 then Panic ''uvmclear''
       else Ret (s\<lparr>mem := store64 (mem s) pte (load64 (mem s) pte AND NOT PTE_U)\<rparr>))"

section \<open>Copying between user and kernel memory\<close>

definition cowfault :: "u64 \<Rightarrow> u64 \<Rightarrow> u64 \<Rightarrow> kmem \<Rightarrow> (int \<times> kmem) result" where
  "cowfault kend pagetable va s =
     (if va \<ge> MAXVA then Ret (- 1, s)
      else rbind (walk pagetable va False s) (\<lambda>(pte, s).
        if pte = 0 then Ret (- 1, s)
        else if load64 (mem s) pte AND PTE_U = 0 \<or> load64 (mem s) pte AND PTE_V = 0 then Ret (- 1, s)
        else let pa1 = PTE2PA (load64 (mem s) pte) in
          rbind (kalloc s) (\<lambda>(pa2, s).
            if pa2 = 0 then Ret (- 1, s)
            else let s = s\<lparr>mem := memmove (mem s) pa2 pa1 4096\<rparr>;
                     s = s\<lparr>mem := store64 (mem s) pte
                            (PA2PTE pa2 OR PTE_U OR PTE_V OR PTE_W OR PTE_X OR PTE_R)\<rparr>
              in rbind (kfree kend pa1 s) (\<lambda>s. Ret (0, s)))))"

lemma page_remaining: "0 < PGSIZE - (a - PGROUNDDOWN a)"
proof -
  have "unat (a - PGROUNDDOWN a) < 4096"
    using in_page_iff [OF PGROUNDDOWN_aligned, of a a] by simp
  then have "a - PGROUNDDOWN a < PGSIZE" by (simp add: word_less_nat_alt)
  then show ?thesis by (simp add: word_neq_0_conv [symmetric])
qed

function copyout :: "u64 \<Rightarrow> u64 \<Rightarrow> u64 \<Rightarrow> u8 list \<Rightarrow> kmem \<Rightarrow> (int \<times> kmem) result" where
  "copyout kend pagetable dstva src s =
     (if src \<noteq> [] then
        let va0 = PGROUNDDOWN dstva in
        if va0 > MAXVA then Ret (- 1, s)
        else rbind (cowfault kend pagetable va0 s) (\<lambda>(r, s).
          if r < 0 then Ret (- 1, s)
          else rbind (walkaddr pagetable va0 s) (\<lambda>pa0.
            if pa0 = 0 then Ret (- 1, s)
            else
              let n = min (unat (PGSIZE - (dstva - va0))) (length src);
                  s = s\<lparr>mem := write_bytes (mem s) (pa0 + (dstva - va0)) (take n src)\<rparr>
              in copyout kend pagetable (va0 + PGSIZE) (drop n src) s))
      else Ret (0, s))"
  by pat_completeness auto
termination
  by (relation "measure (\<lambda>(kend, pagetable, dstva, src, s). length src)")
     (auto simp: page_remaining [unfolded word_less_nat_alt, simplified])

declare copyout.simps [simp del]

function copyin :: "u64 \<Rightarrow> u64 \<Rightarrow> nat \<Rightarrow> kmem \<Rightarrow> (int \<times> u8 list) result" where
  "copyin pagetable srcva len s =
     (if len > 0 then
        let va0 = PGROUNDDOWN srcva in
        rbind (walkaddr pagetable va0 s) (\<lambda>pa0.
          if pa0 = 0 then Ret (- 1, [])
          else
            let n = min (unat (PGSIZE - (srcva - va0))) len;
                chunk = read_bytes (mem s) (pa0 + (srcva - va0)) n
            in rbind (copyin pagetable (va0 + PGSIZE) (len - n) s) (\<lambda>(r, rest). Ret (r, chunk @ rest)))
      else Ret (0, []))"
  by pat_completeness auto
termination
  by (relation "measure (\<lambda>(pagetable, srcva, len, s). len)")
     (auto simp: page_remaining [unfolded word_less_nat_alt, simplified])

declare copyin.simps [simp del]

primrec copyinstr_page :: "memory \<Rightarrow> u64 \<Rightarrow> nat \<Rightarrow> u8 list \<times> bool" where
  "copyinstr_page m p 0 = ([], False)"
| "copyinstr_page m p (Suc n) =
     (if m p = 0 then ([0], True)
      else case copyinstr_page m (p + 1) n of (bs, got_null) \<Rightarrow> (m p # bs, got_null))"

function copyinstr :: "u64 \<Rightarrow> u64 \<Rightarrow> nat \<Rightarrow> kmem \<Rightarrow> (int \<times> u8 list) result" where
  "copyinstr pagetable srcva mx s =
     (if mx > 0 then
        let va0 = PGROUNDDOWN srcva in
        rbind (walkaddr pagetable va0 s) (\<lambda>pa0.
          if pa0 = 0 then Ret (- 1, [])
          else
            let n = min (unat (PGSIZE - (srcva - va0))) mx in
            case copyinstr_page (mem s) (pa0 + (srcva - va0)) n of (bs, got_null) \<Rightarrow>
              if got_null then Ret (0, bs)
              else rbind (copyinstr pagetable (va0 + PGSIZE) (mx - n) s) (\<lambda>(r, rest). Ret (r, bs @ rest)))
      else Ret (- 1, []))"
  by pat_completeness auto
termination
  by (relation "measure (\<lambda>(pagetable, srcva, mx, s). mx)")
     (auto simp: page_remaining [unfolded word_less_nat_alt, simplified])

declare copyinstr.simps [simp del]

text \<open>
  \<open>either_copyout\<close> and \<open>either_copyin\<close> of kernel/proc.c: a kernel address is an address of physical
  memory, since the kernel maps RAM at its physical address.
\<close>

definition either_copyout :: "u64 \<Rightarrow> u64 \<Rightarrow> bool \<Rightarrow> u64 \<Rightarrow> u8 list \<Rightarrow> kmem \<Rightarrow> (int \<times> kmem) result" where
  "either_copyout kend pagetable user_dst dst src s =
     (if user_dst then copyout kend pagetable dst src s
      else Ret (0, s\<lparr>mem := write_bytes (mem s) dst src\<rparr>))"

definition either_copyin :: "u64 \<Rightarrow> bool \<Rightarrow> u64 \<Rightarrow> nat \<Rightarrow> kmem \<Rightarrow> (int \<times> u8 list) result" where
  "either_copyin pagetable user_src src len s =
     (if user_src then copyin pagetable src len s
      else Ret (0, read_bytes (mem s) src len))"

end
