(* ===== verification/Vm_Tables.thy ===== *)
theory Vm_Tables
  imports Vm
begin

text \<open>
  Correctness of the page-table walk. A page-table page is named by the list of indices that
  leads to it from the root; \<open>pt_ok\<close> says that the pages of a table form a tree of allocated,
  unshared pages. Under it the page table is a finite map from virtual pages to entries
  (\<open>pte_val\<close>), and every operation is described by its effect on that map.
\<close>

section \<open>Entries of a page-table page\<close>

lemma mask_1FF: "(0x1FF :: u64) = mask 9"
  by (simp add: mask_eq_exp_minus_1)

lemma unat_PX: "unat (PX l va) = unat va div 2 ^ (12 + 9 * l) mod 512"
proof -
  have "PX l va = take_bit 9 (drop_bit (12 + 9 * l) va)"
    by (simp add: PX_def PXSHIFT_def mask_1FF take_bit_eq_mask)
  then have "unat (PX l va) = unat (drop_bit (12 + 9 * l) va) mod 2 ^ 9"
    by (simp only: unat_take_bit)
  also have "unat (drop_bit (12 + 9 * l) va) = unat va div 2 ^ (12 + 9 * l)"
    by (simp only: unsigned_drop_bit_eq)
      (simp add: drop_bit_eq_div take_bit_nat_eq_self unat_lt64)
  finally show ?thesis by simp
qed

lemma PX_lt [simp]: "unat (PX l va) < 512"
  by (simp add: unat_PX)

lemma entry_byte:
  assumes "unat i < 512" "k < 8"
  shows "t + 8 * i + of_nat k = t + of_nat (8 * unat i + k)"
  by (simp add: algebra_simps)

lemma page_index_entry:
  assumes "pg_aligned t" "unat i < 512" "k < 8"
  shows "page_index (t + 8 * i + of_nat k) = page_index t"
  unfolding entry_byte [OF assms(2,3)] using assms by (intro page_index_add) auto

lemma page_index_entry0: "pg_aligned t \<Longrightarrow> unat i < 512 \<Longrightarrow> page_index (t + 8 * i) = page_index t"
  using page_index_entry [of t i 0] by simp

lemma in_entry_page:
  assumes "pg_aligned t" "unat i < 512" "unat (x - (t + 8 * i)) < 8"
  shows "page_index x = page_index t"
proof -
  have "x = t + 8 * i + of_nat (unat (x - (t + 8 * i)))" by simp
  then show ?thesis using page_index_entry [OF assms(1,2,3)] by metis
qed

lemma store64_apply:
  "store64 m a v x = (if unat (x - a) < 8 then le_bytes 8 v ! unat (x - a) else m x)"
  by (simp add: store64_def write_bytes_apply del: le_bytes.simps)

lemma store64_entry_other:
  assumes "pg_aligned t" "unat i < 512" "page_index x \<noteq> page_index t"
  shows "store64 m (t + 8 * i) v x = m x"
  using in_entry_page [OF assms(1,2), of x] assms(3) by (auto simp: store64_apply)

lemma entry_disjoint:
  fixes i j t :: u64
  assumes "unat i < 512" "unat j < 512" "i \<noteq> j" "k < 8"
  shows "\<not> unat ((t + 8 * j + of_nat k) - (t + 8 * i)) < (8 :: nat)"
proof -
  have e: "(t + 8 * j + of_nat k) - (t + 8 * i) = of_nat (8 * unat j + k) - of_nat (8 * unat i)"
    by (simp add: algebra_simps)
  have b: "unat (of_nat (8 * unat j + k) :: u64) = 8 * unat j + k" "unat (of_nat (8 * unat i) :: u64) = 8 * unat i"
    using assms by (simp_all only: unat_of_nat, auto intro!: take_bit_nat_eq_self)
  have n: "unat i \<noteq> unat j" using assms(3) by (simp add: word_unat_eq_iff)
  show ?thesis unfolding e unat_sub_if' b using assms n by auto
qed

lemma load64_store64_entry:
  assumes "pg_aligned t" "pg_aligned t'" "unat i < 512" "unat j < 512" "t \<noteq> t' \<or> i \<noteq> j"
  shows "load64 (store64 m (t + 8 * i) v) (t' + 8 * j) = load64 m (t' + 8 * j)"
proof (rule load64_cong)
  fix k :: nat assume k: "k < 8"
  show "store64 m (t + 8 * i) v (t' + 8 * j + of_nat k) = m (t' + 8 * j + of_nat k)"
  proof (cases "t = t'")
    case True
    then show ?thesis using entry_disjoint [OF assms(3,4) _ k, of t] assms(5) by (simp add: store64_apply)
  next
    case False
    then have "page_index t \<noteq> page_index t'" using page_index_inj assms(1,2) by blast
    then show ?thesis using page_index_entry [OF assms(2,4) k] assms
      by (intro store64_entry_other) auto
  qed
qed

lemma load64_entry_cong:
  assumes "pg_aligned t" "unat i < 512" "\<And>x. page_index x = page_index t \<Longrightarrow> m x = m' x"
  shows "load64 m (t + 8 * i) = load64 m' (t + 8 * i)"
  by (rule load64_cong) (use page_index_entry [OF assms(1,2)] assms(3) in blast)

lemma PTE_bits:
  "e AND PTE_V = 0 \<longleftrightarrow> \<not> bit e 0" "e AND PTE_R = 0 \<longleftrightarrow> \<not> bit e 1" "e AND PTE_W = 0 \<longleftrightarrow> \<not> bit e 2"
  "e AND PTE_X = 0 \<longleftrightarrow> \<not> bit e 3" "e AND PTE_U = 0 \<longleftrightarrow> \<not> bit e 4"
  by (simp_all only: PTE_V_def PTE_R_def PTE_W_def PTE_X_def PTE_U_def push_bit_eq_mult mult_1
      and_exp_eq_0_iff_not_bit not_not)

section \<open>The tree of page-table pages\<close>

primrec tbl :: "memory \<Rightarrow> u64 \<Rightarrow> u64 list \<Rightarrow> u64 option" where
  "tbl m t [] = Some t"
| "tbl m t (i # is) =
     (let e = load64 m (t + 8 * i) in if e AND PTE_V \<noteq> 0 then tbl m (PTE2PA e) is else None)"

definition idx_path :: "u64 list \<Rightarrow> bool" where
  "idx_path is \<longleftrightarrow> length is \<le> 2 \<and> (\<forall>i \<in> set is. unat i < 512)"

definition pt_ok :: "u64 \<Rightarrow> u64 \<Rightarrow> kmem \<Rightarrow> bool" where
  "pt_ok kend pt s \<longleftrightarrow>
     (\<forall>is a. idx_path is \<longrightarrow> tbl (mem s) pt is = Some a \<longrightarrow>
        page_ok kend a \<and> refcnt s (page_index a) = 1) \<and>
     (\<forall>is js a. idx_path is \<longrightarrow> idx_path js \<longrightarrow> tbl (mem s) pt is = Some a \<longrightarrow>
        tbl (mem s) pt js = Some a \<longrightarrow> is = js)"

definition leaf :: "memory \<Rightarrow> u64 \<Rightarrow> u64 \<Rightarrow> u64 option" where
  "leaf m pt va = map_option (\<lambda>t. t + 8 * PX 0 va) (tbl m pt [PX 2 va, PX 1 va])"

definition pte_val :: "memory \<Rightarrow> u64 \<Rightarrow> u64 \<Rightarrow> u64" where
  "pte_val m pt va = (case leaf m pt va of None \<Rightarrow> 0 | Some a \<Rightarrow> load64 m a)"

lemma tbl_snoc:
  "tbl m t (is @ [j]) =
     (case tbl m t is of None \<Rightarrow> None
      | Some a \<Rightarrow> if load64 m (a + 8 * j) AND PTE_V \<noteq> 0 then Some (PTE2PA (load64 m (a + 8 * j))) else None)"
  by (induction "is" arbitrary: t) (auto simp: Let_def)

lemma idx_path_snoc: "idx_path (is @ [j]) \<longleftrightarrow> length is \<le> 1 \<and> (\<forall>i \<in> set is. unat i < 512) \<and> unat j < 512"
  by (auto simp: idx_path_def)

lemma idx_path_Nil [simp]: "idx_path []"
  by (simp add: idx_path_def)

lemma idx_path_PX [simp]: "idx_path [PX 2 va, PX 1 va]" "idx_path [PX 2 va]"
  by (simp_all add: idx_path_def)

lemma idx_path_butlast: "idx_path (is @ [j]) \<Longrightarrow> idx_path is"
  by (auto simp: idx_path_def)

lemma tbl_cong:
  assumes "idx_path is"
    and "\<And>r j a. idx_path (r @ [j]) \<Longrightarrow> \<exists>q. is = (r @ [j]) @ q \<Longrightarrow> tbl m pt r = Some a \<Longrightarrow>
      load64 m' (a + 8 * j) = load64 m (a + 8 * j)"
  shows "tbl m' pt is = tbl m pt is"
  using assms
proof (induction "is" rule: rev_induct)
  case (snoc j r)
  have IH: "tbl m' pt r = tbl m pt r"
  proof (rule snoc.IH)
    show "idx_path r" using snoc.prems(1) by (rule idx_path_butlast)
    fix r' j' a assume "idx_path (r' @ [j'])" "\<exists>q. r = (r' @ [j']) @ q" "tbl m pt r' = Some a"
    then show "load64 m' (a + 8 * j') = load64 m (a + 8 * j')"
      by (intro snoc.prems(2)) auto
  qed
  show ?case
    using IH snoc.prems(2) [of r j] snoc.prems(1) by (auto simp: tbl_snoc split: option.splits)
qed simp

lemma pt_ok_page:
  "pt_ok kend pt s \<Longrightarrow> idx_path is \<Longrightarrow> tbl (mem s) pt is = Some a \<Longrightarrow>
     page_ok kend a \<and> pg_aligned a \<and> refcnt s (page_index a) = 1"
  by (auto simp: pt_ok_def page_ok_def)

lemma pt_ok_inj:
  "pt_ok kend pt s \<Longrightarrow> idx_path is \<Longrightarrow> idx_path js \<Longrightarrow> tbl (mem s) pt is = Some a \<Longrightarrow>
     tbl (mem s) pt js = Some a \<Longrightarrow> is = js"
  unfolding pt_ok_def by blast

text \<open>Writing a leaf entry leaves the tree alone.\<close>

lemma tbl_store_leaf:
  assumes ok: "pt_ok kend pt s" and t: "tbl (mem s) pt [i2, i1] = Some t" "idx_path [i2, i1]" "unat k < 512"
    and "is": "idx_path is"
  shows "tbl (store64 (mem s) (t + 8 * k) v) pt is = tbl (mem s) pt is"
proof (rule tbl_cong [OF "is"])
  fix r j a assume r: "idx_path (r @ [j])" "tbl (mem s) pt r = Some a"
  have "r \<noteq> [i2, i1]" using r(1) by (auto simp: idx_path_def)
  then have "a \<noteq> t" using pt_ok_inj [OF ok _ t(2) r(2)] idx_path_butlast [OF r(1)] t(1) by blast
  then show "load64 (store64 (mem s) (t + 8 * k) v) (a + 8 * j) = load64 (mem s) (a + 8 * j)"
    using pt_ok_page [OF ok] t r idx_path_butlast [OF r(1)] idx_path_snoc
    by (intro load64_store64_entry) blast+
qed

lemma tbl_append: "tbl m t (xs @ ys) = Option.bind (tbl m t xs) (\<lambda>a. tbl m a ys)"
  by (induction xs arbitrary: t) (simp_all add: Let_def)

lemma page_ok_56: "page_ok kend q \<Longrightarrow> unat q < 2 ^ 56"
  by (simp add: page_ok_def word_less_nat_alt unat_PHYSTOP)

lemma unat_PTE_V_lt: "unat PTE_V < 1024"
  by (simp add: PTE_V_def)

lemma PTE_V_nonzero [simp]: "PTE_V \<noteq> 0"
  by (simp add: PTE_V_def)

lemma PTE_V_set: "(e OR PTE_V) AND PTE_V \<noteq> 0"
  by (simp add: PTE_V_def bit_eq_iff bit_simps) (auto intro!: exI [of _ 0])

lemma zero_AND_V [simp]: "(0 :: u64) AND x = 0"
  by simp

text \<open>
  What one allocating step of \<open>walk\<close> does: a zeroed page \<open>q\<close> that nobody referenced is hung
  below entry \<open>i\<close> of the table page at path \<open>p\<close>.
\<close>

definition grown :: "u64 \<Rightarrow> u64 \<Rightarrow> u64 \<Rightarrow> kmem \<Rightarrow> kmem \<Rightarrow> bool" where
  "grown t i q s s' \<longleftrightarrow>
     refcnt s (page_index q) = 0 \<and> refcnt s' = (refcnt s)(page_index q := 1) \<and>
     (\<exists>m. (\<forall>x. m x = (if page_index x = page_index q then 0 else mem s x)) \<and>
          mem s' = store64 m (t + 8 * i) (PA2PTE q OR PTE_V))"

lemma grown_entry:
  assumes g: "grown t i q s s'" and q: "page_ok kend q"
    and t: "pg_aligned t" "unat i < 512" and a: "pg_aligned a" "unat j < 512" "a \<noteq> t \<or> j \<noteq> i"
  shows "load64 (mem s') (a + 8 * j) = (if a = q then 0 else load64 (mem s) (a + 8 * j))"
proof -
  obtain m where m: "\<And>x. m x = (if page_index x = page_index q then 0 else mem s x)"
      "mem s' = store64 m (t + 8 * i) (PA2PTE q OR PTE_V)"
    using g by (auto simp: grown_def)
  have *: "load64 (mem s') (a + 8 * j) = load64 m (a + 8 * j)"
    unfolding m(2) using t a by (intro load64_store64_entry) auto
  show ?thesis
  proof (cases "a = q")
    case True
    have "load64 m (a + 8 * j) = load64 (\<lambda>_. 0) (a + 8 * j)"
      by (rule load64_entry_cong) (use a m(1) True in auto)
    then show ?thesis using * True by (simp add: load64_zero)
  next
    case False
    then have "page_index a \<noteq> page_index q" using a(1) q page_index_inj by (auto simp: page_ok_def)
    then show ?thesis using * False a m(1) by (auto intro!: load64_entry_cong)
  qed
qed

lemma grown_new:
  assumes "grown t i q s s'" shows "load64 (mem s') (t + 8 * i) = PA2PTE q OR PTE_V"
  using assms by (auto simp: grown_def load64_store64_same)

lemma grown_tbl_other:
  assumes g: "grown t i q s s'" and q: "page_ok kend q" and ok: "pt_ok kend pt s"
    and p: "idx_path (p @ [i])" "tbl (mem s) pt p = Some t"
    and "is": "idx_path is" "\<nexists>r. is = (p @ [i]) @ r"
  shows "tbl (mem s') pt is = tbl (mem s) pt is"
proof (rule tbl_cong [OF "is"(1)])
  fix r j a assume r: "idx_path (r @ [j])" "\<exists>q. is = (r @ [j]) @ q" "tbl (mem s) pt r = Some a"
  note pp = idx_path_butlast [OF p(1)] and rr = idx_path_butlast [OF r(1)]
  have "a \<noteq> t \<or> j \<noteq> i"
    using pt_ok_inj [OF ok rr pp] r p(2) "is"(2) by auto
  moreover have "a \<noteq> q"
    using pt_ok_page [OF ok rr r(3)] g by (auto simp: grown_def)
  ultimately show "load64 (mem s') (a + 8 * j) = load64 (mem s) (a + 8 * j)"
    using grown_entry [OF g q, of a j] pt_ok_page [OF ok rr r(3)] pt_ok_page [OF ok pp p(2)] p(1) r(1)
    by (auto simp: idx_path_snoc)
qed

lemma grown_tbl_below:
  assumes g: "grown t i q s s'" and q: "page_ok kend q" and ok: "pt_ok kend pt s"
    and p: "idx_path (p @ [i])" "tbl (mem s) pt p = Some t" and r: "idx_path ((p @ [i]) @ r)"
  shows "tbl (mem s') pt ((p @ [i]) @ r) = (if r = [] then Some q else None)"
proof -
  note t = pt_ok_page [OF ok idx_path_butlast [OF p(1)] p(2)]
  have "tbl (mem s') pt p = Some t"
    using grown_tbl_other [OF g q ok p idx_path_butlast [OF p(1)]] p(2) by simp
  then have new: "tbl (mem s') pt (p @ [i]) = Some q"
    using grown_new [OF g] q page_ok_56 [OF q] unat_PTE_V_lt
    by (simp add: tbl_snoc PTE_V_set PTE2PA_PA2PTE page_ok_def)
  have "q \<noteq> t" using t g by (auto simp: grown_def)
  then have "load64 (mem s') (q + 8 * j) = 0" if "unat j < 512" for j
    using grown_entry [OF g q _ _ _ that, of q] t p(1) q by (auto simp: idx_path_snoc page_ok_def)
  then have "r \<noteq> [] \<Longrightarrow> tbl (mem s') q r = None"
    using r by (cases r) (auto simp: idx_path_def)
  then show ?thesis using new by (simp only: tbl_append [of _ _ "p @ [i]"]) auto
qed

lemma grown_tbl_cases:
  assumes g: "grown t i q s s'" and q: "page_ok kend q" and ok: "pt_ok kend pt s"
    and p: "idx_path (p @ [i])" "tbl (mem s) pt p = Some t"
    and "is": "idx_path is" "tbl (mem s') pt is = Some a"
  shows "(is = p @ [i] \<and> a = q) \<or> (is \<noteq> p @ [i] \<and> a \<noteq> q \<and> tbl (mem s) pt is = Some a)"
proof (cases "\<exists>r. is = (p @ [i]) @ r")
  case True
  then show ?thesis using grown_tbl_below [OF g q ok p] "is" by (auto split: if_splits)
next
  case False
  then have *: "tbl (mem s) pt is = Some a" using grown_tbl_other [OF g q ok p "is"(1)] "is"(2) by simp
  then have "a \<noteq> q" using pt_ok_page [OF ok "is"(1) *] g by (auto simp: grown_def)
  then show ?thesis using * False by auto
qed

lemma grown_pt_ok:
  assumes g: "grown t i q s s'" and q: "page_ok kend q" and ok: "pt_ok kend pt s"
    and p: "idx_path (p @ [i])" "tbl (mem s) pt p = Some t"
  shows "pt_ok kend pt s'"
  unfolding pt_ok_def
proof (intro conjI allI impI)
  note cases = grown_tbl_cases [OF g q ok p]
  fix "is" a assume a: "idx_path is" "tbl (mem s') pt is = Some a"
  show "page_ok kend a" using cases [OF a] pt_ok_page [OF ok a(1)] q by auto
  show "refcnt s' (page_index a) = 1"
    using cases [OF a] pt_ok_page [OF ok a(1), of a] g by (auto simp: grown_def)
  fix js assume b: "idx_path js" "tbl (mem s') pt js = Some a"
  show "is = js" using cases [OF a] cases [OF b] pt_ok_inj [OF ok a(1) b(1)] by auto
qed

lemma grown_pte_val:
  assumes g: "grown t i q s s'" and q: "page_ok kend q" and ok: "pt_ok kend pt s"
    and p: "idx_path (p @ [i])" "tbl (mem s) pt p = Some t" "load64 (mem s) (t + 8 * i) AND PTE_V = 0"
  shows "pte_val (mem s') pt vb = pte_val (mem s) pt vb"
proof -
  let ?w = "[PX 2 vb, PX 1 vb]"
  note t = pt_ok_page [OF ok idx_path_butlast [OF p(1)] p(2)]
  have i: "unat i < 512" using p(1) by (simp add: idx_path_snoc)
  show ?thesis
  proof (cases "\<exists>r. ?w = (p @ [i]) @ r")
    case True
    then obtain r where r: "?w = (p @ [i]) @ r" by blast
    have "tbl (mem s) pt ?w = None" unfolding r tbl_append [of _ _ "p @ [i]"] using p by (simp add: tbl_snoc)
    moreover have "tbl (mem s') pt ?w = (if r = [] then Some q else None)"
      unfolding r using grown_tbl_below [OF g q ok p(1,2)] r idx_path_PX(1) by metis
    moreover have "q \<noteq> t" using t g by (auto simp: grown_def)
    then have "load64 (mem s') (q + 8 * PX 0 vb) = 0"
      using grown_entry [OF g q _ i, of q "PX 0 vb"] t q by (auto simp: page_ok_def)
    ultimately show ?thesis by (simp add: pte_val_def leaf_def del: tbl.simps)
  next
    case False
    then have eq: "tbl (mem s') pt ?w = tbl (mem s) pt ?w"
      using grown_tbl_other [OF g q ok p(1,2) idx_path_PX(1)] by blast
    show ?thesis
    proof (cases "tbl (mem s) pt ?w")
      case (Some a)
      note a = pt_ok_page [OF ok idx_path_PX(1) Some]
      have "a \<noteq> t" using pt_ok_inj [OF ok idx_path_PX(1) idx_path_butlast [OF p(1)] Some] p(1,2)
        by (auto simp: idx_path_snoc)
      moreover have "a \<noteq> q" using a g by (auto simp: grown_def)
      ultimately have "load64 (mem s') (a + 8 * PX 0 vb) = load64 (mem s) (a + 8 * PX 0 vb)"
        using grown_entry [OF g q _ i, of a "PX 0 vb"] t a by auto
      then show ?thesis using eq Some by (simp add: pte_val_def leaf_def del: tbl.simps)
    qed (use eq in \<open>simp add: pte_val_def leaf_def del: tbl.simps\<close>)
  qed
qed

section \<open>Steps on one address space\<close>

definition tbl_pages :: "memory \<Rightarrow> u64 \<Rightarrow> nat set" where
  "tbl_pages m pt = {page_index a | is a. idx_path is \<and> tbl m pt is = Some a}"

definition vm_step :: "u64 \<Rightarrow> u64 \<Rightarrow> kmem \<Rightarrow> kmem \<Rightarrow> bool" where
  "vm_step kend pt s s' \<longleftrightarrow>
     kmem_inv kend s' \<and> pt_ok kend pt s' \<and>
     (\<forall>n. 0 < refcnt s n \<longrightarrow> refcnt s' n = refcnt s n) \<and>
     (\<forall>n. 0 < refcnt s n \<longrightarrow> n \<notin> tbl_pages (mem s) pt \<longrightarrow> n \<notin> tbl_pages (mem s') pt) \<and>
     (\<forall>x. 0 < refcnt s (page_index x) \<longrightarrow> page_index x \<notin> tbl_pages (mem s) pt \<longrightarrow> mem s' x = mem s x)"

lemma vm_step_refl: "kmem_inv kend s \<Longrightarrow> pt_ok kend pt s \<Longrightarrow> vm_step kend pt s s"
  by (simp add: vm_step_def)

lemma vm_step_trans: "vm_step kend pt s s' \<Longrightarrow> vm_step kend pt s' s'' \<Longrightarrow> vm_step kend pt s s''"
  unfolding vm_step_def by metis

lemma kmem_inv_mem:
  assumes inv: "kmem_inv kend s"
    and same: "\<And>x. refcnt s (page_index x) = 0 \<Longrightarrow> m x = mem s x"
  shows "kmem_inv kend (s\<lparr>mem := m\<rparr>)"
proof -
  obtain fl where ok: "kmem_ok {p. page_ok kend p} fl s" using inv by (auto simp: kmem_inv_def)
  have "run_list m (freelist s) fl = run_list (mem s) (freelist s) fl"
  proof (rule run_list_cong)
    fix q y assume "q \<in> set fl" "page_index y = page_index q"
    then show "m y = mem s y" using kmem_ok_free [OF ok] same by auto
  qed (use kmem_ok_free [OF ok] kmem_ok_aligned [OF ok] in blast)
  then show ?thesis using ok by (auto simp: kmem_ok_def kmem_inv_def intro!: exI [of _ fl])
qed

lemma walk_noalloc:
  "va < MAXVA \<Longrightarrow> walk pt va False s = Ret (case leaf (mem s) pt va of None \<Rightarrow> 0 | Some a \<Rightarrow> a, s)"
  by (simp add: walk_def leaf_def numeral_2_eq_2 Let_def not_le [symmetric])

lemma entry_nonzero:
  assumes "page_ok kend t" "0 < kend" "unat i < 512"
  shows "t + 8 * i \<noteq> 0"
proof -
  have "unat t < 2281701376" "0 < unat t"
    using assms by (auto simp: page_ok_def word_less_nat_alt word_le_nat_alt unat_PHYSTOP)
  then have "unat (t + 8 * i) = unat t + 8 * unat i" using assms(3) by (simp add: unat_word_ariths)
  then show ?thesis using \<open>0 < unat t\<close> by (metis add_gr_0 less_irrefl unat_0)
qed

lemma leafE:
  assumes "pt_ok kend pt s" "leaf (mem s) pt va = Some a"
  obtains t where "tbl (mem s) pt [PX 2 va, PX 1 va] = Some t" "a = t + 8 * PX 0 va" "page_ok kend t"
    "pg_aligned t" "refcnt s (page_index t) = 1"
  using assms pt_ok_page [OF assms(1) idx_path_PX(1)] by (auto simp: leaf_def simp del: tbl.simps)

lemma leaf_nonzero:
  assumes "pt_ok kend pt s" "0 < kend" "leaf (mem s) pt va = Some a"
  shows "a \<noteq> 0"
  using leafE [OF assms(1,3)] entry_nonzero [OF _ assms(2) PX_lt] by metis

lemma grown_vm_step:
  assumes g: "grown t i q s s'" and q: "page_ok kend q" and ok: "pt_ok kend pt s" "kmem_inv kend s'"
    and p: "idx_path (p @ [i])" "tbl (mem s) pt p = Some t"
  shows "vm_step kend pt s s'"
proof -
  note t = pt_ok_page [OF ok(1) idx_path_butlast [OF p(1)] p(2)]
  have tp: "page_index t \<in> tbl_pages (mem s) pt"
    using p idx_path_butlast [OF p(1)] by (auto simp: tbl_pages_def)
  have "mem s' x = mem s x" if "0 < refcnt s (page_index x)" "page_index x \<notin> tbl_pages (mem s) pt" for x
  proof -
    have "page_index x \<noteq> page_index t" "page_index x \<noteq> page_index q"
      using that tp g by (auto simp: grown_def)
    then show ?thesis using g t p(1) by (auto simp: grown_def store64_entry_other idx_path_snoc)
  qed
  moreover have "n \<notin> tbl_pages (mem s') pt" if "0 < refcnt s n" "n \<notin> tbl_pages (mem s) pt" for n
    using that g grown_tbl_cases [OF g q ok(1) p] by (fastforce simp: tbl_pages_def grown_def)
  ultimately show ?thesis
    using grown_pt_ok [OF g q ok(1) p] ok(2) g by (auto simp: vm_step_def grown_def)
qed

lemma alloc_grown:
  assumes inv: "kmem_inv kend s" and k: "kalloc s = Ret (q, s1)" "q \<noteq> 0"
    and t: "page_ok kend t" "refcnt s (page_index t) = 1" "unat i < 512"
    and s': "s' = s1\<lparr>mem := store64 (memset (mem s1) q 0 4096) (t + 8 * i) (PA2PTE q OR PTE_V)\<rparr>"
  shows "page_ok kend q \<and> grown t i q s s' \<and> kmem_inv kend s'"
proof -
  have q: "kmem_inv kend s1" "page_ok kend q" "refcnt s (page_index q) = 0"
      "refcnt s1 = (refcnt s)(page_index q := 1)"
      "\<forall>x. page_index x \<noteq> page_index q \<longrightarrow> mem s1 x = mem s x"
    using kpool.alloc_law [OF inv] k by auto
  have al: "pg_aligned q" "pg_aligned t" using q(2) t(1) by (auto simp: page_ok_def)
  have m: "memset (mem s1) q 0 4096 x = (if page_index x = page_index q then 0 else mem s x)" for x
    using q(5) by (simp add: memset_page [OF al(1)])
  have "kmem_inv kend s'"
    unfolding s'
  proof (rule kmem_inv_mem [OF q(1)])
    fix x assume "refcnt s1 (page_index x) = 0"
    then have "page_index x \<noteq> page_index q" "page_index x \<noteq> page_index t" using q(4) t(2) by (auto split: if_splits)
    then show "store64 (memset (mem s1) q 0 4096) (t + 8 * i) (PA2PTE q OR PTE_V) x = mem s1 x"
      using al t(3) by (simp add: store64_entry_other memset_page)
  qed
  moreover have "grown t i q s s'"
    unfolding grown_def s' using q(3,4) m by (auto intro!: exI [of _ "memset (mem s1) q 0 4096"])
  ultimately show ?thesis using q(2) by blast
qed

definition px_path :: "u64 \<Rightarrow> nat \<Rightarrow> u64 list" where
  "px_path va l = take (2 - l) [PX 2 va, PX 1 va]"

lemma px_path_Suc: "l < 2 \<Longrightarrow> px_path va l = px_path va (Suc l) @ [PX (Suc l) va]"
  by (cases l) (auto simp: px_path_def numeral_2_eq_2 less_Suc_eq)

lemma idx_path_px [simp]: "idx_path (px_path va l)"
  by (auto simp: px_path_def idx_path_def dest!: in_set_takeD)

lemma walk_level_alloc:
  assumes "kmem_inv kend s" "pt_ok kend pt s" "0 < kend" "l \<le> 2" "tbl (mem s) pt (px_path va l) = Some t"
  shows "\<exists>pte s'. walk_level l t va True s = Ret (pte, s') \<and> vm_step kend pt s s' \<and>
    (\<forall>vb. pte_val (mem s') pt vb = pte_val (mem s) pt vb) \<and>
    (if pte = 0 then (\<forall>q. page_ok kend q \<longrightarrow> 0 < refcnt s' (page_index q)) else leaf (mem s') pt va = Some pte)"
  using assms
proof (induction l arbitrary: s t)
  case 0
  have "page_ok kend t" using pt_ok_page 0 idx_path_px by blast
  then show ?case using 0 entry_nonzero [of kend t "PX 0 va"]
    by (auto simp: px_path_def leaf_def vm_step_refl simp del: tbl.simps)
next
  case (Suc l)
  let ?i = "PX (Suc l) va"
  note path = px_path_Suc [of l va]
  have lp: "idx_path (px_path va (Suc l) @ [?i])" using idx_path_px [of va l] path Suc.prems by simp
  note t = pt_ok_page [OF Suc.prems(2) idx_path_px Suc.prems(5)]
  show ?case
  proof (cases "load64 (mem s) (t + 8 * ?i) AND PTE_V = 0")
    case False
    then have "tbl (mem s) pt (px_path va l) = Some (PTE2PA (load64 (mem s) (t + 8 * ?i)))"
      using path Suc.prems by (simp add: tbl_snoc)
    then show ?thesis using Suc.IH [OF Suc.prems(1-3)] Suc.prems(4) False by (simp add: Let_def)
  next
    case True
    obtain q s1 where k: "kalloc s = Ret (q, s1)" using kpool.alloc_law [OF Suc.prems(1)] by blast
    show ?thesis
    proof (cases "q = 0")
      case q0: True
      then show ?thesis using kpool.alloc_law [OF Suc.prems(1)] k True Suc.prems(1,2)
        by (auto simp: Let_def vm_step_refl)
    next
      case False
      define s' where "s' = s1\<lparr>mem := store64 (memset (mem s1) q 0 4096) (t + 8 * ?i) (PA2PTE q OR PTE_V)\<rparr>"
      have g: "page_ok kend q" "grown t ?i q s s'" "kmem_inv kend s'"
        using alloc_grown [OF Suc.prems(1) k False _ _ PX_lt s'_def] t by auto
      have step: "vm_step kend pt s s'" by (rule grown_vm_step [OF g(2,1) Suc.prems(2) g(3) lp Suc.prems(5)])
      have same: "pte_val (mem s') pt vb = pte_val (mem s) pt vb" for vb
        by (rule grown_pte_val [OF g(2,1) Suc.prems(2) lp Suc.prems(5) True])
      have "tbl (mem s') pt (px_path va l) = Some q"
        using grown_tbl_below [OF g(2,1) Suc.prems(2) lp Suc.prems(5), of "[]"] lp path Suc.prems(4) by simp
      from Suc.IH [OF g(3) _ Suc.prems(3) _ this] step Suc.prems(4) obtain pte s2 where
        s2: "walk_level l q va True s' = Ret (pte, s2)" "vm_step kend pt s' s2"
          "\<forall>vb. pte_val (mem s2) pt vb = pte_val (mem s') pt vb"
          "if pte = 0 then \<forall>q. page_ok kend q \<longrightarrow> 0 < refcnt s2 (page_index q) else leaf (mem s2) pt va = Some pte"
        by (auto simp: vm_step_def)
      have "walk_level (Suc l) t va True s = Ret (pte, s2)"
        using True k False s2(1) by (simp add: Let_def s'_def)
      then show ?thesis using s2 same vm_step_trans [OF step s2(2)] by auto
    qed
  qed
qed

lemma walk_alloc:
  assumes "kmem_inv kend s" "pt_ok kend pt s" "0 < kend" "va < MAXVA"
  shows "\<exists>pte s'. walk pt va True s = Ret (pte, s') \<and> vm_step kend pt s s' \<and>
    (\<forall>vb. pte_val (mem s') pt vb = pte_val (mem s) pt vb) \<and>
    (if pte = 0 then (\<forall>q. page_ok kend q \<longrightarrow> 0 < refcnt s' (page_index q)) else leaf (mem s') pt va = Some pte)"
  using walk_level_alloc [OF assms(1-3), of 2 va pt] assms(4) by (simp add: walk_def px_path_def)

section \<open>Writing a leaf entry\<close>

lemma PX_page_index:
  assumes "va < MAXVA"
  shows "page_index va = unat (PX 2 va) * 512 * 512 + unat (PX 1 va) * 512 + unat (PX 0 va)"
proof -
  define n where "n = page_index va"
  have n: "n < 2 ^ 26"
    using assms by (simp add: n_def page_index_def word_less_nat_alt unat_MAXVA div_less_iff_less_mult)
  have "n div 512 div 512 < 512" using n by (simp add: div_mult2_eq [symmetric] div_less_iff_less_mult)
  then have "unat (PX 0 va) = n mod 512" "unat (PX 1 va) = n div 512 mod 512" "unat (PX 2 va) = n div 512 div 512"
    by (simp_all add: unat_PX n_def page_index_def div_mult2_eq [symmetric])
  moreover have "n = n div 512 * 512 + n mod 512" "n div 512 = n div 512 div 512 * 512 + n div 512 mod 512"
    by presburger+
  ultimately show ?thesis unfolding n_def [symmetric] by linarith
qed

lemma PX_cong: "page_index va = page_index vb \<Longrightarrow> PX l va = PX l vb"
proof -
  assume "page_index va = page_index vb"
  then have "unat va div 2 ^ (12 + 9 * l) = unat vb div 2 ^ (12 + 9 * l)"
    by (simp add: page_index_def power_add div_mult2_eq)
  then show ?thesis by (simp add: word_unat_eq_iff unat_PX)
qed

lemma leaf_page_cong: "page_index va = page_index vb \<Longrightarrow> leaf m pt va = leaf m pt vb"
  unfolding leaf_def using PX_cong [of va vb] by simp

lemma store_leaf:
  assumes inv: "kmem_inv kend s" and ok: "pt_ok kend pt s" and l: "leaf (mem s) pt va = Some a"
    and s': "s' = s\<lparr>mem := store64 (mem s) a v\<rparr>"
  shows "vm_step kend pt s s'" "leaf (mem s') pt vb = leaf (mem s) pt vb"
    "va < MAXVA \<Longrightarrow> vb < MAXVA \<Longrightarrow>
       pte_val (mem s') pt vb = (if page_index vb = page_index va then v else pte_val (mem s) pt vb)"
    "tbl_pages (mem s') pt = tbl_pages (mem s) pt"
    "page_index x \<notin> tbl_pages (mem s) pt \<Longrightarrow> mem s' x = mem s x"
proof -
  obtain t where t: "tbl (mem s) pt [PX 2 va, PX 1 va] = Some t" "a = t + 8 * PX 0 va" "page_ok kend t"
      "pg_aligned t" "refcnt s (page_index t) = 1"
    using leafE [OF ok l] by blast
  have tb: "tbl (mem s') pt is = tbl (mem s) pt is" if "idx_path is" for "is"
    using tbl_store_leaf [OF ok t(1) idx_path_PX(1) PX_lt that] by (simp add: s' t(2))
  have other: "mem s' x = mem s x" if "page_index x \<noteq> page_index t" for x
    using that t by (simp add: s' store64_entry_other)
  have tin: "page_index t \<in> tbl_pages (mem s) pt" unfolding tbl_pages_def using t(1) idx_path_PX(1) by blast
  moreover show tp: "tbl_pages (mem s') pt = tbl_pages (mem s) pt" unfolding tbl_pages_def
    by (intro Collect_cong) (metis tb)
  moreover show "page_index x \<notin> tbl_pages (mem s) pt \<Longrightarrow> mem s' x = mem s x" using other tin by metis
  moreover have "store64 (mem s) a v x = mem s x" if "refcnt s (page_index x) = 0" for x
    using other [of x] that t(5) by (cases "page_index x = page_index t") (simp_all add: s')
  then have "kmem_inv kend s'" unfolding s' by (rule kmem_inv_mem [OF inv])
  moreover have "refcnt s' = refcnt s" by (simp add: s')
  moreover have "pt_ok kend pt s'" using ok tb unfolding pt_ok_def \<open>refcnt s' = refcnt s\<close> by metis
  ultimately show "vm_step kend pt s s'" using other tp tin unfolding vm_step_def by metis
  show lf: "leaf (mem s') pt vb = leaf (mem s) pt vb" for vb
    unfolding leaf_def by (simp only: tb [OF idx_path_PX(1)])
  assume va: "va < MAXVA" "vb < MAXVA"
  show "pte_val (mem s') pt vb = (if page_index vb = page_index va then v else pte_val (mem s) pt vb)"
  proof (cases "page_index vb = page_index va")
    case True
    then show ?thesis using l lf leaf_page_cong [OF True] by (simp add: pte_val_def) (simp add: s')
  next
    case False
    show ?thesis
    proof (cases "leaf (mem s) pt vb")
      case (Some b)
      obtain t' where t': "tbl (mem s) pt [PX 2 vb, PX 1 vb] = Some t'" "b = t' + 8 * PX 0 vb" "pg_aligned t'"
        using leafE [OF ok Some] by blast
      have "t \<noteq> t' \<or> PX 0 va \<noteq> PX 0 vb"
        using pt_ok_inj [OF ok idx_path_PX(1) idx_path_PX(1) t(1)] t'(1) False
          PX_page_index [OF va(1)] PX_page_index [OF va(2)] by fastforce
      then have "load64 (mem s') b = load64 (mem s) b"
        using t t' by (simp add: s' load64_store64_entry)
      then show ?thesis using lf Some False by (simp add: pte_val_def)
    qed (use lf False in \<open>simp add: pte_val_def\<close>)
  qed
qed

end
