(* ===== verification/Vm_Maps.thy ===== *)
theory Vm_Maps
  imports Vm_Tables
begin

text \<open>
  The operations of kernel/vm.c on an address space, described by their effect on the map
  \<open>pte_val\<close> from virtual pages to page-table entries: mapping and unmapping ranges, sharing
  pages copy-on-write, resolving a copy-on-write fault, and copying bytes to and from user
  memory.
\<close>

section \<open>Mapping a range\<close>

lemma page_index_step:
  assumes "pg_aligned a" "a < MAXVA"
  shows "page_index (a + PGSIZE) = Suc (page_index a)" "pg_aligned (a + PGSIZE)"
proof -
  obtain k where "unat a = 4096 * k" using assms(1) by (rule pg_alignedE)
  then show "page_index (a + PGSIZE) = Suc (page_index a)" "pg_aligned (a + PGSIZE)"
    using below_MAXVA_step [OF assms(2)] by (simp_all add: page_index_def pg_aligned_unat)
qed

lemma page_index_less:
  assumes "pg_aligned a" "pg_aligned b"
  shows "a < b \<longleftrightarrow> page_index a < page_index b"
proof -
  obtain k l where "unat a = 4096 * k" "unat b = 4096 * l" using assms pg_alignedE by metis
  then show ?thesis by (simp add: word_less_nat_alt page_index_def)
qed

lemma pte_val_leaf: "leaf m pt va = Some a \<Longrightarrow> load64 m a = pte_val m pt va"
  by (simp add: pte_val_def)

definition in_pages :: "u64 \<Rightarrow> nat \<Rightarrow> u64 \<Rightarrow> bool" where
  "in_pages a n vb \<longleftrightarrow> page_index a \<le> page_index vb \<and> page_index vb < page_index a + n"

definition map_entry :: "u64 \<Rightarrow> u64 \<Rightarrow> u64 \<Rightarrow> u64 \<Rightarrow> u64" where
  "map_entry a pa perm vb = PA2PTE (pa + (PGROUNDDOWN vb - a)) OR perm OR PTE_V"

lemma PGROUNDDOWN_page:
  assumes "pg_aligned a" "page_index vb = page_index a" shows "PGROUNDDOWN vb = a"
  using page_index_inj [of "PGROUNDDOWN vb" a] assms by simp

lemma PGROUNDDOWN_same: "pg_aligned a \<Longrightarrow> PGROUNDDOWN a = a"
  by (rule PGROUNDDOWN_page) simp_all

lemma in_pages_Suc:
  "pg_aligned a \<Longrightarrow> a < MAXVA \<Longrightarrow>
     in_pages a (Suc n) vb \<longleftrightarrow> page_index vb = page_index a \<or> in_pages (a + PGSIZE) n vb"
  by (auto simp: in_pages_def page_index_step)

lemma map_entry_step: "map_entry (a + PGSIZE) (pa + PGSIZE) perm vb = map_entry a pa perm vb"
  by (simp add: map_entry_def)

lemma map_entry_first:
  "pg_aligned a \<Longrightarrow> page_index vb = page_index a \<Longrightarrow> map_entry a pa perm vb = PA2PTE pa OR perm OR PTE_V"
  by (simp add: map_entry_def PGROUNDDOWN_page)

definition mapped_prefix :: "u64 \<Rightarrow> u64 \<Rightarrow> nat \<Rightarrow> u64 \<Rightarrow> u64 \<Rightarrow> kmem \<Rightarrow> kmem \<Rightarrow> bool" where
  "mapped_prefix pt a n pa perm s s' \<longleftrightarrow>
     (\<forall>vb < MAXVA. pte_val (mem s') pt vb =
        (if in_pages a n vb then map_entry a pa perm vb else pte_val (mem s) pt vb))"

lemma mapped_prefix_0: "(\<And>vb. pte_val (mem s') pt vb = pte_val (mem s) pt vb) \<Longrightarrow> mapped_prefix pt a 0 pa perm s s'"
  by (auto simp: mapped_prefix_def in_pages_def)

definition pool_empty :: "u64 \<Rightarrow> kmem \<Rightarrow> bool" where
  "pool_empty kend s \<longleftrightarrow> (\<forall>q. page_ok kend q \<longrightarrow> 0 < refcnt s (page_index q))"

lemma mappages_step:
  assumes "kmem_inv kend s" "pt_ok kend pt s" "0 < kend" "pg_aligned a" "a < MAXVA"
    "pte_val (mem s) pt a AND PTE_V = 0"
  shows "\<exists>s'. vm_step kend pt s s' \<and>
    (mappages_loop pt a lst pa perm s = Ret (- 1, s') \<and> mapped_prefix pt a 0 pa perm s s' \<and> pool_empty kend s' \<or>
     mappages_loop pt a lst pa perm s =
       (if a = lst then Ret (0, s') else mappages_loop pt (a + PGSIZE) lst (pa + PGSIZE) perm s') \<and>
     mapped_prefix pt a 1 pa perm s s')"
proof -
  obtain pte s1 where w: "walk pt a True s = Ret (pte, s1)" "vm_step kend pt s s1"
      "\<And>vb. pte_val (mem s1) pt vb = pte_val (mem s) pt vb"
      "if pte = 0 then pool_empty kend s1 else leaf (mem s1) pt a = Some pte"
    using walk_alloc [OF assms(1-3,5)] by (auto simp: pool_empty_def)
  show ?thesis
  proof (cases "pte = 0")
    case True
    then show ?thesis using w by (subst (1) mappages_loop.simps) (auto intro!: mapped_prefix_0)
  next
    case False
    define s2 where "s2 = s1\<lparr>mem := store64 (mem s1) pte (PA2PTE pa OR perm OR PTE_V)\<rparr>"
    have ok: "kmem_inv kend s1" "pt_ok kend pt s1" "leaf (mem s1) pt a = Some pte"
      using w(2,4) False by (auto simp: vm_step_def)
    note st = store_leaf [OF ok s2_def]
    have "load64 (mem s1) pte AND PTE_V = 0" using pte_val_leaf [OF ok(3)] w(3) assms(6) by simp
    then have "mappages_loop pt a lst pa perm s =
        (if a = lst then Ret (0, s2) else mappages_loop pt (a + PGSIZE) lst (pa + PGSIZE) perm s2)"
      using w(1) False by (subst (1) mappages_loop.simps) (simp add: s2_def)
    moreover have "mapped_prefix pt a 1 pa perm s s2"
      unfolding mapped_prefix_def in_pages_def
      using st(3) [OF assms(5)] w(3) map_entry_first [OF assms(4)] by auto
    ultimately show ?thesis using vm_step_trans [OF w(2) st(1)] by blast
  qed
qed

lemma mapped_prefix_cons:
  assumes "pg_aligned a" "a < MAXVA" "mapped_prefix pt a 1 pa perm s s'"
    "mapped_prefix pt (a + PGSIZE) k (pa + PGSIZE) perm s' s''"
  shows "mapped_prefix pt a (Suc k) pa perm s s''"
  using assms unfolding mapped_prefix_def in_pages_Suc [OF assms(1,2)] One_nat_def map_entry_step
  by (auto simp: in_pages_def)

lemma mappages_loop_ok:
  assumes "kmem_inv kend s" "pt_ok kend pt s" "0 < kend" "pg_aligned a" "pg_aligned lst" "lst < MAXVA"
    "page_index lst = page_index a + n"
    "\<And>vb. vb < MAXVA \<Longrightarrow> in_pages a (Suc n) vb \<Longrightarrow> pte_val (mem s) pt vb AND PTE_V = 0"
  shows "\<exists>r s' k. mappages_loop pt a lst pa perm s = Ret (r, s') \<and> vm_step kend pt s s' \<and>
    mapped_prefix pt a k pa perm s s' \<and> (r = 0 \<and> k = Suc n \<or> r = - 1 \<and> k \<le> n \<and> pool_empty kend s')"
  using assms
proof (induction n arbitrary: a pa s)
  case 0
  then have lst: "lst = a" using page_index_inj by simp
  then have "pte_val (mem s) pt a AND PTE_V = 0" using 0 by (simp add: in_pages_def)
  then show ?case using mappages_step [of kend s pt a lst pa perm] 0 lst by fastforce
next
  case (Suc n)
  have a: "a < lst" "a < MAXVA" "a \<noteq> lst"
    using Suc.prems page_index_less [of a lst] by (auto dest: less_trans)
  then have "pte_val (mem s) pt a AND PTE_V = 0" using Suc.prems(8) by (simp add: in_pages_def)
  then consider s' where "vm_step kend pt s s'" "mappages_loop pt a lst pa perm s = Ret (- 1, s')"
        "mapped_prefix pt a 0 pa perm s s'" "pool_empty kend s'"
    | s' where "vm_step kend pt s s'"
        "mappages_loop pt a lst pa perm s = mappages_loop pt (a + PGSIZE) lst (pa + PGSIZE) perm s'"
        "mapped_prefix pt a 1 pa perm s s'"
    using mappages_step [of kend s pt a lst pa perm] Suc.prems a by auto
  then show ?case
  proof cases
    case 1
    then show ?thesis by auto
  next
    case (2 s')
    have free: "pte_val (mem s') pt vb AND PTE_V = 0"
      if "vb < MAXVA" "in_pages (a + PGSIZE) (Suc n) vb" for vb
      using that 2(3) Suc.prems(8) [of vb] page_index_step [OF Suc.prems(4) a(2)]
      by (auto simp: mapped_prefix_def in_pages_def)
    obtain r s'' k where "mappages_loop pt (a + PGSIZE) lst (pa + PGSIZE) perm s' = Ret (r, s'')"
        "vm_step kend pt s' s''" "mapped_prefix pt (a + PGSIZE) k (pa + PGSIZE) perm s' s''"
        "r = 0 \<and> k = Suc n \<or> r = - 1 \<and> k \<le> n \<and> pool_empty kend s''"
      using Suc.IH [of s' "a + PGSIZE" "pa + PGSIZE"] free 2(1) Suc.prems page_index_step [OF Suc.prems(4) a(2)]
      by (auto simp: vm_step_def)
    then show ?thesis
      using 2 mapped_prefix_cons [OF Suc.prems(4) a(2) 2(3)] vm_step_trans [OF 2(1)] by fastforce
  qed
qed

lemma mappages_ok:
  assumes "kmem_inv kend s" "pt_ok kend pt s" "0 < kend" "sz \<noteq> 0" "unat va + unat sz \<le> unat MAXVA"
    "n = Suc (page_index (va + sz - 1) - page_index va)"
    "\<And>vb. vb < MAXVA \<Longrightarrow> in_pages va n vb \<Longrightarrow> pte_val (mem s) pt vb AND PTE_V = 0"
  shows "\<exists>r s' k. mappages pt va sz pa perm s = Ret (r, s') \<and> vm_step kend pt s s' \<and>
    mapped_prefix pt (PGROUNDDOWN va) k pa perm s s' \<and>
    (r = 0 \<and> k = n \<or> r = - 1 \<and> k < n \<and> pool_empty kend s')"
proof -
  have sz: "0 < unat sz" using assms(4) by (simp add: unat_gt_0)
  have e: "unat (va + sz - 1) = unat va + unat sz - 1"
    using assms(5) sz by (simp add: unat_MAXVA unat_word_ariths unat_sub_if')
  have lst: "PGROUNDDOWN (va + sz - 1) < MAXVA"
    using assms(5) e sz by (simp add: word_less_nat_alt unat_PGROUNDDOWN unat_MAXVA)
  have "page_index va \<le> page_index (va + sz - 1)"
    using e sz by (simp add: page_index_def div_le_mono)
  then have "page_index (PGROUNDDOWN (va + sz - 1)) = page_index (PGROUNDDOWN va) + (n - 1)"
    using assms(6) by simp
  moreover have "in_pages (PGROUNDDOWN va) m vb = in_pages va m vb" for m vb
    by (simp add: in_pages_def)
  ultimately show ?thesis
    using mappages_loop_ok [OF assms(1-3) _ _ lst, of "PGROUNDDOWN va" "n - 1" pa perm] assms(4,6,7)
    by (fastforce simp: mappages_def)
qed

end
