(* ===== verification/Vm_User.thy ===== *)
theory Vm_User
  imports Vm_Maps
begin

text \<open>
  User memory. \<open>umapped\<close> and \<open>uread\<close> are the view a process has of its address space: which
  addresses are mapped for the user and which byte is there. The copy-on-write fault handler
  keeps that view and makes the page private; \<open>copyout\<close> and \<open>copyin\<close> write and read it, and
  never touch a page that another address space shares.
\<close>

definition umapped :: "memory \<Rightarrow> u64 \<Rightarrow> u64 \<Rightarrow> bool" where
  "umapped m pt va \<longleftrightarrow> va < MAXVA \<and> pte_val m pt va AND PTE_V \<noteq> 0 \<and> pte_val m pt va AND PTE_U \<noteq> 0"

definition upa :: "memory \<Rightarrow> u64 \<Rightarrow> u64 \<Rightarrow> u64" where
  "upa m pt va = PTE2PA (pte_val m pt va)"

definition uread :: "memory \<Rightarrow> u64 \<Rightarrow> u64 \<Rightarrow> u8" where
  "uread m pt va = m (upa m pt va + (va - PGROUNDDOWN va))"

definition user_ok :: "u64 \<Rightarrow> u64 \<Rightarrow> kmem \<Rightarrow> bool" where
  "user_ok kend pt s \<longleftrightarrow>
     (\<forall>va. umapped (mem s) pt va \<longrightarrow>
        page_ok kend (upa (mem s) pt va) \<and> 0 < refcnt s (page_index (upa (mem s) pt va)) \<and>
        page_index (upa (mem s) pt va) \<notin> tbl_pages (mem s) pt) \<and>
     (\<forall>va vb. umapped (mem s) pt va \<longrightarrow> umapped (mem s) pt vb \<longrightarrow>
        upa (mem s) pt va = upa (mem s) pt vb \<longrightarrow> page_index va = page_index vb)"

definition space_ok :: "u64 \<Rightarrow> u64 \<Rightarrow> kmem \<Rightarrow> bool" where
  "space_ok kend pt s \<longleftrightarrow> kmem_inv kend s \<and> pt_ok kend pt s \<and> user_ok kend pt s"

text \<open>
  A page is foreign to an address space when somebody references it and it is neither a page of
  the table nor a page only this address space maps.
\<close>

definition foreign :: "u64 \<Rightarrow> kmem \<Rightarrow> nat \<Rightarrow> bool" where
  "foreign pt s n \<longleftrightarrow> 0 < refcnt s n \<and> n \<notin> tbl_pages (mem s) pt \<and>
     ((\<exists>va. umapped (mem s) pt va \<and> page_index (upa (mem s) pt va) = n) \<longrightarrow> 1 < refcnt s n)"

definition isolated :: "u64 \<Rightarrow> kmem \<Rightarrow> kmem \<Rightarrow> bool" where
  "isolated pt s s' \<longleftrightarrow>
     (\<forall>n. foreign pt s n \<longrightarrow> foreign pt s' n \<and> (\<forall>x. page_index x = n \<longrightarrow> mem s' x = mem s x))"

lemma isolated_refl: "isolated pt s s"
  by (simp add: isolated_def)

lemma isolated_trans: "isolated pt s s' \<Longrightarrow> isolated pt s' s'' \<Longrightarrow> isolated pt s s''"
  by (auto simp: isolated_def)

section \<open>Changes outside the page table\<close>

lemma tbl_frame:
  assumes ok: "pt_ok kend pt s" and same: "\<And>x. page_index x \<in> tbl_pages (mem s) pt \<Longrightarrow> m x = mem s x"
    and "is": "idx_path is"
  shows "tbl m pt is = tbl (mem s) pt is"
proof (rule tbl_cong [OF "is"])
  fix r j a assume r: "idx_path (r @ [j])" "tbl (mem s) pt r = Some a"
  note rr = idx_path_butlast [OF r(1)]
  have "page_index a \<in> tbl_pages (mem s) pt" using rr r(2) by (auto simp: tbl_pages_def)
  then show "load64 m (a + 8 * j) = load64 (mem s) (a + 8 * j)"
    using same pt_ok_page [OF ok rr r(2)] r(1) by (auto intro!: load64_entry_cong simp: idx_path_snoc)
qed

lemma pt_frame:
  assumes ok: "pt_ok kend pt s" and same: "\<And>x. page_index x \<in> tbl_pages (mem s) pt \<Longrightarrow> mem s' x = mem s x"
  shows "leaf (mem s') pt va = leaf (mem s) pt va" "pte_val (mem s') pt va = pte_val (mem s) pt va"
    "tbl_pages (mem s') pt = tbl_pages (mem s) pt"
    "(\<And>n. n \<in> tbl_pages (mem s) pt \<Longrightarrow> refcnt s' n = refcnt s n) \<Longrightarrow> pt_ok kend pt s'"
proof -
  have tf: "idx_path is \<Longrightarrow> tbl (mem s') pt is = tbl (mem s) pt is" for "is"
    using tbl_frame [OF ok] same by blast
  show lf: "leaf (mem s') pt va = leaf (mem s) pt va" for va
    unfolding leaf_def by (simp only: tf [OF idx_path_PX(1)])
  show tp: "tbl_pages (mem s') pt = tbl_pages (mem s) pt"
    unfolding tbl_pages_def by (intro Collect_cong) (metis tf)
  show "pte_val (mem s') pt va = pte_val (mem s) pt va"
  proof (cases "leaf (mem s) pt va")
    case (Some a)
    obtain t where t: "tbl (mem s) pt [PX 2 va, PX 1 va] = Some t" "a = t + 8 * PX 0 va" "pg_aligned t"
      using leafE [OF ok Some] by blast
    have "page_index t \<in> tbl_pages (mem s) pt" unfolding tbl_pages_def using t(1) idx_path_PX(1) by blast
    then have "load64 (mem s') a = load64 (mem s) a"
      unfolding t(2) using same t(3) by (intro load64_entry_cong) auto
    then show ?thesis using lf Some by (simp add: pte_val_def)
  qed (use lf in \<open>simp add: pte_val_def\<close>)
  assume rc: "\<And>n. n \<in> tbl_pages (mem s) pt \<Longrightarrow> refcnt s' n = refcnt s n"
  have "page_index a \<in> tbl_pages (mem s) pt" if "idx_path is" "tbl (mem s) pt is = Some a" for "is" a
    using that by (auto simp: tbl_pages_def)
  then show "pt_ok kend pt s'"
    using ok rc unfolding pt_ok_def by (metis tf)
qed

lemma tbl_pages_used: "pt_ok kend pt s \<Longrightarrow> n \<in> tbl_pages (mem s) pt \<Longrightarrow> refcnt s n = 1"
  unfolding tbl_pages_def using pt_ok_page by fastforce

lemma kalloc_frame:
  assumes inv: "kmem_inv kend s" and ok: "pt_ok kend pt s" and k: "kalloc s = Ret (q, s')" "q \<noteq> 0"
  shows "kmem_inv kend s'" "page_ok kend q" "refcnt s (page_index q) = 0"
    "refcnt s' = (refcnt s)(page_index q := 1)" "\<And>x. page_index x \<noteq> page_index q \<Longrightarrow> mem s' x = mem s x"
    "pt_ok kend pt s'" "\<And>va. pte_val (mem s') pt va = pte_val (mem s) pt va"
    "tbl_pages (mem s') pt = tbl_pages (mem s) pt" "\<And>va. leaf (mem s') pt va = leaf (mem s) pt va"
    "page_index q \<notin> tbl_pages (mem s) pt"
proof -
  show a: "kmem_inv kend s'" "page_ok kend q" "refcnt s (page_index q) = 0"
      "refcnt s' = (refcnt s)(page_index q := 1)" "\<And>x. page_index x \<noteq> page_index q \<Longrightarrow> mem s' x = mem s x"
    using kpool.alloc_law [OF inv] k by auto
  show q: "page_index q \<notin> tbl_pages (mem s) pt" using tbl_pages_used [OF ok] a(3) by fastforce
  then have same: "\<And>x. page_index x \<in> tbl_pages (mem s) pt \<Longrightarrow> mem s' x = mem s x" using a(5) by metis
  show "pt_ok kend pt s'" by (rule pt_frame(4) [OF ok same]) (use a(4) q in auto)
  show "\<And>va. pte_val (mem s') pt va = pte_val (mem s) pt va" by (rule pt_frame(2) [OF ok same])
  show "tbl_pages (mem s') pt = tbl_pages (mem s) pt" by (rule pt_frame(3) [OF ok same])
  show "\<And>va. leaf (mem s') pt va = leaf (mem s) pt va" by (rule pt_frame(1) [OF ok same])
qed

lemma walkaddr_eq:
  assumes "pt_ok kend pt s" "0 < kend"
  shows "walkaddr pt va s = Ret (if umapped (mem s) pt va then upa (mem s) pt va else 0)"
proof (cases "va < MAXVA")
  case True
  then show ?thesis
    using leaf_nonzero [OF assms(1,2), of va]
    by (auto simp: walkaddr_def walk_noalloc umapped_def upa_def pte_val_def not_le [symmetric] split: option.splits)
qed (auto simp: walkaddr_def umapped_def)

section \<open>The copy-on-write fault\<close>

definition cow_entry :: "u64 \<Rightarrow> u64" where
  "cow_entry pa = PA2PTE pa OR PTE_U OR PTE_V OR PTE_W OR PTE_X OR PTE_R"

lemma cow_entry_props:
  assumes "page_ok kend pa"
  shows "PTE2PA (cow_entry pa) = pa" "cow_entry pa AND PTE_V \<noteq> 0" "cow_entry pa AND PTE_U \<noteq> 0"
    "cow_entry pa AND PTE_W \<noteq> 0" "cow_entry pa AND PTE_X \<noteq> 0"
proof -
  have e: "cow_entry pa = PA2PTE pa OR 0x1F"
    by (simp add: cow_entry_def PTE_U_def PTE_V_def PTE_W_def PTE_X_def PTE_R_def or.assoc)
  show "PTE2PA (cow_entry pa) = pa"
    unfolding e using assms page_ok_56 [OF assms] by (intro PTE2PA_PA2PTE) (simp_all add: page_ok_def)
  show "cow_entry pa AND PTE_V \<noteq> 0" "cow_entry pa AND PTE_U \<noteq> 0"
      "cow_entry pa AND PTE_W \<noteq> 0" "cow_entry pa AND PTE_X \<noteq> 0"
    by (simp_all add: PTE_bits e bit_or_iff bit_simps numeral_eq_Suc)
qed

lemma page_below_2: "page_ok kend p \<Longrightarrow> unat p + 4096 < 2 ^ 64"
  by (simp add: page_ok_def word_less_nat_alt unat_PHYSTOP)

lemma copy_page:
  assumes "page_ok kend p" "page_ok kend q"
  shows "memmove m q p 4096 x = (if page_index x = page_index q then m (p + (x - q)) else m x)"
  using assms page_below_2 [OF assms(1)] page_below_2 [OF assms(2)] in_page_iff [of q x]
  by (subst memmove_apply) (simp_all add: page_ok_def)

text \<open>The state a successful fault leaves: page \<open>q\<close> replaces the page \<open>p\<close> mapped at \<open>va\<close>.\<close>

definition cow_done :: "u64 \<Rightarrow> u64 \<Rightarrow> u64 \<Rightarrow> u64 \<Rightarrow> u64 \<Rightarrow> kmem \<Rightarrow> kmem \<Rightarrow> bool" where
  "cow_done kend pt va p q s s' \<longleftrightarrow>
     page_ok kend q \<and> refcnt s (page_index q) = 0 \<and> kmem_inv kend s' \<and> pt_ok kend pt s' \<and>
     refcnt s' = (refcnt s)(page_index q := 1, page_index p := refcnt s (page_index p) - 1) \<and>
     tbl_pages (mem s') pt = tbl_pages (mem s) pt \<and>
     (\<forall>vb < MAXVA. pte_val (mem s') pt vb =
        (if page_index vb = page_index va then cow_entry q else pte_val (mem s) pt vb)) \<and>
     (\<forall>x. page_index x = page_index q \<longrightarrow> mem s' x = mem s (p + (x - q))) \<and>
     (\<forall>x. 0 < refcnt s (page_index x) \<longrightarrow> page_index x \<notin> tbl_pages (mem s) pt \<longrightarrow>
        page_index x \<noteq> page_index p \<or> 1 < refcnt s (page_index p) \<longrightarrow> mem s' x = mem s x)"

lemma cow_copied:
  assumes inv: "kmem_inv kend s" and ok: "pt_ok kend pt s"
    and p: "page_ok kend p" "0 < refcnt s (page_index p)"
    and k: "kalloc s = Ret (q, s1)" "q \<noteq> 0" and a: "leaf (mem s) pt va = Some a" "va < MAXVA"
    and s3: "s3 = s1\<lparr>mem := store64 (memmove (mem s1) q p 4096) a v\<rparr>"
  shows "page_ok kend q" "refcnt s (page_index q) = 0" "kmem_inv kend s3" "pt_ok kend pt s3"
    "refcnt s3 = (refcnt s)(page_index q := 1)"
    "tbl_pages (mem s3) pt = tbl_pages (mem s) pt"
    "vb < MAXVA \<Longrightarrow> pte_val (mem s3) pt vb = (if page_index vb = page_index va then v else pte_val (mem s) pt vb)"
    "page_index x \<notin> tbl_pages (mem s) pt \<Longrightarrow>
       mem s3 x = (if page_index x = page_index q then mem s (p + (x - q)) else mem s x)"
    "page_index q \<notin> tbl_pages (mem s) pt"
proof -
  note kf = kalloc_frame [OF inv ok k]
  define s2 where "s2 = s1\<lparr>mem := memmove (mem s1) q p 4096\<rparr>"
  have s3': "s3 = s2\<lparr>mem := store64 (mem s2) a v\<rparr>" by (simp add: s3 s2_def)
  have pq: "page_index p \<noteq> page_index q" using p(2) kf(3) by auto
  have m2: "mem s2 x = (if page_index x = page_index q then mem s (p + (x - q)) else mem s x)" for x
  proof -
    have "page_index (p + (x - q)) = page_index p" if "page_index x = page_index q"
      using that in_page_iff [of q x] in_page_iff [of p "p + (x - q)"] kf(2) p(1) by (simp add: page_ok_def)
    then show ?thesis using kf(5) pq by (simp add: s2_def copy_page [OF p(1) kf(2)])
  qed
  have t2: "mem s2 x = mem s1 x" if "page_index x \<in> tbl_pages (mem s1) pt" for x
    using that kf(5,8,10) m2 by metis
  have "mem s2 x = mem s1 x" if "refcnt s1 (page_index x) = 0" for x
    using that kf(4,5) m2 by (auto split: if_splits)
  then have inv2: "kmem_inv kend s2" using kmem_inv_mem [OF kf(1), of "mem s2"] by (simp add: s2_def)
  have f2: "pte_val (mem s2) pt vb = pte_val (mem s) pt vb" "leaf (mem s2) pt vb = leaf (mem s) pt vb"
      "tbl_pages (mem s2) pt = tbl_pages (mem s) pt" "pt_ok kend pt s2" for vb
    using pt_frame [OF kf(6), of s2] t2 kf(7-9) by (simp_all add: s2_def)
  have l2: "leaf (mem s2) pt va = Some a" using f2(2) a by simp
  note st = store_leaf [OF inv2 f2(4) l2 s3']
  show "page_ok kend q" "refcnt s (page_index q) = 0" "page_index q \<notin> tbl_pages (mem s) pt"
    using kf by auto
  show "kmem_inv kend s3" "pt_ok kend pt s3" using st(1) by (simp_all add: vm_step_def)
  show "refcnt s3 = (refcnt s)(page_index q := 1)" using kf(4) by (simp add: s3)
  show "tbl_pages (mem s3) pt = tbl_pages (mem s) pt" using st(4) f2(3) by simp
  show "vb < MAXVA \<Longrightarrow> pte_val (mem s3) pt vb = (if page_index vb = page_index va then v else pte_val (mem s) pt vb)"
    using st(3) a(2) f2(1) by simp
  show "page_index x \<notin> tbl_pages (mem s) pt \<Longrightarrow>
       mem s3 x = (if page_index x = page_index q then mem s (p + (x - q)) else mem s x)"
    using st(5) f2(3) m2 by simp
qed

lemma cowfault_mapped:
  assumes sp: "space_ok kend pt s" and k0: "0 < kend" and um: "umapped (mem s) pt va"
  shows "(cowfault kend pt va s = Ret (- 1, s) \<and> pool_empty kend s) \<or>
    (\<exists>q s'. cowfault kend pt va s = Ret (0, s') \<and> cow_done kend pt va (upa (mem s) pt va) q s s')"
proof -
  let ?p = "upa (mem s) pt va"
  have inv: "kmem_inv kend s" and ok: "pt_ok kend pt s" and us: "user_ok kend pt s"
    using sp by (auto simp: space_ok_def)
  have p: "page_ok kend ?p" "0 < refcnt s (page_index ?p)" "page_index ?p \<notin> tbl_pages (mem s) pt"
    using us um by (auto simp: user_ok_def)
  have va: "va < MAXVA" using um by (simp add: umapped_def)
  obtain a where a: "leaf (mem s) pt va = Some a"
    using um by (cases "leaf (mem s) pt va") (auto simp: umapped_def pte_val_def)
  note a0 = leaf_nonzero [OF ok k0 a] and av = pte_val_leaf [OF a]
  obtain q s1 where k: "kalloc s = Ret (q, s1)" using kpool.alloc_law [OF inv] by blast
  show ?thesis
  proof (cases "q = 0")
    case True
    then have "cowfault kend pt va s = Ret (- 1, s)" "pool_empty kend s"
      using k kpool.alloc_law [OF inv] va a a0 av um
      by (auto simp: cowfault_def walk_noalloc umapped_def pool_empty_def Let_def)
    then show ?thesis by simp
  next
    case False
    define s3 where "s3 = s1\<lparr>mem := store64 (memmove (mem s1) q ?p 4096) a (cow_entry q)\<rparr>"
    note c = cow_copied [OF inv ok p(1,2) k False a va s3_def]
    have pq: "page_index ?p \<noteq> page_index q" using p(2) c(2) by auto
    obtain s' where f: "kfree kend ?p s3 = Ret s'" "kmem_inv kend s'"
        "refcnt s' = (refcnt s3)(page_index ?p := refcnt s3 (page_index ?p) - 1)"
        "\<And>x. 1 < refcnt s3 (page_index ?p) \<or> page_index x \<noteq> page_index ?p \<Longrightarrow> mem s' x = mem s3 x"
      using kfree_law [OF c(3) p(1)] p(2) c(5) pq by auto
    have t': "mem s' x = mem s3 x" if "page_index x \<in> tbl_pages (mem s3) pt" for x
      using that f(4) p(3) c(6) by metis
    have ok': "pt_ok kend pt s'" by (rule pt_frame(4) [OF c(4)]) (use t' f(3) p(3) c(6) in auto)
    have f': "pte_val (mem s') pt vb = pte_val (mem s3) pt vb" "tbl_pages (mem s') pt = tbl_pages (mem s3) pt" for vb
      using pt_frame(2,3) [OF c(4), of s'] t' by auto
    have "cowfault kend pt va s = Ret (0, s')"
      using k False va a a0 av um f(1)
      by (auto simp: cowfault_def walk_noalloc umapped_def upa_def Let_def s3_def cow_entry_def)
    moreover have "cow_done kend pt va ?p q s s'"
      unfolding cow_done_def using c(1,2,9) f(2) ok' f' c(5,6,7) f(3) pq f(4) c(8) by auto
    ultimately show ?thesis by blast
  qed
qed

lemma below_MAXVA_page: "va < MAXVA \<longleftrightarrow> page_index va < 2 ^ 26"
  by (simp add: word_less_nat_alt unat_MAXVA page_index_def div_less_iff_less_mult)

lemma umapped_cong: "page_index va = page_index vb \<Longrightarrow> umapped m pt va = umapped m pt vb"
  by (simp add: umapped_def pte_val_def below_MAXVA_page leaf_page_cong [of va vb])

lemma upa_cong: "page_index va = page_index vb \<Longrightarrow> upa m pt va = upa m pt vb"
  by (simp add: upa_def pte_val_def leaf_page_cong [of va vb])

lemma user_okD:
  assumes "user_ok kend pt s" "umapped (mem s) pt va"
  shows "page_ok kend (upa (mem s) pt va)" "pg_aligned (upa (mem s) pt va)"
    "0 < refcnt s (page_index (upa (mem s) pt va))" "page_index (upa (mem s) pt va) \<notin> tbl_pages (mem s) pt"
    "va < MAXVA"
proof -
  let ?p = "upa (mem s) pt va"
  have "page_ok kend ?p \<and> 0 < refcnt s (page_index ?p) \<and> page_index ?p \<notin> tbl_pages (mem s) pt"
    using assms unfolding user_ok_def by blast
  then show "page_ok kend ?p" "pg_aligned ?p" "0 < refcnt s (page_index ?p)"
      "page_index ?p \<notin> tbl_pages (mem s) pt"
    by (simp_all add: page_ok_def)
  show "va < MAXVA" using assms(2) by (simp add: umapped_def)
qed

lemma user_ok_inj:
  assumes "user_ok kend pt s" "umapped (mem s) pt va" "umapped (mem s) pt vb"
    "page_index (upa (mem s) pt va) = page_index (upa (mem s) pt vb)"
  shows "page_index va = page_index vb"
proof -
  have "upa (mem s) pt va = upa (mem s) pt vb"
    by (rule page_index_inj) (use assms user_okD(2) in auto)
  then show ?thesis using assms unfolding user_ok_def by blast
qed

lemma cow_done_umapped:
  assumes d: "cow_done kend pt va p q s s'" and um: "umapped (mem s) pt va"
  shows "umapped (mem s') pt vb = umapped (mem s) pt vb"
    "vb < MAXVA \<Longrightarrow> upa (mem s') pt vb = (if page_index vb = page_index va then q else upa (mem s) pt vb)"
proof -
  have q: "page_ok kend q" using d by (simp add: cow_done_def)
  have pv: "pte_val (mem s') pt vb =
      (if page_index vb = page_index va then cow_entry q else pte_val (mem s) pt vb)" if "vb < MAXVA" for vb
    using d that by (simp add: cow_done_def)
  show "umapped (mem s') pt vb = umapped (mem s) pt vb"
  proof (cases "page_index vb = page_index va")
    case True
    then show ?thesis
      using pv [of vb] um umapped_cong [OF True, of "mem s" pt] cow_entry_props(2,3) [OF q]
      by (auto simp: umapped_def)
  next
    case False
    then show ?thesis using pv [of vb] by (auto simp: umapped_def)
  qed
  show "vb < MAXVA \<Longrightarrow> upa (mem s') pt vb = (if page_index vb = page_index va then q else upa (mem s) pt vb)"
    using pv [of vb] cow_entry_props [OF q] by (simp add: upa_def)
qed

lemma cow_done_space:
  assumes sp: "space_ok kend pt s" and um: "umapped (mem s) pt va"
    and d: "cow_done kend pt va (upa (mem s) pt va) q s s'"
  shows "space_ok kend pt s'"
proof -
  let ?p = "upa (mem s) pt va"
  have us: "user_ok kend pt s" and ok: "pt_ok kend pt s" using sp by (auto simp: space_ok_def)
  have q: "page_ok kend q" "refcnt s (page_index q) = 0" using d by (auto simp: cow_done_def)
  have qt: "page_index q \<notin> tbl_pages (mem s) pt" using tbl_pages_used [OF ok] q(2) by fastforce
  have tp: "tbl_pages (mem s') pt = tbl_pages (mem s) pt"
    and rc: "refcnt s' = (refcnt s)(page_index q := 1, page_index ?p := refcnt s (page_index ?p) - 1)"
    using d by (auto simp: cow_done_def)
  note m = cow_done_umapped [OF d um]
  note old = user_okD [OF us] and inj = user_ok_inj [OF us um]
  have lt: "umapped (mem s) pt vb \<Longrightarrow> vb < MAXVA" for vb by (simp add: umapped_def)
  have "user_ok kend pt s'"
    unfolding user_ok_def
  proof (intro conjI allI impI)
    fix vb assume b: "umapped (mem s') pt vb"
    then have b': "umapped (mem s) pt vb" and u: "upa (mem s') pt vb = (if page_index vb = page_index va then q else upa (mem s) pt vb)"
      using m lt by auto
    show "page_ok kend (upa (mem s') pt vb)" using u q(1) old(1) [OF b'] by simp
    show "page_index (upa (mem s') pt vb) \<notin> tbl_pages (mem s') pt" using u tp qt old(4) [OF b'] by simp
    show "0 < refcnt s' (page_index (upa (mem s') pt vb))"
    proof (cases "page_index vb = page_index va")
      case True
      then show ?thesis using u rc q(2) old(3) [OF um] by auto
    next
      case False
      then show ?thesis using u rc q(2) old(3) [OF b'] inj [OF b'] by auto
    qed
    fix vc assume c: "umapped (mem s') pt vc" and e: "upa (mem s') pt vb = upa (mem s') pt vc"
    then have c': "umapped (mem s) pt vc" and uc: "upa (mem s') pt vc = (if page_index vc = page_index va then q else upa (mem s) pt vc)"
      using m lt by auto
    show "page_index vb = page_index vc"
      using e u uc q(2) old(3) [OF b'] old(3) [OF c'] user_ok_inj [OF us b' c']
      by (cases "page_index vb = page_index va"; cases "page_index vc = page_index va") auto
  qed
  then show ?thesis using d by (simp add: space_ok_def cow_done_def)
qed

lemma cow_done_uread:
  assumes sp: "space_ok kend pt s" and um: "umapped (mem s) pt va"
    and d: "cow_done kend pt va (upa (mem s) pt va) q s s'" and vb: "umapped (mem s) pt vb"
  shows "uread (mem s') pt vb = uread (mem s) pt vb"
proof -
  have us: "user_ok kend pt s" and q: "page_ok kend q" using sp d by (auto simp: space_ok_def cow_done_def)
  have lt: "vb < MAXVA" using vb by (simp add: umapped_def)
  have off: "unat (vb - PGROUNDDOWN vb) < 4096"
    using in_page_iff [OF PGROUNDDOWN_aligned, of vb vb] by simp
  note m = cow_done_umapped(2) [OF d um lt]
  have inpg: "page_index (p + (vb - PGROUNDDOWN vb)) = page_index p" if "page_ok kend p" for p
    using that off in_page_iff [of p "p + (vb - PGROUNDDOWN vb)"] by (simp add: page_ok_def)
  show ?thesis
  proof (cases "page_index vb = page_index va")
    case True
    then show ?thesis using m inpg [OF q] d upa_cong [OF True] by (simp add: uread_def cow_done_def)
  next
    case False
    note o = user_okD [OF us vb]
    have "page_index (upa (mem s) pt vb) \<noteq> page_index (upa (mem s) pt va)"
      using user_ok_inj [OF us um vb] False by auto
    then show ?thesis using m False inpg [OF o(1)] o d by (simp add: uread_def cow_done_def)
  qed
qed

lemma cow_done_isolated:
  assumes sp: "space_ok kend pt s" and um: "umapped (mem s) pt va"
    and d: "cow_done kend pt va (upa (mem s) pt va) q s s'"
  shows "isolated pt s s'"
  unfolding isolated_def
proof (intro allI impI)
  let ?p = "upa (mem s) pt va"
  fix n assume f: "foreign pt s n"
  have us: "user_ok kend pt s" using sp by (simp add: space_ok_def)
  note m = cow_done_umapped [OF d um]
  have n: "0 < refcnt s n" "n \<notin> tbl_pages (mem s) pt" "n = page_index ?p \<Longrightarrow> 1 < refcnt s n" "n \<noteq> page_index q"
    using f um d by (auto simp: foreign_def cow_done_def)
  have "1 < refcnt s' n" if v: "umapped (mem s') pt vb" "page_index (upa (mem s') pt vb) = n" for vb
  proof -
    have b: "umapped (mem s) pt vb" "vb < MAXVA" using v(1) m(1) by (auto simp: umapped_def)
    then have "page_index vb \<noteq> page_index va" using m(2) v(2) n(4) by auto
    then have u: "upa (mem s') pt vb = upa (mem s) pt vb" "n \<noteq> page_index ?p"
      using m(2) b v(2) user_ok_inj [OF us um b(1)] by auto
    then have "refcnt s' n = refcnt s n" using d n(4) by (simp add: cow_done_def)
    moreover have "1 < refcnt s n" using f b(1) v(2) u(1) unfolding foreign_def by auto
    ultimately show ?thesis by simp
  qed
  moreover have "0 < refcnt s' n" using n d by (auto simp: cow_done_def)
  moreover have "n \<notin> tbl_pages (mem s') pt" using n d by (simp add: cow_done_def)
  moreover have "mem s' x = mem s x" if "page_index x = n" for x using n d that by (simp add: cow_done_def)
  ultimately show "foreign pt s' n \<and> (\<forall>x. page_index x = n \<longrightarrow> mem s' x = mem s x)"
    by (auto simp: foreign_def)
qed

lemma cowfault_unmapped:
  assumes "pt_ok kend pt s" "0 < kend" "\<not> umapped (mem s) pt va"
  shows "cowfault kend pt va s = Ret (- 1, s)"
proof (cases "va < MAXVA")
  case True
  then show ?thesis
    using assms leaf_nonzero [OF assms(1,2), of va]
    by (auto simp: cowfault_def walk_noalloc umapped_def pte_val_def not_le [symmetric] split: option.splits)
qed (simp add: cowfault_def not_less)

text \<open>What every operation on user memory keeps.\<close>

definition user_step :: "u64 \<Rightarrow> u64 \<Rightarrow> kmem \<Rightarrow> kmem \<Rightarrow> bool" where
  "user_step kend pt s s' \<longleftrightarrow> space_ok kend pt s' \<and> isolated pt s s' \<and>
     (\<forall>vb. umapped (mem s') pt vb = umapped (mem s) pt vb)"

lemma user_step_refl: "space_ok kend pt s \<Longrightarrow> user_step kend pt s s"
  by (simp add: user_step_def isolated_refl)

lemma user_step_trans: "user_step kend pt s s' \<Longrightarrow> user_step kend pt s' s'' \<Longrightarrow> user_step kend pt s s''"
  unfolding user_step_def using isolated_trans by blast

lemma cowfault_ok:
  assumes sp: "space_ok kend pt s" and k0: "0 < kend"
  shows "\<exists>r s'. cowfault kend pt va s = Ret (r, s') \<and> user_step kend pt s s' \<and>
    (\<forall>vb. umapped (mem s) pt vb \<longrightarrow> uread (mem s') pt vb = uread (mem s) pt vb) \<and>
    (r = 0 \<and> umapped (mem s) pt va \<and> refcnt s' (page_index (upa (mem s') pt va)) = 1 \<or>
     r = - 1 \<and> s' = s \<and> (umapped (mem s) pt va \<longrightarrow> pool_empty kend s))"
proof (cases "umapped (mem s) pt va")
  case False
  then show ?thesis
    using cowfault_unmapped [OF _ k0 False] sp user_step_refl [OF sp] by (auto simp: space_ok_def)
next
  case um: True
  let ?p = "upa (mem s) pt va"
  consider "cowfault kend pt va s = Ret (- 1, s)" "pool_empty kend s"
    | q s' where "cowfault kend pt va s = Ret (0, s')" "cow_done kend pt va ?p q s s'"
    using cowfault_mapped [OF sp k0 um] by blast
  then show ?thesis
  proof cases
    case 1
    then show ?thesis using user_step_refl [OF sp] by simp
  next
    case (2 q s')
    have "refcnt s (page_index ?p) \<noteq> 0" using user_okD(3) [OF _ um] sp by (fastforce simp: space_ok_def)
    then have "refcnt s' (page_index (upa (mem s') pt va)) = 1"
      using cow_done_umapped(2) [OF 2(2) um, of va] um 2(2) by (auto simp: cow_done_def umapped_def)
    moreover have "user_step kend pt s s'"
      using cow_done_space [OF sp um 2(2)] cow_done_isolated [OF sp um 2(2)] cow_done_umapped(1) [OF 2(2) um]
      by (simp add: user_step_def)
    ultimately show ?thesis using 2(1) um cow_done_uread [OF sp um 2(2)] by auto
  qed
qed

section \<open>Writing and reading user memory\<close>

lemma in_chunk_page:
  assumes "pg_aligned p" "unat off + n \<le> 4096" "unat (x - (p + off)) < n"
  shows "page_index x = page_index p"
proof -
  have "unat (x - p) = unat (x - (p + off)) + unat off"
  proof -
    have "x - p = (x - (p + off)) + off" by simp
    moreover have "unat ((x - (p + off)) + off) = unat (x - (p + off)) + unat off"
      using assms(2,3) by (subst unat_word_ariths) simp
    ultimately show ?thesis by simp
  qed
  then show ?thesis using assms in_page_iff [of p x] by simp
qed

lemma user_write:
  assumes sp: "space_ok kend pt s" and um: "umapped (mem s) pt (PGROUNDDOWN dst)"
    and pr: "refcnt s (page_index p) = 1" and p: "p = upa (mem s) pt (PGROUNDDOWN dst)"
    and bs: "unat (dst - PGROUNDDOWN dst) + length bs \<le> 4096"
    and s': "s' = s\<lparr>mem := write_bytes (mem s) (p + (dst - PGROUNDDOWN dst)) bs\<rparr>"
  shows "user_step kend pt s s'"
    "umapped (mem s) pt vb \<Longrightarrow> uread (mem s') pt vb =
       (if unat (vb - dst) < length bs then bs ! unat (vb - dst) else uread (mem s) pt vb)"
proof -
  let ?off = "dst - PGROUNDDOWN dst"
  have inv: "kmem_inv kend s" and ok: "pt_ok kend pt s" and us: "user_ok kend pt s"
    using sp by (auto simp: space_ok_def)
  note pk = user_okD [OF us um, folded p]
  have m: "mem s' x = (if unat (x - (p + ?off)) < length bs then bs ! unat (x - (p + ?off)) else mem s x)" for x
    using bs by (simp add: s' write_bytes_apply)
  have other: "page_index x \<noteq> page_index p \<Longrightarrow> mem s' x = mem s x" for x
    using in_chunk_page [OF pk(2) bs] by (auto simp: m)
  have rc: "refcnt s' = refcnt s" by (simp add: s')
  have "kmem_inv kend (s\<lparr>mem := mem s'\<rparr>)" using other pr by (intro kmem_inv_mem [OF inv]) (metis zero_neq_one)
  then have inv': "kmem_inv kend s'" by (simp add: s')
  have tsame: "\<And>x. page_index x \<in> tbl_pages (mem s) pt \<Longrightarrow> mem s' x = mem s x" using other pk(4) by metis
  have ok': "pt_ok kend pt s'" by (rule pt_frame(4) [OF ok]) (use tsame rc in auto)
  have f: "pte_val (mem s') pt v = pte_val (mem s) pt v" "tbl_pages (mem s') pt = tbl_pages (mem s) pt" for v
    using pt_frame(2,3) [OF ok, of s'] tsame by auto
  then have v: "umapped (mem s') pt v = umapped (mem s) pt v" "upa (mem s') pt v = upa (mem s) pt v" for v
    by (simp_all add: umapped_def upa_def)
  have "user_ok kend pt s'" using us unfolding user_ok_def v f(2) rc .
  moreover have "isolated pt s s'"
    unfolding isolated_def
  proof (intro allI impI)
    fix n assume fo: "foreign pt s n"
    have "n \<noteq> page_index p" using fo um p pr unfolding foreign_def by auto
    then show "foreign pt s' n \<and> (\<forall>x. page_index x = n \<longrightarrow> mem s' x = mem s x)"
      using fo other by (simp add: foreign_def v f rc)
  qed
  ultimately show "user_step kend pt s s'" using inv' ok' v(1) by (simp add: user_step_def space_ok_def)
  assume b: "umapped (mem s) pt vb"
  have dpg: "page_index (PGROUNDDOWN dst) = page_index dst" by simp
  show "uread (mem s') pt vb = (if unat (vb - dst) < length bs then bs ! unat (vb - dst) else uread (mem s) pt vb)"
  proof (cases "page_index vb = page_index dst")
    case True
    then have e: "upa (mem s) pt vb = p" "PGROUNDDOWN vb = PGROUNDDOWN dst"
      using upa_cong [of vb "PGROUNDDOWN dst"] p PGROUNDDOWN_page [of "PGROUNDDOWN dst" vb] by auto
    show ?thesis by (simp add: uread_def v m e)
  next
    case False
    then have "page_index (upa (mem s) pt vb) \<noteq> page_index p"
      using user_ok_inj [OF us b um] p by auto
    moreover have "page_index (upa (mem s) pt vb + (vb - PGROUNDDOWN vb)) = page_index (upa (mem s) pt vb)"
      using user_okD(2) [OF us b] in_page_iff [of "upa (mem s) pt vb" "upa (mem s) pt vb + (vb - PGROUNDDOWN vb)"]
        in_page_iff [of "PGROUNDDOWN vb" vb] by simp
    moreover have "\<not> unat (vb - dst) < length bs"
      using in_chunk_page [of "PGROUNDDOWN dst" ?off "length bs" vb] bs False by auto
    ultimately show ?thesis using other by (simp add: uread_def v)
  qed
qed

lemma unat_off: "unat (a - PGROUNDDOWN a) < 4096"
  using in_page_iff [OF PGROUNDDOWN_aligned, of a a] by simp

lemma unat_rest: "unat (PGSIZE - (a - PGROUNDDOWN a)) = 4096 - unat (a - PGROUNDDOWN a)"
  using unat_off [of a] by (subst unat_sub) (simp_all add: word_le_nat_alt)

lemma chunk_page:
  assumes "i < n" "unat (a - PGROUNDDOWN a) + n \<le> 4096"
  shows "page_index (a + of_nat i) = page_index a"
proof -
  have "unat (of_nat i :: u64) = i" using assms by (simp add: unat_of_nat take_bit_nat_eq_self)
  then show ?thesis
    using in_chunk_page [of "PGROUNDDOWN a" "a - PGROUNDDOWN a" n "a + of_nat i"] assms by simp
qed

lemma next_page: "a + of_nat (4096 - unat (a - PGROUNDDOWN a)) = PGROUNDDOWN a + PGSIZE"
proof -
  have "of_nat (4096 - unat (a - PGROUNDDOWN a)) = PGSIZE - (a - PGROUNDDOWN a)"
    unfolding unat_rest [symmetric] by simp
  then show ?thesis by (simp add: algebra_simps)
qed

lemma upa_nonzero: "user_ok kend pt s \<Longrightarrow> umapped (mem s) pt va \<Longrightarrow> 0 < kend \<Longrightarrow> upa (mem s) pt va \<noteq> 0"
  using user_okD(1) [of kend pt s va] by (auto simp: page_ok_def)

definition range_mapped :: "memory \<Rightarrow> u64 \<Rightarrow> u64 \<Rightarrow> nat \<Rightarrow> bool" where
  "range_mapped m pt va n \<longleftrightarrow> (\<forall>i < n. umapped m pt (va + of_nat i))"

definition user_bytes :: "memory \<Rightarrow> u64 \<Rightarrow> u64 \<Rightarrow> nat \<Rightarrow> u8 list" where
  "user_bytes m pt va n = map (\<lambda>i. uread m pt (va + of_nat i)) [0..<n]"

lemma range_mapped_chunk:
  assumes "0 < n" "unat (va - PGROUNDDOWN va) + n \<le> 4096"
  shows "range_mapped m pt va n = umapped m pt (PGROUNDDOWN va)"
  using chunk_page [OF _ assms(2)] umapped_cong [of _ "PGROUNDDOWN va" m pt] assms(1)
  unfolding range_mapped_def page_index_PGROUNDDOWN by (metis)

lemma range_mapped_add:
  "range_mapped m pt va (n + k) = (range_mapped m pt va n \<and> range_mapped m pt (va + of_nat n) k)"
proof -
  have "i < n + k \<longleftrightarrow> i < n \<or> (\<exists>j < k. i = n + j)" for i by presburger
  then show ?thesis unfolding range_mapped_def by (auto simp: algebra_simps)
qed

lemma user_bytes_add: "user_bytes m pt va (n + k) = user_bytes m pt va n @ user_bytes m pt (va + of_nat n) k"
  by (rule nth_equalityI) (auto simp: user_bytes_def nth_append)

lemma user_bytes_chunk:
  assumes "unat (va - PGROUNDDOWN va) + n \<le> 4096"
  shows "read_bytes m (upa m pt (PGROUNDDOWN va) + (va - PGROUNDDOWN va)) n = user_bytes m pt va n"
proof (rule nth_equalityI)
  fix i assume "i < length (read_bytes m (upa m pt (PGROUNDDOWN va) + (va - PGROUNDDOWN va)) n)"
  then have i: "i < n" by simp
  have pg: "page_index (va + of_nat i) = page_index (PGROUNDDOWN va)"
    using chunk_page [OF i assms] by simp
  have "PGROUNDDOWN (va + of_nat i) = PGROUNDDOWN va" "upa m pt (va + of_nat i) = upa m pt (PGROUNDDOWN va)"
    by (rule PGROUNDDOWN_page [OF PGROUNDDOWN_aligned pg], rule upa_cong [OF pg])
  then show "read_bytes m (upa m pt (PGROUNDDOWN va) + (va - PGROUNDDOWN va)) n ! i = user_bytes m pt va n ! i"
    using i by (simp add: user_bytes_def uread_def algebra_simps)
qed (simp add: user_bytes_def)

definition chunk :: "u64 \<Rightarrow> nat \<Rightarrow> nat" where
  "chunk va len = min (unat (PGSIZE - (va - PGROUNDDOWN va))) len"

lemma chunk_props:
  "len \<noteq> 0 \<Longrightarrow> 0 < chunk va len" "unat (va - PGROUNDDOWN va) + chunk va len \<le> 4096" "chunk va len \<le> len"
  using unat_off [of va] by (auto simp: chunk_def unat_rest)

lemma chunk_next: "chunk va len < len \<Longrightarrow> va + of_nat (chunk va len) = PGROUNDDOWN va + PGSIZE"
proof -
  assume "chunk va len < len"
  then have "chunk va len = 4096 - unat (va - PGROUNDDOWN va)" by (simp add: chunk_def unat_rest)
  then show ?thesis using next_page by simp
qed

lemma range_mapped_split:
  assumes "len \<noteq> 0"
  shows "range_mapped m pt va len \<longleftrightarrow>
    umapped m pt (PGROUNDDOWN va) \<and> range_mapped m pt (PGROUNDDOWN va + PGSIZE) (len - chunk va len)"
proof -
  note c = chunk_props [where va = va and len = len] and rc = range_mapped_chunk [OF c(1) c(2)]
  show ?thesis
  proof (cases "chunk va len < len")
    case True
    then have "len = chunk va len + (len - chunk va len)" by simp
    then show ?thesis using rc [OF assms] range_mapped_add chunk_next [OF True] by metis
  next
    case False
    then have "chunk va len = len" using c(3) by simp
    then show ?thesis using rc [OF assms, of m pt] by (simp add: range_mapped_def)
  qed
qed

lemma user_bytes_split:
  "user_bytes m pt va len =
     user_bytes m pt va (chunk va len) @ user_bytes m pt (PGROUNDDOWN va + PGSIZE) (len - chunk va len)"
proof (cases "chunk va len < len")
  case True
  then have "len = chunk va len + (len - chunk va len)" by simp
  then show ?thesis using user_bytes_add chunk_next [OF True] by metis
next
  case False
  then have "chunk va len = len" using chunk_props(3) by (simp add: le_antisym not_less)
  then show ?thesis by (simp add: user_bytes_def)
qed

lemma copyin_step:
  assumes "pt_ok kend pt s" "user_ok kend pt s" "0 < kend" "len \<noteq> 0"
  shows "copyin pt va len s =
    (if umapped (mem s) pt (PGROUNDDOWN va)
     then rbind (copyin pt (PGROUNDDOWN va + PGSIZE) (len - chunk va len) s)
            (\<lambda>(r, rest). Ret (r, user_bytes (mem s) pt va (chunk va len) @ rest))
     else Ret (- 1, []))"
proof -
  have uc: "read_bytes (mem s) (upa (mem s) pt (PGROUNDDOWN va) + (va - PGROUNDDOWN va)) (chunk va len)
      = user_bytes (mem s) pt va (chunk va len)"
    by (rule user_bytes_chunk [OF chunk_props(2)])
  show ?thesis
    using assms(4) upa_nonzero [OF assms(2) _ assms(3), of "PGROUNDDOWN va"]
    by (subst copyin.simps) (simp add: Let_def walkaddr_eq [OF assms(1,3)] chunk_def [symmetric] uc)
qed

lemma copyin_ok:
  assumes "space_ok kend pt s" "0 < kend"
  shows "\<exists>bs. copyin pt va len s = Ret (if range_mapped (mem s) pt va len then 0 else - 1, bs) \<and>
    (range_mapped (mem s) pt va len \<longrightarrow> bs = user_bytes (mem s) pt va len)"
proof (induction len arbitrary: va rule: less_induct)
  case (less len)
  show ?case
  proof (cases "len = 0")
    case True
    then show ?thesis by (subst copyin.simps) (simp add: range_mapped_def user_bytes_def)
  next
    case False
    let ?v = "PGROUNDDOWN va + PGSIZE" and ?k = "len - chunk va len"
    have "?k < len" using chunk_props(1) [OF False, of va] False by simp
    then obtain bs where "copyin pt ?v ?k s = Ret (if range_mapped (mem s) pt ?v ?k then 0 else - 1, bs)"
        "range_mapped (mem s) pt ?v ?k \<longrightarrow> bs = user_bytes (mem s) pt ?v ?k"
      using less by blast
    then show ?thesis
      using copyin_step [of kend pt s len va] assms False range_mapped_split [OF False, of "mem s" pt va]
        user_bytes_split [of "mem s" pt va len]
      by (simp add: space_ok_def)
  qed
qed

lemma copyout_step:
  assumes "space_ok kend pt s" "0 < kend" "src \<noteq> []" and n_def: "n = chunk dst (length src)"
  shows "(copyout kend pt dst src s = Ret (- 1, s) \<and> (umapped (mem s) pt (PGROUNDDOWN dst) \<longrightarrow> pool_empty kend s)) \<or>
    (\<exists>s'. copyout kend pt dst src s = copyout kend pt (PGROUNDDOWN dst + PGSIZE) (drop n src) s' \<and>
       umapped (mem s) pt (PGROUNDDOWN dst) \<and> user_step kend pt s s' \<and>
       (\<forall>vb. umapped (mem s) pt vb \<longrightarrow> uread (mem s') pt vb =
          (if unat (vb - dst) < n then src ! unat (vb - dst) else uread (mem s) pt vb)))"
proof -
  let ?v = "PGROUNDDOWN dst"
  obtain r s1 where c: "cowfault kend pt ?v s = Ret (r, s1)" "user_step kend pt s s1"
      "\<forall>vb. umapped (mem s) pt vb \<longrightarrow> uread (mem s1) pt vb = uread (mem s) pt vb"
      "r = 0 \<and> umapped (mem s) pt ?v \<and> refcnt s1 (page_index (upa (mem s1) pt ?v)) = 1 \<or>
       r = - 1 \<and> s1 = s \<and> (umapped (mem s) pt ?v \<longrightarrow> pool_empty kend s)"
    using cowfault_ok [OF assms(1,2), of ?v] by blast
  have mx: "umapped (mem s) pt ?v \<Longrightarrow> \<not> ?v > MAXVA" by (auto simp: umapped_def)
  show ?thesis
  proof (cases "r = 0")
    case False
    then show ?thesis using c(1,4) assms(3) mx by (subst (1 2) copyout.simps) (auto simp: Let_def)
  next
    case True
    then have um: "umapped (mem s) pt ?v" "refcnt s1 (page_index (upa (mem s1) pt ?v)) = 1" using c(4) by auto
    define s2 where "s2 = s1\<lparr>mem := write_bytes (mem s1) (upa (mem s1) pt ?v + (dst - ?v)) (take n src)\<rparr>"
    have sp1: "space_ok kend pt s1" "umapped (mem s1) pt vb = umapped (mem s) pt vb" for vb
      using c(2) by (auto simp: user_step_def)
    have len: "length (take n src) = n" using chunk_props(3) [of dst "length src"] by (simp add: n_def)
    have fits: "unat (dst - ?v) + length (take n src) \<le> 4096"
      unfolding len unfolding n_def by (rule chunk_props(2))
    note w = user_write [OF sp1(1) _ um(2) refl fits s2_def]
    have "walkaddr pt ?v s1 = Ret (upa (mem s1) pt ?v)" "upa (mem s1) pt ?v \<noteq> 0"
      using walkaddr_eq [of kend pt s1 ?v] upa_nonzero [of kend pt s1 ?v] sp1 um assms(2) by (auto simp: space_ok_def)
    then have "copyout kend pt dst src s = copyout kend pt (?v + PGSIZE) (drop n src) s2"
      using c(1) True assms(3) mx um(1)
      by (subst (1) copyout.simps) (simp add: Let_def chunk_def [symmetric] n_def [symmetric] s2_def)
    moreover have "user_step kend pt s s2"
      using user_step_trans [OF c(2) w(1)] sp1(2) um(1) by blast
    moreover have "uread (mem s2) pt vb = (if unat (vb - dst) < n then src ! unat (vb - dst) else uread (mem s) pt vb)"
      if "umapped (mem s) pt vb" for vb
      using w(2) [of vb, unfolded len] sp1(2) um(1) c(3) that by simp
    ultimately show ?thesis using um(1) by blast
  qed
qed

lemma unat_sub_add:
  fixes a b :: u64
  assumes "unat (b - (a + of_nat n)) < k" "n + k \<le> 2 ^ 64"
  shows "unat (b - a) < n + k" "n \<le> unat (b - a)"
proof -
  have n: "unat (of_nat n :: u64) = n" using assms by (simp add: unat_of_nat take_bit_nat_eq_self)
  have "b - a = (b - (a + of_nat n)) + of_nat n" by simp
  then have "unat (b - a) = (unat (b - (a + of_nat n)) + n) mod 2 ^ 64"
    using n unat_word_ariths(1) [of "b - (a + of_nat n)" "of_nat n"] by simp
  then have "unat (b - a) = unat (b - (a + of_nat n)) + n" using assms by simp
  then show "unat (b - a) < n + k" "n \<le> unat (b - a)" using assms by auto
qed

text \<open>
  The outcome of \<open>copyout\<close>: bytes outside the destination keep their value, and either the
  whole range is mapped and now holds the source, or the range is not mapped, or memory ran out.
\<close>

definition copied_out :: "u64 \<Rightarrow> u64 \<Rightarrow> u64 \<Rightarrow> u8 list \<Rightarrow> kmem \<Rightarrow> int \<Rightarrow> kmem \<Rightarrow> bool" where
  "copied_out kend pt dst src s r s' \<longleftrightarrow> user_step kend pt s s' \<and>
     (\<forall>vb. umapped (mem s) pt vb \<longrightarrow> \<not> unat (vb - dst) < length src \<longrightarrow>
        uread (mem s') pt vb = uread (mem s) pt vb) \<and>
     (r = 0 \<and> range_mapped (mem s) pt dst (length src) \<and> user_bytes (mem s') pt dst (length src) = src \<or>
      r = - 1 \<and> (range_mapped (mem s) pt dst (length src) \<longrightarrow> pool_empty kend s'))"

lemma copied_out_empty: "space_ok kend pt s \<Longrightarrow> copied_out kend pt dst [] s 0 s"
  by (simp add: copied_out_def user_step_refl range_mapped_def user_bytes_def)

lemma copied_out_cons:
  assumes n: "n = chunk dst (length src)" and src: "src \<noteq> []" "length src < 2 ^ 64"
    and um: "umapped (mem s) pt (PGROUNDDOWN dst)" and st: "user_step kend pt s s1"
    and wr: "\<And>vb. umapped (mem s) pt vb \<Longrightarrow> uread (mem s1) pt vb =
        (if unat (vb - dst) < n then src ! unat (vb - dst) else uread (mem s) pt vb)"
    and co: "copied_out kend pt (PGROUNDDOWN dst + PGSIZE) (drop n src) s1 r s'"
  shows "copied_out kend pt dst src s r s'"
proof -
  let ?v = "PGROUNDDOWN dst" and ?L = "length src"
  have nL: "n \<le> ?L" using chunk_props(3) by (simp add: n)
  have um1: "umapped (mem s1) pt vb = umapped (mem s) pt vb" for vb using st by (simp add: user_step_def)
  have rm: "range_mapped (mem s) pt dst ?L \<longleftrightarrow> range_mapped (mem s1) pt (?v + PGSIZE) (?L - n)"
    using range_mapped_split [of ?L "mem s" pt dst] um src by (simp add: n range_mapped_def um1)
  have later: "unat (vb - dst) < ?L \<and> n \<le> unat (vb - dst)" if "unat (vb - (?v + PGSIZE)) < ?L - n" for vb
  proof -
    have "dst + of_nat n = ?v + PGSIZE" using that chunk_next [of dst ?L] by (simp add: n)
    then show ?thesis using unat_sub_add [of vb dst n "?L - n"] that nL src(2) by simp
  qed
  have keep: "uread (mem s') pt vb = uread (mem s1) pt vb" if "umapped (mem s) pt vb" "unat (vb - dst) < n \<or> ?L \<le> unat (vb - dst)" for vb
    using co that later [of vb] um1 unfolding copied_out_def by fastforce
  have first: "user_bytes (mem s') pt dst n = take n src" if "range_mapped (mem s) pt dst ?L"
  proof (rule nth_equalityI)
    fix i assume "i < length (user_bytes (mem s') pt dst n)"
    then have i: "i < n" by (simp add: user_bytes_def)
    have "unat (of_nat i :: u64) = i" using i nL src(2) by (simp add: unat_of_nat take_bit_nat_eq_self)
    moreover have "umapped (mem s) pt (dst + of_nat i)" using that i nL by (simp add: range_mapped_def)
    ultimately show "user_bytes (mem s') pt dst n ! i = take n src ! i"
      using i keep [of "dst + of_nat i"] wr [of "dst + of_nat i"] by (simp add: user_bytes_def)
  qed (use nL in \<open>simp add: user_bytes_def\<close>)
  have "user_bytes (mem s') pt dst ?L = src"
    if "user_bytes (mem s') pt (?v + PGSIZE) (?L - n) = drop n src" "range_mapped (mem s) pt dst ?L"
    using that first user_bytes_split [of "mem s'" pt dst ?L] by (simp add: n [symmetric])
  moreover have "uread (mem s') pt vb = uread (mem s) pt vb"
    if "umapped (mem s) pt vb" "\<not> unat (vb - dst) < ?L" for vb
    using that keep [of vb] wr [of vb] nL by simp
  moreover have "user_step kend pt s s'" using co user_step_trans [OF st] by (simp add: copied_out_def)
  ultimately show ?thesis using co rm by (auto simp: copied_out_def)
qed

lemma copyout_ok:
  assumes "space_ok kend pt s" "0 < kend" "length src < 2 ^ 64"
  shows "\<exists>r s'. copyout kend pt dst src s = Ret (r, s') \<and> copied_out kend pt dst src s r s'"
  using assms
proof (induction "length src" arbitrary: dst src s rule: less_induct)
  case less
  let ?v = "PGROUNDDOWN dst"
  show ?case
  proof (cases "src = []")
    case True
    then show ?thesis using copied_out_empty [OF less(2)] by (subst copyout.simps) simp
  next
    case False
    define n where "n = chunk dst (length src)"
    have n0: "0 < n" using chunk_props(1) [of "length src" dst] False by (simp add: n_def)
    consider "copyout kend pt dst src s = Ret (- 1, s)" "umapped (mem s) pt ?v \<longrightarrow> pool_empty kend s"
      | s1 where "copyout kend pt dst src s = copyout kend pt (?v + PGSIZE) (drop n src) s1"
        "umapped (mem s) pt ?v" "user_step kend pt s s1"
        "\<forall>vb. umapped (mem s) pt vb \<longrightarrow> uread (mem s1) pt vb =
          (if unat (vb - dst) < n then src ! unat (vb - dst) else uread (mem s) pt vb)"
      using copyout_step [OF less(2,3) False n_def] by blast
    then show ?thesis
    proof cases
      case 1
      then show ?thesis
        using user_step_refl [OF less(2)] range_mapped_split [of "length src"] False by (auto simp: copied_out_def)
    next
      case (2 s1)
      have sp1: "space_ok kend pt s1" using 2(3) by (simp add: user_step_def)
      have shorter: "length (drop n src) < length src" "length (drop n src) < 2 ^ 64" using n0 False less(4) by simp_all
      obtain r s' where "copyout kend pt (?v + PGSIZE) (drop n src) s1 = Ret (r, s')"
          "copied_out kend pt (?v + PGSIZE) (drop n src) s1 r s'"
        using less(1) [OF shorter(1) sp1 less(3) shorter(2)] by blast
      then show ?thesis using copied_out_cons [OF n_def False less(4) 2(2,3)] 2(1,4) by auto
    qed
  qed
qed

end
