(* ===== verification/Vm_Cow.thy ===== *)
theory Vm_Cow
  imports Vm_User
begin

text \<open>
  Releasing and sharing the pages of a user image: \<open>uvmunmap\<close> drops one reference per page and
  clears the entries, \<open>uvmcopy\<close> gives a child the same pages read-only and counts them up. The
  section on fork puts the pieces together: parent and child see the same memory, and a write
  by one of them is never visible to the other.
\<close>

section \<open>Regions of an address space\<close>

definition region_ok :: "u64 \<Rightarrow> u64 \<Rightarrow> u64 \<Rightarrow> nat \<Rightarrow> kmem \<Rightarrow> bool" where
  "region_ok kend pt a n s \<longleftrightarrow>
     page_index a + n \<le> 2 ^ 26 \<and>
     (\<forall>va. in_pages a n va \<longrightarrow>
        pte_val (mem s) pt va AND PTE_V \<noteq> 0 \<and> pte_val (mem s) pt va AND PTE_R \<noteq> 0 \<and>
        page_ok kend (upa (mem s) pt va) \<and> 0 < refcnt s (page_index (upa (mem s) pt va)) \<and>
        page_index (upa (mem s) pt va) \<notin> tbl_pages (mem s) pt) \<and>
     (\<forall>va vb. in_pages a n va \<longrightarrow> in_pages a n vb \<longrightarrow>
        page_index (upa (mem s) pt va) = page_index (upa (mem s) pt vb) \<longrightarrow> page_index va = page_index vb)"

definition region_pages :: "memory \<Rightarrow> u64 \<Rightarrow> u64 \<Rightarrow> nat \<Rightarrow> nat set" where
  "region_pages m pt a n = {page_index (upa m pt va) | va. in_pages a n va}"

lemma region_okD:
  assumes "region_ok kend pt a n s" "in_pages a n va"
  shows "pte_val (mem s) pt va AND PTE_V \<noteq> 0" "pte_val (mem s) pt va AND PTE_R \<noteq> 0"
    "page_ok kend (upa (mem s) pt va)" "0 < refcnt s (page_index (upa (mem s) pt va))"
    "page_index (upa (mem s) pt va) \<notin> tbl_pages (mem s) pt" "va < MAXVA"
  using assms unfolding region_ok_def in_pages_def below_MAXVA_page by (blast, blast, blast, blast, blast, linarith)

lemma region_ok_inj:
  assumes "region_ok kend pt a n s" "in_pages a n va" "in_pages a n vb"
    "page_index (upa (mem s) pt va) = page_index (upa (mem s) pt vb)"
  shows "page_index va = page_index vb"
  using assms unfolding region_ok_def by blast

lemma region_leaf:
  assumes "region_ok kend pt a n s" "in_pages a n va" "pt_ok kend pt s" "0 < kend"
  obtains p where "leaf (mem s) pt va = Some p" "p \<noteq> 0" "load64 (mem s) p = pte_val (mem s) pt va"
    "walk pt va False s = Ret (p, s)"
proof -
  note r = region_okD [OF assms(1,2)]
  obtain p where p: "leaf (mem s) pt va = Some p"
    using r(1) by (cases "leaf (mem s) pt va") (auto simp: pte_val_def)
  then show ?thesis
    using that leaf_nonzero [OF assms(3,4) p] pte_val_leaf [OF p] walk_noalloc [OF r(6)] by simp
qed

lemma PTE_FLAGS_leaf: "e AND PTE_R \<noteq> 0 \<Longrightarrow> PTE_FLAGS e \<noteq> PTE_V"
proof
  assume e: "e AND PTE_R \<noteq> 0" "PTE_FLAGS e = PTE_V"
  have "bit (PTE_FLAGS e) 1" using e(1) by (simp add: PTE_bits PTE_FLAGS_def bit_and_iff bit_simps numeral_eq_Suc)
  then show False unfolding e(2) by (simp add: PTE_V_def)
qed

lemma in_pages_first [simp]: "in_pages a (Suc n) a"
  by (simp add: in_pages_def)

section \<open>Unmapping\<close>

definition unmapped_to :: "u64 \<Rightarrow> u64 \<Rightarrow> u64 \<Rightarrow> nat \<Rightarrow> kmem \<Rightarrow> kmem \<Rightarrow> bool" where
  "unmapped_to kend pt a n s s' \<longleftrightarrow>
     kmem_inv kend s' \<and> pt_ok kend pt s' \<and> tbl_pages (mem s') pt = tbl_pages (mem s) pt \<and>
     (\<forall>q. refcnt s' q = (if q \<in> region_pages (mem s) pt a n then refcnt s q - 1 else refcnt s q)) \<and>
     (\<forall>vb < MAXVA. pte_val (mem s') pt vb = (if in_pages a n vb then 0 else pte_val (mem s) pt vb)) \<and>
     (\<forall>x. page_index x \<notin> tbl_pages (mem s) pt \<longrightarrow>
        (page_index x \<in> region_pages (mem s) pt a n \<longrightarrow> 1 < refcnt s (page_index x)) \<longrightarrow> mem s' x = mem s x)"

lemma region_pages_0 [simp]: "region_pages m pt a 0 = {}"
  by (auto simp: region_pages_def in_pages_def)

lemma in_pages_1: "in_pages a (Suc 0) vb \<longleftrightarrow> page_index vb = page_index a"
  by (auto simp: in_pages_def)

lemma region_pages_1: "region_pages m pt a (Suc 0) = {page_index (upa m pt a)}"
  unfolding region_pages_def in_pages_1 by (intro set_eqI) (simp, metis upa_cong)

lemma unmap_one:
  assumes inv: "kmem_inv kend s" and ok: "pt_ok kend pt s"
    and rg: "region_ok kend pt a (Suc n) s" and lf: "leaf (mem s) pt a = Some pte"
  shows "\<exists>s1. kfree kend (upa (mem s) pt a) s = Ret s1 \<and>
    unmapped_to kend pt a (Suc 0) s (s1\<lparr>mem := store64 (mem s1) pte 0\<rparr>)"
proof -
  let ?p = "upa (mem s) pt a"
  note r = region_okD [OF rg in_pages_first]
  obtain s1 where f: "kfree kend ?p s = Ret s1" "kmem_inv kend s1"
      "refcnt s1 = (refcnt s)(page_index ?p := refcnt s (page_index ?p) - 1)"
      "\<And>x. 1 < refcnt s (page_index ?p) \<or> page_index x \<noteq> page_index ?p \<Longrightarrow> mem s1 x = mem s x"
    using kfree_law [OF inv r(3,4)] by blast
  have t1: "mem s1 x = mem s x" if "page_index x \<in> tbl_pages (mem s) pt" for x
    using that f(4) r(5) by metis
  have ok1: "pt_ok kend pt s1" by (rule pt_frame(4) [OF ok]) (use t1 f(3) r(5) in auto)
  have f1: "leaf (mem s1) pt vb = leaf (mem s) pt vb" "pte_val (mem s1) pt vb = pte_val (mem s) pt vb"
      "tbl_pages (mem s1) pt = tbl_pages (mem s) pt" for vb
    using pt_frame(1-3) [OF ok, of s1] t1 by auto
  have l1: "leaf (mem s1) pt a = Some pte" using f1(1) lf by simp
  note st = store_leaf [OF f(2) ok1 l1 refl, where v = 0]
  have "unmapped_to kend pt a (Suc 0) s (s1\<lparr>mem := store64 (mem s1) pte 0\<rparr>)"
    unfolding unmapped_to_def region_pages_1 in_pages_1
    using st(1) st(3) [OF r(6)] st(4,5) f1 f(3,4) by (auto simp: vm_step_def)
  then show ?thesis using f(1) by blast
qed

lemma upa_pte_cong: "pte_val m pt va = pte_val m' pt va \<Longrightarrow> upa m pt va = upa m' pt va"
  by (simp add: upa_def)

lemma unmap_rest:
  assumes al: "pg_aligned a" and rg: "region_ok kend pt a (Suc n) s"
    and u: "unmapped_to kend pt a (Suc 0) s s1"
  shows "region_ok kend pt (a + PGSIZE) n s1"
    "region_pages (mem s1) pt (a + PGSIZE) n = region_pages (mem s) pt (a + PGSIZE) n"
    "region_pages (mem s) pt a (Suc n) = insert (page_index (upa (mem s) pt a)) (region_pages (mem s) pt (a + PGSIZE) n)"
    "page_index (upa (mem s) pt a) \<notin> region_pages (mem s) pt (a + PGSIZE) n"
proof -
  have a: "a < MAXVA" by (rule region_okD(6) [OF rg in_pages_first])
  note ps = page_index_step [OF al a] and sp = in_pages_Suc [OF al a]
  have ne: "page_index va \<noteq> page_index a" if "in_pages (a + PGSIZE) n va" for va
    using that ps by (auto simp: in_pages_def)
  have in': "in_pages a (Suc n) va" "va < MAXVA" if "in_pages (a + PGSIZE) n va" for va
    using that sp region_okD(6) [OF rg] by blast+
  have pv: "pte_val (mem s1) pt va = pte_val (mem s) pt va" "upa (mem s1) pt va = upa (mem s) pt va"
    if "in_pages (a + PGSIZE) n va" for va
    using u ne [OF that] in'(2) [OF that] by (auto simp: unmapped_to_def in_pages_1 upa_def)
  have sep: "page_index (upa (mem s) pt va) \<noteq> page_index (upa (mem s) pt a)" if "in_pages (a + PGSIZE) n va" for va
    using region_ok_inj [OF rg in'(1) [OF that] in_pages_first] ne [OF that] by blast
  show "region_pages (mem s1) pt (a + PGSIZE) n = region_pages (mem s) pt (a + PGSIZE) n"
    unfolding region_pages_def by (intro Collect_cong) (metis pv(2))
  show "region_pages (mem s) pt a (Suc n) = insert (page_index (upa (mem s) pt a)) (region_pages (mem s) pt (a + PGSIZE) n)"
    unfolding region_pages_def sp by (intro set_eqI) (simp, metis upa_cong)
  show "page_index (upa (mem s) pt a) \<notin> region_pages (mem s) pt (a + PGSIZE) n"
    unfolding region_pages_def mem_Collect_eq by (metis sep)
  show "region_ok kend pt (a + PGSIZE) n s1"
    unfolding region_ok_def
  proof (intro conjI allI impI)
    show "page_index (a + PGSIZE) + n \<le> 2 ^ 26" using rg ps by (simp add: region_ok_def)
    fix va assume v: "in_pages (a + PGSIZE) n va"
    note r = region_okD [OF rg in'(1) [OF v]]
    show "pte_val (mem s1) pt va AND PTE_V \<noteq> 0" "pte_val (mem s1) pt va AND PTE_R \<noteq> 0"
        "page_ok kend (upa (mem s1) pt va)" using pv [OF v] r by simp_all
    show "0 < refcnt s1 (page_index (upa (mem s1) pt va))"
        "page_index (upa (mem s1) pt va) \<notin> tbl_pages (mem s1) pt"
      using u pv(2) [OF v] r sep [OF v] by (simp_all add: unmapped_to_def region_pages_1)
    fix vb assume w: "in_pages (a + PGSIZE) n vb"
      "page_index (upa (mem s1) pt va) = page_index (upa (mem s1) pt vb)"
    then show "page_index va = page_index vb"
      using region_ok_inj [OF rg in'(1) [OF v] in'(1) [OF w(1)]] pv(2) [OF v] pv(2) [OF w(1)] by simp
  qed
qed

lemma unmapped_cons:
  assumes al: "pg_aligned a" and rg: "region_ok kend pt a (Suc n) s"
    and u: "unmapped_to kend pt a (Suc 0) s s1" and v: "unmapped_to kend pt (a + PGSIZE) n s1 s'"
  shows "unmapped_to kend pt a (Suc n) s s'"
proof -
  have a: "a < MAXVA" by (rule region_okD(6) [OF rg in_pages_first])
  note rest = unmap_rest [OF al rg u]
  let ?q = "page_index (upa (mem s) pt a)" and ?R = "region_pages (mem s) pt (a + PGSIZE) n"
  have rc1: "refcnt s1 q = (if q = ?q then refcnt s q - 1 else refcnt s q)"
    and tp1: "tbl_pages (mem s1) pt = tbl_pages (mem s) pt" for q
    using u by (simp_all add: unmapped_to_def region_pages_1)
  have rc2: "refcnt s' q = (if q \<in> ?R then refcnt s1 q - 1 else refcnt s1 q)" for q
    using v by (simp add: unmapped_to_def rest(2))
  show ?thesis
    unfolding unmapped_to_def rest(3) in_pages_Suc [OF al a]
  proof (intro conjI allI impI)
    show "kmem_inv kend s'" "pt_ok kend pt s'" "tbl_pages (mem s') pt = tbl_pages (mem s) pt"
      using v tp1 by (simp_all add: unmapped_to_def)
    show "refcnt s' q = (if q \<in> insert ?q ?R then refcnt s q - 1 else refcnt s q)" for q
      using rc1 rc2 rest(4) by auto
    fix vb assume "vb < MAXVA"
    then show "pte_val (mem s') pt vb = (if page_index vb = page_index a \<or> in_pages (a + PGSIZE) n vb then 0 else pte_val (mem s) pt vb)"
      using u v by (simp add: unmapped_to_def in_pages_1)
  next
    fix x assume x: "page_index x \<notin> tbl_pages (mem s) pt" "page_index x \<in> insert ?q ?R \<longrightarrow> 1 < refcnt s (page_index x)"
    then have "mem s1 x = mem s x" using u by (simp add: unmapped_to_def region_pages_1)
    moreover have "page_index x \<in> ?R \<longrightarrow> 1 < refcnt s1 (page_index x)" using x(2) rc1 rest(4) by auto
    then have "mem s' x = mem s1 x" using v x(1) tp1 by (simp add: unmapped_to_def rest(2))
    ultimately show "mem s' x = mem s x" by simp
  qed
qed

lemma uvmunmap_loop_ok:
  assumes "kmem_inv kend s" "pt_ok kend pt s" "0 < kend" "pg_aligned a" "pg_aligned stop"
    "page_index stop = page_index a + n" "region_ok kend pt a n s"
  shows "\<exists>s'. uvmunmap_loop kend pt a stop True s = Ret s' \<and> unmapped_to kend pt a n s s'"
  using assms
proof (induction n arbitrary: a s)
  case 0
  then have "stop = a" using page_index_inj by simp
  then show ?case using 0
    by (subst uvmunmap_loop.simps) (auto simp: unmapped_to_def in_pages_def)
next
  case (Suc n)
  note rg = Suc.prems(7)
  have lt: "a < stop" using page_index_less [OF Suc.prems(4,5)] Suc.prems(6) by simp
  obtain pte where p: "leaf (mem s) pt a = Some pte" "pte \<noteq> 0" "load64 (mem s) pte = pte_val (mem s) pt a"
      "walk pt a False s = Ret (pte, s)"
    using region_leaf [OF rg in_pages_first Suc.prems(2,3)] by blast
  obtain s1 where k: "kfree kend (upa (mem s) pt a) s = Ret s1"
      "unmapped_to kend pt a (Suc 0) s (s1\<lparr>mem := store64 (mem s1) pte 0\<rparr>)"
    using unmap_one [OF Suc.prems(1,2) rg p(1)] by blast
  let ?s = "s1\<lparr>mem := store64 (mem s1) pte 0\<rparr>"
  have a: "a < MAXVA" by (rule region_okD(6) [OF rg in_pages_first])
  have step: "uvmunmap_loop kend pt a stop True s = uvmunmap_loop kend pt (a + PGSIZE) stop True ?s"
    using lt p k(1) region_okD(1,2) [OF rg in_pages_first]
    by (subst (1) uvmunmap_loop.simps) (simp add: upa_def PTE_FLAGS_leaf)
  have "kmem_inv kend ?s" "pt_ok kend pt ?s" using k(2) by (simp_all add: unmapped_to_def)
  then obtain s' where "uvmunmap_loop kend pt (a + PGSIZE) stop True ?s = Ret s'"
      "unmapped_to kend pt (a + PGSIZE) n ?s s'"
    using Suc.IH [of ?s "a + PGSIZE"] page_index_step [OF Suc.prems(4) a] unmap_rest(1) [OF Suc.prems(4) rg k(2)]
      Suc.prems(3,5,6) by auto
  then show ?case using step unmapped_cons [OF Suc.prems(4) rg k(2)] by auto
qed

lemma pages_end:
  assumes "pg_aligned a" "page_index a + n \<le> 2 ^ 26"
  shows "pg_aligned (a + of_nat n * PGSIZE)" "page_index (a + of_nat n * PGSIZE) = page_index a + n"
proof -
  obtain k where k: "unat a = 4096 * k" using assms(1) by (rule pg_alignedE)
  have kn: "k + n \<le> 2 ^ 26" using assms(2) k by (simp add: page_index_def)
  have "of_nat n * PGSIZE = (of_nat (n * 4096) :: u64)" by (simp add: PGSIZE_def)
  then have "unat (of_nat n * PGSIZE :: u64) = n * 4096 mod 2 ^ 64" by (simp only: unat_of_nat) simp
  also have "\<dots> = n * 4096" using kn by simp
  finally have "unat (a + of_nat n * PGSIZE) = (4096 * k + n * 4096) mod 2 ^ 64"
    using unat_word_ariths(1) [of a "of_nat n * PGSIZE"] k by simp
  also have "\<dots> = 4096 * (k + n)" using kn by simp
  finally have u: "unat (a + of_nat n * PGSIZE) = 4096 * (k + n)" .
  show "pg_aligned (a + of_nat n * PGSIZE)" "page_index (a + of_nat n * PGSIZE) = page_index a + n"
    unfolding pg_aligned_unat page_index_def u k by simp_all
qed

lemma uvmunmap_ok:
  assumes "kmem_inv kend s" "pt_ok kend pt s" "0 < kend" "pg_aligned a" "region_ok kend pt a n s"
  shows "\<exists>s'. uvmunmap kend pt a (of_nat n) True s = Ret s' \<and> unmapped_to kend pt a n s s'"
proof -
  have "page_index a + n \<le> 2 ^ 26" using assms(5) by (simp add: region_ok_def)
  then show ?thesis
    using uvmunmap_loop_ok [OF assms(1-4) pages_end(1) pages_end(2) assms(5)] assms(4)
    by (simp add: uvmunmap_def pg_aligned_def [symmetric])
qed

section \<open>Sharing pages copy-on-write\<close>

definition child_entry :: "u64 \<Rightarrow> u64" where
  "child_entry e = PA2PTE (PTE2PA e) OR PTE_FLAGS (e AND NOT PTE_W) OR PTE_V"

lemma bit_PTE_W: "bit PTE_W k \<longleftrightarrow> k = 2"
  unfolding PTE_W_def bit_push_bit_iff bit_1_iff by auto

lemma PTE_FLAGS_take_bit: "PTE_FLAGS e = take_bit 10 e"
  by (simp add: PTE_FLAGS_def take_bit_eq_mask mask_eq_exp_minus_1)

lemma PTE2PA_no_W: "PTE2PA (e AND NOT PTE_W) = PTE2PA e"
  by (rule bit_eqI) (auto simp: PTE2PA_def bit_simps bit_PTE_W)

lemma unat_PTE_FLAGS: "unat (PTE_FLAGS e) < 1024"
  unfolding PTE_FLAGS_take_bit unat_take_bit by simp

lemma no_W_entry:
  "(e AND NOT PTE_W) AND PTE_V = 0 \<longleftrightarrow> e AND PTE_V = 0" "(e AND NOT PTE_W) AND PTE_R = 0 \<longleftrightarrow> e AND PTE_R = 0"
  "(e AND NOT PTE_W) AND PTE_U = 0 \<longleftrightarrow> e AND PTE_U = 0" "(e AND NOT PTE_W) AND PTE_W = 0"
  by (simp_all add: PTE_bits bit_simps bit_PTE_W)

lemma child_entry_bits:
  assumes "k < 10" shows "bit (child_entry e) k \<longleftrightarrow> k = 0 \<or> bit e k \<and> k \<noteq> 2"
proof -
  have "bit (PTE_FLAGS (e AND NOT PTE_W)) k \<longleftrightarrow> bit e k \<and> k \<noteq> 2"
    using assms by (auto simp: PTE_FLAGS_take_bit bit_take_bit_iff bit_simps bit_PTE_W)
  moreover have "\<not> bit (PA2PTE (PTE2PA e)) k" using assms by (simp add: PA2PTE_def bit_simps)
  moreover have "bit PTE_V k \<longleftrightarrow> k = 0" by (auto simp: PTE_V_def bit_simps)
  ultimately show ?thesis by (auto simp: child_entry_def bit_or_iff)
qed

lemma child_entry_props:
  assumes "page_ok kend (PTE2PA e)"
  shows "PTE2PA (child_entry e) = PTE2PA e" "child_entry e AND PTE_V \<noteq> 0"
    "child_entry e AND PTE_W = 0" "child_entry e AND PTE_R = 0 \<longleftrightarrow> e AND PTE_R = 0"
    "child_entry e AND PTE_U = 0 \<longleftrightarrow> e AND PTE_U = 0"
proof -
  let ?f = "PTE_FLAGS (e AND NOT PTE_W) OR PTE_V"
  have "?f = take_bit 10 ((e AND NOT PTE_W) OR PTE_V)"
    by (rule bit_eqI) (auto simp: PTE_FLAGS_take_bit bit_simps bit_PTE_W PTE_V_def)
  then have "unat ?f < 1024" by (simp only: unat_take_bit) simp
  then show "PTE2PA (child_entry e) = PTE2PA e"
    using PTE2PA_PA2PTE [of "PTE2PA e" ?f] assms page_ok_56 [OF assms]
    by (simp add: child_entry_def or.assoc page_ok_def)
qed (simp_all add: PTE_bits child_entry_bits)

text \<open>
  The states of \<open>uvmcopy\<close>: \<open>j\<close> pages of the parent have been made read-only and counted up,
  the entries of the first \<open>k\<close> have been entered in the child.
\<close>

definition fork_pre :: "u64 \<Rightarrow> u64 \<Rightarrow> u64 \<Rightarrow> nat \<Rightarrow> kmem \<Rightarrow> bool" where
  "fork_pre kend old new N s \<longleftrightarrow>
     0 < kend \<and> kmem_inv kend s \<and> pt_ok kend old s \<and> pt_ok kend new s \<and> region_ok kend old 0 N s \<and>
     tbl_pages (mem s) old \<inter> tbl_pages (mem s) new = {} \<and>
     region_pages (mem s) old 0 N \<inter> tbl_pages (mem s) new = {} \<and>
     (\<forall>vb. page_index vb < N \<longrightarrow> pte_val (mem s) new vb AND PTE_V = 0)"

definition cow_share :: "u64 \<Rightarrow> u64 \<Rightarrow> u64 \<Rightarrow> nat \<Rightarrow> nat \<Rightarrow> kmem \<Rightarrow> kmem \<Rightarrow> bool" where
  "cow_share kend old new j k s0 s \<longleftrightarrow>
     kmem_inv kend s \<and> pt_ok kend old s \<and> pt_ok kend new s \<and>
     tbl_pages (mem s) old = tbl_pages (mem s0) old \<and>
     (\<forall>q. 0 < refcnt s0 q \<longrightarrow> q \<notin> tbl_pages (mem s0) new \<longrightarrow> q \<notin> tbl_pages (mem s) new) \<and>
     (\<forall>vb < MAXVA. pte_val (mem s) old vb =
        (if page_index vb < j then pte_val (mem s0) old vb AND NOT PTE_W else pte_val (mem s0) old vb)) \<and>
     (\<forall>vb < MAXVA. pte_val (mem s) new vb =
        (if page_index vb < k then child_entry (pte_val (mem s0) old vb) else pte_val (mem s0) new vb)) \<and>
     (\<forall>q. 0 < refcnt s0 q \<longrightarrow> refcnt s q = refcnt s0 q + (if q \<in> region_pages (mem s0) old 0 j then 1 else 0)) \<and>
     (\<forall>x. 0 < refcnt s0 (page_index x) \<longrightarrow> page_index x \<notin> tbl_pages (mem s0) old \<longrightarrow>
        page_index x \<notin> tbl_pages (mem s0) new \<longrightarrow> mem s x = mem s0 x)"

lemma cow_share_0: "fork_pre kend old new N s \<Longrightarrow> cow_share kend old new 0 0 s s"
  by (simp add: fork_pre_def cow_share_def)

lemma in_pages_0: "in_pages 0 n vb \<longleftrightarrow> page_index vb < n"
  by (simp add: in_pages_def page_index_def)

lemma page_of_nat:
  assumes "j < 2 ^ 26"
  shows "page_index (of_nat j * PGSIZE) = j" "pg_aligned (of_nat j * PGSIZE)" "of_nat j * PGSIZE < MAXVA"
  using pages_end [of 0 j] assms by (simp_all add: below_MAXVA_page page_index_def pg_aligned_unat)

lemma region_pages_Suc0:
  assumes "page_index a = j"
  shows "region_pages m pt 0 (Suc j) = insert (page_index (upa m pt a)) (region_pages m pt 0 j)"
  unfolding region_pages_def in_pages_0 less_Suc_eq using assms by (intro set_eqI) (simp, metis upa_cong)

lemma fork_preD:
  assumes "fork_pre kend old new N s" "page_index a < N"
  shows "pte_val (mem s) old a AND PTE_V \<noteq> 0" "pte_val (mem s) old a AND PTE_R \<noteq> 0"
    "page_ok kend (upa (mem s) old a)" "0 < refcnt s (page_index (upa (mem s) old a))"
    "page_index (upa (mem s) old a) \<notin> tbl_pages (mem s) old"
    "page_index (upa (mem s) old a) \<notin> tbl_pages (mem s) new" "a < MAXVA"
    "pte_val (mem s) new a AND PTE_V = 0"
proof -
  have rg: "region_ok kend old 0 N s" and i: "in_pages 0 N a" using assms by (auto simp: fork_pre_def in_pages_0)
  have "page_index (upa (mem s) old a) \<in> region_pages (mem s) old 0 N" using i by (auto simp: region_pages_def)
  then show "page_index (upa (mem s) old a) \<notin> tbl_pages (mem s) new" using assms by (auto simp: fork_pre_def)
  show "pte_val (mem s) new a AND PTE_V = 0" using assms by (simp add: fork_pre_def)
qed (use region_okD [OF _ iffD2 [OF in_pages_0 assms(2)]] assms(1) in \<open>auto simp: fork_pre_def\<close>)

lemma cow_share_tables:
  assumes "fork_pre kend old new N s0" "cow_share kend old new j k s0 s"
  shows "tbl_pages (mem s) old \<inter> tbl_pages (mem s) new = {}"
proof -
  have "q \<notin> tbl_pages (mem s) new" if "q \<in> tbl_pages (mem s0) old" for q
  proof -
    have "refcnt s0 q = 1" "q \<notin> tbl_pages (mem s0) new"
      using assms(1) tbl_pages_used [of kend old s0 q] that by (auto simp: fork_pre_def)
    then show ?thesis using assms(2) by (simp add: cow_share_def)
  qed
  then show ?thesis using assms(2) by (auto simp: cow_share_def)
qed

lemma pt_ok_refcnt:
  assumes "pt_ok kend pt s" "mem s' = mem s" "\<And>n. n \<in> tbl_pages (mem s) pt \<Longrightarrow> refcnt s' n = refcnt s n"
  shows "pt_ok kend pt s'"
  by (rule pt_frame(4) [OF assms(1)]) (simp_all add: assms)

lemma cow_protect:
  assumes pre: "fork_pre kend old new N s0" and j: "page_index a = j" "j < N"
    and sh: "cow_share kend old new j j s0 s" and lf: "leaf (mem s) old a = Some pte"
    and s1: "s1 = s\<lparr>mem := store64 (mem s) pte (pte_val (mem s) old a AND NOT PTE_W)\<rparr>"
  shows "\<exists>s2. increse (upa (mem s0) old a) s1 = Ret s2 \<and> cow_share kend old new (Suc j) j s0 s2"
proof -
  let ?p = "upa (mem s0) old a"
  note d = fork_preD [OF pre, of a, unfolded j(1), OF j(2)]
  have inv: "kmem_inv kend s" "pt_ok kend old s" "pt_ok kend new s"
    and tp: "tbl_pages (mem s) old = tbl_pages (mem s0) old"
    and pv: "\<And>vb. vb < MAXVA \<Longrightarrow> pte_val (mem s) old vb =
        (if page_index vb < j then pte_val (mem s0) old vb AND NOT PTE_W else pte_val (mem s0) old vb)"
    and rc: "\<And>q. 0 < refcnt s0 q \<Longrightarrow>
        refcnt s q = refcnt s0 q + (if q \<in> region_pages (mem s0) old 0 j then 1 else 0)"
    and tn: "\<And>q. 0 < refcnt s0 q \<Longrightarrow> q \<notin> tbl_pages (mem s0) new \<Longrightarrow> q \<notin> tbl_pages (mem s) new"
    using sh by (auto simp: cow_share_def)
  note st = store_leaf [OF inv(1,2) lf s1] and dj = cow_share_tables [OF pre sh]
  have n1: "mem s1 x = mem s x" if "page_index x \<in> tbl_pages (mem s) new" for x
    using st(5) [of x] that dj by auto
  have new1: "pt_ok kend new s1" "pte_val (mem s1) new vb = pte_val (mem s) new vb"
      "tbl_pages (mem s1) new = tbl_pages (mem s) new" for vb
    using pt_frame(4) [OF inv(3), of s1] pt_frame(2,3) [OF inv(3), of s1] n1 by (auto simp: s1)
  have old1: "kmem_inv kend s1" "pt_ok kend old s1" using st(1) by (simp_all add: vm_step_def)
  have rc1: "refcnt s1 = refcnt s" by (simp add: s1)
  have "0 < refcnt s1 (page_index ?p)" using rc [OF d(4)] d(4) by (simp add: rc1)
  then obtain s2 where i: "increse ?p s1 = Ret s2" "kmem_inv kend s2" "mem s2 = mem s1"
      "refcnt s2 = (refcnt s1)(page_index ?p := refcnt s1 (page_index ?p) + 1)"
    using increse_law [OF old1(1) d(3)] by blast
  have p: "page_index ?p \<notin> tbl_pages (mem s1) old" "page_index ?p \<notin> tbl_pages (mem s1) new"
    using d(5,6) st(4) tp new1(3) tn [OF d(4)] by auto
  have "pt_ok kend old s2" "pt_ok kend new s2"
    by (rule pt_ok_refcnt [OF old1(2) i(3)], use i(4) p in auto)
      (rule pt_ok_refcnt [OF new1(1) i(3)], use i(4) p in auto)
  moreover have "pte_val (mem s2) old vb =
      (if page_index vb < Suc j then pte_val (mem s0) old vb AND NOT PTE_W else pte_val (mem s0) old vb)"
    if "vb < MAXVA" for vb
  proof (cases "page_index vb = j")
    case True
    then have "pte_val (mem s) old a = pte_val (mem s) old vb"
      using leaf_page_cong [of a vb "mem s" old] j by (simp add: pte_val_def)
    then show ?thesis using st(3) [OF d(7) that] pv [OF that] i(3) j True by simp
  next
    case False
    then show ?thesis using st(3) [OF d(7) that] pv [OF that] i(3) j by simp
  qed
  moreover have "refcnt s2 q = refcnt s0 q + (if q \<in> region_pages (mem s0) old 0 (Suc j) then 1 else 0)"
    if "0 < refcnt s0 q" for q
  proof -
    have "page_index ?p \<notin> region_pages (mem s0) old 0 j"
    proof
      assume "page_index ?p \<in> region_pages (mem s0) old 0 j"
      then obtain va where "page_index ?p = page_index (upa (mem s0) old va)" "page_index va < j"
        by (auto simp: region_pages_def in_pages_0)
      then show False using region_ok_inj [of kend old 0 N s0 a va] pre j by (auto simp: fork_pre_def in_pages_0)
    qed
    then show ?thesis using rc [OF that] by (auto simp: i(4) rc1 region_pages_Suc0 [OF j(1)])
  qed
  ultimately have "cow_share kend old new (Suc j) j s0 s2"
    using sh i(2,3) st(4,5) new1 unfolding cow_share_def by simp
  then show ?thesis using i(1) by blast
qed

lemma one_page:
  assumes "pg_aligned a" "a < MAXVA"
  shows "page_index (a + PGSIZE - 1) = page_index a" "unat a + unat PGSIZE \<le> unat MAXVA"
proof -
  have e: "a + PGSIZE - 1 = a + of_nat 4095" by (simp add: PGSIZE_def)
  show "page_index (a + PGSIZE - 1) = page_index a" unfolding e by (rule page_index_add [OF assms(1)]) simp
  obtain k where "unat a = 4096 * k" using assms(1) by (rule pg_alignedE)
  then show "unat a + unat PGSIZE \<le> unat MAXVA" using assms(2) by (simp add: word_less_nat_alt unat_MAXVA)
qed

lemma cow_enter:
  assumes pre: "fork_pre kend old new N s0" and j: "page_index a = j" "j < N" "pg_aligned a"
    and sh: "cow_share kend old new (Suc j) j s0 s"
  shows "\<exists>r s'. mappages new a PGSIZE (upa (mem s0) old a) (PTE_FLAGS (pte_val (mem s0) old a AND NOT PTE_W)) s
      = Ret (r, s') \<and>
    (r = 0 \<and> cow_share kend old new (Suc j) (Suc j) s0 s' \<or>
     r = - 1 \<and> cow_share kend old new (Suc j) j s0 s' \<and> pool_empty kend s')"
proof -
  let ?p = "upa (mem s0) old a" and ?f = "PTE_FLAGS (pte_val (mem s0) old a AND NOT PTE_W)"
  note d = fork_preD [OF pre, of a, unfolded j(1), OF j(2)]
  have inv: "kmem_inv kend s" "pt_ok kend old s" "pt_ok kend new s" "0 < kend"
    and rc: "\<And>q. 0 < refcnt s0 q \<Longrightarrow>
        refcnt s q = refcnt s0 q + (if q \<in> region_pages (mem s0) old 0 (Suc j) then 1 else 0)"
    and pn: "\<And>vb. vb < MAXVA \<Longrightarrow> pte_val (mem s) new vb =
        (if page_index vb < j then child_entry (pte_val (mem s0) old vb) else pte_val (mem s0) new vb)"
    using sh pre by (auto simp: cow_share_def fork_pre_def)
  have free: "pte_val (mem s) new vb AND PTE_V = 0" if "vb < MAXVA" "in_pages a 1 vb" for vb
    using pn [OF that(1)] that(2) fork_preD(8) [OF pre, of vb] j by (auto simp: in_pages_def)
  have n: "(1 :: nat) = Suc (page_index (a + PGSIZE - 1) - page_index a)" using one_page [OF j(3) d(7)] by simp
  have P0: "PGSIZE \<noteq> 0" by (simp add: PGSIZE_def)
  obtain r s' k where m: "mappages new a PGSIZE ?p ?f s = Ret (r, s')" "vm_step kend new s s'"
      "mapped_prefix new (PGROUNDDOWN a) k ?p ?f s s'"
      "r = 0 \<and> k = 1 \<or> r = - 1 \<and> k < 1 \<and> pool_empty kend s'"
    using mappages_ok [OF inv(1,3,4) P0 one_page(2) [OF j(3) d(7)] n free] by blast
  have o': "mem s' x = mem s x" if "page_index x \<in> tbl_pages (mem s) old" for x
  proof -
    have "0 < refcnt s (page_index x)" "page_index x \<notin> tbl_pages (mem s) new"
      using tbl_pages_used [OF inv(2) that] cow_share_tables [OF pre sh] that by auto
    then show ?thesis using m(2) by (simp add: vm_step_def)
  qed
  have old': "pte_val (mem s') old vb = pte_val (mem s) old vb" "tbl_pages (mem s') old = tbl_pages (mem s) old" for vb
    using pt_frame(2,3) [OF inv(2), of s'] o' by auto
  have pok: "pt_ok kend old s'"
    by (rule pt_frame(4) [OF inv(2)]) (use o' m(2) tbl_pages_used [OF inv(2)] in \<open>auto simp: vm_step_def\<close>)
  have pos: "0 < refcnt s q" if "0 < refcnt s0 q" for q using rc [OF that] that by auto
  have cow: "cow_share kend old new (Suc j) i s0 s'"
    if "\<And>vb. vb < MAXVA \<Longrightarrow> pte_val (mem s') new vb =
      (if page_index vb < i then child_entry (pte_val (mem s0) old vb) else pte_val (mem s0) new vb)" for i
    using sh m(2) pok old' pos that unfolding cow_share_def vm_step_def by simp
  have entry: "map_entry a ?p ?f vb = child_entry (pte_val (mem s0) old vb)" if "page_index vb = j" for vb
    using map_entry_first [OF j(3), of vb] that j(1) leaf_page_cong [of vb a "mem s0" old]
    by (simp add: child_entry_def upa_def pte_val_def)
  show ?thesis
  proof (cases "r = 0")
    case True
    then have "cow_share kend old new (Suc j) (Suc j) s0 s'"
      using m(3,4) pn entry j by (intro cow) (auto simp: mapped_prefix_def PGROUNDDOWN_same in_pages_def less_Suc_eq)
    then show ?thesis using m(1) True by blast
  next
    case False
    then have "cow_share kend old new (Suc j) j s0 s'"
      using m(3,4) pn by (intro cow) (auto simp: mapped_prefix_def in_pages_def)
    then show ?thesis using m(1,4) False by blast
  qed
qed

lemma uvmcopy_iter:
  assumes pre: "fork_pre kend old new N s0" and j: "page_index a = j" "j < N" "pg_aligned a" "a < sz"
    and sh: "cow_share kend old new j j s0 s"
  shows "\<exists>s'. uvmcopy_loop kend old new a sz s = uvmcopy_loop kend old new (a + PGSIZE) sz s' \<and>
      cow_share kend old new (Suc j) (Suc j) s0 s' \<or>
    uvmcopy_loop kend old new a sz s =
      rbind (uvmunmap kend new 0 (a div PGSIZE) True s') (\<lambda>s. Ret (- 1, s)) \<and>
    cow_share kend old new (Suc j) j s0 s' \<and> pool_empty kend s'"
proof -
  note d = fork_preD [OF pre, of a, unfolded j(1), OF j(2)]
  have ok: "pt_ok kend old s" "0 < kend" using sh pre by (auto simp: cow_share_def fork_pre_def)
  have pv: "pte_val (mem s) old a = pte_val (mem s0) old a" using sh d(7) j by (simp add: cow_share_def)
  then obtain pte where lf: "leaf (mem s) old a = Some pte"
    using d(1) by (cases "leaf (mem s) old a") (auto simp: pte_val_def)
  note nz = leaf_nonzero [OF ok lf] and lv = pte_val_leaf [OF lf]
  define s1 where "s1 = s\<lparr>mem := store64 (mem s) pte (pte_val (mem s) old a AND NOT PTE_W)\<rparr>"
  obtain s2 where i: "increse (upa (mem s0) old a) s1 = Ret s2" "cow_share kend old new (Suc j) j s0 s2"
    using cow_protect [OF pre j(1,2) sh lf s1_def] by blast
  obtain r s' where m: "mappages new a PGSIZE (upa (mem s0) old a) (PTE_FLAGS (pte_val (mem s0) old a AND NOT PTE_W)) s2
        = Ret (r, s')"
      "r = 0 \<and> cow_share kend old new (Suc j) (Suc j) s0 s' \<or>
       r = - 1 \<and> cow_share kend old new (Suc j) j s0 s' \<and> pool_empty kend s'"
    using cow_enter [OF pre j(1-3) i(2)] by blast
  have "uvmcopy_loop kend old new a sz s =
      (if r \<noteq> 0 then rbind (uvmunmap kend new 0 (a div PGSIZE) True s') (\<lambda>s. Ret (- 1, s))
       else uvmcopy_loop kend old new (a + PGSIZE) sz s')"
    using j(4) walk_noalloc [OF d(7), of old s] lf nz lv d(1) pv i(1) m(1)
    by (subst (1) uvmcopy_loop.simps) (simp add: Let_def s1_def upa_def)
  then show ?thesis using m(2) by auto
qed

lemma cow_share_region:
  assumes pre: "fork_pre kend old new N s0" and sh: "cow_share kend old new j k s0 s" and k: "k \<le> j" "j \<le> N"
  shows "region_ok kend new 0 k s" "region_pages (mem s) new 0 k = region_pages (mem s0) old 0 k"
proof -
  have pv: "pte_val (mem s) new va = child_entry (pte_val (mem s0) old va)" "upa (mem s) new va = upa (mem s0) old va"
    if "page_index va < k" for va
  proof -
    note d = fork_preD [OF pre, of va]
    show e: "pte_val (mem s) new va = child_entry (pte_val (mem s0) old va)"
      using sh d(7) that k by (simp add: cow_share_def)
    show "upa (mem s) new va = upa (mem s0) old va"
      using child_entry_props(1) [of kend] d(3) that k unfolding upa_def e by simp
  qed
  show "region_pages (mem s) new 0 k = region_pages (mem s0) old 0 k"
    unfolding region_pages_def in_pages_0 by (intro Collect_cong) (metis pv(2))
  show "region_ok kend new 0 k s"
    unfolding region_ok_def in_pages_0
  proof (intro conjI allI impI)
    have "N \<le> 2 ^ 26" using pre by (simp add: fork_pre_def region_ok_def page_index_def)
    then show "page_index 0 + k \<le> 2 ^ 26" using k by (simp add: page_index_def)
    fix va assume v: "page_index va < k"
    then have vN: "page_index va < N" using k by simp
    note d = fork_preD [OF pre vN] and e = child_entry_props [of kend "pte_val (mem s0) old va"]
    show "pte_val (mem s) new va AND PTE_V \<noteq> 0" "pte_val (mem s) new va AND PTE_R \<noteq> 0"
        "page_ok kend (upa (mem s) new va)"
      using pv [OF v] d(2,3) e by (simp_all add: upa_def)
    show "0 < refcnt s (page_index (upa (mem s) new va))"
        "page_index (upa (mem s) new va) \<notin> tbl_pages (mem s) new"
      using sh d(4,6) pv(2) [OF v] by (simp_all add: cow_share_def)
    fix vb assume w: "page_index vb < k" "page_index (upa (mem s) new va) = page_index (upa (mem s) new vb)"
    then show "page_index va = page_index vb"
      using region_ok_inj [of kend old 0 N s0 va vb] pre vN k pv(2) [OF v] pv(2) [OF w(1)]
      by (simp add: fork_pre_def in_pages_0)
  qed
qed

text \<open>
  How \<open>uvmcopy\<close> ends. When a page-table page for the child cannot be allocated at page \<open>k\<close>, the
  first \<open>k\<close> pages are released again, but the count of page \<open>k\<close> itself stays one too high.
\<close>

definition fork_failed :: "u64 \<Rightarrow> u64 \<Rightarrow> u64 \<Rightarrow> nat \<Rightarrow> kmem \<Rightarrow> kmem \<Rightarrow> bool" where
  "fork_failed kend old new N s0 s' \<longleftrightarrow>
     (\<exists>k s. k < N \<and> cow_share kend old new (Suc k) k s0 s \<and> pool_empty kend s \<and> unmapped_to kend new 0 k s s')"

lemma div_PGSIZE_of_nat: "a div PGSIZE = of_nat (page_index a)"
  unfolding unat_div_PGSIZE [symmetric] by simp

lemma uvmcopy_loop_ok:
  assumes "fork_pre kend old new N s0" "cow_share kend old new j j s0 s" "N = (unat sz + 4095) div 4096"
    "j + n = N" "unat a = 4096 * j"
  shows "\<exists>r s'. uvmcopy_loop kend old new a sz s = Ret (r, s') \<and>
    (r = 0 \<and> cow_share kend old new N N s0 s' \<or> r = - 1 \<and> fork_failed kend old new N s0 s')"
  using assms(2,4,5)
proof (induction n arbitrary: j a s)
  case 0
  then have "\<not> a < sz" using assms(3) by (simp add: word_less_nat_alt)
  then show ?case using 0 by (subst uvmcopy_loop.simps) simp
next
  case (Suc n)
  have pi: "page_index a = j" "pg_aligned a" "j < N" using Suc.prems by (auto simp: page_index_def pg_aligned_unat)
  have lt: "a < sz" using assms(3) Suc.prems by (simp add: word_less_nat_alt)
  have "N \<le> 2 ^ 26" using assms(1) by (simp add: fork_pre_def region_ok_def page_index_def)
  then have aN: "unat (a + PGSIZE) = 4096 * Suc j"
    using below_MAXVA_step [of a] Suc.prems pi by (simp add: below_MAXVA_page)
  consider s' where "uvmcopy_loop kend old new a sz s = uvmcopy_loop kend old new (a + PGSIZE) sz s'"
      "cow_share kend old new (Suc j) (Suc j) s0 s'"
    | s' where "uvmcopy_loop kend old new a sz s = rbind (uvmunmap kend new 0 (a div PGSIZE) True s') (\<lambda>s. Ret (- 1, s))"
      "cow_share kend old new (Suc j) j s0 s'" "pool_empty kend s'"
    using uvmcopy_iter [OF assms(1) pi(1,3,2) lt Suc.prems(1)] by blast
  then show ?case
  proof cases
    case (1 s')
    then show ?thesis using Suc.IH [of "Suc j" s' "a + PGSIZE"] Suc.prems aN by simp
  next
    case (2 s1)
    have "region_ok kend new 0 j s1" using cow_share_region [OF assms(1) 2(2)] pi by simp
    then obtain s' where "uvmunmap kend new 0 (of_nat j) True s1 = Ret s'" "unmapped_to kend new 0 j s1 s'"
      using uvmunmap_ok [of kend s1 new 0 j] 2(2) assms(1)
      by (auto simp: cow_share_def fork_pre_def pg_aligned_unat)
    then show ?thesis using 2 pi by (auto simp: div_PGSIZE_of_nat fork_failed_def)
  qed
qed

lemma uvmcopy_ok:
  assumes "fork_pre kend old new ((unat sz + 4095) div 4096) s"
  shows "\<exists>r s'. uvmcopy kend old new sz s = Ret (r, s') \<and>
    (r = 0 \<and> cow_share kend old new ((unat sz + 4095) div 4096) ((unat sz + 4095) div 4096) s s' \<or>
     r = - 1 \<and> fork_failed kend old new ((unat sz + 4095) div 4096) s s')"
  using uvmcopy_loop_ok [OF assms cow_share_0 [OF assms] refl, of _ 0] by (simp add: uvmcopy_def)

lemma fork_failed_counts:
  assumes pre: "fork_pre kend old new N s0" and f: "fork_failed kend old new N s0 s'"
  shows "\<exists>k va. k < N \<and> page_index va = k \<and> (\<forall>q. 0 < refcnt s0 q \<longrightarrow>
    refcnt s' q = (if q = page_index (upa (mem s0) old va) then refcnt s0 q + 1 else refcnt s0 q))"
proof -
  obtain k s where k: "k < N" "cow_share kend old new (Suc k) k s0 s" "unmapped_to kend new 0 k s s'"
    using f by (auto simp: fork_failed_def)
  let ?a = "of_nat k * PGSIZE :: u64"
  have "N \<le> 2 ^ 26" using pre by (simp add: fork_pre_def region_ok_def page_index_def)
  then have a: "page_index ?a = k" using page_of_nat [of k] k(1) by simp
  have "page_index (upa (mem s0) old ?a) \<notin> region_pages (mem s0) old 0 k"
  proof
    assume "page_index (upa (mem s0) old ?a) \<in> region_pages (mem s0) old 0 k"
    then obtain va where "page_index (upa (mem s0) old ?a) = page_index (upa (mem s0) old va)" "page_index va < k"
      by (auto simp: region_pages_def in_pages_0)
    then show False using region_ok_inj [of kend old 0 N s0 ?a va] pre a k(1) by (auto simp: fork_pre_def in_pages_0)
  qed
  then have "refcnt s' q = (if q = page_index (upa (mem s0) old ?a) then refcnt s0 q + 1 else refcnt s0 q)"
    if "0 < refcnt s0 q" for q
    using k(2,3) that cow_share_region(2) [OF pre k(2)] k(1) region_pages_Suc0 [OF a]
    by (auto simp: cow_share_def unmapped_to_def)
  then show ?thesis using k(1) a by blast
qed

section \<open>Parent and child\<close>

lemma view_isolated:
  assumes ok: "pt_ok kend A s" and iso: "isolated B s s'"
    and tb: "\<And>n. n \<in> tbl_pages (mem s) A \<Longrightarrow> foreign B s n"
  shows "pte_val (mem s') A va = pte_val (mem s) A va" "umapped (mem s') A va = umapped (mem s) A va"
    "umapped (mem s) A va \<Longrightarrow> user_ok kend A s \<Longrightarrow> foreign B s (page_index (upa (mem s) A va)) \<Longrightarrow>
      uread (mem s') A va = uread (mem s) A va"
proof -
  have same: "mem s' x = mem s x" if "page_index x \<in> tbl_pages (mem s) A" for x
    using iso tb [OF that] by (simp add: isolated_def)
  show pv: "pte_val (mem s') A va = pte_val (mem s) A va" for va using pt_frame(2) [OF ok, of s'] same by blast
  then show "umapped (mem s') A va = umapped (mem s) A va" by (simp add: umapped_def)
  assume um: "umapped (mem s) A va" "user_ok kend A s" and f: "foreign B s (page_index (upa (mem s) A va))"
  have "page_index (upa (mem s) A va + (va - PGROUNDDOWN va)) = page_index (upa (mem s) A va)"
    using user_okD(2) [OF um(2,1)] unat_off [of va]
      in_page_iff [of "upa (mem s) A va" "upa (mem s) A va + (va - PGROUNDDOWN va)"] by simp
  then show "uread (mem s') A va = uread (mem s) A va"
    using iso f pv by (simp add: isolated_def uread_def upa_def)
qed

text \<open>
  The address spaces of a parent and of the child that \<open>fork\<close> just created for it: nothing but
  the image below \<open>sz\<close> is mapped for the user in the parent, and nothing in the child yet.
\<close>

definition fork_img :: "u64 \<Rightarrow> u64 \<Rightarrow> nat \<Rightarrow> kmem \<Rightarrow> bool" where
  "fork_img old new N s \<longleftrightarrow>
     (\<forall>va. umapped (mem s) old va \<longrightarrow> page_index va < N) \<and> (\<forall>va. \<not> umapped (mem s) new va)"

definition fork_ready :: "u64 \<Rightarrow> u64 \<Rightarrow> u64 \<Rightarrow> u64 \<Rightarrow> kmem \<Rightarrow> bool" where
  "fork_ready kend old new sz s \<longleftrightarrow>
     fork_pre kend old new ((unat sz + 4095) div 4096) s \<and> fork_img old new ((unat sz + 4095) div 4096) s"

lemma cow_share_views:
  assumes pre: "fork_pre kend old new N s0" and sh: "cow_share kend old new N N s0 s"
    and fi: "fork_img old new N s0"
  shows "umapped (mem s) old va \<longleftrightarrow> umapped (mem s0) old va"
    "umapped (mem s) new va \<longleftrightarrow> umapped (mem s0) old va"
    "page_index va < N \<Longrightarrow> upa (mem s) old va = upa (mem s0) old va"
    "page_index va < N \<Longrightarrow> upa (mem s) new va = upa (mem s0) old va"
    "page_index va < N \<Longrightarrow> pte_val (mem s) old va AND PTE_W = 0 \<and> pte_val (mem s) new va AND PTE_W = 0"
proof -
  have img: "\<And>va. umapped (mem s0) old va \<Longrightarrow> page_index va < N" and none: "\<And>va. \<not> umapped (mem s0) new va"
    using fi by (auto simp: fork_img_def)
  have po: "pte_val (mem s) old va = (if page_index va < N then pte_val (mem s0) old va AND NOT PTE_W else pte_val (mem s0) old va)"
    and pn: "pte_val (mem s) new va = (if page_index va < N then child_entry (pte_val (mem s0) old va) else pte_val (mem s0) new va)"
    if "va < MAXVA" for va using sh that by (auto simp: cow_share_def)
  have ce: "page_ok kend (PTE2PA (pte_val (mem s0) old va))" if "page_index va < N" for va
    using fork_preD(3) [OF pre that] by (simp add: upa_def)
  show "umapped (mem s) old va \<longleftrightarrow> umapped (mem s0) old va"
    using po [of va] by (cases "page_index va < N") (auto simp: umapped_def no_W_entry)
  show "umapped (mem s) new va \<longleftrightarrow> umapped (mem s0) old va"
    using pn [of va] none [of va] img [of va] fork_preD(1) [OF pre, of va] child_entry_props(2,5) [OF ce, of va]
    by (cases "page_index va < N") (auto simp: umapped_def)
  assume v: "page_index va < N"
  note lt = fork_preD(7) [OF pre v]
  show "upa (mem s) old va = upa (mem s0) old va" using po [OF lt] v by (simp add: upa_def PTE2PA_no_W)
  show "upa (mem s) new va = upa (mem s0) old va" using pn [OF lt] v child_entry_props(1) [OF ce [OF v]] by (simp add: upa_def)
  show "pte_val (mem s) old va AND PTE_W = 0 \<and> pte_val (mem s) new va AND PTE_W = 0"
    using po [OF lt] pn [OF lt] v child_entry_props(3) [OF ce [OF v]] no_W_entry(4) by simp
qed

lemma cow_share_spaces:
  assumes pre: "fork_pre kend old new N s0" and sh: "cow_share kend old new N N s0 s"
    and fi: "fork_img old new N s0"
  shows "space_ok kend old s" "space_ok kend new s"
    "umapped (mem s0) old va \<Longrightarrow> uread (mem s) old va = uread (mem s0) old va \<and> uread (mem s) new va = uread (mem s0) old va"
    "umapped (mem s0) old va \<Longrightarrow> 1 < refcnt s (page_index (upa (mem s0) old va))"
proof -
  have img: "\<And>va. umapped (mem s0) old va \<Longrightarrow> page_index va < N" and none: "\<And>va. \<not> umapped (mem s0) new va"
    using fi by (auto simp: fork_img_def)
  note v = cow_share_views [OF pre sh fi] and tb = cow_share_tables [OF pre sh]
  have pg: "page_ok kend (upa (mem s0) old va)" "1 < refcnt s (page_index (upa (mem s0) old va))"
      "page_index (upa (mem s0) old va) \<notin> tbl_pages (mem s) old" "page_index (upa (mem s0) old va) \<notin> tbl_pages (mem s) new"
    if "page_index va < N" for va
  proof -
    note d = fork_preD [OF pre that]
    have "page_index (upa (mem s0) old va) \<in> region_pages (mem s0) old 0 N"
      using that by (auto simp: region_pages_def in_pages_0)
    then show "page_ok kend (upa (mem s0) old va)" "1 < refcnt s (page_index (upa (mem s0) old va))"
        "page_index (upa (mem s0) old va) \<notin> tbl_pages (mem s) old" "page_index (upa (mem s0) old va) \<notin> tbl_pages (mem s) new"
      using d sh by (auto simp: cow_share_def)
  qed
  have inj: "page_index va = page_index vb"
    if "page_index va < N" "page_index vb < N" "upa (mem s0) old va = upa (mem s0) old vb" for va vb
    using region_ok_inj [of kend old 0 N s0 va vb] pre that by (simp add: fork_pre_def in_pages_0)
  have U: "user_ok kend pt s"
    if m: "\<And>va. umapped (mem s) pt va \<Longrightarrow> umapped (mem s0) old va"
      "\<And>va. page_index va < N \<Longrightarrow> upa (mem s) pt va = upa (mem s0) old va"
      "\<And>va. page_index va < N \<Longrightarrow> page_index (upa (mem s0) old va) \<notin> tbl_pages (mem s) pt" for pt
    unfolding user_ok_def
  proof (intro conjI allI impI)
    fix va assume a: "umapped (mem s) pt va"
    note n = img [OF m(1) [OF a]]
    show "page_ok kend (upa (mem s) pt va)" using m(2) [OF n] pg(1) [OF n] by simp
    show "0 < refcnt s (page_index (upa (mem s) pt va))" using m(2) [OF n] pg(2) [OF n] by simp
    show "page_index (upa (mem s) pt va) \<notin> tbl_pages (mem s) pt" using m(2,3) [OF n] by simp
    fix vb assume b: "umapped (mem s) pt vb" "upa (mem s) pt va = upa (mem s) pt vb"
    show "page_index va = page_index vb"
      using b(2) m(2) [OF n] m(2) [OF img [OF m(1) [OF b(1)]]] inj [OF n img [OF m(1) [OF b(1)]]] by simp
  qed
  have "user_ok kend old s" by (rule U) (use v(1) v(3) pg(3) in auto)
  moreover have "user_ok kend new s" by (rule U) (use v(2) v(4) pg(4) in auto)
  ultimately show "space_ok kend old s" "space_ok kend new s" using sh by (auto simp: space_ok_def cow_share_def)
  assume um: "umapped (mem s0) old va"
  show "1 < refcnt s (page_index (upa (mem s0) old va))" using pg(2) [OF img [OF um]] .
  let ?x = "upa (mem s0) old va + (va - PGROUNDDOWN va)"
  note d = fork_preD [OF pre img [OF um]]
  have "page_index ?x = page_index (upa (mem s0) old va)"
    using d(3) unat_off [of va] in_page_iff [of "upa (mem s0) old va" ?x] by (simp add: page_ok_def)
  then have "mem s ?x = mem s0 ?x" using sh d(4-6) by (simp add: cow_share_def)
  then show "uread (mem s) old va = uread (mem s0) old va \<and> uread (mem s) new va = uread (mem s0) old va"
    using v(3,4) img [OF um] by (simp add: uread_def)
qed

lemma cow_share_foreign:
  assumes pre: "fork_pre kend old new N s0" and sh: "cow_share kend old new N N s0 s"
    and fi: "fork_img old new N s0"
  shows "n \<in> tbl_pages (mem s) old \<Longrightarrow> foreign new s n" "n \<in> tbl_pages (mem s) new \<Longrightarrow> foreign old s n"
    "umapped (mem s0) old va \<Longrightarrow> foreign new s (page_index (upa (mem s0) old va))"
    "umapped (mem s0) old va \<Longrightarrow> foreign old s (page_index (upa (mem s0) old va))"
proof -
  have img: "\<And>va. umapped (mem s0) old va \<Longrightarrow> page_index va < N" and none: "\<And>va. \<not> umapped (mem s0) new va"
    using fi by (auto simp: fork_img_def)
  note v = cow_share_views [OF pre sh fi] and sp = cow_share_spaces [OF pre sh fi]
    and tb = cow_share_tables [OF pre sh]
  have ok: "pt_ok kend old s" "pt_ok kend new s" "user_ok kend old s" "user_ok kend new s"
    using sp(1,2) by (auto simp: space_ok_def)
  have up: "upa (mem s) old va = upa (mem s0) old va" "upa (mem s) new va = upa (mem s0) old va"
    if "umapped (mem s0) old va" for va using v(3,4) img [OF that] by auto
  show "foreign new s (page_index (upa (mem s0) old va))" "foreign old s (page_index (upa (mem s0) old va))"
    if "umapped (mem s0) old va" for va
    using sp(4) [OF that] user_okD(4) [OF ok(3), of va] user_okD(4) [OF ok(4), of va] v(1,2) that up [OF that]
    by (auto simp: foreign_def)
  have sep: "page_index (upa (mem s0) old va) \<notin> tbl_pages (mem s) old \<and> page_index (upa (mem s0) old va) \<notin> tbl_pages (mem s) new"
    if "umapped (mem s0) old va" for va
    using user_okD(4) [OF ok(3), of va] user_okD(4) [OF ok(4), of va] v(1,2) that up [OF that] by simp
  show "foreign new s n" if "n \<in> tbl_pages (mem s) old"
    unfolding foreign_def v(2) using tbl_pages_used [OF ok(1) that] tb that sep up(2) by fastforce
  show "foreign old s n" if "n \<in> tbl_pages (mem s) new"
    unfolding foreign_def v(1) using tbl_pages_used [OF ok(2) that] tb that sep up(1) by fastforce
qed

lemma cow_share_write:
  assumes pre: "fork_pre kend old new N s0" and sh: "cow_share kend old new N N s0 s"
    and fi: "fork_img old new N s0"
    and um: "umapped (mem s0) old va"
  shows "isolated new s s' \<Longrightarrow> uread (mem s') old va = uread (mem s0) old va"
    "isolated old s s' \<Longrightarrow> uread (mem s') new va = uread (mem s0) old va"
proof -
  have img: "\<And>va. umapped (mem s0) old va \<Longrightarrow> page_index va < N" and none: "\<And>va. \<not> umapped (mem s0) new va"
    using fi by (auto simp: fork_img_def)
  note v = cow_share_views [OF pre sh fi] and sp = cow_share_spaces [OF pre sh fi]
    and f = cow_share_foreign [OF pre sh fi]
  have ok: "pt_ok kend old s" "pt_ok kend new s" "user_ok kend old s" "user_ok kend new s"
    using sp(1,2) by (auto simp: space_ok_def)
  have up: "upa (mem s) old va = upa (mem s0) old va" "upa (mem s) new va = upa (mem s0) old va"
    using v(3,4) img [OF um] by auto
  show "isolated new s s' \<Longrightarrow> uread (mem s') old va = uread (mem s0) old va"
    using view_isolated(3) [OF ok(1) _ f(1), of s' va] ok(3) f(3) [OF um] um v(1) up sp(3) [OF um] by simp
  show "isolated old s s' \<Longrightarrow> uread (mem s') new va = uread (mem s0) old va"
    using view_isolated(3) [OF ok(2) _ f(2), of s' va] ok(4) f(4) [OF um] um v(2) up sp(3) [OF um] by simp
qed

lemma copyout_isolated:
  assumes "space_ok kend pt s" "0 < kend" "length src < 2 ^ 64" "copyout kend pt dst src s = Ret (r, s')"
  shows "isolated pt s s'"
  using copyout_ok [OF assms(1-3), of dst] assms(4) by (auto simp: copied_out_def user_step_def)

end
