(* ===== verification/Vm_Properties.thy ===== *)
theory Vm_Properties
  imports Vm_Cow
begin

text \<open>
  The properties of the virtual-memory code, each with a witness. The witnesses share one
  concrete machine: eight physical pages, a parent whose three-level table maps one writable
  page at address 0, a child with an empty three-level table, and one free page.
\<close>

section \<open>A machine with two address spaces\<close>

definition cw_end :: u64 where "cw_end = 0x87ff8000"

definition cw_old :: u64 where "cw_old = 0x87ff8000"

definition cw_new :: u64 where "cw_new = 0x87ffc000"

definition cw_mem :: memory where
  "cw_mem = store64 (store64 (store64 (store64 (store64 (\<lambda>_. 0)
     (0x87ff8000 + 8 * 0) (PA2PTE 0x87ff9000 OR PTE_V))
     (0x87ff9000 + 8 * 0) (PA2PTE 0x87ffa000 OR PTE_V))
     (0x87ffa000 + 8 * 0) (PA2PTE 0x87ffb000 OR 0x17))
     (0x87ffc000 + 8 * 0) (PA2PTE 0x87ffd000 OR PTE_V))
     (0x87ffd000 + 8 * 0) (PA2PTE 0x87ffe000 OR PTE_V)"

definition cw_state :: kmem where
  "cw_state = \<lparr>freelist = 0x87fff000,
     refcnt = (\<lambda>n. if n = page_index 0x87fff000 then 0 else 1), mem = cw_mem\<rparr>"

lemma page_index_numeral: "page_index (numeral k) = unat (numeral k :: u64) div 4096"
  by (simp add: page_index_def)

lemma cw_pos: "0 < cw_end"
  by (simp add: cw_end_def)

lemma cw_aligned:
  "pg_aligned 0x87ff8000" "pg_aligned 0x87ff9000" "pg_aligned 0x87ffa000" "pg_aligned 0x87ffb000"
  "pg_aligned 0x87ffc000" "pg_aligned 0x87ffd000" "pg_aligned 0x87ffe000" "pg_aligned 0x87fff000"
  by (simp_all add: pg_aligned_unat)

lemma cw_entry:
  assumes "pg_aligned t" "unat i < 512"
  shows "load64 cw_mem (t + 8 * i) =
    (if i \<noteq> 0 then 0
     else if t = 0x87ff8000 then PA2PTE 0x87ff9000 OR PTE_V
     else if t = 0x87ff9000 then PA2PTE 0x87ffa000 OR PTE_V
     else if t = 0x87ffa000 then PA2PTE 0x87ffb000 OR 0x17
     else if t = 0x87ffc000 then PA2PTE 0x87ffd000 OR PTE_V
     else if t = 0x87ffd000 then PA2PTE 0x87ffe000 OR PTE_V else 0)"
proof -
  have st: "load64 (store64 m (p + 8 * 0) v) (t + 8 * i) = (if t = p \<and> i = 0 then v else load64 m (t + 8 * i))"
    if "pg_aligned p" for m p v
  proof (cases "t = p \<and> i = 0")
    case False
    then show ?thesis using load64_store64_entry [of p t 0 i m v] that assms by auto
  qed simp
  show ?thesis unfolding cw_mem_def by (simp only: st cw_aligned) (auto simp: load64_zero)
qed

lemma cw_page_ok: "page_ok cw_end p \<longleftrightarrow> p \<in> {0x87ff8000, 0x87ff9000, 0x87ffa000, 0x87ffb000, 0x87ffc000, 0x87ffd000, 0x87ffe000, 0x87fff000}"
proof
  assume ok: "page_ok cw_end p"
  then obtain k where k: "unat p = 4096 * k" by (auto simp: page_ok_def elim: pg_alignedE)
  have "2281668608 \<le> unat p" "unat p < 2281701376"
    using ok by (simp_all add: page_ok_def cw_end_def word_le_nat_alt word_less_nat_alt unat_PHYSTOP)
  then have "k \<in> {557048, 557049, 557050, 557051, 557052, 557053, 557054, 557055}" using k by auto
  then show "p \<in> {0x87ff8000, 0x87ff9000, 0x87ffa000, 0x87ffb000, 0x87ffc000, 0x87ffd000, 0x87ffe000, 0x87fff000}"
    using k by (auto simp: word_unat_eq_iff)
qed (auto simp: page_ok_def cw_end_def cw_aligned PHYSTOP_def KERNBASE_def)

lemma cw_links:
  "PTE2PA (PA2PTE 0x87ff9000 OR PTE_V) = 0x87ff9000" "PTE2PA (PA2PTE 0x87ffa000 OR PTE_V) = 0x87ffa000"
  "PTE2PA (PA2PTE 0x87ffd000 OR PTE_V) = 0x87ffd000" "PTE2PA (PA2PTE 0x87ffe000 OR PTE_V) = 0x87ffe000"
  "PTE2PA (PA2PTE 0x87ffb000 OR 0x17) = 0x87ffb000"
  by (intro PTE2PA_PA2PTE cw_aligned; simp add: PTE_V_def)+

lemma idx_cases:
  "idx_path is \<longleftrightarrow> is = [] \<or> (\<exists>i. is = [i] \<and> unat i < 512) \<or> (\<exists>i j. is = [i, j] \<and> unat i < 512 \<and> unat j < 512)"
proof (cases "is")
  case (Cons i r)
  then show ?thesis by (cases r) (auto simp: idx_path_def)
qed (simp add: idx_path_def)

lemma cw_step:
  assumes "unat i < 512"
  shows "tbl cw_mem 0x87ff8000 (i # is) = (if i = 0 then tbl cw_mem 0x87ff9000 is else None)"
    "tbl cw_mem 0x87ff9000 (i # is) = (if i = 0 then tbl cw_mem 0x87ffa000 is else None)"
    "tbl cw_mem 0x87ffc000 (i # is) = (if i = 0 then tbl cw_mem 0x87ffd000 is else None)"
    "tbl cw_mem 0x87ffd000 (i # is) = (if i = 0 then tbl cw_mem 0x87ffe000 is else None)"
proof -
  have *: "tbl cw_mem t (i # is) = (if i = 0 then tbl cw_mem q is else None)"
    if "pg_aligned t" "load64 cw_mem (t + 8 * i) = (if i \<noteq> 0 then 0 else PA2PTE q OR PTE_V)"
      "PTE2PA (PA2PTE q OR PTE_V) = q" for t q
    unfolding tbl.simps Let_def that(2) using that(3) PTE_V_set [of "PA2PTE q"] by simp
  show "tbl cw_mem 0x87ff8000 (i # is) = (if i = 0 then tbl cw_mem 0x87ff9000 is else None)"
    "tbl cw_mem 0x87ff9000 (i # is) = (if i = 0 then tbl cw_mem 0x87ffa000 is else None)"
    "tbl cw_mem 0x87ffc000 (i # is) = (if i = 0 then tbl cw_mem 0x87ffd000 is else None)"
    "tbl cw_mem 0x87ffd000 (i # is) = (if i = 0 then tbl cw_mem 0x87ffe000 is else None)"
    by (rule * [OF _ _ cw_links(1)] * [OF _ _ cw_links(2)] * [OF _ _ cw_links(3)] * [OF _ _ cw_links(4)],
        rule cw_aligned, simp add: cw_entry [OF cw_aligned(1) assms] cw_entry [OF cw_aligned(2) assms]
          cw_entry [OF cw_aligned(5) assms] cw_entry [OF cw_aligned(6) assms])+
qed

lemma cw_tbl:
  assumes "idx_path is"
  shows "tbl cw_mem cw_old is =
      (if is = [] then Some 0x87ff8000 else if is = [0] then Some 0x87ff9000 else if is = [0, 0] then Some 0x87ffa000 else None)"
    "tbl cw_mem cw_new is =
      (if is = [] then Some 0x87ffc000 else if is = [0] then Some 0x87ffd000 else if is = [0, 0] then Some 0x87ffe000 else None)"
  using assms unfolding idx_cases cw_old_def cw_new_def
  by (elim disjE exE conjE; simp add: cw_step del: tbl.simps(2))+

lemma cw_state_sel [simp]:
  "mem cw_state = cw_mem" "freelist cw_state = 0x87fff000"
  "refcnt cw_state n = (if n = 557055 then 0 else 1)"
  by (simp_all add: cw_state_def page_index_def)

lemma cw_kmem_inv: "kmem_inv cw_end cw_state"
proof -
  have "load64 cw_mem 0x87fff000 = 0" using cw_entry [OF cw_aligned(8), of 0] by simp
  then have "run_list cw_mem 0x87fff000 [0x87fff000]" by simp
  moreover have "set [0x87fff000] = {p \<in> {p. page_ok cw_end p}. refcnt cw_state (page_index p) = 0}"
    by (auto simp: cw_page_ok page_index_def)
  moreover have "\<forall>p \<in> {p. page_ok cw_end p}. pg_aligned p \<and> 0 < p \<and> p < PHYSTOP"
    by (auto simp: cw_page_ok cw_aligned PHYSTOP_def KERNBASE_def)
  ultimately have "kmem_ok {p. page_ok cw_end p} [0x87fff000] cw_state" by (simp add: kmem_ok_def)
  then show ?thesis by (auto simp: kmem_inv_def)
qed

lemma cw_pt_ok: "pt_ok cw_end cw_old cw_state" "pt_ok cw_end cw_new cw_state"
  unfolding pt_ok_def cw_state_sel
  by (auto simp: cw_tbl cw_page_ok page_index_def split: if_splits)

lemma cw_tbl_pages:
  "tbl_pages cw_mem cw_old = {557048, 557049, 557050}" "tbl_pages cw_mem cw_new = {557052, 557053, 557054}"
proof -
  have *: "{page_index a |is a. idx_path is \<and> f is = Some a} = {page_index x, page_index y, page_index z}"
    if "\<And>is. idx_path is \<Longrightarrow> f is = (if is = [] then Some x else if is = [0] then Some y else if is = [0, 0] then Some z else None)"
    for f :: "u64 list \<Rightarrow> u64 option" and x y z
  proof (intro set_eqI iffI)
    fix n assume "n \<in> {page_index x, page_index y, page_index z}"
    then consider "n = page_index x" | "n = page_index y" | "n = page_index z" by blast
    then show "n \<in> {page_index a |is a. idx_path is \<and> f is = Some a}"
    proof cases
      case 1 then show ?thesis using that [of "[]"] by (auto intro!: exI [of _ "[]"])
    next
      case 2 then show ?thesis using that [of "[0]"] by (auto simp: idx_path_def intro!: exI [of _ "[0]"])
    next
      case 3 then show ?thesis using that [of "[0, 0]"] by (auto simp: idx_path_def intro!: exI [of _ "[0, 0]"])
    qed
  qed (auto simp: that split: if_splits)
  show "tbl_pages cw_mem cw_old = {557048, 557049, 557050}" "tbl_pages cw_mem cw_new = {557052, 557053, 557054}"
    unfolding tbl_pages_def by (subst *, rule cw_tbl, assumption, simp add: page_index_def)+
qed

lemma PX_zero: "page_index va = 0 \<Longrightarrow> PX l va = 0"
  using PX_cong [of va 0 l] by (simp add: page_index_def PX_def)

lemma cw_pte:
  assumes "va < MAXVA"
  shows "pte_val cw_mem cw_old va = (if page_index va = 0 then PA2PTE 0x87ffb000 OR 0x17 else 0)"
    "pte_val cw_mem cw_new va = 0"
proof -
  have t: "tbl cw_mem cw_old [PX 2 va, PX 1 va] = (if PX 2 va = 0 \<and> PX 1 va = 0 then Some 0x87ffa000 else None)"
    "tbl cw_mem cw_new [PX 2 va, PX 1 va] = (if PX 2 va = 0 \<and> PX 1 va = 0 then Some 0x87ffe000 else None)"
    using cw_tbl [OF idx_path_PX(1), of va] by (simp_all del: tbl.simps)
  have e: "load64 cw_mem (0x87ffe000 + 8 * PX 0 va) = 0"
      "load64 cw_mem (0x87ffa000 + 8 * PX 0 va) = (if PX 0 va = 0 then PA2PTE 0x87ffb000 OR 0x17 else 0)"
    unfolding cw_entry [OF cw_aligned(7) PX_lt] cw_entry [OF cw_aligned(3) PX_lt] by simp_all
  show "pte_val cw_mem cw_new va = 0"
    unfolding pte_val_def leaf_def t using e(1) by (cases "PX 2 va = 0 \<and> PX 1 va = 0") simp_all
  have "page_index va = 0 \<longleftrightarrow> PX 2 va = 0 \<and> PX 1 va = 0 \<and> PX 0 va = 0"
  proof
    assume "PX 2 va = 0 \<and> PX 1 va = 0 \<and> PX 0 va = 0"
    then show "page_index va = 0" unfolding PX_page_index [OF assms] by simp
  qed (simp add: PX_zero)
  then show "pte_val cw_mem cw_old va = (if page_index va = 0 then PA2PTE 0x87ffb000 OR 0x17 else 0)"
    unfolding pte_val_def leaf_def t using e(2) by (cases "PX 2 va = 0 \<and> PX 1 va = 0") auto
qed

lemma cw_flags: "(PA2PTE 0x87ffb000 OR 0x17) AND PTE_V \<noteq> 0" "(PA2PTE 0x87ffb000 OR 0x17) AND PTE_R \<noteq> 0"
  "(PA2PTE 0x87ffb000 OR 0x17) AND PTE_U \<noteq> 0"
  by (simp_all add: PTE_bits bit_or_iff bit_simps numeral_eq_Suc)

lemma cw_umapped: "umapped cw_mem cw_old va \<longleftrightarrow> page_index va = 0" "\<not> umapped cw_mem cw_new va"
  using cw_pte [of va] cw_flags
  by (cases "page_index va = 0"; simp add: umapped_def below_MAXVA_page)+

lemma cw_upa: "page_index va = 0 \<Longrightarrow> upa cw_mem cw_old va = 0x87ffb000"
  using cw_pte(1) [of va] cw_links(5) by (simp add: upa_def below_MAXVA_page)

lemma cw_space: "space_ok cw_end cw_old cw_state"
  unfolding space_ok_def user_ok_def using cw_kmem_inv cw_pt_ok
  by (auto simp: cw_umapped cw_upa cw_page_ok cw_tbl_pages) (simp_all add: page_index_def)

lemma cw_fork_ready: "fork_ready cw_end cw_old cw_new 4096 cw_state"
proof -
  have "region_ok cw_end cw_old 0 1 cw_state"
    unfolding region_ok_def in_pages_0 using cw_pte(1) cw_flags
    by (auto simp: cw_upa cw_page_ok cw_tbl_pages below_MAXVA_page) (simp_all add: page_index_def)
  moreover have "region_pages cw_mem cw_old 0 1 = {557051}"
    using region_pages_1 [of cw_mem cw_old 0] cw_upa [of 0] by (simp add: page_index_def)
  ultimately have "fork_pre cw_end cw_old cw_new 1 cw_state"
    unfolding fork_pre_def using cw_kmem_inv cw_pt_ok cw_pte(2)
    by (simp add: cw_tbl_pages below_MAXVA_page) (simp add: cw_end_def)
  then show ?thesis by (simp add: fork_ready_def fork_img_def cw_umapped)
qed

lemma walk_existing: "leaf (mem s) pt va = Some a \<Longrightarrow> va < MAXVA \<Longrightarrow> walk pt va alloc s = Ret (a, s)"
  by (auto simp: walk_def leaf_def numeral_2_eq_2 Let_def not_le [symmetric] split: if_splits)

lemma cw_leaf: "leaf cw_mem cw_old 0 = Some 0x87ffa000" "leaf cw_mem cw_new 0 = Some 0x87ffe000"
  using cw_tbl [OF idx_path_PX(1), of 0] PX_zero [of 0]
  by (simp_all add: leaf_def page_index_def del: tbl.simps)

lemma cw_uvmcopy: "\<exists>s'. uvmcopy cw_end cw_old cw_new 4096 cw_state = Ret (0, s')"
proof -
  have pre: "fork_pre cw_end cw_old cw_new 1 cw_state" using cw_fork_ready by (simp add: fork_ready_def)
  have z: "page_index 0 = 0" "(0 :: u64) < MAXVA" by (simp_all add: page_index_def MAXVA_def)
  define s1 where "s1 = cw_state\<lparr>mem := store64 cw_mem 0x87ffa000 (pte_val cw_mem cw_old 0 AND NOT PTE_W)\<rparr>"
  obtain s2 where i: "increse (upa cw_mem cw_old 0) s1 = Ret s2"
    using cow_protect [OF pre z(1) _ cow_share_0 [OF pre], of "0x87ffa000" s1] cw_leaf by (auto simp: s1_def)
  then have m2: "mem s2 = mem s1" by (auto simp: increse_def Let_def split: if_splits)
  note st = store_leaf [OF cw_kmem_inv cw_pt_ok(1), of 0 "0x87ffa000" s1]
  have "mem s2 x = cw_mem x" if "page_index x \<in> tbl_pages cw_mem cw_new" for x
    using st(5) [of _ x] that cw_leaf cw_tbl_pages m2 by (auto simp: s1_def)
  then have n2: "leaf (mem s2) cw_new 0 = Some 0x87ffe000" "pte_val (mem s2) cw_new 0 = 0"
    using pt_frame(1,2) [OF cw_pt_ok(2), of s2] cw_leaf cw_pte(2) [OF z(2)] by auto
  have "mappages cw_new 0 PGSIZE pa f s2 = Ret (0, s2\<lparr>mem := store64 (mem s2) 0x87ffe000 (PA2PTE pa OR f OR PTE_V)\<rparr>)"
    for pa f
    using walk_existing [OF n2(1) z(2)] n2 pte_val_leaf [OF n2(1)] z
    by (simp add: mappages_def PGSIZE_def PGROUNDDOWN_def) (subst mappages_loop.simps, simp)
  then show ?thesis
    using walk_existing [of cw_state cw_old 0] cw_leaf z i pte_val_leaf [OF cw_leaf(1)] cw_pte(1) [OF z(2)] cw_flags(1)
    by (simp add: uvmcopy_def) (subst uvmcopy_loop.simps, simp add: Let_def s1_def upa_def,
        subst uvmcopy_loop.simps, simp add: PGSIZE_def)
qed

section \<open>Fork and copy-on-write\<close>

text \<open>
  C1. Copy-on-write fork is invisible: after a successful \<open>uvmcopy\<close> the child sees, at every user
  address of the parent, the byte the parent had, the parent still sees it too, neither may
  write the page directly, and whatever the kernel then writes into one of the two address
  spaces with \<open>copyout\<close> never changes what the other one reads.
\<close>

theorem fork_copy_on_write:
  assumes "fork_ready kend old new sz s" "uvmcopy kend old new sz s = Ret (0, s1)"
    "umapped (mem s) old va" "length src < 2 ^ 64"
  shows "umapped (mem s1) new va \<and> uread (mem s1) new va = uread (mem s) old va \<and>
    umapped (mem s1) old va \<and> uread (mem s1) old va = uread (mem s) old va \<and>
    pte_val (mem s1) old va AND PTE_W = 0 \<and> pte_val (mem s1) new va AND PTE_W = 0 \<and>
    (\<forall>r s2. copyout kend new dst src s1 = Ret (r, s2) \<longrightarrow> uread (mem s2) old va = uread (mem s) old va) \<and>
    (\<forall>r s2. copyout kend old dst src s1 = Ret (r, s2) \<longrightarrow> uread (mem s2) new va = uread (mem s) old va)"
proof -
  let ?N = "(unat sz + 4095) div 4096"
  have pre: "fork_pre kend old new ?N s" and fi: "fork_img old new ?N s" and k: "0 < kend"
    using assms(1) by (auto simp: fork_ready_def fork_pre_def)
  have sh: "cow_share kend old new ?N ?N s s1" using uvmcopy_ok [OF pre] assms(2) by auto
  note v = cow_share_views [OF pre sh fi] and sp = cow_share_spaces [OF pre sh fi]
    and w = cow_share_write [OF pre sh fi assms(3)]
  have "page_index va < ?N" using fi assms(3) by (auto simp: fork_img_def)
  then show ?thesis
    using v(1,2,5) sp(3) [OF assms(3)] assms(3) w copyout_isolated [OF sp(2) k assms(4)] copyout_isolated [OF sp(1) k assms(4)]
    by auto
qed

theorem fork_copy_on_write_witness:
  "\<exists>s1. uvmcopy cw_end cw_old cw_new 4096 cw_state = Ret (0, s1) \<and> umapped (mem s1) cw_new 7 \<and>
    (\<forall>r s2. copyout cw_end cw_new 7 [42] s1 = Ret (r, s2) \<longrightarrow> uread (mem s2) cw_old 7 = uread cw_mem cw_old 7)"
proof -
  obtain s1 where "uvmcopy cw_end cw_old cw_new 4096 cw_state = Ret (0, s1)" using cw_uvmcopy by blast
  then show ?thesis
    using fork_copy_on_write [OF cw_fork_ready, of s1 7 "[42]" 7] cw_umapped(1) [of 7] by (auto simp: page_index_def)
qed

text \<open>
  C36. A failed fork leaks one reference: when \<open>uvmcopy\<close> cannot allocate a page-table page for the
  child it returns -1 after \<open>increse\<close> has already counted the current page, and releases only the
  pages before it. Exactly one page of the parent ends with a reference count that is one too
  high; every other count is restored.
\<close>

theorem uvmcopy_failure_leaks:
  assumes "fork_ready kend old new sz s" "uvmcopy kend old new sz s = Ret (- 1, s')"
  shows "\<exists>va. page_index va < (unat sz + 4095) div 4096 \<and> (\<forall>q. 0 < refcnt s q \<longrightarrow>
    refcnt s' q = (if q = page_index (upa (mem s) old va) then refcnt s q + 1 else refcnt s q))"
proof -
  have pre: "fork_pre kend old new ((unat sz + 4095) div 4096) s" using assms(1) by (simp add: fork_ready_def)
  then have "fork_failed kend old new ((unat sz + 4095) div 4096) s s'" using uvmcopy_ok [OF pre] assms(2) by auto
  then show ?thesis using fork_failed_counts [OF pre] by blast
qed

definition cw_full :: kmem where
  "cw_full = \<lparr>freelist = 0, refcnt = (\<lambda>_. 1), mem = cw_mem\<rparr>"

lemma cw_full_tbl: "idx_path is \<Longrightarrow> tbl cw_mem 0x87ffe000 is = (if is = [] then Some 0x87ffe000 else None)"
  using cw_entry [OF cw_aligned(7)] by (cases "is") (auto simp: idx_path_def)

lemma cw_full_pte: "pte_val cw_mem 0x87ffe000 va = 0"
  using cw_full_tbl [OF idx_path_PX(1), of va] by (simp add: pte_val_def leaf_def del: tbl.simps)

lemma cw_full_pages: "tbl_pages cw_mem 0x87ffe000 = {557054}"
proof (intro set_eqI iffI)
  fix n :: nat assume "n \<in> {557054}"
  then show "n \<in> tbl_pages cw_mem 0x87ffe000"
    using cw_full_tbl [of "[]"] by (auto simp: tbl_pages_def page_index_def intro!: exI [of _ "[]"])
qed (auto simp: tbl_pages_def cw_full_tbl page_index_def split: if_splits)

lemma cw_full_fork_ready: "fork_ready cw_end cw_old 0x87ffe000 4096 cw_full"
proof -
  have sel: "mem cw_full = cw_mem" "refcnt cw_full = (\<lambda>_. 1)" by (simp_all add: cw_full_def)
  have "kmem_ok {p. page_ok cw_end p} [] cw_full"
    by (auto simp: kmem_ok_def cw_full_def cw_page_ok cw_aligned PHYSTOP_def KERNBASE_def)
  then have "kmem_inv cw_end cw_full" by (auto simp: kmem_inv_def)
  moreover have "pt_ok cw_end cw_old cw_full" "pt_ok cw_end 0x87ffe000 cw_full"
    unfolding pt_ok_def sel by (auto simp: cw_tbl cw_full_tbl cw_page_ok split: if_splits)
  moreover have "region_ok cw_end cw_old 0 1 cw_full"
    unfolding region_ok_def in_pages_0 sel using cw_pte(1) cw_flags
    by (auto simp: cw_upa cw_page_ok cw_tbl_pages below_MAXVA_page) (simp_all add: page_index_def)
  moreover have "region_pages cw_mem cw_old 0 1 = {557051}"
    using region_pages_1 [of cw_mem cw_old 0] cw_upa [of 0] by (simp add: page_index_def)
  ultimately have "fork_pre cw_end cw_old 0x87ffe000 1 cw_full"
    unfolding fork_pre_def sel by (simp add: cw_tbl_pages cw_full_pages cw_full_pte) (simp add: cw_end_def)
  moreover have "fork_img cw_old 0x87ffe000 1 cw_full"
    unfolding fork_img_def sel by (simp add: cw_umapped(1)) (simp add: umapped_def cw_full_pte)
  ultimately show ?thesis by (simp add: fork_ready_def)
qed

lemma cw_full_fails: "\<exists>s'. uvmcopy cw_end cw_old 0x87ffe000 4096 cw_full = Ret (- 1, s')"
proof -
  have pre: "fork_pre cw_end cw_old 0x87ffe000 1 cw_full" using cw_full_fork_ready by (simp add: fork_ready_def)
  obtain r s' where u: "uvmcopy cw_end cw_old 0x87ffe000 4096 cw_full = Ret (r, s')"
      "r = 0 \<and> cow_share cw_end cw_old 0x87ffe000 1 1 cw_full s' \<or> r = - 1"
    using uvmcopy_ok [of cw_end cw_old "0x87ffe000" 4096 cw_full] pre by auto
  have False if sh: "cow_share cw_end cw_old 0x87ffe000 1 1 cw_full s'"
  proof -
    have ok: "pt_ok cw_end 0x87ffe000 s'" and "pte_val (mem s') 0x87ffe000 0 = child_entry (pte_val cw_mem cw_old 0)"
      using sh by (simp_all add: cow_share_def cw_full_def page_index_def MAXVA_def)
    moreover have "child_entry (pte_val cw_mem cw_old 0) \<noteq> 0"
      using child_entry_props(2) [of cw_end "pte_val cw_mem cw_old 0"] fork_preD(3) [OF pre, of 0]
      by (auto simp: upa_def cw_full_def page_index_def)
    ultimately obtain a where "leaf (mem s') 0x87ffe000 0 = Some a"
      by (cases "leaf (mem s') 0x87ffe000 0") (auto simp: pte_val_def)
    then obtain t where t: "tbl (mem s') 0x87ffe000 [PX 2 0, PX 1 0] = Some t" "pg_aligned t"
      using leafE [OF ok] by blast
    then have "page_index t \<in> tbl_pages (mem s') 0x87ffe000"
      unfolding tbl_pages_def using idx_path_PX(1) by blast
    then have "page_index t = page_index 0x87ffe000"
      using sh cw_full_pages by (auto simp: cow_share_def cw_full_def page_index_def)
    then have "t = 0x87ffe000" using page_index_inj t(2) cw_aligned(7) by blast
    then show False using pt_ok_inj [OF ok idx_path_PX(1) idx_path_Nil t(1)] by simp
  qed
  then show ?thesis using u by blast
qed

theorem uvmcopy_failure_leaks_witness:
  "\<exists>s' va. uvmcopy cw_end cw_old 0x87ffe000 4096 cw_full = Ret (- 1, s') \<and>
    refcnt s' (page_index (upa cw_mem cw_old va)) = 2"
proof -
  obtain s' where u: "uvmcopy cw_end cw_old 0x87ffe000 4096 cw_full = Ret (- 1, s')" using cw_full_fails by blast
  show ?thesis using uvmcopy_failure_leaks [OF cw_full_fork_ready u] u by (auto simp: cw_full_def)
qed

section \<open>Copying to and from user memory\<close>

text \<open>
  C8. \<open>copyout\<close> is safe and exact: on a well-formed address space it never panics, whatever
  destination it is given. It returns 0 when the whole range is mapped for the user and then
  the range holds the source; it returns -1 only when a part of the range is not mapped or no
  physical page is left. In either case no other byte of the process changes, the set of mapped
  addresses stays, and no page that another address space shares is written.
\<close>

theorem copyout_writes_user:
  assumes "space_ok kend pt s" "0 < kend" "length src < 2 ^ 64"
  shows "\<exists>r s'. copyout kend pt dst src s = Ret (r, s') \<and> space_ok kend pt s' \<and> isolated pt s s' \<and>
    (\<forall>vb. umapped (mem s') pt vb = umapped (mem s) pt vb) \<and>
    (\<forall>vb. umapped (mem s) pt vb \<longrightarrow> \<not> unat (vb - dst) < length src \<longrightarrow> uread (mem s') pt vb = uread (mem s) pt vb) \<and>
    (r = 0 \<and> range_mapped (mem s) pt dst (length src) \<and> user_bytes (mem s') pt dst (length src) = src \<or>
     r = - 1 \<and> (range_mapped (mem s) pt dst (length src) \<longrightarrow> pool_empty kend s'))"
  using copyout_ok [OF assms] by (auto simp: copied_out_def user_step_def)

lemma cw_copyout: "\<exists>s'. copyout cw_end cw_old 5 [1, 2, 3] cw_state = Ret (0, s')"
proof -
  have z: "PGROUNDDOWN 5 = 0" by (simp add: PGROUNDDOWN_def PGSIZE_def)
  have um: "umapped cw_mem cw_old 0" by (simp add: cw_umapped page_index_def)
  have "\<not> pool_empty cw_end cw_state"
    using cw_page_ok [of "0x87fff000"] by (auto simp: pool_empty_def page_index_def)
  moreover have "chunk 5 (length [1, 2, 3 :: u8]) = 3" by (simp add: chunk_def z PGSIZE_def)
  ultimately have "\<exists>s'. copyout cw_end cw_old 5 [1, 2, 3] cw_state = copyout cw_end cw_old PGSIZE [] s'"
    using copyout_step [OF cw_space, of "[1, 2, 3]" 3 5] um cw_pos by (auto simp: z)
  then show ?thesis by (auto simp: copyout.simps)
qed

theorem copyout_writes_user_witness:
  "\<exists>s'. copyout cw_end cw_old 5 [1, 2, 3] cw_state = Ret (0, s') \<and> user_bytes (mem s') cw_old 5 3 = [1, 2, 3]"
proof -
  obtain s' where c: "copyout cw_end cw_old 5 [1, 2, 3] cw_state = Ret (0, s')" using cw_copyout by blast
  have "0 < cw_end" by (simp add: cw_end_def)
  then show ?thesis
    using copyout_writes_user [OF cw_space, of "[1, 2, 3]" 5] c by (auto simp: numeral_3_eq_3)
qed

text \<open>
  C24. \<open>copyin\<close> reads exactly what the process sees: it never panics, returns 0 with the bytes of
  the range when every address is mapped for the user, and -1 when one of them is not.
\<close>

theorem copyin_reads_user:
  assumes "space_ok kend pt s" "0 < kend"
  shows "\<exists>bs. copyin pt va len s = Ret (if range_mapped (mem s) pt va len then 0 else - 1, bs) \<and>
    (range_mapped (mem s) pt va len \<longrightarrow> bs = user_bytes (mem s) pt va len)"
  by (rule copyin_ok [OF assms])

theorem copyin_reads_user_witness:
  "copyin cw_old 16 2 cw_state = Ret (0, user_bytes cw_mem cw_old 16 2)"
proof -
  have "range_mapped cw_mem cw_old 16 2"
    by (simp add: range_mapped_def cw_umapped less_2_cases_iff) (simp add: page_index_def)
  then show ?thesis using copyin_reads_user [OF cw_space, of 16 2] by (auto simp: cw_end_def)
qed

text \<open>
  C25. Round trip: what a successful \<open>copyout\<close> wrote, \<open>copyin\<close> from the same address reads back.
\<close>

theorem copyout_copyin_roundtrip:
  assumes "space_ok kend pt s" "0 < kend" "length src < 2 ^ 64" "copyout kend pt dst src s = Ret (0, s')"
  shows "copyin pt dst (length src) s' = Ret (0, src)"
proof -
  have c: "copied_out kend pt dst src s 0 s'" using copyout_ok [OF assms(1-3), of dst] assms(4) by auto
  then have "range_mapped (mem s') pt dst (length src)" "space_ok kend pt s'"
    by (auto simp: copied_out_def user_step_def range_mapped_def)
  then show ?thesis using copyin_ok [of kend pt s' dst "length src"] assms(2) c by (auto simp: copied_out_def)
qed

theorem copyout_copyin_roundtrip_witness:
  "\<exists>s'. copyout cw_end cw_old 5 [1, 2, 3] cw_state = Ret (0, s') \<and> copyin cw_old 5 3 s' = Ret (0, [1, 2, 3])"
proof -
  obtain s' where c: "copyout cw_end cw_old 5 [1, 2, 3] cw_state = Ret (0, s')" using cw_copyout by blast
  have "0 < cw_end" by (simp add: cw_end_def)
  then show ?thesis using copyout_copyin_roundtrip [OF cw_space _ _ c] c by (simp add: numeral_3_eq_3)
qed

text \<open>
  C15. The copy-on-write fault handler gives the process a private page: on a mapped user page it
  either returns -1 and changes nothing, because no page is free, or returns 0 and the page is
  afterwards referenced once, is writable, and holds the same bytes; no other mapping and no page of
  another address space changes. On an address that is not mapped for the user it returns -1.
\<close>

theorem cowfault_private_copy:
  assumes "space_ok kend pt s" "0 < kend"
  shows "\<exists>r s'. cowfault kend pt va s = Ret (r, s') \<and>
    (if r = 0 then umapped (mem s) pt va \<and> space_ok kend pt s' \<and> isolated pt s s' \<and>
        refcnt s' (page_index (upa (mem s') pt va)) = 1 \<and>
        (\<forall>vb. umapped (mem s') pt vb = umapped (mem s) pt vb) \<and>
        (\<forall>vb. umapped (mem s) pt vb \<longrightarrow> uread (mem s') pt vb = uread (mem s) pt vb)
     else r = - 1 \<and> s' = s \<and> (umapped (mem s) pt va \<longrightarrow> pool_empty kend s))"
proof -
  obtain r s' where "cowfault kend pt va s = Ret (r, s')" "user_step kend pt s s'"
      "\<forall>vb. umapped (mem s) pt vb \<longrightarrow> uread (mem s') pt vb = uread (mem s) pt vb"
      "r = 0 \<and> umapped (mem s) pt va \<and> refcnt s' (page_index (upa (mem s') pt va)) = 1 \<or>
       r = - 1 \<and> s' = s \<and> (umapped (mem s) pt va \<longrightarrow> pool_empty kend s)"
    using cowfault_ok [OF assms, of va] by blast
  then show ?thesis by (auto simp: user_step_def intro!: exI [of _ r] exI [of _ s'])
qed

lemma cw_cowfault: "\<exists>s'. cowfault cw_end cw_old 0 cw_state = Ret (0, s')"
proof -
  have "umapped cw_mem cw_old 0" by (simp add: cw_umapped page_index_def)
  moreover have "\<not> pool_empty cw_end cw_state"
    using cw_page_ok [of "0x87fff000"] by (auto simp: pool_empty_def page_index_def)
  ultimately show ?thesis using cowfault_mapped [OF cw_space, of 0] by (auto simp: cw_end_def)
qed

theorem cowfault_private_copy_witness:
  "\<exists>s'. cowfault cw_end cw_old 0 cw_state = Ret (0, s') \<and> refcnt s' (page_index (upa (mem s') cw_old 0)) = 1 \<and>
    uread (mem s') cw_old 9 = uread cw_mem cw_old 9"
proof -
  obtain s' where c: "cowfault cw_end cw_old 0 cw_state = Ret (0, s')" using cw_cowfault by blast
  have "0 < cw_end" by (simp add: cw_end_def)
  then show ?thesis using cowfault_private_copy [OF cw_space, of 0] c cw_umapped(1) [of 9]
    by (auto simp: page_index_def)
qed



section \<open>Mapping and unmapping ranges\<close>

text \<open>
  C22. \<open>mappages\<close> maps exactly the range it is given: on a table where no page of the range is
  mapped it returns without panicking. It returns 0 when every page of the range got the
  consecutive physical page with the given permissions, and -1, with the pages before the
  failure mapped, only when no physical page was left for a page-table page. Entries outside the
  range, reference counts of pages in use, and memory outside the page table never change.
\<close>

theorem mappages_maps_range:
  assumes "kmem_inv kend s" "pt_ok kend pt s" "0 < kend" "sz \<noteq> 0" "unat va + unat sz \<le> unat MAXVA"
    "n = Suc (page_index (va + sz - 1) - page_index va)"
    "\<And>vb. vb < MAXVA \<Longrightarrow> in_pages va n vb \<Longrightarrow> pte_val (mem s) pt vb AND PTE_V = 0"
  shows "\<exists>r s' k. mappages pt va sz pa perm s = Ret (r, s') \<and> kmem_inv kend s' \<and> pt_ok kend pt s' \<and>
    (\<forall>vb < MAXVA. pte_val (mem s') pt vb =
       (if in_pages va k vb then PA2PTE (pa + (PGROUNDDOWN vb - PGROUNDDOWN va)) OR perm OR PTE_V
        else pte_val (mem s) pt vb)) \<and>
    (r = 0 \<and> k = n \<or> r = - 1 \<and> k < n \<and> pool_empty kend s') \<and>
    (\<forall>q. 0 < refcnt s q \<longrightarrow> refcnt s' q = refcnt s q) \<and>
    (\<forall>x. 0 < refcnt s (page_index x) \<longrightarrow> page_index x \<notin> tbl_pages (mem s) pt \<longrightarrow> mem s' x = mem s x)"
proof -
  obtain r s' k where m: "mappages pt va sz pa perm s = Ret (r, s')" "vm_step kend pt s s'"
      "mapped_prefix pt (PGROUNDDOWN va) k pa perm s s'" "r = 0 \<and> k = n \<or> r = - 1 \<and> k < n \<and> pool_empty kend s'"
    using mappages_ok [OF assms] by blast
  have "in_pages (PGROUNDDOWN va) k vb = in_pages va k vb" for vb by (simp add: in_pages_def)
  then show ?thesis
    using m by (intro exI [of _ r] exI [of _ s'] exI [of _ k]) (simp add: vm_step_def mapped_prefix_def map_entry_def)
qed

theorem mappages_maps_range_witness:
  "\<exists>r s' (k :: nat). mappages cw_old 4096 4096 0x80000000 PTE_R cw_state = Ret (r, s') \<and>
    (r = 0 \<and> k = 1 \<or> r = - 1 \<and> k < 1) \<and>
    pte_val (mem s') cw_old 0 = pte_val cw_mem cw_old 0 \<and>
    pte_val (mem s') cw_old 4096 = (if k = 1 then PA2PTE 0x80000000 OR PTE_R OR PTE_V else 0)"
proof -
  have n: "(1 :: nat) = Suc (page_index (4096 + 4096 - 1) - page_index 4096)"
    and nz: "(4096 :: u64) \<noteq> 0" and mx: "unat (4096 :: u64) + unat (4096 :: u64) \<le> unat MAXVA"
    by (simp_all add: page_index_def unat_MAXVA)
  have free: "pte_val (mem cw_state) cw_old vb AND PTE_V = 0" if "vb < MAXVA" "in_pages 4096 1 vb" for vb
    using cw_pte(1) [OF that(1)] that(2) by (simp add: in_pages_def page_index_def)
  obtain r s' k where m: "mappages cw_old 4096 4096 0x80000000 PTE_R cw_state = Ret (r, s')"
      "\<forall>vb < MAXVA. pte_val (mem s') cw_old vb =
       (if in_pages 4096 k vb then PA2PTE (0x80000000 + (PGROUNDDOWN vb - PGROUNDDOWN 4096)) OR PTE_R OR PTE_V
        else pte_val (mem cw_state) cw_old vb)"
      "r = 0 \<and> k = 1 \<or> r = - 1 \<and> k < 1"
    using mappages_maps_range [OF cw_kmem_inv cw_pt_ok(1) cw_pos nz mx n free, of "0x80000000" PTE_R] by blast
  have lt: "(0 :: u64) < MAXVA" "(4096 :: u64) < MAXVA" by (simp_all add: MAXVA_def)
  have e: "in_pages 4096 k 0 = False" "in_pages 4096 k 4096 = (k = 1)"
    using m(3) by (auto simp: in_pages_def page_index_def)
  have z: "pte_val cw_mem cw_old 4096 = 0" using cw_pte(1) [OF lt(2)] by (simp add: page_index_def)
  have "pte_val (mem s') cw_old 0 = pte_val cw_mem cw_old 0" using spec [OF m(2), of 0] lt e by simp
  moreover have "pte_val (mem s') cw_old 4096 = (if k = 1 then PA2PTE 0x80000000 OR PTE_R OR PTE_V else 0)"
    using spec [OF m(2), of 4096] lt e z by simp
  ultimately show ?thesis using m(1,3) by blast
qed

text \<open>
  C23. \<open>uvmunmap\<close> gives the pages back: on a region whose pages are all mapped, once each, to pages
  in use, it returns without panicking, clears exactly the entries of the region, and lowers the
  reference count of each of its pages by one. Pages that stay referenced keep their contents.
\<close>

theorem uvmunmap_releases:
  assumes "kmem_inv kend s" "pt_ok kend pt s" "0 < kend" "pg_aligned a" "region_ok kend pt a n s"
  shows "\<exists>s'. uvmunmap kend pt a (of_nat n) True s = Ret s' \<and> kmem_inv kend s' \<and> pt_ok kend pt s' \<and>
    (\<forall>vb < MAXVA. pte_val (mem s') pt vb = (if in_pages a n vb then 0 else pte_val (mem s) pt vb)) \<and>
    (\<forall>q. refcnt s' q = (if q \<in> region_pages (mem s) pt a n then refcnt s q - 1 else refcnt s q)) \<and>
    (\<forall>x. page_index x \<notin> tbl_pages (mem s) pt \<longrightarrow>
       (page_index x \<in> region_pages (mem s) pt a n \<longrightarrow> 1 < refcnt s (page_index x)) \<longrightarrow> mem s' x = mem s x)"
  using uvmunmap_ok [OF assms] by (auto simp: unmapped_to_def)

theorem uvmunmap_releases_witness:
  "\<exists>s'. uvmunmap cw_end cw_old 0 1 True cw_state = Ret s' \<and> refcnt s' 557051 = 0 \<and> pte_val (mem s') cw_old 0 = 0"
proof -
  have r: "region_ok cw_end cw_old 0 1 cw_state" using cw_fork_ready by (simp add: fork_ready_def fork_pre_def)
  have p: "region_pages cw_mem cw_old 0 1 = {557051}"
    using region_pages_1 [of cw_mem cw_old 0] cw_upa [of 0] by (simp add: page_index_def)
  show ?thesis
    using uvmunmap_releases [OF cw_kmem_inv cw_pt_ok(1) cw_pos _ r] p
    by (auto simp: pg_aligned_unat in_pages_0 page_index_def MAXVA_def)
qed

end
