(* ===== verification/Ring.thy ===== *)
theory Ring
  imports Prelude
begin

text \<open>
  Ring buffers. The pipe, the console input and the UART output all keep a byte array and two
  free-running unsigned counters, and use \<open>buf[counter % SIZE]\<close>. The bytes in flight are a list
  (\<open>ring_contents\<close>); a put appends to it and a get takes its head, also when a counter wraps
  around. The locale \<open>fifo\<close> is the contract the three buffers are used with.
\<close>

section \<open>Counters that wrap around\<close>

definition ring_contents :: "nat \<Rightarrow> u8 list \<Rightarrow> 'a::len word \<Rightarrow> 'a word \<Rightarrow> u8 list" where
  "ring_contents N b r w = map (\<lambda>k. b ! (unat (r + of_nat k) mod N)) [0..<unat (w - r)]"

lemma length_ring_contents [simp]: "length (ring_contents N b r w) = unat (w - r)"
  by (simp add: ring_contents_def)

lemma unat_counter:
  fixes r :: "'a::len word"
  assumes "N dvd 2 ^ LENGTH('a)"
  shows "unat (r + of_nat k) mod N = (unat r + k) mod N"
proof -
  have "unat (r + of_nat k) = (unat r + k) mod 2 ^ LENGTH('a)"
    by (simp add: unat_word_ariths unat_of_nat mod_add_right_eq)
  then show ?thesis using assms by (simp add: mod_mod_cancel)
qed

lemma unat_step:
  fixes r w :: "'a::len word"
  assumes "unat (w - r) < 2 ^ LENGTH('a) - 1"
  shows "unat (w + 1 - r) = Suc (unat (w - r))"
proof -
  have "w + 1 - r = (w - r) + 1" by simp
  then show ?thesis using assms by (simp only: unat_word_ariths) simp
qed

lemma counter_distinct:
  fixes r w :: "'a::len word"
  assumes "N dvd 2 ^ LENGTH('a)" "unat (w - r) < N" "k < unat (w - r)"
  shows "unat (r + of_nat k) mod N \<noteq> unat w mod N"
proof
  define d where "d = unat (w - r)"
  have "w = r + of_nat d" by (simp add: d_def)
  then have w: "unat w mod N = (unat r + d) mod N" using unat_counter [OF assms(1), of r d] by simp
  assume "unat (r + of_nat k) mod N = unat w mod N"
  then have "(unat r + d) mod N = (unat r + k) mod N" using w unat_counter [OF assms(1), of r k] by simp
  then have "N dvd (unat r + d) - (unat r + k)" using mod_eq_dvd_iff_nat [of "unat r + k" "unat r + d" N] assms(3)
    by (simp add: d_def)
  then show False using assms(2,3) by (auto simp: d_def dest: dvd_imp_le)
qed

lemma ring_put:
  fixes r w :: "'a::len word"
  assumes "N dvd 2 ^ LENGTH('a)" "N < 2 ^ LENGTH('a)" "length b = N" "unat (w - r) < N"
  shows "ring_contents N (b[unat w mod N := c]) r (w + 1) = ring_contents N b r w @ [c]"
proof -
  let ?d = "unat (w - r)"
  have e: "unat (w + 1 - r) = Suc ?d" by (rule unat_step) (use assms in simp)
  have w: "r + of_nat ?d = w" by simp
  have "ring_contents N (b[unat w mod N := c]) r (w + 1)
      = map (\<lambda>k. b[unat w mod N := c] ! (unat (r + of_nat k) mod N)) [0..<?d] @ [b[unat w mod N := c] ! (unat w mod N)]"
    unfolding ring_contents_def e using w by simp
  also have "map (\<lambda>k. b[unat w mod N := c] ! (unat (r + of_nat k) mod N)) [0..<?d] = ring_contents N b r w"
    unfolding ring_contents_def using counter_distinct [OF assms(1,4)]
    by (intro map_cong refl) (simp add: nth_list_update_neq [OF not_sym])
  also have "b[unat w mod N := c] ! (unat w mod N) = c"
    using assms(3,4) by (intro nth_list_update_eq) simp
  finally show ?thesis .
qed

lemma unat_less_one:
  fixes r w :: "'a::len word"
  assumes "r \<noteq> w"
  shows "unat (w - (r + 1)) = unat (w - r) - 1"
proof -
  have d: "w - (r + 1) = (w - r) - 1" by simp
  have "w - r \<noteq> 0" using assms by simp
  then show ?thesis unfolding d by (rule unat_minus_one)
qed

lemma ring_get:
  fixes r w :: "'a::len word"
  assumes "r \<noteq> w"
  shows "ring_contents N b r w = b ! (unat r mod N) # ring_contents N b (r + 1) w"
proof -
  have "w - r \<noteq> 0" using assms by simp
  then have pos: "0 < unat (w - r)" by (simp add: unat_gt_0)
  note e = unat_less_one [OF assms]
  show ?thesis
  proof (rule nth_equalityI)
    show "length (ring_contents N b r w) = length (b ! (unat r mod N) # ring_contents N b (r + 1) w)"
      using pos e by simp
    fix k assume k: "k < length (ring_contents N b r w)"
    show "ring_contents N b r w ! k = (b ! (unat r mod N) # ring_contents N b (r + 1) w) ! k"
    proof (cases k)
      case (Suc j)
      then have "0 + j < unat (w - r) - 1" using k by simp
      then show ?thesis using k Suc e by (simp add: ring_contents_def add.assoc nth_upt del: upt_Suc)
    qed (use k in \<open>simp add: ring_contents_def\<close>)
  qed
qed

lemma ring_empty: "ring_contents N b r w = [] \<longleftrightarrow> r = w"
  by (auto simp: ring_contents_def unat_eq_0)

text \<open>Three counters \<open>r \<le> w \<le> e\<close>: the middle one splits the bytes between the outer two.\<close>

lemma unat_split:
  fixes r w e :: "'a::len word"
  assumes "unat (w - r) \<le> unat (e - r)"
  shows "unat (e - w) = unat (e - r) - unat (w - r)"
proof -
  have "e - w = (e - r) - (w - r)" by simp
  then show ?thesis using assms by (simp only: unat_sub_if') simp
qed

lemma ring_split:
  fixes r w e :: "'a::len word"
  assumes "unat (w - r) \<le> unat (e - r)"
  shows "ring_contents N b r w = take (unat (w - r)) (ring_contents N b r e)"
    "ring_contents N b w e = drop (unat (w - r)) (ring_contents N b r e)"
proof -
  show "ring_contents N b r w = take (unat (w - r)) (ring_contents N b r e)"
    using assms by (intro nth_equalityI) (auto simp: ring_contents_def)
  have w: "w + of_nat k = r + of_nat (unat (w - r) + k)" for k by simp
  show "ring_contents N b w e = drop (unat (w - r)) (ring_contents N b r e)"
    using assms unat_split [OF assms] w by (intro nth_equalityI) (auto simp: ring_contents_def)
qed

lemma unat_dec:
  fixes r e :: "'a::len word"
  assumes "r \<noteq> e"
  shows "unat (e - 1 - r) = unat (e - r) - 1"
  using unat_less_one [OF assms] by (simp add: algebra_simps)

lemma ring_dec:
  fixes r e :: "'a::len word"
  assumes "r \<noteq> e"
  shows "ring_contents N b r (e - 1) = butlast (ring_contents N b r e)"
    "last (ring_contents N b r e) = b ! (unat (e - 1) mod N)"
proof -
  have pos: "0 < unat (e - r)" using assms by (auto simp: unat_gt_0)
  show "ring_contents N b r (e - 1) = butlast (ring_contents N b r e)"
    unfolding butlast_conv_take using ring_split(1) [of "e - 1" r e N b] unat_dec [OF assms] by simp
  have "r + of_nat (unat (e - r) - 1) = e - 1" using unat_dec [OF assms] by (metis add_diff_cancel_left' add_diff_eq diff_add_cancel of_nat_unat ucast_id)
  then show "last (ring_contents N b r e) = b ! (unat (e - 1) mod N)"
    using pos by (subst last_conv_nth) (auto simp: ring_contents_def ring_empty [unfolded ring_contents_def])
qed

section \<open>The contract of a byte queue\<close>

locale fifo =
  fixes ok :: "'s \<Rightarrow> bool"
    and contents :: "'s \<Rightarrow> u8 list"
    and cap :: nat
    and put :: "u8 \<Rightarrow> 's \<Rightarrow> 's"
    and get :: "'s \<Rightarrow> u8 \<times> 's"
  assumes within: "ok s \<Longrightarrow> length (contents s) \<le> cap"
    and put_law: "ok s \<Longrightarrow> length (contents s) < cap \<Longrightarrow> ok (put c s) \<and> contents (put c s) = contents s @ [c]"
    and get_law: "ok s \<Longrightarrow> contents s \<noteq> [] \<Longrightarrow>
      ok (snd (get s)) \<and> contents s = fst (get s) # contents (snd (get s))"
begin

primrec puts :: "u8 list \<Rightarrow> 's \<Rightarrow> 's" where
  "puts [] s = s"
| "puts (c # cs) s = puts cs (put c s)"

lemma puts_append:
  assumes "ok s" "length (contents s) + length cs \<le> cap"
  shows "ok (puts cs s) \<and> contents (puts cs s) = contents s @ cs"
  using assms
proof (induction cs arbitrary: s)
  case (Cons c cs)
  then show ?case using put_law [of s c] by simp
qed simp

text \<open>
  A run of puts into non-full and gets from non-empty states: what has been taken out, followed
  by what is still inside, is what was there first, followed by what has been put in.
\<close>

inductive run :: "'s \<Rightarrow> u8 list \<Rightarrow> u8 list \<Rightarrow> 's \<Rightarrow> bool" where
  start: "run s [] [] s"
| put: "run s i out s' \<Longrightarrow> length (contents s') < cap \<Longrightarrow> run s (i @ [c]) out (put c s')"
| get: "run s i out s' \<Longrightarrow> contents s' \<noteq> [] \<Longrightarrow> run s i (out @ [fst (get s')]) (snd (get s'))"

lemma run_order:
  assumes "run s i out s'" "ok s"
  shows "ok s' \<and> contents s @ i = out @ contents s'"
  using assms
proof (induction rule: run.induct)
  case (put s i out s' c)
  then have "contents s @ i @ [c] = out @ contents s' @ [c]" by (metis append_assoc)
  then show ?case using put put_law [of s' c] by simp
next
  case (get s i out s')
  then show ?case using get_law [of s'] by simp
qed simp

end

end
