(* ===== verification/Pipe.thy ===== *)
theory Pipe
  imports Ring Vm_Properties
begin

text \<open>
  Pipes, kernel/pipe.c. The body of each function between \<open>acquire(&pi->lock)\<close> and the release,
  or the release inside \<open>sleep\<close>, is one step: \<open>Done\<close> is a return, \<open>Sleep\<close> names the channel and
  the loop variable the function resumes with once it is woken. The channels passed to
  \<open>wakeup\<close> are returned in order. \<open>killed\<close> is the answer of \<open>killed(pr)\<close> at the given
  iteration, since another process may set the flag at any time. The page the pipe lives in is
  taken from and given back to the allocator by \<open>pipealloc\<close> and \<open>pipeclose\<close>.
\<close>

section \<open>Definitions\<close>

definition PIPESIZE :: nat where "PIPESIZE = 512"

record pipe =
  pdata :: "u8 list"
  nread :: u32
  nwrite :: u32
  readopen :: int
  writeopen :: int

datatype pchan = Chan_nread | Chan_nwrite

datatype blocking = Done int | Sleep pchan int

definition pipe_init :: "pipe \<Rightarrow> pipe" where
  "pipe_init pi = pi\<lparr>readopen := 1, writeopen := 1, nwrite := 0, nread := 0\<rparr>"

definition pipe_put :: "u8 \<Rightarrow> pipe \<Rightarrow> pipe" where
  "pipe_put ch pi = pi\<lparr>pdata := (pdata pi)[unat (nwrite pi) mod PIPESIZE := ch], nwrite := nwrite pi + 1\<rparr>"

definition pipe_get :: "pipe \<Rightarrow> u8 \<times> pipe" where
  "pipe_get pi = (pdata pi ! (unat (nread pi) mod PIPESIZE), pi\<lparr>nread := nread pi + 1\<rparr>)"

definition pipeclose :: "u64 \<Rightarrow> u64 \<Rightarrow> bool \<Rightarrow> pipe \<Rightarrow> kmem \<Rightarrow> (pchan list \<times> pipe \<times> kmem) result" where
  "pipeclose kend pa writable pi s =
     (let (wk, pi) =
        (if writable then ([Chan_nread], pi\<lparr>writeopen := 0\<rparr>) else ([Chan_nwrite], pi\<lparr>readopen := 0\<rparr>))
      in if readopen pi = 0 \<and> writeopen pi = 0
         then rbind (kfree kend pa s) (\<lambda>s. Ret (wk, pi, s))
         else Ret (wk, pi, s))"

function pipewrite_loop ::
  "u64 \<Rightarrow> (int \<Rightarrow> bool) \<Rightarrow> u64 \<Rightarrow> int \<Rightarrow> int \<Rightarrow> pipe \<Rightarrow> kmem \<Rightarrow> (blocking \<times> pchan list \<times> pipe) result" where
  "pipewrite_loop pagetable killed addr n i pi s =
     (if i < n then
        if readopen pi = 0 \<or> killed i then Ret (Done (- 1), [], pi)
        else if nwrite pi = nread pi + of_nat PIPESIZE
        then Ret (Sleep Chan_nwrite i, [Chan_nread], pi)
        else rbind (copyin pagetable (addr + of_int i) 1 s) (\<lambda>(r, bs).
          if r = - 1 then Ret (Done i, [Chan_nread], pi)
          else pipewrite_loop pagetable killed addr n (i + 1) (pipe_put (hd bs) pi) s)
      else Ret (Done i, [Chan_nread], pi))"
  by pat_completeness auto
termination
  by (relation "measure (\<lambda>(pagetable, killed, addr, n, i, pi, s). nat (n - i))") auto

declare pipewrite_loop.simps [simp del]

definition pipewrite ::
  "u64 \<Rightarrow> (int \<Rightarrow> bool) \<Rightarrow> u64 \<Rightarrow> int \<Rightarrow> pipe \<Rightarrow> kmem \<Rightarrow> (blocking \<times> pchan list \<times> pipe) result" where
  "pipewrite pagetable killed addr n pi s = pipewrite_loop pagetable killed addr n 0 pi s"

function piperead_loop ::
  "u64 \<Rightarrow> u64 \<Rightarrow> u64 \<Rightarrow> int \<Rightarrow> int \<Rightarrow> pipe \<Rightarrow> kmem \<Rightarrow> (int \<times> pipe \<times> kmem) result" where
  "piperead_loop kend pagetable addr n i pi s =
     (if i < n then
        if nread pi = nwrite pi then Ret (i, pi, s)
        else let (ch, pi) = pipe_get pi in
          rbind (copyout kend pagetable (addr + of_int i) [ch] s) (\<lambda>(r, s).
            if r = - 1 then Ret (i, pi, s)
            else piperead_loop kend pagetable addr n (i + 1) pi s)
      else Ret (i, pi, s))"
  by pat_completeness auto
termination
  by (relation "measure (\<lambda>(kend, pagetable, addr, n, i, pi, s). nat (n - i))") auto

declare piperead_loop.simps [simp del]

definition piperead ::
  "u64 \<Rightarrow> u64 \<Rightarrow> bool \<Rightarrow> u64 \<Rightarrow> int \<Rightarrow> pipe \<Rightarrow> kmem \<Rightarrow> (blocking \<times> pchan list \<times> pipe \<times> kmem) result" where
  "piperead kend pagetable killed addr n pi s =
     (if nread pi = nwrite pi \<and> writeopen pi \<noteq> 0 then
        if killed then Ret (Done (- 1), [], pi, s) else Ret (Sleep Chan_nread 0, [], pi, s)
      else rbind (piperead_loop kend pagetable addr n 0 pi s) (\<lambda>(i, pi, s).
        Ret (Done i, [Chan_nwrite], pi, s)))"

section \<open>The pipe as a queue\<close>

definition pipe_contents :: "pipe \<Rightarrow> u8 list" where
  "pipe_contents pi = ring_contents PIPESIZE (pdata pi) (nread pi) (nwrite pi)"

definition pipe_ok :: "pipe \<Rightarrow> bool" where
  "pipe_ok pi \<longleftrightarrow> length (pdata pi) = PIPESIZE \<and> unat (nwrite pi - nread pi) \<le> PIPESIZE"

lemma PIPESIZE_ring: "PIPESIZE dvd 2 ^ LENGTH(32)" "PIPESIZE < 2 ^ LENGTH(32)"
  by (simp_all add: PIPESIZE_def)

lemma length_pipe_contents [simp]: "length (pipe_contents pi) = unat (nwrite pi - nread pi)"
  by (simp add: pipe_contents_def)

interpretation pipe_fifo: fifo pipe_ok pipe_contents PIPESIZE pipe_put pipe_get
proof
  fix pi :: pipe and c assume ok: "pipe_ok pi"
  show "length (pipe_contents pi) \<le> PIPESIZE" using ok by (simp add: pipe_ok_def)
  show "pipe_ok (pipe_put c pi) \<and> pipe_contents (pipe_put c pi) = pipe_contents pi @ [c]"
    if "length (pipe_contents pi) < PIPESIZE"
  proof -
    have "pipe_contents (pipe_put c pi) = pipe_contents pi @ [c]"
      using ring_put [OF PIPESIZE_ring, of "pdata pi" "nwrite pi" "nread pi" c] ok that
      by (simp add: pipe_contents_def pipe_put_def pipe_ok_def)
    moreover have "unat (nwrite pi + 1 - nread pi) = Suc (unat (nwrite pi - nread pi))"
      using that by (intro unat_step) (simp add: PIPESIZE_def)
    ultimately show ?thesis using ok that by (simp add: pipe_ok_def pipe_put_def)
  qed
  show "pipe_ok (snd (pipe_get pi)) \<and> pipe_contents pi = fst (pipe_get pi) # pipe_contents (snd (pipe_get pi))"
    if "pipe_contents pi \<noteq> []"
  proof -
    have ne: "nread pi \<noteq> nwrite pi" using that by (simp add: pipe_contents_def ring_empty)
    then have e: "pipe_contents pi = fst (pipe_get pi) # pipe_contents (snd (pipe_get pi))"
      using ring_get [of "nread pi" "nwrite pi" PIPESIZE "pdata pi"] by (simp add: pipe_contents_def pipe_get_def)
    then show ?thesis using ok e unat_less_one [OF ne] by (auto simp: pipe_ok_def pipe_get_def)
  qed
qed

lemma pipe_full: "nwrite pi = nread pi + of_nat PIPESIZE \<longleftrightarrow> length (pipe_contents pi) = PIPESIZE"
proof -
  have "nwrite pi = nread pi + of_nat PIPESIZE \<longleftrightarrow> nwrite pi - nread pi = of_nat PIPESIZE" by (auto simp: algebra_simps)
  also have "\<dots> \<longleftrightarrow> unat (nwrite pi - nread pi) = unat (of_nat PIPESIZE :: u32)" by (simp add: word_unat_eq_iff)
  finally show ?thesis by (simp add: PIPESIZE_def)
qed

lemma pipe_empty: "nread pi = nwrite pi \<longleftrightarrow> pipe_contents pi = []"
  by (simp add: pipe_contents_def ring_empty)

section \<open>Reading and writing\<close>

lemma copyin_byte:
  assumes "space_ok kend pt s" "0 < kend"
  shows "(umapped (mem s) pt va \<and> copyin pt va 1 s = Ret (0, [uread (mem s) pt va])) \<or>
    (\<not> umapped (mem s) pt va \<and> (\<exists>bs. copyin pt va 1 s = Ret (- 1, bs)))"
  using copyin_ok [OF assms, of va 1] by (auto simp: range_mapped_def user_bytes_def split: if_splits)

lemma user_bytes_Suc: "user_bytes m pt va (Suc k) = uread m pt va # user_bytes m pt (va + 1) k"
  using user_bytes_add [of m pt va 1 k] by (simp add: user_bytes_def)

text \<open>What a segment of \<open>pipewrite\<close> that starts at byte \<open>i\<close> may do.\<close>

definition write_done ::
  "(int \<Rightarrow> bool) \<Rightarrow> memory \<Rightarrow> u64 \<Rightarrow> u64 \<Rightarrow> int \<Rightarrow> int \<Rightarrow> pipe \<Rightarrow> blocking \<Rightarrow> pchan list \<Rightarrow> pipe \<Rightarrow> nat \<Rightarrow> bool" where
  "write_done killed m pt addr n i pi b wk pi' k \<longleftrightarrow>
     pipe_ok pi' \<and> nread pi' = nread pi \<and> readopen pi' = readopen pi \<and> writeopen pi' = writeopen pi \<and>
     pipe_contents pi' = pipe_contents pi @ user_bytes m pt (addr + of_int i) k \<and>
     (case b of
        Done r \<Rightarrow>
          r = - 1 \<and> (readopen pi = 0 \<or> killed (i + int k)) \<and> wk = [] \<or>
          r = i + int k \<and> wk = [Chan_nread] \<and> (n \<le> r \<or> \<not> umapped m pt (addr + of_int r))
      | Sleep c j \<Rightarrow> c = Chan_nwrite \<and> wk = [Chan_nread] \<and> j = i + int k \<and> j < n \<and>
          unat (nwrite pi' - nread pi') = PIPESIZE)"

lemma write_done_Suc:
  assumes ok: "pipe_ok pi" "length (pipe_contents pi) < PIPESIZE"
    and d: "write_done killed m pt addr n (i + 1) (pipe_put (uread m pt (addr + of_int i)) pi) b wk pi' k"
  shows "write_done killed m pt addr n i pi b wk pi' (Suc k)"
proof -
  have "pipe_contents (pipe_put (uread m pt (addr + of_int i)) pi) = pipe_contents pi @ [uread m pt (addr + of_int i)]"
    using pipe_fifo.put_law [OF ok] by blast
  then show ?thesis
    using d unfolding write_done_def user_bytes_Suc
    by (auto simp: pipe_put_def algebra_simps split: blocking.splits)
qed

lemma pipewrite_loop_ok:
  assumes "space_ok kend pt s" "0 < kend" "pipe_ok pi"
  shows "\<exists>b wk pi' k. pipewrite_loop pt killed addr n i pi s = Ret (b, wk, pi') \<and>
    write_done killed (mem s) pt addr n i pi b wk pi' k"
  using assms(3)
proof (induction "nat (n - i)" arbitrary: i pi)
  case 0
  then show ?case
    by (subst pipewrite_loop.simps) (auto simp: write_done_def user_bytes_def intro!: exI [of _ 0])
next
  case (Suc x)
  then have lt: "i < n" by simp
  have stop: "write_done killed (mem s) pt addr n i pi b wk pi 0"
    if "b = Done (- 1) \<and> wk = [] \<and> (readopen pi = 0 \<or> killed i) \<or> b = Sleep Chan_nwrite i \<and> wk = [Chan_nread] \<and>
        length (pipe_contents pi) = PIPESIZE \<or>
        b = Done i \<and> wk = [Chan_nread] \<and> \<not> umapped (mem s) pt (addr + of_int i)" for b wk
    using that Suc.prems lt by (auto simp: write_done_def user_bytes_def)
  consider (err) "readopen pi = 0 \<or> killed i"
    | (full) "\<not> (readopen pi = 0 \<or> killed i)" "length (pipe_contents pi) = PIPESIZE"
    | (room) "\<not> (readopen pi = 0 \<or> killed i)" "length (pipe_contents pi) < PIPESIZE"
    using pipe_fifo.within [OF Suc.prems] by linarith
  then show ?case
  proof cases
    case err
    then show ?thesis using lt stop by (subst pipewrite_loop.simps) auto
  next
    case full
    then have "nwrite pi = nread pi + of_nat PIPESIZE" using pipe_full by blast
    then show ?thesis using full lt stop by (subst pipewrite_loop.simps) auto
  next
    case room
    then have nf: "nwrite pi \<noteq> nread pi + of_nat PIPESIZE" using pipe_full [of pi] by auto
    let ?c = "uread (mem s) pt (addr + of_int i)"
    consider (bad) bs where "copyin pt (addr + of_int i) 1 s = Ret (- 1, bs)" "\<not> umapped (mem s) pt (addr + of_int i)"
      | (good) "copyin pt (addr + of_int i) 1 s = Ret (0, [?c])"
      using copyin_byte [OF assms(1,2)] by blast
    then show ?thesis
    proof cases
      case bad
      then show ?thesis using lt room nf stop by (subst pipewrite_loop.simps) auto
    next
      case good
      have "pipe_ok (pipe_put ?c pi)" using pipe_fifo.put_law [OF Suc.prems room(2)] by blast
      moreover have "x = nat (n - (i + 1))" using Suc.hyps(2) by linarith
      ultimately obtain b wk pi' k where "pipewrite_loop pt killed addr n (i + 1) (pipe_put ?c pi) s = Ret (b, wk, pi')"
          "write_done killed (mem s) pt addr n (i + 1) (pipe_put ?c pi) b wk pi' k"
        using Suc.hyps(1) by blast
      moreover from this have "write_done killed (mem s) pt addr n i pi b wk pi' (Suc k)"
        using write_done_Suc [OF Suc.prems room(2)] by blast
      ultimately show ?thesis using lt room nf good by (subst pipewrite_loop.simps) auto
    qed
  qed
qed

lemma copyout_byte:
  assumes "space_ok kend pt s" "0 < kend"
  shows "\<exists>r s'. copyout kend pt va [c] s = Ret (r, s') \<and> user_step kend pt s s' \<and>
    (\<forall>vb. umapped (mem s) pt vb \<longrightarrow> vb \<noteq> va \<longrightarrow> uread (mem s') pt vb = uread (mem s) pt vb) \<and>
    (r = 0 \<and> umapped (mem s) pt va \<and> uread (mem s') pt va = c \<or>
     r = - 1 \<and> (umapped (mem s) pt va \<longrightarrow> pool_empty kend s'))"
proof -
  obtain r s' where c: "copyout kend pt va [c] s = Ret (r, s')" "copied_out kend pt va [c] s r s'"
    using copyout_ok [OF assms, of "[c]" va] by auto
  have "unat (vb - va) < 1 \<longleftrightarrow> vb = va" for vb by (auto simp: unat_eq_0)
  then show ?thesis
    using c by (intro exI [of _ r] exI [of _ s'])
      (auto simp: copied_out_def range_mapped_def user_bytes_def unat_eq_0)
qed

text \<open>
  What the copy loop of \<open>piperead\<close> does from byte \<open>i\<close> on: \<open>k\<close> bytes arrive in the user buffer;
  when the copy out fails one more byte has left the pipe.
\<close>

definition read_done ::
  "u64 \<Rightarrow> u64 \<Rightarrow> u64 \<Rightarrow> int \<Rightarrow> int \<Rightarrow> pipe \<Rightarrow> kmem \<Rightarrow> int \<Rightarrow> pipe \<Rightarrow> kmem \<Rightarrow> nat \<Rightarrow> bool" where
  "read_done kend pt addr n i pi s r pi' s' k \<longleftrightarrow>
     user_step kend pt s s' \<and> pipe_ok pi' \<and> r = i + int k \<and> k \<le> nat (n - i) \<and>
     nwrite pi' = nwrite pi \<and> readopen pi' = readopen pi \<and> writeopen pi' = writeopen pi \<and>
     range_mapped (mem s) pt (addr + of_int i) k \<and>
     (\<forall>vb. umapped (mem s) pt vb \<longrightarrow> \<not> unat (vb - (addr + of_int i)) < nat (n - i) \<longrightarrow>
        uread (mem s') pt vb = uread (mem s) pt vb) \<and>
     ((\<exists>bs. length bs = k \<and> pipe_contents pi = bs @ pipe_contents pi' \<and>
         user_bytes (mem s') pt (addr + of_int i) k = bs \<and> (n \<le> r \<or> pipe_contents pi' = [])) \<or>
      (\<exists>bs c. length bs = k \<and> pipe_contents pi = bs @ c # pipe_contents pi' \<and>
         user_bytes (mem s') pt (addr + of_int i) k = bs \<and> r < n \<and>
         (umapped (mem s) pt (addr + of_int r) \<longrightarrow> pool_empty kend s')))"

lemma unat_next:
  fixes a b :: u64
  assumes "\<not> unat (b - a) < Suc k" "k < 2 ^ 64"
  shows "\<not> unat (b - (a + 1)) < k" "b \<noteq> a"
  using unat_sub_add(1) [of b a 1 k] assms by auto

lemma range_mapped_Suc: "range_mapped m pt va (Suc k) \<longleftrightarrow> umapped m pt va \<and> range_mapped m pt (va + 1) k"
  using range_mapped_add [of m pt va 1 k] by (simp add: range_mapped_def)

lemma read_done_Suc:
  assumes i: "i < n" "n < 2 ^ 31" "0 \<le> i" and get: "pipe_contents pi = c # pipe_contents pi1"
    and fx: "nwrite pi1 = nwrite pi" "readopen pi1 = readopen pi" "writeopen pi1 = writeopen pi"
    and st: "user_step kend pt s s1" and um: "umapped (mem s) pt (addr + of_int i)"
    and at: "uread (mem s1) pt (addr + of_int i) = c"
    and keep: "\<And>vb. umapped (mem s) pt vb \<Longrightarrow> vb \<noteq> addr + of_int i \<Longrightarrow> uread (mem s1) pt vb = uread (mem s) pt vb"
    and d: "read_done kend pt addr n (i + 1) pi1 s1 r pi' s' k"
  shows "read_done kend pt addr n i pi s r pi' s' (Suc k)"
proof -
  let ?va = "addr + of_int i"
  have va: "addr + of_int (i + 1) = ?va + 1" by (simp add: algebra_simps)
  have um1: "umapped (mem s1) pt vb = umapped (mem s) pt vb" for vb using st by (simp add: user_step_def)
  have d': "user_step kend pt s1 s'" "pipe_ok pi'" "r = i + 1 + int k" "k \<le> nat (n - (i + 1))"
    "nwrite pi' = nwrite pi" "readopen pi' = readopen pi" "writeopen pi' = writeopen pi"
    "range_mapped (mem s) pt (?va + 1) k"
    "\<And>vb. umapped (mem s) pt vb \<Longrightarrow> \<not> unat (vb - (?va + 1)) < nat (n - (i + 1)) \<Longrightarrow> uread (mem s') pt vb = uread (mem s1) pt vb"
    using d fx um1 unfolding read_done_def va range_mapped_def by auto
  have m1: "unat (?va - (?va + 1)) = 2 ^ 64 - 1" by (simp add: unsigned_minus_1_eq_mask mask_eq_exp_minus_1)
  have "uread (mem s') pt ?va = c" using d'(9) [OF um] at i m1 by simp
  then have ub: "user_bytes (mem s') pt ?va (Suc k) = c # user_bytes (mem s') pt (?va + 1) k" by (simp add: user_bytes_Suc)
  have other: "uread (mem s') pt vb = uread (mem s) pt vb" if "umapped (mem s) pt vb" "\<not> unat (vb - ?va) < nat (n - i)" for vb
  proof -
    have "nat (n - i) = Suc (nat (n - (i + 1)))" "nat (n - (i + 1)) < 2 ^ 64" using i by (linarith, simp add: nat_less_iff)
    then show ?thesis using unat_next [of vb ?va "nat (n - (i + 1))"] that d'(9) keep by simp
  qed
  have rest: "(\<exists>bs. length bs = Suc k \<and> pipe_contents pi = bs @ pipe_contents pi' \<and>
         user_bytes (mem s') pt ?va (Suc k) = bs \<and> (n \<le> r \<or> pipe_contents pi' = [])) \<or>
      (\<exists>bs c. length bs = Suc k \<and> pipe_contents pi = bs @ c # pipe_contents pi' \<and>
         user_bytes (mem s') pt ?va (Suc k) = bs \<and> r < n \<and>
         (umapped (mem s) pt (addr + of_int r) \<longrightarrow> pool_empty kend s'))"
    using d ub get um1 unfolding read_done_def va by force
  show ?thesis
    unfolding read_done_def range_mapped_Suc
    using user_step_trans [OF st d'(1)] d' um other rest i by auto
qed

lemma piperead_loop_ok:
  assumes "space_ok kend pt s" "0 < kend" "pipe_ok pi" "0 \<le> i" "n < 2 ^ 31" "i \<le> n"
  shows "\<exists>r pi' s' k. piperead_loop kend pt addr n i pi s = Ret (r, pi', s') \<and>
    read_done kend pt addr n i pi s r pi' s' k"
  using assms(1,3,4,6)
proof (induction "nat (n - i)" arbitrary: i pi s)
  case 0
  then have e: "i = n" by simp
  have "piperead_loop kend pt addr n n pi s = Ret (n, pi, s)" by (subst piperead_loop.simps) simp
  moreover have "read_done kend pt addr n n pi s n pi s 0"
    using 0 user_step_refl [OF 0(2)] by (simp add: read_done_def user_bytes_def range_mapped_def)
  ultimately show ?case using e by blast
next
  case (Suc x)
  then have lt: "i < n" by simp
  show ?case
  proof (cases "nread pi = nwrite pi")
    case True
    then have "pipe_contents pi = []" using pipe_empty by blast
    then have "read_done kend pt addr n i pi s i pi s 0"
      using Suc.prems user_step_refl [OF Suc.prems(1)] by (simp add: read_done_def user_bytes_def range_mapped_def)
    moreover have "piperead_loop kend pt addr n i pi s = Ret (i, pi, s)"
      using True lt by (subst piperead_loop.simps) simp
    ultimately show ?thesis by blast
  next
    case False
    then have ne: "pipe_contents pi \<noteq> []" using pipe_empty by blast
    obtain c pi1 where g: "pipe_get pi = (c, pi1)" by force
    have g1: "pipe_ok pi1" "pipe_contents pi = c # pipe_contents pi1"
      using pipe_fifo.get_law [OF Suc.prems(2) ne] g by auto
    have g2: "nwrite pi1 = nwrite pi" "readopen pi1 = readopen pi" "writeopen pi1 = writeopen pi"
      using g by (auto simp: pipe_get_def)
    let ?va = "addr + of_int i"
    obtain q s1 where c: "copyout kend pt ?va [c] s = Ret (q, s1)" "user_step kend pt s s1"
        "\<forall>vb. umapped (mem s) pt vb \<longrightarrow> vb \<noteq> ?va \<longrightarrow> uread (mem s1) pt vb = uread (mem s) pt vb"
        "q = 0 \<and> umapped (mem s) pt ?va \<and> uread (mem s1) pt ?va = c \<or>
         q = - 1 \<and> (umapped (mem s) pt ?va \<longrightarrow> pool_empty kend s1)"
      using copyout_byte [OF Suc.prems(1) assms(2)] by blast
    show ?thesis
    proof (cases "q = 0")
      case True
      have sp1: "space_ok kend pt s1" using c(2) by (simp add: user_step_def)
      have x: "x = nat (n - (i + 1))" "0 \<le> i + 1" "i + 1 \<le> n" using Suc.hyps(2) Suc.prems(3) lt by linarith+
      obtain r pi' s' k where rec: "piperead_loop kend pt addr n (i + 1) pi1 s1 = Ret (r, pi', s')"
          "read_done kend pt addr n (i + 1) pi1 s1 r pi' s' k"
        using Suc.hyps(1) [OF x(1) sp1 g1(1) x(2,3)] by blast
      have "read_done kend pt addr n i pi s r pi' s' (Suc k)"
        using read_done_Suc [OF lt assms(5) Suc.prems(3) g1(2) g2 c(2) _ _ _ rec(2)] c(3,4) True by auto
      moreover have "piperead_loop kend pt addr n i pi s = Ret (r, pi', s')"
        using False lt g c(1) True rec(1) by (subst piperead_loop.simps) simp
      ultimately show ?thesis by blast
    next
      case q: False
      have "vb \<noteq> ?va" if "\<not> unat (vb - ?va) < nat (n - i)" for vb using that lt by auto
      then have "read_done kend pt addr n i pi s i pi1 s1 0"
        unfolding read_done_def using c(2-4) q g1 g2 lt by (simp add: user_bytes_def range_mapped_def)
      moreover have "piperead_loop kend pt addr n i pi s = Ret (i, pi1, s1)"
        using False lt g c(1,4) q by (subst piperead_loop.simps) auto
      ultimately show ?thesis by blast
    qed
  qed
qed

section \<open>A pipe over its lifetime\<close>

inductive pipe_run :: "u64 \<Rightarrow> u8 list \<Rightarrow> u8 list \<Rightarrow> pipe \<Rightarrow> bool" for kend where
  opened: "length (pdata pi) = PIPESIZE \<Longrightarrow> pipe_run kend [] [] (pipe_init pi)"
| written: "pipe_run kend W R pi \<Longrightarrow> space_ok kend pt s \<Longrightarrow>
    pipewrite_loop pt killed addr n i pi s = Ret (b, wk, pi') \<Longrightarrow>
    pipe_run kend (W @ user_bytes (mem s) pt (addr + of_int i) (unat (nwrite pi' - nwrite pi))) R pi'"
| delivered: "pipe_run kend W R pi \<Longrightarrow> space_ok kend pt s \<Longrightarrow> 0 \<le> n \<Longrightarrow> n < 2 ^ 31 \<Longrightarrow>
    piperead kend pt dead addr n pi s = Ret (Done r, wk, pi', s') \<Longrightarrow> 0 \<le> r \<Longrightarrow>
    nread pi' = nread pi + of_int r \<Longrightarrow>
    pipe_run kend W (R @ user_bytes (mem s') pt addr (nat r)) pi'"
| closed: "pipe_run kend W R pi \<Longrightarrow> pipeclose kend pa writable pi s = Ret (wk, pi', s') \<Longrightarrow> pipe_run kend W R pi'"

lemma write_done_count:
  assumes "write_done killed m pt addr n i pi b wk pi' k" "pipe_ok pi"
  shows "unat (nwrite pi' - nwrite pi) = k"
proof -
  have c: "pipe_contents pi' = pipe_contents pi @ user_bytes m pt (addr + of_int i) k" "nread pi' = nread pi" "pipe_ok pi'"
    using assms(1) by (auto simp: write_done_def)
  have "unat (nwrite pi' - nread pi) = unat (nwrite pi - nread pi) + k"
    using arg_cong [OF c(1), of length] c(2) by (simp add: user_bytes_def)
  moreover have "nwrite pi' - nwrite pi = (nwrite pi' - nread pi) - (nwrite pi - nread pi)" by simp
  ultimately show ?thesis by (simp only: unat_sub_if') simp
qed

lemma piperead_cases:
  assumes "space_ok kend pt s" "0 < kend" "pipe_ok pi" "0 \<le> n" "n < 2 ^ 31"
  shows "\<exists>b wk pi' s'. piperead kend pt dead addr n pi s = Ret (b, wk, pi', s') \<and>
    (b = Sleep Chan_nread 0 \<and> wk = [] \<and> pi' = pi \<and> s' = s \<and> pipe_contents pi = [] \<and> writeopen pi \<noteq> 0 \<and> \<not> dead \<or>
     b = Done (- 1) \<and> wk = [] \<and> pi' = pi \<and> s' = s \<and> pipe_contents pi = [] \<and> writeopen pi \<noteq> 0 \<and> dead \<or>
     (\<exists>r k. b = Done r \<and> wk = [Chan_nwrite] \<and> (pipe_contents pi \<noteq> [] \<or> writeopen pi = 0) \<and>
       read_done kend pt addr n 0 pi s r pi' s' k))"
proof (cases "nread pi = nwrite pi \<and> writeopen pi \<noteq> 0")
  case True
  then show ?thesis using pipe_empty [of pi] by (cases dead) (simp_all add: piperead_def)
next
  case False
  obtain r pi' s' k where "piperead_loop kend pt addr n 0 pi s = Ret (r, pi', s')" "read_done kend pt addr n 0 pi s r pi' s' k"
    using piperead_loop_ok [OF assms(1-3) order.refl assms(5,4)] by blast
  then show ?thesis using False pipe_empty [of pi] by (auto simp: piperead_def)
qed

lemma unat_sub_of_int:
  fixes d :: u32
  assumes "0 \<le> r" "nat r \<le> unat d"
  shows "unat (d - of_int r) = unat d - nat r"
proof -
  have "(of_int r :: u32) = of_nat (nat r)" using assms(1) by simp
  then have "unat (of_int r :: u32) = nat r"
    using assms(2) unat_lt32 [of d] by (simp only: unat_of_nat) simp
  then show ?thesis using assms(2) by (simp add: unat_sub word_le_nat_alt)
qed

lemma read_done_delivered:
  assumes "read_done kend pt addr n 0 pi s r pi' s' k" "nread pi' = nread pi + of_int r" "pipe_ok pi"
  shows "pipe_contents pi = user_bytes (mem s') pt addr (nat r) @ pipe_contents pi'"
proof -
  have r: "r = int k" "nwrite pi' = nwrite pi" using assms(1) by (auto simp: read_done_def)
  have False if c: "length bs = k" "pipe_contents pi = bs @ c # pipe_contents pi'" for bs c
  proof -
    have l: "unat (nwrite pi - nread pi) = Suc (k + unat (nwrite pi - nread pi'))"
      using arg_cong [OF c(2), of length] c(1) r by simp
    have d: "nwrite pi - nread pi' = (nwrite pi - nread pi) - of_int r" using assms(2) by simp
    have "unat (nwrite pi - nread pi') = unat (nwrite pi - nread pi) - nat r"
      unfolding d by (rule unat_sub_of_int) (use r l in simp_all)
    then show False using l r by simp
  qed
  then show ?thesis using assms(1) r unfolding read_done_def by auto
qed

lemma pipe_run_order:
  assumes "pipe_run kend W R pi" "0 < kend"
  shows "pipe_ok pi \<and> W = R @ pipe_contents pi"
  using assms(1)
proof (induction rule: pipe_run.induct)
  case (opened pi)
  then show ?case by (simp add: pipe_ok_def pipe_init_def pipe_contents_def ring_contents_def)
next
  case (written W R pi pt s killed addr n i b wk pi')
  then obtain k where k: "write_done killed (mem s) pt addr n i pi b wk pi' k"
    using pipewrite_loop_ok [OF _ assms(2), of pt s pi killed addr n i] by auto
  then have "unat (nwrite pi' - nwrite pi) = k" using write_done_count written by blast
  then show ?case using k written by (simp add: write_done_def)
next
  case (delivered W R pi pt s n dead addr r wk pi' s')
  then obtain k where k: "read_done kend pt addr n 0 pi s r pi' s' k"
    using piperead_cases [OF _ assms(2), of pt s pi n dead addr] by auto
  then show ?case using read_done_delivered [OF k] delivered by (auto simp: read_done_def)
next
  case (closed W R pi pa writable s wk pi' s')
  then have "pi' = pi\<lparr>writeopen := 0\<rparr> \<or> pi' = pi\<lparr>readopen := 0\<rparr>"
    by (auto simp: pipeclose_def Let_def result_simps split: if_splits)
  then show ?case using closed by (auto simp: pipe_ok_def pipe_contents_def)
qed

section \<open>Properties\<close>


definition pipe0 :: pipe where
  "pipe0 = \<lparr>pdata = replicate 512 0, nread = 0, nwrite = 0, readopen = 1, writeopen = 1\<rparr>"

lemma pipe0_ok: "pipe_ok pipe0"
  by (simp add: pipe_ok_def pipe0_def PIPESIZE_def)


text \<open>
  One segment of \<open>pipewrite\<close>, from byte \<open>i\<close> to its return or its next sleep: it never panics, it
  appends a prefix of the remaining user bytes to the pipe and nothing else, and it stops for
  one of the reasons the code names: the read end is closed or the writer was killed (-1), the
  count is reached, the source is not mapped, or the buffer is full, in which case the readers
  have been woken before the writer sleeps.
\<close>

theorem pipewrite_segment:
  assumes "space_ok kend pt s" "0 < kend" "pipe_ok pi"
  shows "\<exists>b wk pi' k. pipewrite_loop pt killed addr n i pi s = Ret (b, wk, pi') \<and> pipe_ok pi' \<and>
    pipe_contents pi' = pipe_contents pi @ user_bytes (mem s) pt (addr + of_int i) k \<and>
    (case b of
       Done r \<Rightarrow> r = - 1 \<and> (readopen pi = 0 \<or> killed (i + int k)) \<or>
         r = i + int k \<and> Chan_nread \<in> set wk \<and> (n \<le> r \<or> \<not> umapped (mem s) pt (addr + of_int r))
     | Sleep c j \<Rightarrow> c = Chan_nwrite \<and> j = i + int k \<and> j < n \<and> Chan_nread \<in> set wk \<and>
         unat (nwrite pi' - nread pi') = PIPESIZE)"
proof -
  obtain b wk pi' k where "pipewrite_loop pt killed addr n i pi s = Ret (b, wk, pi')"
      "write_done killed (mem s) pt addr n i pi b wk pi' k"
    using pipewrite_loop_ok [OF assms] by blast
  moreover from this(2) have "case b of
       Done r \<Rightarrow> r = - 1 \<and> (readopen pi = 0 \<or> killed (i + int k)) \<or>
         r = i + int k \<and> Chan_nread \<in> set wk \<and> (n \<le> r \<or> \<not> umapped (mem s) pt (addr + of_int r))
     | Sleep c j \<Rightarrow> c = Chan_nwrite \<and> j = i + int k \<and> j < n \<and> Chan_nread \<in> set wk \<and>
         unat (nwrite pi' - nread pi') = PIPESIZE"
    by (cases b) (simp_all add: write_done_def, auto)
  ultimately show ?thesis unfolding write_done_def by blast
qed

theorem pipewrite_segment_witness:
  "\<exists>b wk pi'. pipewrite_loop cw_old (\<lambda>_. False) 0 9 0 pipe0 cw_state = Ret (b, wk, pi') \<and> pipe_ok pi'"
  using pipewrite_segment [OF cw_space cw_pos pipe0_ok, of "\<lambda>_. False" 0 9 0] by blast

lemma read_done_lost:
  assumes d: "read_done kend pt addr n 0 pi s r pi' s' k" and n: "0 \<le> n"
  shows "\<exists>lost. pipe_contents pi = user_bytes (mem s') pt addr (nat r) @ lost @ pipe_contents pi' \<and>
    (lost = [] \<and> (r = n \<or> pipe_contents pi' = []) \<or>
     length lost = 1 \<and> r < n \<and> (umapped (mem s) pt (addr + of_int r) \<longrightarrow> pool_empty kend s'))"
proof -
  have r: "r = int k" "r \<le> n" using d n by (auto simp: read_done_def)
  from d consider bs where "pipe_contents pi = bs @ pipe_contents pi'"
      "user_bytes (mem s') pt addr k = bs" "n \<le> r \<or> pipe_contents pi' = []"
    | bs c where "pipe_contents pi = bs @ c # pipe_contents pi'" "user_bytes (mem s') pt addr k = bs" "r < n"
      "umapped (mem s) pt (addr + of_int r) \<longrightarrow> pool_empty kend s'"
    by (auto simp: read_done_def)
  then show ?thesis
  proof cases
    case 1
    then show ?thesis using r by (intro exI [of _ "[]"]) auto
  next
    case (2 bs c)
    then show ?thesis using r by (intro exI [of _ "[c]"]) simp
  qed
qed

text \<open>
  C33. \<open>piperead\<close> waits only on an empty pipe whose write end is open; otherwise it moves bytes from
  the head of the pipe to the user buffer and wakes the writers. When the copy to the user
  fails, the byte it was copying has already left the pipe: it is lost, and the return value
  does not count it.
\<close>

theorem piperead_segment:
  assumes "space_ok kend pt s" "0 < kend" "pipe_ok pi" "0 \<le> n" "n < 2 ^ 31"
  shows "\<exists>b wk pi' s'. piperead kend pt dead addr n pi s = Ret (b, wk, pi', s') \<and> pipe_ok pi' \<and> space_ok kend pt s' \<and>
    (case b of
       Sleep c j \<Rightarrow> c = Chan_nread \<and> pi' = pi \<and> s' = s \<and> pipe_contents pi = [] \<and> writeopen pi \<noteq> 0 \<and> \<not> dead
     | Done r \<Rightarrow> r = - 1 \<and> pi' = pi \<and> pipe_contents pi = [] \<and> writeopen pi \<noteq> 0 \<and> dead \<or>
         0 \<le> r \<and> r \<le> n \<and> Chan_nwrite \<in> set wk \<and>
         (\<exists>lost. pipe_contents pi = user_bytes (mem s') pt addr (nat r) @ lost @ pipe_contents pi' \<and>
           (lost = [] \<and> (r = n \<or> pipe_contents pi' = []) \<or>
            length lost = 1 \<and> r < n \<and> (umapped (mem s) pt (addr + of_int r) \<longrightarrow> pool_empty kend s'))))"
proof -
  obtain b wk pi' s' where b: "piperead kend pt dead addr n pi s = Ret (b, wk, pi', s')"
      "b = Sleep Chan_nread 0 \<and> wk = [] \<and> pi' = pi \<and> s' = s \<and> pipe_contents pi = [] \<and> writeopen pi \<noteq> 0 \<and> \<not> dead \<or>
       b = Done (- 1) \<and> wk = [] \<and> pi' = pi \<and> s' = s \<and> pipe_contents pi = [] \<and> writeopen pi \<noteq> 0 \<and> dead \<or>
       (\<exists>r k. b = Done r \<and> wk = [Chan_nwrite] \<and> (pipe_contents pi \<noteq> [] \<or> writeopen pi = 0) \<and>
         read_done kend pt addr n 0 pi s r pi' s' k)"
    using piperead_cases [OF assms, of dead addr] by (elim exE conjE) (rule that)
  have fin: ?thesis if c: "b = Done r" "wk = [Chan_nwrite]" "read_done kend pt addr n 0 pi s r pi' s' k" for r k
  proof -
    have "0 \<le> r" "r \<le> n" "pipe_ok pi'" "space_ok kend pt s'"
      using c(3) assms(4) by (auto simp: read_done_def user_step_def)
    then show ?thesis
      unfolding b(1) c(1,2) using read_done_lost [OF c(3) assms(4)]
      by (intro exI [of _ "Done r"] exI [of _ "[Chan_nwrite]"] exI [of _ pi'] exI [of _ s'] conjI)
        (simp_all only: blocking.case list.set insertI1 simp_thms)
  qed
  from b(2) show ?thesis
  proof (elim disjE exE conjE)
    assume c: "b = Sleep Chan_nread 0" "pi' = pi" "s' = s" "pipe_contents pi = []" "writeopen pi \<noteq> 0" "\<not> dead"
    show ?thesis
      using b(1) assms(1,3) c by (intro exI [of _ b] exI [of _ wk] exI [of _ pi'] exI [of _ s']) simp
  next
    assume c: "b = Done (- 1)" "pi' = pi" "s' = s" "pipe_contents pi = []" "writeopen pi \<noteq> 0" "dead"
    show ?thesis
      using b(1) assms(1,3) c by (intro exI [of _ b] exI [of _ wk] exI [of _ pi'] exI [of _ s']) simp
  qed (rule fin, assumption+)+
qed

theorem piperead_segment_witness:
  "\<exists>b wk pi' s'. piperead cw_end cw_old False 0 4 pipe0 cw_state = Ret (b, wk, pi', s') \<and> pipe_ok pi'"
proof -
  have n: "(0 :: int) \<le> 4" "(4 :: int) < 2 ^ 31" by simp_all
  show ?thesis using piperead_segment [OF cw_space cw_pos pipe0_ok n, of False 0] by blast
qed

end
