(* ===== verification/Uart.thy ===== *)
theory Uart
  imports Ring
begin

text \<open>
  The UART driver, kernel/uart.c. The device is outside the program: \<open>idle k\<close> is the answer of
  its line status register (\<open>LSR_TX_IDLE\<close>) to the \<open>k\<close>-th read, the bytes it has received and not
  yet delivered are a list, and the bytes written to its transmit register are collected in
  order. A body between \<open>acquire(&uart_tx_lock)\<close> and its release, or the release inside \<open>sleep\<close>,
  is one step.
\<close>

section \<open>Definitions\<close>

definition UART_TX_BUF_SIZE :: nat where "UART_TX_BUF_SIZE = 32"

record uart =
  uart_tx_buf :: "u8 list"
  uart_tx_w :: u64
  uart_tx_r :: u64

definition uart_put :: "u8 \<Rightarrow> uart \<Rightarrow> uart" where
  "uart_put c u = u\<lparr>uart_tx_buf := (uart_tx_buf u)[unat (uart_tx_w u) mod UART_TX_BUF_SIZE := c],
     uart_tx_w := uart_tx_w u + 1\<rparr>"

definition uart_get :: "uart \<Rightarrow> u8 \<times> uart" where
  "uart_get u = (uart_tx_buf u ! (unat (uart_tx_r u) mod UART_TX_BUF_SIZE), u\<lparr>uart_tx_r := uart_tx_r u + 1\<rparr>)"

text \<open>\<open>uartstart\<close> returns the bytes written to THR; it wakes the sleepers once per byte.\<close>

function uartstart_from :: "(nat \<Rightarrow> bool) \<Rightarrow> nat \<Rightarrow> uart \<Rightarrow> u8 list \<times> uart" where
  "uartstart_from idle k u =
     (if uart_tx_w u = uart_tx_r u then ([], u)
      else if \<not> idle k then ([], u)
      else let (c, u) = uart_get u; (out, u) = uartstart_from idle (Suc k) u in (c # out, u))"
  by pat_completeness auto
termination
proof (relation "measure (\<lambda>(idle, k, u). unat (uart_tx_w u - uart_tx_r u))")
  fix u u1 :: uart and c x assume "uart_tx_w u \<noteq> uart_tx_r u" "x = uart_get u" "(c, u1) = x"
  then have "uart_tx_w u1 - uart_tx_r u1 = uart_tx_w u - (uart_tx_r u + 1)" "uart_tx_r u \<noteq> uart_tx_w u"
    by (auto simp: uart_get_def)
  then show "((idle, Suc k, u1), (idle, k, u)) \<in> measure (\<lambda>(idle, k, u). unat (uart_tx_w u - uart_tx_r u))"
    for idle k using unat_less_one [of "uart_tx_r u" "uart_tx_w u"] by (auto simp: unat_gt_0)
qed auto

declare uartstart_from.simps [simp del]

definition uartstart :: "(nat \<Rightarrow> bool) \<Rightarrow> uart \<Rightarrow> u8 list \<times> uart" where
  "uartstart idle u = uartstart_from idle 0 u"

datatype putc_outcome = Sent "u8 list" uart | Full | Spin

definition uartputc :: "bool \<Rightarrow> (nat \<Rightarrow> bool) \<Rightarrow> u8 \<Rightarrow> uart \<Rightarrow> putc_outcome" where
  "uartputc panicked idle c u =
     (if panicked then Spin
      else if uart_tx_w u = uart_tx_r u + of_nat UART_TX_BUF_SIZE then Full
      else let (out, u) = uartstart idle (uart_put c u) in Sent out u)"

text \<open>The busy wait of \<open>uartputc_sync\<close>; the result is the number of status reads, None is forever.\<close>

partial_function (option) wait_idle :: "(nat \<Rightarrow> bool) \<Rightarrow> nat \<Rightarrow> nat option" where
  "wait_idle idle k = (if idle k then Some k else wait_idle idle (Suc k))"

definition uartputc_sync :: "bool \<Rightarrow> (nat \<Rightarrow> bool) \<Rightarrow> u8 \<Rightarrow> u8 list option" where
  "uartputc_sync panicked idle c =
     (if panicked then None else map_option (\<lambda>_. [c]) (wait_idle idle 0))"

definition uartgetc :: "u8 list \<Rightarrow> int \<times> u8 list" where
  "uartgetc rx = (case rx of [] \<Rightarrow> (- 1, []) | c # rx \<Rightarrow> (int (unat c), rx))"

section \<open>The transmit buffer as a queue\<close>

definition uart_contents :: "uart \<Rightarrow> u8 list" where
  "uart_contents u = ring_contents UART_TX_BUF_SIZE (uart_tx_buf u) (uart_tx_r u) (uart_tx_w u)"

definition uart_ok :: "uart \<Rightarrow> bool" where
  "uart_ok u \<longleftrightarrow> length (uart_tx_buf u) = UART_TX_BUF_SIZE \<and> unat (uart_tx_w u - uart_tx_r u) \<le> UART_TX_BUF_SIZE"

lemma UART_ring: "UART_TX_BUF_SIZE dvd 2 ^ LENGTH(64)" "UART_TX_BUF_SIZE < 2 ^ LENGTH(64)"
  by (simp_all add: UART_TX_BUF_SIZE_def)

interpretation uart_fifo: fifo uart_ok uart_contents UART_TX_BUF_SIZE uart_put uart_get
proof
  fix u :: uart and c assume ok: "uart_ok u"
  show "length (uart_contents u) \<le> UART_TX_BUF_SIZE" using ok by (simp add: uart_ok_def uart_contents_def)
  show "uart_ok (uart_put c u) \<and> uart_contents (uart_put c u) = uart_contents u @ [c]"
    if "length (uart_contents u) < UART_TX_BUF_SIZE"
  proof -
    have lt: "unat (uart_tx_w u - uart_tx_r u) < UART_TX_BUF_SIZE" using that by (simp add: uart_contents_def)
    have "uart_contents (uart_put c u) = uart_contents u @ [c]"
      using ring_put [OF UART_ring, of "uart_tx_buf u" "uart_tx_w u" "uart_tx_r u" c] ok lt
      by (simp add: uart_contents_def uart_put_def uart_ok_def)
    moreover have "unat (uart_tx_w u + 1 - uart_tx_r u) = Suc (unat (uart_tx_w u - uart_tx_r u))"
      using lt by (intro unat_step) (simp add: UART_TX_BUF_SIZE_def)
    ultimately show ?thesis using ok lt by (simp add: uart_ok_def uart_put_def)
  qed
  show "uart_ok (snd (uart_get u)) \<and> uart_contents u = fst (uart_get u) # uart_contents (snd (uart_get u))"
    if "uart_contents u \<noteq> []"
  proof -
    have ne: "uart_tx_r u \<noteq> uart_tx_w u" using that by (simp add: uart_contents_def ring_empty)
    then have "uart_contents u = fst (uart_get u) # uart_contents (snd (uart_get u))"
      using ring_get [of "uart_tx_r u" "uart_tx_w u" UART_TX_BUF_SIZE "uart_tx_buf u"]
      by (simp add: uart_contents_def uart_get_def)
    then show ?thesis using ok unat_less_one [OF ne] by (auto simp: uart_ok_def uart_get_def)
  qed
qed

lemma uart_empty: "uart_tx_w u = uart_tx_r u \<longleftrightarrow> uart_contents u = []"
  by (auto simp: uart_contents_def ring_empty)

lemma uart_full:
  "uart_tx_w u = uart_tx_r u + of_nat UART_TX_BUF_SIZE \<longleftrightarrow> length (uart_contents u) = UART_TX_BUF_SIZE"
proof -
  have "uart_tx_w u = uart_tx_r u + of_nat UART_TX_BUF_SIZE \<longleftrightarrow> uart_tx_w u - uart_tx_r u = of_nat UART_TX_BUF_SIZE"
    by (auto simp: algebra_simps)
  also have "\<dots> \<longleftrightarrow> unat (uart_tx_w u - uart_tx_r u) = unat (of_nat UART_TX_BUF_SIZE :: u64)" by (simp add: word_unat_eq_iff)
  finally show ?thesis by (simp add: UART_TX_BUF_SIZE_def uart_contents_def)
qed

lemma uartstart_from_ok:
  assumes "uart_ok u" "uartstart_from idle k u = (out, u')"
  shows "uart_ok u' \<and> uart_contents u = out @ uart_contents u' \<and>
    (uart_contents u' = [] \<or> \<not> idle (k + length out))"
  using assms
proof (induction "length (uart_contents u)" arbitrary: k u out u')
  case 0
  then have "uart_tx_w u = uart_tx_r u" using uart_empty by simp
  then show ?case using 0 by (simp add: uartstart_from.simps [of idle k u])
next
  case (Suc x)
  then have ne: "uart_contents u \<noteq> []" by auto
  then have w: "uart_tx_w u \<noteq> uart_tx_r u" using uart_empty by blast
  show ?case
  proof (cases "idle k")
    case False
    then show ?thesis using Suc.prems w by (simp add: uartstart_from.simps [of idle k u])
  next
    case True
    obtain c u1 where g: "uart_get u = (c, u1)" by force
    obtain o1 u2 where r: "uartstart_from idle (Suc k) u1 = (o1, u2)" by force
    have e: "out = c # o1" "u' = u2" using Suc.prems(2) True w g r by (simp_all add: uartstart_from.simps [of idle k u])
    have u1: "uart_ok u1" "uart_contents u = c # uart_contents u1"
      using uart_fifo.get_law [OF Suc.prems(1) ne] g by auto
    then have "x = length (uart_contents u1)" using Suc.hyps(2) by simp
    from Suc.hyps(1) [OF this u1(1) r] show ?thesis using e u1(2) by simp
  qed
qed

lemma wait_idle_Some: "idle (k + d) \<Longrightarrow> \<exists>j. wait_idle idle k = Some j \<and> idle j"
proof (induction d arbitrary: k)
  case (Suc d)
  then show ?case by (subst wait_idle.simps) (cases "idle k", auto)
qed (subst wait_idle.simps, simp)

section \<open>Properties\<close>


definition uart0 :: uart where
  "uart0 = \<lparr>uart_tx_buf = replicate 32 0, uart_tx_w = 0, uart_tx_r = 0\<rparr>"


end
