(* ===== verification/Console.thy ===== *)
theory Console
  imports Uart Vm_Properties
begin

text \<open>
  The console, kernel/console.c: the input buffer with its three counters, the line editing of the
  interrupt handler, and \<open>consoleread\<close>. The output of the handler, the calls of \<open>procdump\<close> and of
  \<open>wakeup(&cons.r)\<close> are a list of events in order. A body between \<open>acquire(&cons.lock)\<close> and its
  release, or the release inside \<open>sleep\<close>, is one step.
\<close>

section \<open>Definitions\<close>

definition BACKSPACE :: int where "BACKSPACE = 0x100"

definition INPUT_BUF_SIZE :: nat where "INPUT_BUF_SIZE = 128"

text \<open>\<open>C(x)\<close>, a control character.\<close>

definition ctrl :: "int \<Rightarrow> int" where "ctrl x = x - 64"

record cons =
  cbuf :: "u8 list"
  cons_r :: u32
  cons_w :: u32
  cons_e :: u32

datatype cons_event = Tx u8 | Procdump | Wakeup_r

definition consputc :: "int \<Rightarrow> cons_event list" where
  "consputc c = (if c = BACKSPACE then [Tx 8, Tx 32, Tx 8] else [Tx (of_int c)])"

function kill_line :: "cons \<Rightarrow> cons_event list \<times> cons" where
  "kill_line cs =
     (if cons_e cs \<noteq> cons_w cs \<and> cbuf cs ! (unat (cons_e cs - 1) mod INPUT_BUF_SIZE) \<noteq> 10
      then let (ev, cs') = kill_line (cs\<lparr>cons_e := cons_e cs - 1\<rparr>) in (consputc BACKSPACE @ ev, cs')
      else ([], cs))"
  by pat_completeness auto
termination
proof (relation "measure (\<lambda>cs. unat (cons_e cs - cons_w cs))")
  fix cs :: cons assume "cons_e cs \<noteq> cons_w cs \<and> cbuf cs ! (unat (cons_e cs - 1) mod INPUT_BUF_SIZE) \<noteq> 10"
  then have "cons_w cs \<noteq> cons_e cs" by auto
  then have "unat (cons_e cs - (cons_w cs + 1)) = unat (cons_e cs - cons_w cs) - 1" "0 < unat (cons_e cs - cons_w cs)"
    using unat_less_one by (blast, auto simp: unat_gt_0)
  then show "(cs\<lparr>cons_e := cons_e cs - 1\<rparr>, cs) \<in> measure (\<lambda>cs. unat (cons_e cs - cons_w cs))"
    by (simp add: algebra_simps)
qed simp

declare kill_line.simps [simp del]

definition consoleintr :: "int \<Rightarrow> cons \<Rightarrow> cons_event list \<times> cons" where
  "consoleintr c cs =
     (if c = ctrl 80 then ([Procdump], cs)
      else if c = ctrl 85 then kill_line cs
      else if c = ctrl 72 \<or> c = 0x7f then
        if cons_e cs \<noteq> cons_w cs then (consputc BACKSPACE, cs\<lparr>cons_e := cons_e cs - 1\<rparr>) else ([], cs)
      else if c \<noteq> 0 \<and> cons_e cs - cons_r cs < of_nat INPUT_BUF_SIZE then
        let c = (if c = 13 then 10 else c);
            cs = cs\<lparr>cbuf := (cbuf cs)[unat (cons_e cs) mod INPUT_BUF_SIZE := of_int c], cons_e := cons_e cs + 1\<rparr>
        in if c = 10 \<or> c = ctrl 68 \<or> cons_e cs - cons_r cs = of_nat INPUT_BUF_SIZE
           then (consputc c @ [Wakeup_r], cs\<lparr>cons_w := cons_e cs\<rparr>)
           else (consputc c, cs)
      else ([], cs))"

text \<open>\<open>uartintr\<close> of kernel/uart.c: all received characters, then the transmit queue.\<close>

primrec uartintr_input :: "u8 list \<Rightarrow> cons \<Rightarrow> cons_event list \<times> cons" where
  "uartintr_input [] cs = ([], cs)"
| "uartintr_input (c # rx) cs =
     (let (ev, cs) = consoleintr (fst (uartgetc (c # rx))) cs; (ev', cs) = uartintr_input rx cs in (ev @ ev', cs))"

definition uartintr :: "u8 list \<Rightarrow> (nat \<Rightarrow> bool) \<Rightarrow> cons \<Rightarrow> uart \<Rightarrow> cons_event list \<times> cons \<times> u8 list \<times> uart" where
  "uartintr rx idle cs u =
     (let (ev, cs) = uartintr_input rx cs; (out, u) = uartstart idle u in (ev, cs, out, u))"

datatype cons_read = CDone int | CSleep u64 int

definition cons_take :: "cons \<Rightarrow> u8 \<times> cons" where
  "cons_take cs = (cbuf cs ! (unat (cons_r cs) mod INPUT_BUF_SIZE), cs\<lparr>cons_r := cons_r cs + 1\<rparr>)"

function consoleread_loop ::
  "u64 \<Rightarrow> u64 \<Rightarrow> bool \<Rightarrow> (int \<Rightarrow> bool) \<Rightarrow> int \<Rightarrow> u64 \<Rightarrow> int \<Rightarrow> cons \<Rightarrow> kmem \<Rightarrow> (cons_read \<times> cons \<times> kmem) result" where
  "consoleread_loop kend pagetable user_dst killed target dst n cs s =
     (if n > 0 then
        if cons_r cs = cons_w cs then
          if killed n then Ret (CDone (- 1), cs, s) else Ret (CSleep dst n, cs, s)
        else let (c, cs') = cons_take cs in
          if c = of_int (ctrl 68) then
            Ret (CDone (target - n), if n < target then cs'\<lparr>cons_r := cons_r cs' - 1\<rparr> else cs', s)
          else rbind (either_copyout kend pagetable user_dst dst [c] s) (\<lambda>(r, s).
            if r = - 1 then Ret (CDone (target - n), cs', s)
            else if c = 10 then Ret (CDone (target - (n - 1)), cs', s)
            else consoleread_loop kend pagetable user_dst killed target (dst + 1) (n - 1) cs' s)
      else Ret (CDone (target - n), cs, s))"
  by pat_completeness auto
termination
  by (relation "measure (\<lambda>(kend, pagetable, user_dst, killed, target, dst, n, cs, s). nat n)") auto

declare consoleread_loop.simps [simp del]

definition consoleread ::
  "u64 \<Rightarrow> u64 \<Rightarrow> bool \<Rightarrow> (int \<Rightarrow> bool) \<Rightarrow> u64 \<Rightarrow> int \<Rightarrow> cons \<Rightarrow> kmem \<Rightarrow> (cons_read \<times> cons \<times> kmem) result" where
  "consoleread kend pagetable user_dst killed dst n cs s =
     consoleread_loop kend pagetable user_dst killed n dst n cs s"

text \<open>
  \<open>consolewrite\<close> hands each byte to \<open>uartputc\<close>, which may itself wait; the list holds the bytes
  handed over, in order.
\<close>

function consolewrite_loop :: "u64 \<Rightarrow> bool \<Rightarrow> u64 \<Rightarrow> int \<Rightarrow> int \<Rightarrow> kmem \<Rightarrow> (int \<times> u8 list) result" where
  "consolewrite_loop pagetable user_src src n i s =
     (if i < n then
        rbind (either_copyin pagetable user_src (src + of_int i) 1 s) (\<lambda>(r, bs).
          if r = - 1 then Ret (i, [])
          else rbind (consolewrite_loop pagetable user_src src n (i + 1) s) (\<lambda>(r, out). Ret (r, hd bs # out)))
      else Ret (i, []))"
  by pat_completeness auto
termination
  by (relation "measure (\<lambda>(pagetable, user_src, src, n, i, s). nat (n - i))") auto

declare consolewrite_loop.simps [simp del]

definition consolewrite :: "u64 \<Rightarrow> bool \<Rightarrow> u64 \<Rightarrow> int \<Rightarrow> kmem \<Rightarrow> (int \<times> u8 list) result" where
  "consolewrite pagetable user_src src n s = consolewrite_loop pagetable user_src src n 0 s"

section \<open>The line editor\<close>

text \<open>
  The abstract console is a pair: the bytes of the lines that are complete, and the line being
  edited.
\<close>

definition cons_done :: "cons \<Rightarrow> u8 list" where
  "cons_done cs = ring_contents INPUT_BUF_SIZE (cbuf cs) (cons_r cs) (cons_w cs)"

definition cons_line :: "cons \<Rightarrow> u8 list" where
  "cons_line cs = ring_contents INPUT_BUF_SIZE (cbuf cs) (cons_w cs) (cons_e cs)"

definition cons_ok :: "cons \<Rightarrow> bool" where
  "cons_ok cs \<longleftrightarrow> length (cbuf cs) = INPUT_BUF_SIZE \<and> unat (cons_e cs - cons_r cs) \<le> INPUT_BUF_SIZE \<and>
     unat (cons_w cs - cons_r cs) \<le> unat (cons_e cs - cons_r cs) \<and> 10 \<notin> set (cons_line cs)"

definition line_edit :: "int \<Rightarrow> u8 list \<times> u8 list \<Rightarrow> u8 list \<times> u8 list" where
  "line_edit c = (\<lambda>(done, line).
     if c = ctrl 80 then (done, line)
     else if c = ctrl 85 then (done, [])
     else if c = ctrl 72 \<or> c = 0x7f then (done, butlast line)
     else if c \<noteq> 0 \<and> length done + length line < INPUT_BUF_SIZE then
       let c = (if c = 13 then 10 else c) in
       if c = 10 \<or> c = ctrl 68 \<or> Suc (length done + length line) = INPUT_BUF_SIZE
       then (done @ line @ [of_int c], []) else (done, line @ [of_int c])
     else (done, line))"

lemma INPUT_ring: "INPUT_BUF_SIZE dvd 2 ^ LENGTH(32)" "INPUT_BUF_SIZE < 2 ^ LENGTH(32)"
  by (simp_all add: INPUT_BUF_SIZE_def)

lemma cons_lengths:
  assumes "cons_ok cs"
  shows "length (cons_done cs) = unat (cons_w cs - cons_r cs)"
    "length (cons_done cs) + length (cons_line cs) = unat (cons_e cs - cons_r cs)"
    "cons_line cs = [] \<longleftrightarrow> cons_w cs = cons_e cs"
  using assms unat_split [of "cons_w cs" "cons_r cs" "cons_e cs"]
  by (simp_all add: cons_ok_def cons_done_def cons_line_def ring_empty)

lemma cons_split:
  assumes "cons_ok cs"
  defines "all \<equiv> ring_contents INPUT_BUF_SIZE (cbuf cs) (cons_r cs) (cons_e cs)"
  shows "cons_done cs = take (unat (cons_w cs - cons_r cs)) all" "cons_line cs = drop (unat (cons_w cs - cons_r cs)) all"
    "all = cons_done cs @ cons_line cs"
  using assms ring_split [of "cons_w cs" "cons_r cs" "cons_e cs" INPUT_BUF_SIZE "cbuf cs"]
  by (simp_all add: cons_ok_def cons_done_def cons_line_def)

lemma cons_erase:
  assumes "cons_ok cs" "cons_e cs \<noteq> cons_w cs"
  shows "cons_ok (cs\<lparr>cons_e := cons_e cs - 1\<rparr>)" "cons_done (cs\<lparr>cons_e := cons_e cs - 1\<rparr>) = cons_done cs"
    "cons_line (cs\<lparr>cons_e := cons_e cs - 1\<rparr>) = butlast (cons_line cs)"
    "last (cons_line cs) = cbuf cs ! (unat (cons_e cs - 1) mod INPUT_BUF_SIZE)"
proof -
  have ne: "cons_w cs \<noteq> cons_e cs" using assms(2) by auto
  have le: "unat (cons_w cs - cons_r cs) \<le> unat (cons_e cs - cons_r cs)" using assms(1) by (simp add: cons_ok_def)
  have "0 < unat (cons_e cs - cons_w cs)" using ne by (auto simp: unat_gt_0)
  then have lt: "unat (cons_w cs - cons_r cs) < unat (cons_e cs - cons_r cs)" using unat_split [OF le] by simp
  then have "cons_r cs \<noteq> cons_e cs" by auto
  then have d: "unat (cons_e cs - 1 - cons_r cs) = unat (cons_e cs - cons_r cs) - 1" by (rule unat_dec)
  show "cons_done (cs\<lparr>cons_e := cons_e cs - 1\<rparr>) = cons_done cs" by (simp add: cons_done_def)
  show l: "cons_line (cs\<lparr>cons_e := cons_e cs - 1\<rparr>) = butlast (cons_line cs)"
      "last (cons_line cs) = cbuf cs ! (unat (cons_e cs - 1) mod INPUT_BUF_SIZE)"
    using ring_dec [OF ne] by (simp_all add: cons_line_def)
  show "cons_ok (cs\<lparr>cons_e := cons_e cs - 1\<rparr>)"
    using assms(1) d lt l(1) by (auto simp: cons_ok_def dest: in_set_butlastD)
qed

lemma kill_line_ok:
  assumes "cons_ok cs"
  shows "cons_ok (snd (kill_line cs)) \<and> cons_done (snd (kill_line cs)) = cons_done cs \<and> cons_line (snd (kill_line cs)) = []"
  using assms
proof (induction "length (cons_line cs)" arbitrary: cs)
  case 0
  then show ?case using cons_lengths(3) [OF 0(2)] by (subst (1 2 3) kill_line.simps) simp
next
  case (Suc n)
  then have ne: "cons_e cs \<noteq> cons_w cs" "cons_line cs \<noteq> []" using cons_lengths(3) [OF Suc(3)] by auto
  note er = cons_erase [OF Suc(3) ne(1)]
  have "last (cons_line cs) \<noteq> 10" using Suc(3) ne(2) last_in_set by (fastforce simp: cons_ok_def)
  then have "snd (kill_line cs) = snd (kill_line (cs\<lparr>cons_e := cons_e cs - 1\<rparr>))"
    using ne(1) er(4) by (subst kill_line.simps) (simp add: Let_def split_beta)
  moreover have "n = length (cons_line (cs\<lparr>cons_e := cons_e cs - 1\<rparr>))" using Suc(2) er(3) by simp
  ultimately show ?case using Suc(1) [OF _ er(1)] er(2) by simp
qed

lemma cons_put:
  assumes "cons_ok cs" "unat (cons_e cs - cons_r cs) < INPUT_BUF_SIZE"
    and cs': "cs' = cs\<lparr>cbuf := (cbuf cs)[unat (cons_e cs) mod INPUT_BUF_SIZE := b], cons_e := cons_e cs + 1\<rparr>"
  shows "cons_done cs' = cons_done cs" "cons_line cs' = cons_line cs @ [b]"
    "unat (cons_e cs' - cons_r cs') = Suc (unat (cons_e cs - cons_r cs))"
    "cons_done (cs'\<lparr>cons_w := cons_e cs'\<rparr>) = cons_done cs @ cons_line cs @ [b]"
    "cons_line (cs'\<lparr>cons_w := cons_e cs'\<rparr>) = []"
proof -
  let ?k = "unat (cons_w cs - cons_r cs)"
  have u: "unat (cons_e cs + 1 - cons_r cs) = Suc (unat (cons_e cs - cons_r cs))"
    using assms(2) by (intro unat_step) (simp add: INPUT_BUF_SIZE_def)
  then show "unat (cons_e cs' - cons_r cs') = Suc (unat (cons_e cs - cons_r cs))" by (simp add: cs')
  have le: "?k \<le> unat (cons_e cs - cons_r cs)" using assms(1) by (simp add: cons_ok_def)
  have all: "ring_contents INPUT_BUF_SIZE (cbuf cs') (cons_r cs) (cons_e cs + 1) = cons_done cs @ cons_line cs @ [b]"
    using ring_put [OF INPUT_ring, of "cbuf cs" "cons_e cs" "cons_r cs" b] assms(1,2) cons_split(3) [OF assms(1)]
    by (simp add: cs' cons_ok_def)
  have k: "length (cons_done cs) = ?k" by (rule cons_lengths(1) [OF assms(1)])
  have "?k \<le> unat (cons_e cs + 1 - cons_r cs)" using le u by simp
  note sp = ring_split [OF this, of INPUT_BUF_SIZE "cbuf cs'"]
  have d: "cons_done cs' = ring_contents INPUT_BUF_SIZE (cbuf cs') (cons_r cs) (cons_w cs)"
      "cons_line cs' = ring_contents INPUT_BUF_SIZE (cbuf cs') (cons_w cs) (cons_e cs + 1)"
    by (simp_all add: cons_done_def cons_line_def cs')
  show "cons_done cs' = cons_done cs" "cons_line cs' = cons_line cs @ [b]"
    unfolding d sp all using k by simp_all
  show "cons_done (cs'\<lparr>cons_w := cons_e cs'\<rparr>) = cons_done cs @ cons_line cs @ [b]"
    using all by (simp only: cons_done_def [of "cs'\<lparr>cons_w := cons_e cs'\<rparr>"]) (simp add: cs')
  show "cons_line (cs'\<lparr>cons_w := cons_e cs'\<rparr>) = []" by (simp add: cons_line_def ring_empty)
qed

lemma cons_room: "d < of_nat INPUT_BUF_SIZE \<longleftrightarrow> unat (d :: u32) < INPUT_BUF_SIZE"
  "d = of_nat INPUT_BUF_SIZE \<longleftrightarrow> unat (d :: u32) = INPUT_BUF_SIZE"
  by (simp_all add: word_less_nat_alt word_unat_eq_iff INPUT_BUF_SIZE_def)

lemma consoleintr_ok:
  assumes ok: "cons_ok cs" and c: "0 \<le> c" "c < 256" and e: "consoleintr c cs = (ev, cs')"
  shows "cons_ok cs' \<and> (cons_done cs', cons_line cs') = line_edit c (cons_done cs, cons_line cs)"
proof -
  note len = cons_lengths [OF ok]
  consider (dump) "c = ctrl 80" | (kill) "c = ctrl 85" | (erase) "c = ctrl 72 \<or> c = 0x7f"
    | (full) "c \<notin> {ctrl 80, ctrl 85, ctrl 72, 0x7f}" "c = 0 \<or> \<not> unat (cons_e cs - cons_r cs) < INPUT_BUF_SIZE"
    | (store) "c \<notin> {ctrl 80, ctrl 85, ctrl 72, 0x7f}" "c \<noteq> 0" "unat (cons_e cs - cons_r cs) < INPUT_BUF_SIZE"
    by blast
  then show ?thesis
  proof cases
    case dump
    then show ?thesis using e ok by (simp add: consoleintr_def line_edit_def)
  next
    case kill
    then show ?thesis using e kill_line_ok [OF ok] by (simp add: consoleintr_def line_edit_def ctrl_def)
  next
    case erase
    then have n: "c \<noteq> ctrl 80" "c \<noteq> ctrl 85" by (auto simp: ctrl_def)
    show ?thesis
    proof (cases "cons_e cs = cons_w cs")
      case True
      then have "cs' = cs" "cons_line cs = []" using e erase n len(3) by (auto simp: consoleintr_def)
      then show ?thesis using ok erase n by (simp add: line_edit_def)
    next
      case False
      then have "cs' = cs\<lparr>cons_e := cons_e cs - 1\<rparr>" using e erase n by (auto simp: consoleintr_def)
      then show ?thesis using cons_erase [OF ok False] erase n by (simp add: line_edit_def)
    qed
  next
    case full
    then have "cs' = cs" using e by (auto simp: consoleintr_def cons_room)
    then show ?thesis using ok full len(2) by (auto simp: line_edit_def)
  next
    case store
    let ?c = "if c = 13 then 10 else c"
    define cs1 where "cs1 = cs\<lparr>cbuf := (cbuf cs)[unat (cons_e cs) mod INPUT_BUF_SIZE := of_int ?c], cons_e := cons_e cs + 1\<rparr>"
    note p = cons_put [OF ok store(3) cs1_def]
    have e1: "cs' = (if ?c = 10 \<or> ?c = ctrl 68 \<or> unat (cons_e cs1 - cons_r cs1) = INPUT_BUF_SIZE
        then cs1\<lparr>cons_w := cons_e cs1\<rparr> else cs1)"
      using e store by (auto simp: consoleintr_def cons_room cs1_def Let_def split: if_splits)
    have l1: "length (cbuf cs1) = INPUT_BUF_SIZE" "cons_w cs1 = cons_w cs" "cons_r cs1 = cons_r cs"
      using ok by (simp_all add: cs1_def cons_ok_def)
    have nl: "(of_int ?c :: u8) = 10 \<longleftrightarrow> ?c = 10"
    proof -
      have "(of_int ?c :: u8) = of_int 10 \<longleftrightarrow> ?c mod 256 = 10 mod 256"
        by (simp only: word_of_int_eq_iff take_bit_eq_mod) simp
      then show ?thesis using c by auto
    qed
    show ?thesis
    proof (cases "?c = 10 \<or> ?c = ctrl 68 \<or> unat (cons_e cs1 - cons_r cs1) = INPUT_BUF_SIZE")
      case True
      then have c1: "cs' = cs1\<lparr>cons_w := cons_e cs1\<rparr>" using e1 by simp
      then have "cons_ok cs'" using p store(3) l1 by (simp add: cons_ok_def)
      moreover have "line_edit c (cons_done cs, cons_line cs) = (cons_done cs @ cons_line cs @ [of_int ?c], [])"
        using True store len(2) p(3) by (auto simp: line_edit_def Let_def)
      ultimately show ?thesis using c1 p(4,5) by simp
    next
      case False
      then have c1: "cs' = cs1" using e1 by simp
      have "10 \<notin> set (cons_line cs1)" using ok nl False p(2) by (auto simp: cons_ok_def)
      then have "cons_ok cs'" using p(3) store(3) l1 ok c1 by (simp add: cons_ok_def)
      moreover have "line_edit c (cons_done cs, cons_line cs) = (cons_done cs, cons_line cs @ [of_int ?c])"
        using False store len(2) p(3) by (auto simp: line_edit_def Let_def)
      ultimately show ?thesis using c1 p(1,2) by simp
    qed
  qed
qed

section \<open>Properties\<close>

text \<open>
  C26. The console implements a line editor: for any burst of received characters, the interrupt
  handler's ring buffer with its three wrapping counters holds exactly the complete lines and
  the line under edit that the list-level editor \<open>line_edit\<close> computes, erasing and killing
  included, and never more than \<open>INPUT_BUF_SIZE\<close> bytes.
\<close>

theorem console_line_editing:
  assumes "cons_ok cs" "uartintr rx idle cs u = (ev, cs', out, u')"
  shows "cons_ok cs' \<and> (cons_done cs', cons_line cs') =
      fold (\<lambda>c. line_edit (int (unat c))) rx (cons_done cs, cons_line cs) \<and>
    length (cons_done cs') + length (cons_line cs') \<le> INPUT_BUF_SIZE"
proof -
  have in_ok: "cons_ok (snd (uartintr_input rx cs)) \<and>
      (cons_done (snd (uartintr_input rx cs)), cons_line (snd (uartintr_input rx cs))) =
        fold (\<lambda>c. line_edit (int (unat c))) rx (cons_done cs, cons_line cs)" if "cons_ok cs" for cs
    using that
  proof (induction rx arbitrary: cs)
    case (Cons c rx)
    obtain ev cs1 where c: "consoleintr (int (unat c)) cs = (ev, cs1)" by force
    have "int (unat c) < 256" using unat_lt8 [of c] by linarith
    from consoleintr_ok [OF Cons.prems _ this c] Cons.IH [of cs1] show ?case
      using c by (simp add: uartgetc_def Let_def split_beta)
  qed simp
  have "cs' = snd (uartintr_input rx cs)" using assms(2) by (simp add: uartintr_def Let_def split_beta)
  with in_ok [OF assms(1)] show ?thesis using cons_lengths(2) [of cs'] by (simp add: cons_ok_def)
qed

definition cons0 :: cons where
  "cons0 = \<lparr>cbuf = replicate 128 0, cons_r = 0, cons_w = 0, cons_e = 0\<rparr>"

theorem console_line_editing_witness:
  "\<exists>ev cs' out u'. uartintr [104, 105, 8, 13] (\<lambda>_. True) cons0 uart0 = (ev, cs', out, u') \<and>
    cons_done cs' = [104, 10] \<and> cons_line cs' = []"
proof -
  obtain ev cs' out u' where u: "uartintr [104, 105, 8, 13] (\<lambda>_. True) cons0 uart0 = (ev, cs', out, u')"
    by (metis prod.exhaust)
  have "cons_ok cons0" by (simp add: cons_ok_def cons0_def cons_line_def ring_contents_def INPUT_BUF_SIZE_def)
  from console_line_editing [OF this u] show ?thesis
    using u by (simp add: line_edit_def ctrl_def cons0_def cons_done_def cons_line_def ring_contents_def INPUT_BUF_SIZE_def)
qed

end
