(* ===== verification/Spinlock.thy ===== *)
theory Spinlock
  imports Prelude
begin

text \<open>
  Locks: kernel/spinlock.c and kernel/sleeplock.c. \<open>acquire\<close> and \<open>release\<close> are split at the points
  where another CPU can interleave: the entry with its check, the atomic swap of
  \<open>__sync_lock_test_and_set\<close>, the store of the owner, and on release the check with the store of
  the owner and the atomic store of 0. A CPU's interrupt state is the nesting depth of
  \<open>push_off\<close>, the saved enable bit and the current enable bit. The steps of one spin lock under
  any interleaving of the CPUs are an inductive relation, and so are those of one sleep lock
  under any interleaving of the processes.
\<close>

section \<open>Interrupt nesting\<close>

record cpu_intr =
  noff :: int
  intena :: bool
  intr_on :: bool

definition push_off :: "cpu_intr \<Rightarrow> cpu_intr" where
  "push_off c =
     (let old = intr_on c;
          c = c\<lparr>intr_on := False\<rparr>;
          c = (if noff c = 0 then c\<lparr>intena := old\<rparr> else c)
      in c\<lparr>noff := noff c + 1\<rparr>)"

definition pop_off :: "cpu_intr \<Rightarrow> cpu_intr result" where
  "pop_off c =
     (if intr_on c then Panic ''pop_off - interruptible''
      else if noff c < 1 then Panic ''pop_off''
      else let c = c\<lparr>noff := noff c - 1\<rparr> in
        Ret (if noff c = 0 \<and> intena c then c\<lparr>intr_on := True\<rparr> else c))"

primrec pop_offs :: "nat \<Rightarrow> cpu_intr \<Rightarrow> cpu_intr result" where
  "pop_offs 0 c = Ret c"
| "pop_offs (Suc n) c = rbind (pop_off c) (pop_offs n)"

lemma push_offs:
  assumes "noff c = 0" "0 < n"
  shows "(push_off ^^ n) c = c\<lparr>noff := int n, intena := intr_on c, intr_on := False\<rparr>"
  using assms(2)
proof (induction n)
  case (Suc n)
  then show ?case using assms(1) by (cases n) (simp_all add: push_off_def Let_def)
qed simp

lemma pop_offs_off:
  assumes "\<not> intr_on c" "int k < noff c"
  shows "pop_offs k c = Ret (c\<lparr>noff := noff c - int k\<rparr>)"
  using assms
proof (induction k arbitrary: c)
  case (Suc k)
  then show ?case by (simp add: pop_off_def Let_def algebra_simps)
qed simp

lemma pop_offs_add: "pop_offs (m + n) c = rbind (pop_offs m c) (pop_offs n)"
proof (induction m arbitrary: c)
  case (Suc m)
  then show ?case by (cases "pop_off c") simp_all
qed simp

section \<open>Spin locks\<close>

record spinlock =
  locked :: u32
  owner :: "nat option"

definition initlock :: "spinlock" where
  "initlock = \<lparr>locked = 0, owner = None\<rparr>"

definition holding :: "nat \<Rightarrow> spinlock \<Rightarrow> bool" where
  "holding c lk \<longleftrightarrow> locked lk \<noteq> 0 \<and> owner lk = Some c"

definition acquire_enter :: "nat \<Rightarrow> cpu_intr \<Rightarrow> spinlock \<Rightarrow> cpu_intr result" where
  "acquire_enter c ci lk = (let ci = push_off ci in if holding c lk then Panic ''acquire'' else Ret ci)"

definition test_and_set :: "spinlock \<Rightarrow> u32 \<times> spinlock" where
  "test_and_set lk = (locked lk, lk\<lparr>locked := 1\<rparr>)"

definition acquire_own :: "nat \<Rightarrow> spinlock \<Rightarrow> spinlock" where
  "acquire_own c lk = lk\<lparr>owner := Some c\<rparr>"

definition release_enter :: "nat \<Rightarrow> spinlock \<Rightarrow> spinlock result" where
  "release_enter c lk = (if \<not> holding c lk then Panic ''release'' else Ret (lk\<lparr>owner := None\<rparr>))"

definition release_store :: "spinlock \<Rightarrow> spinlock" where
  "release_store lk = lk\<lparr>locked := 0\<rparr>"

text \<open>Where each CPU is in its use of the lock.\<close>

datatype pc = Outside | Spinning | Swapped | Inside | Releasing | Unlocked | Panicked string

record machine =
  lock :: spinlock
  cpus :: "nat \<Rightarrow> cpu_intr"
  pcs :: "nat \<Rightarrow> pc"

definition at :: "nat \<Rightarrow> pc \<Rightarrow> machine \<Rightarrow> machine" where
  "at c p m = m\<lparr>pcs := (pcs m)(c := p)\<rparr>"

inductive lock_step :: "machine \<Rightarrow> machine \<Rightarrow> bool" where
  call_acquire: "pcs m c \<in> {Outside, Inside} \<Longrightarrow> acquire_enter c (cpus m c) (lock m) = Ret ci \<Longrightarrow>
    lock_step m (at c Spinning (m\<lparr>cpus := (cpus m)(c := ci)\<rparr>))"
| call_acquire_panic: "pcs m c \<in> {Outside, Inside} \<Longrightarrow> acquire_enter c (cpus m c) (lock m) = Panic e \<Longrightarrow>
    lock_step m (at c (Panicked e) m)"
| spin: "pcs m c = Spinning \<Longrightarrow> test_and_set (lock m) = (v, lk) \<Longrightarrow> v \<noteq> 0 \<Longrightarrow> lock_step m (m\<lparr>lock := lk\<rparr>)"
| swap: "pcs m c = Spinning \<Longrightarrow> test_and_set (lock m) = (0, lk) \<Longrightarrow>
    lock_step m (at c Swapped (m\<lparr>lock := lk\<rparr>))"
| own: "pcs m c = Swapped \<Longrightarrow> lock_step m (at c Inside (m\<lparr>lock := acquire_own c (lock m)\<rparr>))"
| call_release: "pcs m c \<in> {Outside, Inside} \<Longrightarrow> release_enter c (lock m) = Ret lk \<Longrightarrow>
    lock_step m (at c Releasing (m\<lparr>lock := lk\<rparr>))"
| call_release_panic: "pcs m c \<in> {Outside, Inside} \<Longrightarrow> release_enter c (lock m) = Panic e \<Longrightarrow>
    lock_step m (at c (Panicked e) m)"
| store: "pcs m c = Releasing \<Longrightarrow> lock_step m (at c Unlocked (m\<lparr>lock := release_store (lock m)\<rparr>))"
| pop: "pcs m c = Unlocked \<Longrightarrow> pop_off (cpus m c) = Ret ci \<Longrightarrow>
    lock_step m (at c Outside (m\<lparr>cpus := (cpus m)(c := ci)\<rparr>))"

definition boot :: "machine \<Rightarrow> bool" where
  "boot m \<longleftrightarrow> lock m = initlock \<and> (\<forall>c. pcs m c = Outside \<and> noff (cpus m c) = 0)"

definition busy :: "machine \<Rightarrow> nat \<Rightarrow> bool" where
  "busy m c \<longleftrightarrow> pcs m c \<in> {Swapped, Inside, Releasing} \<or> owner (lock m) = Some c"

definition entered :: "pc \<Rightarrow> bool" where
  "entered p \<longleftrightarrow> p \<in> {Spinning, Swapped, Inside, Releasing, Unlocked}"

definition lock_inv :: "machine \<Rightarrow> bool" where
  "lock_inv m \<longleftrightarrow>
     (\<forall>c d. busy m c \<longrightarrow> busy m d \<longrightarrow> c = d) \<and>
     (locked (lock m) = 0 \<longrightarrow> (\<forall>c. \<not> busy m c)) \<and>
     (\<forall>c. pcs m c = Inside \<longrightarrow> owner (lock m) = Some c) \<and>
     (\<forall>c. owner (lock m) = Some c \<longrightarrow> pcs m c = Inside \<or> (\<exists>e. pcs m c = Panicked e)) \<and>
     (\<forall>c. entered (pcs m c) \<longrightarrow> noff (cpus m c) = 1 \<and> \<not> intr_on (cpus m c)) \<and>
     (\<forall>c. pcs m c = Outside \<longrightarrow> noff (cpus m c) = 0)"

lemma lock_inv_boot: "boot m \<Longrightarrow> lock_inv m"
  by (auto simp: boot_def lock_inv_def busy_def initlock_def entered_def)

lemma lock_invD:
  assumes "lock_inv m"
  shows "busy m c \<Longrightarrow> busy m d \<Longrightarrow> c = d" "busy m c \<Longrightarrow> locked (lock m) \<noteq> 0"
    "pcs m c = Inside \<Longrightarrow> owner (lock m) = Some c"
    "owner (lock m) = Some c \<Longrightarrow> pcs m c = Inside \<or> (\<exists>e. pcs m c = Panicked e)"
    "entered (pcs m c) \<Longrightarrow> noff (cpus m c) = 1 \<and> \<not> intr_on (cpus m c)"
    "pcs m c = Outside \<Longrightarrow> noff (cpus m c) = 0"
  using assms unfolding lock_inv_def by blast+

lemma acquire_enter_iff:
  assumes "lock_inv m" "pcs m c \<in> {Outside, Inside}"
  shows "acquire_enter c (cpus m c) (lock m) = (if pcs m c = Inside then Panic ''acquire'' else Ret (push_off (cpus m c)))"
proof -
  have "holding c (lock m) \<longleftrightarrow> pcs m c = Inside"
    using lock_invD(2-4) [OF assms(1), of c] assms(2) by (auto simp: holding_def busy_def)
  then show ?thesis by (simp add: acquire_enter_def Let_def)
qed

lemma release_enter_iff:
  assumes "lock_inv m" "pcs m c \<in> {Outside, Inside}"
  shows "release_enter c (lock m) =
    (if pcs m c = Inside then Ret ((lock m)\<lparr>owner := None\<rparr>) else Panic ''release'')"
proof -
  have "holding c (lock m) \<longleftrightarrow> pcs m c = Inside"
    using lock_invD(2-4) [OF assms(1), of c] assms(2) by (auto simp: holding_def busy_def)
  then show ?thesis by (simp add: release_enter_def)
qed

lemma push_off_outside:
  "noff ci = 0 \<Longrightarrow> noff (push_off ci) = 1 \<and> \<not> intr_on (push_off ci)"
  by (simp add: push_off_def Let_def)

lemma lock_invI:
  assumes "lock_inv m" "\<And>d. busy m' d \<Longrightarrow> busy m d" "\<And>d. busy m' d \<Longrightarrow> locked (lock m') \<noteq> 0"
    "\<And>d. pcs m' d = Inside \<Longrightarrow> owner (lock m') = Some d"
    "\<And>d. owner (lock m') = Some d \<Longrightarrow> pcs m' d = Inside \<or> (\<exists>e. pcs m' d = Panicked e)"
    "\<And>d. entered (pcs m' d) \<Longrightarrow> noff (cpus m' d) = 1 \<and> \<not> intr_on (cpus m' d)"
    "\<And>d. pcs m' d = Outside \<Longrightarrow> noff (cpus m' d) = 0"
  shows "lock_inv m'"
  unfolding lock_inv_def using assms(2-7) lock_invD(1) [OF assms(1)] by blast

lemmas lock_defs = busy_def at_def entered_def test_and_set_def acquire_own_def release_store_def

text \<open>One proof obligation per step and field: the CPU that moves, and any other one.\<close>

lemma lock_inv_move:
  assumes inv: "lock_inv m" and m': "pcs m' = (pcs m)(c := p)" "\<And>d. d \<noteq> c \<Longrightarrow> cpus m' d = cpus m d"
    and ow: "\<And>d. d \<noteq> c \<Longrightarrow> owner (lock m') = Some d \<longleftrightarrow> owner (lock m) = Some d"
    and sub: "busy m' c \<Longrightarrow> busy m c" and lk: "\<And>d. busy m' d \<Longrightarrow> locked (lock m') \<noteq> 0"
    and ins: "p = Inside \<Longrightarrow> owner (lock m') = Some c"
    and own: "owner (lock m') = Some c \<Longrightarrow> p = Inside \<or> (\<exists>e. p = Panicked e)"
    and ent: "entered p \<Longrightarrow> noff (cpus m' c) = 1 \<and> \<not> intr_on (cpus m' c)"
    and out: "p = Outside \<Longrightarrow> noff (cpus m' c) = 0"
  shows "lock_inv m'"
proof (rule lock_invI [OF inv])
  fix d
  note D = lock_invD [OF inv, where c = d]
  have pd: "pcs m' d = (if d = c then p else pcs m d)" using m'(1) by simp
  show "busy m' d \<Longrightarrow> busy m d" using sub ow [of d] pd by (cases "d = c") (auto simp: busy_def)
  show "busy m' d \<Longrightarrow> locked (lock m') \<noteq> 0" by (rule lk)
  show "pcs m' d = Inside \<Longrightarrow> owner (lock m') = Some d" using ins ow [of d] pd D(3) by (cases "d = c") auto
  show "owner (lock m') = Some d \<Longrightarrow> pcs m' d = Inside \<or> (\<exists>e. pcs m' d = Panicked e)"
    using own ow [of d] pd D(4) by (cases "d = c") auto
  show "entered (pcs m' d) \<Longrightarrow> noff (cpus m' d) = 1 \<and> \<not> intr_on (cpus m' d)"
    using ent pd D(5) m'(2) by (cases "d = c") auto
  show "pcs m' d = Outside \<Longrightarrow> noff (cpus m' d) = 0" using out pd D(6) m'(2) by (cases "d = c") auto
qed

lemma not_busy_owner: "lock_inv m \<Longrightarrow> pcs m c \<in> {Outside, Spinning, Unlocked, Swapped, Releasing} \<Longrightarrow> owner (lock m) \<noteq> Some c"
  using lock_invD(4) [of m c] by auto

lemma lock_inv_step:
  assumes "lock_step m m'" "lock_inv m"
  shows "lock_inv m'"
  using assms
proof (induction rule: lock_step.induct)
  case (call_acquire m c ci)
  then have o: "pcs m c = Outside" "ci = push_off (cpus m c)"
    using acquire_enter_iff [OF call_acquire(3,1)] by (auto split: if_splits)
  note off = push_off_outside [OF lock_invD(6) [OF call_acquire(3) o(1)]] and n = not_busy_owner [OF call_acquire(3), of c]
  show ?case
    by (rule lock_inv_move [OF call_acquire(3), where c = c and p = Spinning])
      (use o off n lock_invD(2) [OF call_acquire(3)] in \<open>auto simp: lock_defs split: if_splits\<close>)
next
  case (call_acquire_panic m c e)
  then have "pcs m c = Inside" using acquire_enter_iff [OF call_acquire_panic(3,1)] by (auto split: if_splits)
  then show ?case
    by (intro lock_inv_move [OF call_acquire_panic(3), where c = c and p = "Panicked e"])
      (use lock_invD(2) [OF call_acquire_panic(3)] in \<open>auto simp: lock_defs split: if_splits\<close>)
next
  case (spin m c v lk)
  then show ?case by (auto simp: lock_inv_def busy_def test_and_set_def)
next
  case (swap m c lk)
  then have "\<forall>d. \<not> busy m d" using lock_invD(2) [OF swap(3)] by (auto simp: test_and_set_def)
  then show ?case using swap by (auto simp: lock_inv_def busy_def at_def entered_def test_and_set_def split: if_splits)
next
  case (own m c)
  have b: "busy m c" using own(1) by (simp add: busy_def)
  then have "owner (lock m) \<noteq> Some d" for d
    using lock_invD(1) [OF own(2), of c d] not_busy_owner [OF own(2), of c] own(1) by (auto simp: busy_def)
  then show ?case using own(1) lock_invD(2) [OF own(2) b] lock_invD(5) [OF own(2), of c]
    by (intro lock_inv_move [OF own(2), where c = c and p = Inside]) (auto simp: lock_defs)
next
  case (call_release m c lk)
  then have r: "pcs m c = Inside" "lk = (lock m)\<lparr>owner := None\<rparr>"
    using release_enter_iff [OF call_release(3,1)] by (auto split: if_splits)
  have b: "busy m c" using r(1) by (simp add: busy_def)
  have "owner (lock m) \<noteq> Some d" if "d \<noteq> c" for d
    using lock_invD(1) [OF call_release(3) b, of d] that by (auto simp: busy_def)
  then show ?case using r lock_invD(2) [OF call_release(3) b] lock_invD(5) [OF call_release(3), of c]
    by (intro lock_inv_move [OF call_release(3), where c = c and p = Releasing]) (auto simp: lock_defs)
next
  case (call_release_panic m c e)
  then have "pcs m c = Outside" using release_enter_iff [OF call_release_panic(3,1)] by (auto split: if_splits)
  then show ?case
    by (intro lock_inv_move [OF call_release_panic(3), where c = c and p = "Panicked e"])
      (use lock_invD(2) [OF call_release_panic(3)] in \<open>auto simp: lock_defs split: if_splits\<close>)
next
  case (store m c)
  have b: "busy m c" using store(1) by (simp add: busy_def)
  then have "\<not> busy m d" if "d \<noteq> c" for d using lock_invD(1) [OF store(2)] that by blast
  then show ?case
    using store(1) not_busy_owner [OF store(2), of c] lock_invD(5) [OF store(2), of c]
    by (intro lock_inv_move [OF store(2), where c = c and p = Unlocked])
      (auto simp: lock_defs split: if_splits)
next
  case (pop m c ci)
  then have "noff (cpus m c) = 1" using lock_invD(5) [OF pop(3), of c] by (simp add: entered_def)
  then have "noff ci = 0" using pop(2) by (auto simp: pop_off_def Let_def split: if_splits)
  then show ?case
    using pop(1) not_busy_owner [OF pop(3), of c] lock_invD(2) [OF pop(3)]
    by (intro lock_inv_move [OF pop(3), where c = c and p = Outside])
      (auto simp: lock_defs split: if_splits)
qed

abbreviation lock_reach :: "machine \<Rightarrow> bool" where "lock_reach \<equiv> reach boot lock_step"

interpretation spin: transitions boot lock_step lock_inv
  by unfold_locales (rule lock_inv_boot, assumption, rule lock_inv_step)

section \<open>Properties\<close>

text \<open>
  C10. On every reachable state of a spin lock, under any interleaving of the CPUs: at most one
  CPU is between \<open>acquire\<close> and \<open>release\<close>; that CPU is the one \<open>holding\<close> reports; its interrupts
  are off with a nesting depth of one; and the lock word is set, so that every other CPU that
  tries the swap keeps spinning.
\<close>

theorem spinlock_mutual_exclusion:
  assumes "lock_reach m" "pcs m c = Inside"
  shows "(\<forall>d. pcs m d = Inside \<longrightarrow> d = c) \<and> (\<forall>d. holding d (lock m) \<longleftrightarrow> d = c) \<and>
    \<not> intr_on (cpus m c) \<and> noff (cpus m c) = 1 \<and> fst (test_and_set (lock m)) \<noteq> 0"
proof -
  note inv = spin.reach_inv [OF assms(1)]
  have b: "busy m c" using assms(2) by (simp add: busy_def)
  note nz = lock_invD(2) [OF inv b] and ow = lock_invD(3) [OF inv assms(2)]
  have "d = c" if "pcs m d = Inside" for d using lock_invD(3) [OF inv that] ow by simp
  moreover have "\<forall>d. holding d (lock m) \<longleftrightarrow> d = c" using nz ow by (auto simp: holding_def)
  moreover have "noff (cpus m c) = 1 \<and> \<not> intr_on (cpus m c)"
    using lock_invD(5) [OF inv, of c] assms(2) by (simp add: entered_def)
  moreover have "fst (test_and_set (lock m)) \<noteq> 0" using nz by (simp add: test_and_set_def)
  ultimately show ?thesis by blast
qed

definition two_cpus :: machine where
  "two_cpus = \<lparr>lock = \<lparr>locked = 1, owner = Some 0\<rparr>,
     cpus = (\<lambda>_. \<lparr>noff = 0, intena = True, intr_on = True\<rparr>)
       (0 := \<lparr>noff = 1, intena = True, intr_on = False\<rparr>, 1 := \<lparr>noff = 1, intena = True, intr_on = False\<rparr>),
     pcs = (\<lambda>_. Outside)(0 := Inside, 1 := Spinning)\<rparr>"

lemma two_cpus_reach: "lock_reach two_cpus"
proof -
  let ?off = "\<lparr>noff = 1, intena = True, intr_on = False\<rparr>"
  let ?on = "\<lambda>_::nat. \<lparr>noff = 0, intena = True, intr_on = True\<rparr>"
  let ?m0 = "\<lparr>lock = initlock, cpus = ?on, pcs = \<lambda>_. Outside\<rparr>"
  let ?m1 = "\<lparr>lock = initlock, cpus = ?on(0 := ?off), pcs = (\<lambda>_. Outside)(0 := Spinning)\<rparr>"
  let ?m2 = "\<lparr>lock = initlock, cpus = ?on(0 := ?off, 1 := ?off), pcs = (\<lambda>_. Outside)(0 := Spinning, 1 := Spinning)\<rparr>"
  let ?m3 = "at 0 Swapped (?m2\<lparr>lock := \<lparr>locked = 1, owner = None\<rparr>\<rparr>)"
  have e: "acquire_enter c \<lparr>noff = 0, intena = True, intr_on = True\<rparr> initlock = Ret ?off" for c
    by (simp add: acquire_enter_def push_off_def holding_def initlock_def)
  have "lock_reach ?m0" by (rule reach_start) (simp add: boot_def)
  moreover have "lock_step ?m0 ?m1"
    using lock_step.call_acquire [of ?m0 0 ?off] e by (simp add: at_def)
  moreover have "lock_step ?m1 ?m2"
    using lock_step.call_acquire [of ?m1 1 ?off] e by (simp add: at_def)
  moreover have "lock_step ?m2 ?m3"
    by (rule lock_step.swap) (simp_all add: test_and_set_def initlock_def)
  moreover have "lock_step ?m3 two_cpus"
    using lock_step.own [of ?m3 0] by (simp add: at_def acquire_own_def two_cpus_def fun_upd_twist)
  ultimately show ?thesis by (meson reach_step)
qed

theorem spinlock_mutual_exclusion_witness:
  "\<not> holding 1 (lock two_cpus) \<and> fst (test_and_set (lock two_cpus)) \<noteq> 0"
  using spinlock_mutual_exclusion [OF two_cpus_reach, of 0] by (simp add: two_cpus_def)

text \<open>
  \<open>push_off\<close> and \<open>pop_off\<close> are matched: starting outside any nesting, after \<open>n\<close> calls of
  \<open>push_off\<close> the interrupts stay off through the first \<open>k < n\<close> calls of \<open>pop_off\<close>, none of the
  \<open>n\<close> calls panics, the last one restores the interrupt flag the CPU had before the first
  \<open>push_off\<close>, and one call more panics whichever flag that was.
\<close>

theorem push_pop_nesting:
  assumes "noff c = 0" "0 < n"
  shows "(\<forall>k < n. \<exists>d. pop_offs k ((push_off ^^ n) c) = Ret d \<and> \<not> intr_on d) \<and>
    pop_offs n ((push_off ^^ n) c) = Ret (c\<lparr>intena := intr_on c\<rparr>) \<and>
    (\<exists>e. pop_offs (Suc n) ((push_off ^^ n) c) = Panic e)"
proof -
  define d where "d = (push_off ^^ n) c"
  have d: "d = c\<lparr>noff := int n, intena := intr_on c, intr_on := False\<rparr>"
    unfolding d_def by (rule push_offs [OF assms])
  have pre: "pop_offs k d = Ret (d\<lparr>noff := int n - int k\<rparr>)" if "k < n" for k
    using pop_offs_off [of d k] that d by simp
  obtain k where k: "n = k + 1" using assms(2) by (metis Suc_eq_plus1 gr0_conv_Suc)
  have "pop_offs n d = pop_offs 1 (d\<lparr>noff := 1\<rparr>)"
    using pop_offs_add [of k 1 d] pre [of k] k by simp
  then have all: "pop_offs n d = Ret (c\<lparr>intena := intr_on c\<rparr>)"
    using assms(1) d by (cases c) (simp add: pop_off_def Let_def)
  have "pop_offs (n + 1) d = pop_offs 1 (c\<lparr>intena := intr_on c\<rparr>)"
    using pop_offs_add [of n 1 d] all by (simp only: rbind.simps)
  moreover have "\<exists>e. pop_offs 1 (c\<lparr>intena := intr_on c\<rparr>) = Panic e"
    using assms(1) by (simp add: pop_off_def)
  ultimately have "\<exists>e. pop_offs (Suc n) d = Panic e" by (simp only: Suc_eq_plus1)
  moreover have "\<exists>x. pop_offs k d = Ret x \<and> \<not> intr_on x" if "k < n" for k
    using pre [OF that] d by simp
  ultimately show ?thesis using all d_def by blast
qed

theorem push_pop_nesting_witness:
  "pop_offs 2 ((push_off ^^ 2) \<lparr>noff = 0, intena = False, intr_on = True\<rparr>) =
     Ret \<lparr>noff = 0, intena = True, intr_on = True\<rparr>"
  using push_pop_nesting [of "\<lparr>noff = 0, intena = False, intr_on = True\<rparr>" 2] by simp

end
