(* ===== verification/Sleeplock.thy ===== *)
theory Sleeplock
  imports Spinlock
begin

text \<open>
  Sleep locks, kernel/sleeplock.c. Each body runs with the inner spin lock held, so it is one
  step; \<open>acquiresleep\<close> gives the inner lock up only inside \<open>sleep\<close>, which is the outcome
  \<open>None\<close>: the process is asleep on the lock's address and starts the test of the \<open>while\<close>
  again when it is woken. The use of one sleep lock by any number of processes is a step
  relation, with \<open>kill\<close> (kernel/proc.c) able to wake a sleeper at any time.
\<close>

section \<open>Definitions\<close>

record sleeplock =
  sl_locked :: u32
  sl_pid :: int

definition initsleeplock :: sleeplock where
  "initsleeplock = \<lparr>sl_locked = 0, sl_pid = 0\<rparr>"

definition acquiresleep :: "int \<Rightarrow> sleeplock \<Rightarrow> sleeplock option" where
  "acquiresleep pid lk = (if sl_locked lk \<noteq> 0 then None else Some (lk\<lparr>sl_locked := 1, sl_pid := pid\<rparr>))"

definition releasesleep :: "sleeplock \<Rightarrow> sleeplock" where
  "releasesleep lk = lk\<lparr>sl_locked := 0, sl_pid := 0\<rparr>"

definition holdingsleep :: "int \<Rightarrow> sleeplock \<Rightarrow> bool" where
  "holdingsleep pid lk \<longleftrightarrow> sl_locked lk \<noteq> 0 \<and> sl_pid lk = pid"

section \<open>Processes using one sleep lock\<close>

datatype sl_state = SIdle | STrying | SAsleep | SHolds

record sl_sys =
  slk :: sleeplock
  sl_at :: "int \<Rightarrow> sl_state"

definition wake_all :: "sl_sys \<Rightarrow> sl_sys" where
  "wake_all s = s\<lparr>sl_at := (\<lambda>q. if sl_at s q = SAsleep then STrying else sl_at s q)\<rparr>"

definition sl_goto :: "int \<Rightarrow> sl_state \<Rightarrow> sl_sys \<Rightarrow> sl_sys" where
  "sl_goto p st s = s\<lparr>sl_at := (sl_at s)(p := st)\<rparr>"

inductive sl_step :: "sl_sys \<Rightarrow> sl_sys \<Rightarrow> bool" where
  sl_call: "sl_at s p = SIdle \<Longrightarrow> sl_step s (sl_goto p STrying s)"
| sl_sleep: "sl_at s p = STrying \<Longrightarrow> acquiresleep p (slk s) = None \<Longrightarrow> sl_step s (sl_goto p SAsleep s)"
| sl_take: "sl_at s p = STrying \<Longrightarrow> acquiresleep p (slk s) = Some lk \<Longrightarrow>
    sl_step s (sl_goto p SHolds (s\<lparr>slk := lk\<rparr>))"
| sl_release: "sl_at s p = SHolds \<Longrightarrow>
    sl_step s (sl_goto p SIdle (wake_all (s\<lparr>slk := releasesleep (slk s)\<rparr>)))"
| sl_kill: "sl_at s p = SAsleep \<Longrightarrow> sl_step s (sl_goto p STrying s)"

abbreviation sl_reach :: "sl_sys \<Rightarrow> bool" where
  "sl_reach \<equiv> reach (\<lambda>s. s = \<lparr>slk = initsleeplock, sl_at = \<lambda>_. SIdle\<rparr>) sl_step"

text \<open>The lock names its holder, and nobody sleeps on a free lock.\<close>

definition sl_inv :: "sl_sys \<Rightarrow> bool" where
  "sl_inv s \<longleftrightarrow> (\<forall>p. holdingsleep p (slk s) \<longleftrightarrow> sl_at s p = SHolds) \<and>
     (\<forall>p. sl_at s p = SAsleep \<longrightarrow> sl_locked (slk s) \<noteq> 0)"

lemmas sl_defs = sl_goto_def wake_all_def acquiresleep_def releasesleep_def holdingsleep_def

lemma sl_inv_holder: "sl_inv s \<Longrightarrow> sl_at s p = SHolds \<Longrightarrow> p = sl_pid (slk s)"
  by (metis sl_inv_def holdingsleep_def)

lemma sl_inv_step: "sl_step s s' \<Longrightarrow> sl_inv s \<Longrightarrow> sl_inv s'"
proof (induction rule: sl_step.induct)
  case (sl_take s p lk)
  then have "sl_locked (slk s) = 0" "lk = (slk s)\<lparr>sl_locked := 1, sl_pid := p\<rparr>"
    by (auto simp: acquiresleep_def split: if_splits)
  then show ?case using sl_take(3) by (auto simp: sl_inv_def sl_defs)
next
  case (sl_release s p)
  then show ?case using sl_inv_holder [OF sl_release(2)] by (auto simp: sl_inv_def sl_defs split: if_splits)
qed (auto simp: sl_inv_def sl_defs split: if_splits)

interpretation sleep: transitions "\<lambda>s. s = \<lparr>slk = initsleeplock, sl_at = \<lambda>_. SIdle\<rparr>" sl_step sl_inv
  by unfold_locales (simp add: sl_inv_def initsleeplock_def holdingsleep_def, rule sl_inv_step)

section \<open>Properties\<close>


definition sl_waiting :: sl_sys where
  "sl_waiting = \<lparr>slk = \<lparr>sl_locked = 1, sl_pid = 1\<rparr>, sl_at = (\<lambda>_. SIdle)(1 := SHolds, 2 := SAsleep)\<rparr>"

lemma sl_waiting_reach: "sl_reach sl_waiting"
proof -
  let ?s0 = "\<lparr>slk = initsleeplock, sl_at = \<lambda>_. SIdle\<rparr>"
  let ?s1 = "sl_goto 1 STrying ?s0"
  let ?s2 = "sl_goto 1 SHolds (?s1\<lparr>slk := \<lparr>sl_locked = 1, sl_pid = 1\<rparr>\<rparr>)"
  let ?s3 = "sl_goto 2 STrying ?s2"
  have "sl_reach ?s0" by (rule reach_start) simp
  moreover have "sl_step ?s0 ?s1" by (rule sl_step.sl_call) simp
  moreover have "sl_step ?s1 ?s2" by (rule sl_step.sl_take) (simp_all add: sl_defs initsleeplock_def)
  moreover have "sl_step ?s2 ?s3" by (rule sl_step.sl_call) (simp add: sl_goto_def)
  moreover have "sl_step ?s3 sl_waiting"
    using sl_step.sl_sleep [of ?s3 2] by (simp add: sl_waiting_def sl_defs)
  ultimately show ?thesis by (meson reach_step)
qed


end
