(* ===== verification/Bio.thy ===== *)
theory Bio
  imports Sleeplock
begin

text \<open>
  The buffer cache, kernel/bio.c: \<open>NBUF\<close> buffers on a circular doubly linked list through
  \<open>b->prev\<close> and \<open>b->next\<close>, most recently used first. A buffer pointer is an index; \<open>NBUF\<close> is
  \<open>&bcache.head\<close>. The disk is a map from block numbers to blocks, together with the trace of the
  blocks written to it, oldest first; \<open>disk_rw\<close> is its effect once the request has
  completed. A process that finds the sleep lock of a buffer taken gets \<open>Wait\<close>.
\<close>

section \<open>Definitions\<close>

type_synonym block = "u8 list"

definition BSIZE :: nat where "BSIZE = 1024"

definition NBUF :: nat where "NBUF = 30"

record buf =
  b_valid :: int
  b_dev :: u32
  b_blockno :: u32
  b_lock :: sleeplock
  b_refcnt :: u32
  b_prev :: nat
  b_next :: nat
  b_data :: block

record bio =
  bufs :: "nat \<Rightarrow> buf"
  disk :: "u32 \<Rightarrow> block"
  dwrites :: "(u32 \<times> block) list"

definition upd_buf :: "nat \<Rightarrow> (buf \<Rightarrow> buf) \<Rightarrow> bio \<Rightarrow> bio" where
  "upd_buf i f s = s\<lparr>bufs := (bufs s)(i := f (bufs s i))\<rparr>"

definition push_front :: "nat \<Rightarrow> bio \<Rightarrow> bio" where
  "push_front b s =
     (let s = upd_buf b (\<lambda>x. x\<lparr>b_next := b_next (bufs s NBUF)\<rparr>) s;
          s = upd_buf b (\<lambda>x. x\<lparr>b_prev := NBUF\<rparr>) s;
          s = upd_buf (b_next (bufs s NBUF)) (\<lambda>x. x\<lparr>b_prev := b\<rparr>) s
      in upd_buf NBUF (\<lambda>x. x\<lparr>b_next := b\<rparr>) s)"

definition unlink_buf :: "nat \<Rightarrow> bio \<Rightarrow> bio" where
  "unlink_buf b s =
     (let s = upd_buf (b_next (bufs s b)) (\<lambda>x. x\<lparr>b_prev := b_prev (bufs s b)\<rparr>) s
      in upd_buf (b_prev (bufs s b)) (\<lambda>x. x\<lparr>b_next := b_next (bufs s b)\<rparr>) s)"

primrec binit_loop :: "nat \<Rightarrow> bio \<Rightarrow> bio" where
  "binit_loop 0 s = s"
| "binit_loop (Suc b) s = push_front b (upd_buf b (\<lambda>x. x\<lparr>b_lock := initsleeplock\<rparr>) (binit_loop b s))"

definition binit :: "bio \<Rightarrow> bio" where
  "binit s = binit_loop NBUF (upd_buf NBUF (\<lambda>x. x\<lparr>b_prev := NBUF, b_next := NBUF\<rparr>) s)"

text \<open>
  The two loops of \<open>bget\<close>: follow \<open>step\<close> from \<open>i\<close> to the first buffer with \<open>P\<close>. The outcome
  \<open>None\<close> is a walk of more than the given number of buffers.
\<close>

primrec scan :: "(buf \<Rightarrow> nat) \<Rightarrow> (buf \<Rightarrow> bool) \<Rightarrow> (nat \<Rightarrow> buf) \<Rightarrow> nat \<Rightarrow> nat \<Rightarrow> nat option option" where
  "scan step P B 0 i = None"
| "scan step P B (Suc k) i =
     (if i = NBUF then Some None else if P (B i) then Some (Some i) else scan step P B k (step (B i)))"

definition lock_buf :: "int \<Rightarrow> nat \<Rightarrow> bio \<Rightarrow> (nat \<times> bio) result" where
  "lock_buf pid b s =
     (case acquiresleep pid (b_lock (bufs s b)) of
        None \<Rightarrow> Wait
      | Some lk \<Rightarrow> Ret (b, upd_buf b (\<lambda>x. x\<lparr>b_lock := lk\<rparr>) s))"

definition bget :: "int \<Rightarrow> u32 \<Rightarrow> u32 \<Rightarrow> bio \<Rightarrow> (nat \<times> bio) result" where
  "bget pid dev bno s =
     (case scan b_next (\<lambda>x. b_dev x = dev \<and> b_blockno x = bno) (bufs s) (Suc NBUF) (b_next (bufs s NBUF)) of
        None \<Rightarrow> Undef
      | Some (Some b) \<Rightarrow> lock_buf pid b (upd_buf b (\<lambda>x. x\<lparr>b_refcnt := b_refcnt x + 1\<rparr>) s)
      | Some None \<Rightarrow>
          (case scan b_prev (\<lambda>x. b_refcnt x = 0) (bufs s) (Suc NBUF) (b_prev (bufs s NBUF)) of
             None \<Rightarrow> Undef
           | Some (Some b) \<Rightarrow>
               lock_buf pid b (upd_buf b (\<lambda>x. x\<lparr>b_dev := dev, b_blockno := bno, b_valid := 0, b_refcnt := 1\<rparr>) s)
           | Some None \<Rightarrow> Panic ''bget: no buffers''))"

definition disk_rw :: "nat \<Rightarrow> bool \<Rightarrow> bio \<Rightarrow> bio" where
  "disk_rw b write s =
     (let bno = b_blockno (bufs s b) in
      if write then s\<lparr>disk := (disk s)(bno := b_data (bufs s b)), dwrites := dwrites s @ [(bno, b_data (bufs s b))]\<rparr>
      else upd_buf b (\<lambda>x. x\<lparr>b_data := disk s bno\<rparr>) s)"

definition bread :: "int \<Rightarrow> u32 \<Rightarrow> u32 \<Rightarrow> bio \<Rightarrow> (nat \<times> bio) result" where
  "bread pid dev bno s = rbind (bget pid dev bno s) (\<lambda>(b, s).
     if b_valid (bufs s b) = 0
     then Ret (b, upd_buf b (\<lambda>x. x\<lparr>b_valid := 1\<rparr>) (disk_rw b False s))
     else Ret (b, s))"

definition bwrite :: "int \<Rightarrow> nat \<Rightarrow> bio \<Rightarrow> bio result" where
  "bwrite pid b s =
     (if \<not> holdingsleep pid (b_lock (bufs s b)) then Panic ''bwrite'' else Ret (disk_rw b True s))"

definition brelse :: "int \<Rightarrow> nat \<Rightarrow> bio \<Rightarrow> bio result" where
  "brelse pid b s =
     (if \<not> holdingsleep pid (b_lock (bufs s b)) then Panic ''brelse''
      else let s = upd_buf b (\<lambda>x. x\<lparr>b_lock := releasesleep (b_lock x)\<rparr>) s;
               s = upd_buf b (\<lambda>x. x\<lparr>b_refcnt := b_refcnt x - 1\<rparr>) s
        in Ret (if b_refcnt (bufs s b) = 0 then push_front b (unlink_buf b s) else s))"

definition bpin :: "nat \<Rightarrow> bio \<Rightarrow> bio" where
  "bpin b s = upd_buf b (\<lambda>x. x\<lparr>b_refcnt := b_refcnt x + 1\<rparr>) s"

definition bunpin :: "nat \<Rightarrow> bio \<Rightarrow> bio" where
  "bunpin b s = upd_buf b (\<lambda>x. x\<lparr>b_refcnt := b_refcnt x - 1\<rparr>) s"

section \<open>The list of buffers\<close>

fun linked :: "(nat \<Rightarrow> buf) \<Rightarrow> nat \<Rightarrow> nat list \<Rightarrow> nat \<Rightarrow> bool" where
  "linked B a [] z \<longleftrightarrow> b_next (B a) = z \<and> b_prev (B z) = a"
| "linked B a (x # xs) z \<longleftrightarrow> b_next (B a) = x \<and> b_prev (B x) = a \<and> linked B x xs z"

definition lru :: "bio \<Rightarrow> nat list \<Rightarrow> bool" where
  "lru s xs \<longleftrightarrow> linked (bufs s) NBUF xs NBUF \<and> distinct (NBUF # xs)"

lemma linked_append: "linked B a (xs @ y # ys) z \<longleftrightarrow> linked B a xs y \<and> linked B y ys z"
  by (induction xs arbitrary: a) auto

lemma linked_cong:
  assumes "\<And>i. i \<in> set (a # xs) \<Longrightarrow> b_next (B i) = b_next (C i)"
    "\<And>i. i \<in> set (xs @ [z]) \<Longrightarrow> b_prev (B i) = b_prev (C i)"
  shows "linked B a xs z = linked C a xs z"
  using assms by (induction xs arbitrary: a) auto

lemma linked_ends: "linked B a xs z \<Longrightarrow> b_next (B a) = hd (xs @ [z]) \<and> b_prev (B z) = last (a # xs)"
  by (induction xs arbitrary: a) auto

lemma push_front_ptrs:
  assumes "b_next (bufs s NBUF) \<noteq> b" "b \<noteq> NBUF"
  shows "b_next (bufs (push_front b s) i) =
      (if i = NBUF then b else if i = b then b_next (bufs s NBUF) else b_next (bufs s i))"
    and "b_prev (bufs (push_front b s) i) =
      (if i = b_next (bufs s NBUF) then b else if i = b then NBUF else b_prev (bufs s i))"
  using assms by (simp_all add: push_front_def upd_buf_def Let_def)

lemma unlink_buf_ptrs:
  assumes "b_next (bufs s b) \<noteq> b"
  shows "b_next (bufs (unlink_buf b s) i) = (if i = b_prev (bufs s b) then b_next (bufs s b) else b_next (bufs s i))"
    and "b_prev (bufs (unlink_buf b s) i) = (if i = b_next (bufs s b) then b_prev (bufs s b) else b_prev (bufs s i))"
  using assms by (simp_all add: unlink_buf_def upd_buf_def Let_def)

lemma lru_push:
  assumes "lru s xs" "b \<notin> set xs" "b \<noteq> NBUF"
  shows "lru (push_front b s) (b # xs)"
proof -
  define n where "n = b_next (bufs s NBUF)"
  have n1: "n = hd (xs @ [NBUF])" using assms(1) linked_ends [of "bufs s" NBUF xs NBUF] by (simp add: n_def lru_def)
  have n2: "n \<noteq> b" using n1 assms(2,3) by (cases xs) auto
  let ?B = "bufs (push_front b s)"
  note B = push_front_ptrs [where b = b and s = s, folded n_def, OF n2 assms(3)]
  show ?thesis
  proof (cases xs)
    case Nil
    then show ?thesis using n1 assms(3) by (simp add: lru_def B)
  next
    case (Cons x ys)
    then have "linked ?B x ys NBUF = linked (bufs s) x ys NBUF"
      using assms n1 by (intro linked_cong) (auto simp: B lru_def)
    then show ?thesis using Cons assms n1 by (simp add: B lru_def)
  qed
qed

lemma linked_unlink:
  assumes "linked B a (ys @ b # zs) z" "distinct (ys @ b # zs)" "a \<notin> set (ys @ b # zs)" "z \<notin> set (ys @ b # zs)"
    and C: "\<And>i. b_prev (C i) = (if i = b_next (B b) then b_prev (B b) else b_prev (B i))"
      "\<And>i. b_next (C i) = (if i = b_prev (B b) then b_next (B b) else b_next (B i))"
  shows "linked C a (ys @ zs) z"
  using assms(1-4)
proof (induction ys arbitrary: a)
  case Nil
  show ?case
  proof (cases zs)
    case Nil
    then show ?thesis using Nil.prems C by auto
  next
    case (Cons x xs)
    then have "linked C x xs z = linked B x xs z" using Nil.prems C by (intro linked_cong) auto
    then show ?thesis using Cons Nil.prems C by auto
  qed
next
  case (Cons y ys)
  have "b_prev (B b) = last (y # ys)" "b_next (B b) = hd (zs @ [z])"
    using Cons.prems(1) linked_append [of B y ys b zs z] linked_ends by auto
  moreover have "last (y # ys) \<in> set (y # ys)" "hd (zs @ [z]) \<in> set (zs @ [z])" by (rule last_in_set hd_in_set; simp)+
  ultimately have "a \<noteq> b_prev (B b)" "y \<noteq> b_next (B b)" using Cons.prems(2-4) by auto
  moreover have "linked C y (ys @ zs) z" using Cons by auto
  ultimately show ?case using Cons.prems C by auto
qed

lemma lru_unlink:
  assumes "lru s (ys @ b # zs)"
  shows "lru (unlink_buf b s) (ys @ zs)"
proof -
  have l: "linked (bufs s) b zs NBUF" and d: "distinct (NBUF # ys @ b # zs)"
    using assms linked_append [of "bufs s" NBUF ys b zs NBUF] by (auto simp: lru_def)
  have "b_next (bufs s b) = hd (zs @ [NBUF])" using linked_ends [OF l] by simp
  then have nb: "b_next (bufs s b) \<noteq> b" using d by (cases zs) auto
  have "linked (bufs (unlink_buf b s)) NBUF (ys @ zs) NBUF"
    by (rule linked_unlink [where b = b and B = "bufs s"])
      (use assms unlink_buf_ptrs [OF nb] in \<open>auto simp: lru_def\<close>)
  then show ?thesis using d by (simp add: lru_def)
qed

lemma linked_scan_next:
  assumes "linked B a xs NBUF" "NBUF \<notin> set xs" "length xs < k"
  shows "scan b_next P B k (b_next (B a)) = Some (find (\<lambda>i. P (B i)) xs)"
  using assms
proof (induction xs arbitrary: a k)
  case Nil
  then show ?case by (cases k) auto
next
  case (Cons x xs)
  then obtain k' where "k = Suc k'" by (cases k) auto
  then show ?case using Cons by auto
qed

lemma linked_scan_prev:
  assumes "linked B NBUF xs z" "NBUF \<notin> set xs" "length xs < k"
  shows "scan b_prev P B k (b_prev (B z)) = Some (find (\<lambda>i. P (B i)) (rev xs))"
  using assms
proof (induction xs arbitrary: z k rule: rev_induct)
  case Nil
  then show ?case by (cases k) auto
next
  case (snoc x xs)
  then obtain k' where "k = Suc k'" by (cases k) auto
  then show ?case using snoc linked_append [of B NBUF xs x "[]" z] by auto
qed

section \<open>The cache as a view of the disk\<close>

text \<open>
  What a process that runs alone sees: \<open>vw b\<close> is the current content of block \<open>b\<close>, in the cache
  or on the disk; \<open>P\<close> holds the blocks pinned by the log and \<open>H\<close> the blocks whose buffer the
  process holds. A block that is neither has the same content in the cache and on the disk, so
  its buffer may be recycled at any time.
\<close>

definition ROOTDEV :: u32 where "ROOTDEV = 1"

definition buf_for :: "bio \<Rightarrow> nat \<Rightarrow> u32 \<Rightarrow> bool" where
  "buf_for s i b \<longleftrightarrow> i < NBUF \<and> b_dev (bufs s i) = ROOTDEV \<and> b_blockno (bufs s i) = b"

definition lru_all :: "bio \<Rightarrow> bool" where
  "lru_all s \<longleftrightarrow> (\<exists>xs. lru s xs \<and> set xs = {..<NBUF})"

definition bio_abs :: "int \<Rightarrow> bio \<Rightarrow> (u32 \<Rightarrow> block) \<Rightarrow> u32 set \<Rightarrow> u32 set \<Rightarrow> bool" where
  "bio_abs pid s vw P H \<longleftrightarrow> lru_all s \<and>
     (\<forall>b. length (vw b) = BSIZE \<and> length (disk s b) = BSIZE) \<and>
     (\<forall>i j b. buf_for s i b \<longrightarrow> buf_for s j b \<longrightarrow> i = j) \<and>
     (\<forall>i < NBUF. b_dev (bufs s i) \<noteq> ROOTDEV \<longrightarrow> b_refcnt (bufs s i) = 0 \<and> b_lock (bufs s i) = initsleeplock) \<and>
     (\<forall>i b. buf_for s i b \<longrightarrow> b_refcnt (bufs s i) = of_bool (b \<in> H) + of_bool (b \<in> P) \<and>
        b_lock (bufs s i) = (if b \<in> H then \<lparr>sl_locked = 1, sl_pid = pid\<rparr> else initsleeplock) \<and>
        (b_valid (bufs s i) \<noteq> 0 \<longrightarrow> b_data (bufs s i) = vw b)) \<and>
     (\<forall>b. b \<in> P \<union> H \<longrightarrow> (\<exists>i. buf_for s i b \<and> b_valid (bufs s i) \<noteq> 0)) \<and>
     (\<forall>b. b \<notin> P \<union> H \<longrightarrow> vw b = disk s b)"

lemma bio_absD:
  assumes "bio_abs pid s vw P H"
  shows "lru_all s" "length (vw b) = BSIZE" "length (disk s b) = BSIZE"
    "buf_for s i b \<Longrightarrow> buf_for s j b \<Longrightarrow> i = j"
    "i < NBUF \<Longrightarrow> b_dev (bufs s i) \<noteq> ROOTDEV \<Longrightarrow> b_refcnt (bufs s i) = 0 \<and> b_lock (bufs s i) = initsleeplock"
    "buf_for s i b \<Longrightarrow> b_refcnt (bufs s i) = of_bool (b \<in> H) + of_bool (b \<in> P)"
    "buf_for s i b \<Longrightarrow> b_lock (bufs s i) = (if b \<in> H then \<lparr>sl_locked = 1, sl_pid = pid\<rparr> else initsleeplock)"
    "buf_for s i b \<Longrightarrow> b_valid (bufs s i) \<noteq> 0 \<Longrightarrow> b_data (bufs s i) = vw b"
    "b \<in> P \<union> H \<Longrightarrow> \<exists>i. buf_for s i b \<and> b_valid (bufs s i) \<noteq> 0"
    "b \<notin> P \<union> H \<Longrightarrow> vw b = disk s b"
  using assms unfolding bio_abs_def by blast+

lemma count_zero: "of_bool p + of_bool q = (0 :: u32) \<longleftrightarrow> \<not> p \<and> \<not> q"
  by (cases p; cases q) simp_all

lemma lru_all_cong:
  assumes "\<And>i. b_next (bufs s' i) = b_next (bufs s i)" "\<And>i. b_prev (bufs s' i) = b_prev (bufs s i)"
  shows "lru_all s' = lru_all s"
  unfolding lru_all_def lru_def using linked_cong [of _ _ "bufs s'" "bufs s"] assms by metis

text \<open>One buffer \<open>i\<close>, which is or becomes the buffer of \<open>b\<close>, is given new contents and counts.\<close>

lemma bio_abs_change:
  assumes abs: "bio_abs pid s vw P H" and i: "i < NBUF"
    and s': "bufs s' = (bufs s)(i := x)" "\<And>c. c \<noteq> b \<Longrightarrow> disk s' c = disk s c" "length (disk s' b) = BSIZE"
    and ptr: "b_next x = b_next (bufs s i)" "b_prev x = b_prev (bufs s i)"
    and x: "b_dev x = ROOTDEV" "b_blockno x = b" "b_valid x \<noteq> 0" "b_data x = vw' b" "length (vw' b) = BSIZE"
      "b_refcnt x = of_bool (b \<in> H') + of_bool (b \<in> P')"
      "b_lock x = (if b \<in> H' then \<lparr>sl_locked = 1, sl_pid = pid\<rparr> else initsleeplock)"
    and old: "buf_for s i b \<or> b_refcnt (bufs s i) = 0 \<and> (\<forall>j. \<not> buf_for s j b)"
    and other: "\<And>c. c \<noteq> b \<Longrightarrow> vw' c = vw c \<and> (c \<in> H' \<longleftrightarrow> c \<in> H) \<and> (c \<in> P' \<longleftrightarrow> c \<in> P)"
    and clean: "b \<notin> P' \<union> H' \<Longrightarrow> vw' b = disk s' b"
  shows "bio_abs pid s' vw' P' H'"
proof -
  note D = bio_absD [OF abs]
  have for': "buf_for s' j c \<longleftrightarrow> (if j = i then c = b else buf_for s j c)" for j c
    using i x s'(1) by (auto simp: buf_for_def)
  have away: "c \<noteq> b" if "j \<noteq> i" "buf_for s j c" for j c
    using old D(4) [of j b i] that by auto
  have lru: "lru_all s'" using D(1) lru_all_cong [of s' s] s'(1) ptr by simp
  have len: "length (vw' c) = BSIZE \<and> length (disk s' c) = BSIZE" for c
    using D(2,3) [of c] other [of c] s'(2,3) x(5) by (cases "c = b") auto
  have uniq: "j = k" if "buf_for s' j c" "buf_for s' k c" for j k c
    using that for' away D(4) by (metis (full_types))
  have free: "b_refcnt (bufs s' j) = 0 \<and> b_lock (bufs s' j) = initsleeplock"
    if "j < NBUF" "b_dev (bufs s' j) \<noteq> ROOTDEV" for j
    using that D(5) [of j] s'(1) x(1) by (cases "j = i") auto
  have own: "b_refcnt (bufs s' j) = of_bool (c \<in> H') + of_bool (c \<in> P') \<and>
        b_lock (bufs s' j) = (if c \<in> H' then \<lparr>sl_locked = 1, sl_pid = pid\<rparr> else initsleeplock) \<and>
        (b_valid (bufs s' j) \<noteq> 0 \<longrightarrow> b_data (bufs s' j) = vw' c)" if "buf_for s' j c" for j c
  proof (cases "j = i")
    case True
    then show ?thesis using that for' x s'(1) by auto
  next
    case False
    then have c: "buf_for s j c" "c \<noteq> b" using that for' away by auto
    then show ?thesis using D(6,7,8) [OF c(1)] other [OF c(2)] s'(1) False by simp
  qed
  have cached: "\<exists>j. buf_for s' j c \<and> b_valid (bufs s' j) \<noteq> 0" if c: "c \<in> P' \<union> H'" for c
  proof (cases "c = b")
    case True
    then show ?thesis using for' [of i b] s'(1) x(3) by (intro exI [of _ i]) simp
  next
    case False
    then obtain j where j: "buf_for s j c" "b_valid (bufs s j) \<noteq> 0" using D(9) [of c] c other [OF False] by blast
    have "b_refcnt (bufs s j) \<noteq> 0" using D(6) [OF j(1)] c other [OF False] by auto
    then have "j \<noteq> i" using old j(1) False by (auto simp: buf_for_def)
    then show ?thesis using j for' s'(1) by (intro exI [of _ j]) simp
  qed
  have "vw' c = disk s' c" if "c \<notin> P' \<union> H'" for c
    using that D(10) [of c] other [of c] s'(2) clean by (cases "c = b") auto
  then show ?thesis unfolding bio_abs_def using lru len uniq free own cached by blast
qed

lemma lru_scans:
  assumes "lru_all s"
  shows "\<exists>r. scan b_next Q (bufs s) (Suc NBUF) (b_next (bufs s NBUF)) = Some r \<and>
      (case r of Some i \<Rightarrow> i < NBUF \<and> Q (bufs s i) | None \<Rightarrow> \<forall>i < NBUF. \<not> Q (bufs s i))"
    and "\<exists>r. scan b_prev Q (bufs s) (Suc NBUF) (b_prev (bufs s NBUF)) = Some r \<and>
      (case r of Some i \<Rightarrow> i < NBUF \<and> Q (bufs s i) | None \<Rightarrow> \<forall>i < NBUF. \<not> Q (bufs s i))"
proof -
  obtain xs where l: "linked (bufs s) NBUF xs NBUF" "distinct (NBUF # xs)" and xs: "set xs = {..<NBUF}"
    using assms by (auto simp: lru_all_def lru_def)
  have "card (set xs) = NBUF" using xs by simp
  then have "length xs = NBUF" using l(2) distinct_card [of xs] by simp
  then have k: "NBUF \<notin> set xs" "length xs < Suc NBUF" using l(2) by auto
  have f: "case find (\<lambda>i. Q (bufs s i)) ys of Some i \<Rightarrow> i < NBUF \<and> Q (bufs s i) | None \<Rightarrow> \<forall>i < NBUF. \<not> Q (bufs s i)"
    if "set ys = {..<NBUF}" for ys
    using that nth_mem [of _ ys] by (auto split: option.splits simp: find_None_iff find_Some_iff)
  show "\<exists>r. scan b_next Q (bufs s) (Suc NBUF) (b_next (bufs s NBUF)) = Some r \<and>
      (case r of Some i \<Rightarrow> i < NBUF \<and> Q (bufs s i) | None \<Rightarrow> \<forall>i < NBUF. \<not> Q (bufs s i))"
    using linked_scan_next [OF l(1) k, where P = Q] f [OF xs] by blast
  show "\<exists>r. scan b_prev Q (bufs s) (Suc NBUF) (b_prev (bufs s NBUF)) = Some r \<and>
      (case r of Some i \<Rightarrow> i < NBUF \<and> Q (bufs s i) | None \<Rightarrow> \<forall>i < NBUF. \<not> Q (bufs s i))"
    using linked_scan_prev [OF l(1) k, where P = Q] f [of "rev xs"] xs by auto
qed

lemma lru_scan_for:
  assumes "lru_all s"
  obtains r where "scan b_next (\<lambda>x. b_dev x = ROOTDEV \<and> b_blockno x = b) (bufs s) (Suc NBUF) (b_next (bufs s NBUF)) = Some r"
    "case r of Some i \<Rightarrow> buf_for s i b | None \<Rightarrow> \<forall>i < NBUF. \<not> buf_for s i b"
  using lru_scans(1) [OF assms, of "\<lambda>x. b_dev x = ROOTDEV \<and> b_blockno x = b"]
  by (auto simp: buf_for_def cong: option.case_cong)

lemma spare_buffer:
  assumes abs: "bio_abs pid s vw P H" and room: "card (P \<union> H) < NBUF"
  shows "\<exists>i < NBUF. b_refcnt (bufs s i) = 0"
proof (rule ccontr)
  assume "\<not> ?thesis"
  then have used: "b_refcnt (bufs s i) \<noteq> 0" if "i < NBUF" for i using that by blast
  let ?f = "\<lambda>i. b_blockno (bufs s i)"
  have fr: "buf_for s i (?f i)" if "i < NBUF" for i
    using used [OF that] bio_absD(5) [OF abs, of i] that by (auto simp: buf_for_def)
  then have "?f ` {..<NBUF} \<subseteq> P \<union> H" using bio_absD(6) [OF abs] used by fastforce
  moreover have "inj_on ?f {..<NBUF}"
    by (rule inj_onI) (metis bio_absD(4) [OF abs] fr lessThan_iff)
  moreover have "finite (P \<union> H)" by simp
  ultimately have "NBUF \<le> card (P \<union> H)" by (metis card_image card_lessThan card_mono)
  then show False using room by simp
qed

text \<open>What the process holds stays where it is.\<close>

definition held_same :: "u32 set \<Rightarrow> bio \<Rightarrow> bio \<Rightarrow> bool" where
  "held_same H s s' \<longleftrightarrow> (\<forall>i b. b \<in> H \<longrightarrow> buf_for s i b \<longrightarrow> buf_for s' i b)"

lemma bget_hit:
  assumes abs: "bio_abs pid s vw P H" and b: "b \<notin> H" and i: "buf_for s i b"
  shows "bget pid ROOTDEV b s =
    Ret (i, upd_buf i (\<lambda>x. x\<lparr>b_refcnt := b_refcnt x + 1, b_lock := \<lparr>sl_locked = 1, sl_pid = pid\<rparr>\<rparr>) s)"
proof -
  obtain r where r: "scan b_next (\<lambda>x. b_dev x = ROOTDEV \<and> b_blockno x = b) (bufs s) (Suc NBUF) (b_next (bufs s NBUF)) = Some r"
    "case r of Some i \<Rightarrow> buf_for s i b | None \<Rightarrow> \<forall>i < NBUF. \<not> buf_for s i b"
    by (rule lru_scan_for [OF bio_absD(1) [OF abs]])
  then have "r = Some i" using i bio_absD(4) [OF abs] by (auto split: option.splits simp: buf_for_def)
  then show ?thesis using r(1) b bio_absD(7) [OF abs i]
    by (simp add: bget_def lock_buf_def acquiresleep_def initsleeplock_def upd_buf_def)
qed

lemma bget_miss:
  assumes abs: "bio_abs pid s vw P H" and b: "\<And>i. \<not> buf_for s i b" and room: "card (P \<union> H) < NBUF"
  shows "\<exists>i < NBUF. b_refcnt (bufs s i) = 0 \<and> bget pid ROOTDEV b s =
    Ret (i, upd_buf i (\<lambda>x. x\<lparr>b_dev := ROOTDEV, b_blockno := b, b_valid := 0, b_refcnt := 1,
      b_lock := \<lparr>sl_locked = 1, sl_pid = pid\<rparr>\<rparr>) s)"
proof -
  obtain r where r: "scan b_next (\<lambda>x. b_dev x = ROOTDEV \<and> b_blockno x = b) (bufs s) (Suc NBUF) (b_next (bufs s NBUF)) = Some r"
    "case r of Some i \<Rightarrow> buf_for s i b | None \<Rightarrow> \<forall>i < NBUF. \<not> buf_for s i b"
    by (rule lru_scan_for [OF bio_absD(1) [OF abs]])
  have "r = None" using r(2) b by (auto split: option.splits)
  obtain q where q: "scan b_prev (\<lambda>x. b_refcnt x = 0) (bufs s) (Suc NBUF) (b_prev (bufs s NBUF)) = Some q"
    "case q of Some i \<Rightarrow> i < NBUF \<and> b_refcnt (bufs s i) = 0 | None \<Rightarrow> \<forall>i < NBUF. b_refcnt (bufs s i) \<noteq> 0"
    using lru_scans(2) [OF bio_absD(1) [OF abs], of "\<lambda>x. b_refcnt x = 0"] by blast
  then obtain i where i: "q = Some i" "i < NBUF" "b_refcnt (bufs s i) = 0"
    using spare_buffer [OF abs room] by (auto split: option.splits)
  have "b_lock (bufs s i) = initsleeplock"
  proof (cases "b_dev (bufs s i) = ROOTDEV")
    case True
    then have "buf_for s i (b_blockno (bufs s i))" using i(2) by (simp add: buf_for_def)
    from bio_absD(6,7) [OF abs this] i(3) show ?thesis by (simp add: count_zero)
  qed (use bio_absD(5) [OF abs i(2)] in blast)
  then show ?thesis using r(1) \<open>r = None\<close> q(1) i
    by (intro exI [of _ i]) (simp add: bget_def lock_buf_def acquiresleep_def initsleeplock_def upd_buf_def)
qed

lemma bread_spec:
  assumes abs: "bio_abs pid s vw P H" and b: "b \<notin> H" and room: "b \<in> P \<or> card (P \<union> H) < NBUF"
  shows "\<exists>i s'. bread pid ROOTDEV b s = Ret (i, s') \<and> bio_abs pid s' vw P (insert b H) \<and> buf_for s' i b \<and>
    b_data (bufs s' i) = vw b \<and> disk s' = disk s \<and> dwrites s' = dwrites s \<and> held_same H s s'"
proof (cases "\<exists>i. buf_for s i b")
  case True
  then obtain i where i: "buf_for s i b" by blast
  define x where "x = (bufs s i)\<lparr>b_refcnt := b_refcnt (bufs s i) + 1, b_lock := \<lparr>sl_locked = 1, sl_pid = pid\<rparr>,
    b_data := (if b_valid (bufs s i) = 0 then disk s b else b_data (bufs s i)),
    b_valid := (if b_valid (bufs s i) = 0 then 1 else b_valid (bufs s i))\<rparr>"
  define s' where "s' = s\<lparr>bufs := (bufs s)(i := x)\<rparr>"
  have inv: "b_valid (bufs s i) = 0 \<Longrightarrow> b \<notin> P \<union> H"
    using bio_absD(9) [OF abs] bio_absD(4) [OF abs i] by metis
  have data: "b_data x = vw b"
    using inv bio_absD(8) [OF abs i] bio_absD(10) [OF abs, of b] by (auto simp: x_def)
  have "bread pid ROOTDEV b s = Ret (i, s')"
    using i unfolding bread_def bget_hit [OF abs b i]
    by (auto simp: disk_rw_def upd_buf_def Let_def s'_def x_def buf_for_def)
  moreover have "bio_abs pid s' vw P (insert b H)"
    by (rule bio_abs_change [OF abs, where i = i and x = x and b = b])
      (use i b bio_absD(6) [OF abs i] data bio_absD(2,3) [OF abs] in \<open>auto simp: s'_def x_def buf_for_def\<close>)
  moreover have "buf_for s' i b" "held_same H s s'"
    using i by (auto simp: s'_def x_def buf_for_def held_same_def)
  ultimately show ?thesis using data by (intro exI [of _ i] exI [of _ s']) (simp add: s'_def)
next
  case False
  then have nb: "\<not> buf_for s j b" for j by blast
  then have out: "b \<notin> P \<union> H" using bio_absD(9) [OF abs] by blast
  then obtain i where i: "i < NBUF" "b_refcnt (bufs s i) = 0" and g: "bget pid ROOTDEV b s =
    Ret (i, upd_buf i (\<lambda>x. x\<lparr>b_dev := ROOTDEV, b_blockno := b, b_valid := 0, b_refcnt := 1,
      b_lock := \<lparr>sl_locked = 1, sl_pid = pid\<rparr>\<rparr>) s)"
    using bget_miss [OF abs nb] room by blast
  define x where "x = (bufs s i)\<lparr>b_dev := ROOTDEV, b_blockno := b, b_refcnt := 1,
      b_lock := \<lparr>sl_locked = 1, sl_pid = pid\<rparr>, b_data := disk s b, b_valid := 1\<rparr>"
  define s' where "s' = s\<lparr>bufs := (bufs s)(i := x)\<rparr>"
  have data: "b_data x = vw b" using bio_absD(10) [OF abs out] by (simp add: x_def)
  have "bread pid ROOTDEV b s = Ret (i, s')"
    unfolding bread_def g by (simp add: disk_rw_def upd_buf_def Let_def s'_def x_def)
  moreover have "bio_abs pid s' vw P (insert b H)"
    by (rule bio_abs_change [OF abs i(1), where x = x and b = b])
      (use i nb out data bio_absD(2,3) [OF abs] in \<open>auto simp: s'_def x_def\<close>)
  moreover have "held_same H s s'"
    unfolding held_same_def
  proof (intro allI impI)
    fix j c assume c: "c \<in> H" "buf_for s j c"
    then have "b_refcnt (bufs s j) \<noteq> 0" using bio_absD(6) [OF abs c(2)] by (simp add: count_zero)
    then show "buf_for s' j c" using c(2) i by (auto simp: s'_def buf_for_def)
  qed
  moreover have "buf_for s' i b" using i by (simp add: s'_def x_def buf_for_def)
  ultimately show ?thesis using data by (intro exI [of _ i] exI [of _ s']) (simp add: s'_def)
qed

text \<open>Storing into \<open>b->data\<close>.\<close>

definition set_data :: "nat \<Rightarrow> block \<Rightarrow> bio \<Rightarrow> bio" where
  "set_data i d s = upd_buf i (\<lambda>x. x\<lparr>b_data := d\<rparr>) s"

lemma held_valid:
  assumes "bio_abs pid s vw P H" "b \<in> P \<union> H" "buf_for s i b"
  shows "b_valid (bufs s i) \<noteq> 0" "b_data (bufs s i) = vw b"
proof -
  show v: "b_valid (bufs s i) \<noteq> 0" using bio_absD(9) [OF assms(1,2)] bio_absD(4) [OF assms(1,3)] by metis
  show "b_data (bufs s i) = vw b" by (rule bio_absD(8) [OF assms(1,3) v])
qed

lemma set_data_spec:
  assumes "bio_abs pid s vw P H" "b \<in> H" "buf_for s i b" "length d = BSIZE"
  shows "bio_abs pid (set_data i d s) (vw(b := d)) P H" "disk (set_data i d s) = disk s"
    "dwrites (set_data i d s) = dwrites s" "buf_for (set_data i d s) j c \<longleftrightarrow> buf_for s j c"
proof -
  show "bio_abs pid (set_data i d s) (vw(b := d)) P H"
    by (rule bio_abs_change [OF assms(1), where i = i and b = b and x = "(bufs s i)\<lparr>b_data := d\<rparr>"])
      (use assms bio_absD(3,6,7) [OF assms(1)] held_valid [OF assms(1) _ assms(3)]
        in \<open>auto simp: set_data_def upd_buf_def buf_for_def\<close>)
qed (auto simp: set_data_def upd_buf_def buf_for_def)

lemma bwrite_spec:
  assumes "bio_abs pid s vw P H" "b \<in> H" "buf_for s i b"
  shows "\<exists>s'. bwrite pid i s = Ret s' \<and> bio_abs pid s' vw P H \<and> bufs s' = bufs s \<and>
    disk s' = (disk s)(b := vw b) \<and> dwrites s' = dwrites s @ [(b, vw b)]"
proof -
  define s' where "s' = s\<lparr>disk := (disk s)(b := vw b), dwrites := dwrites s @ [(b, vw b)]\<rparr>"
  note v = held_valid [OF assms(1) _ assms(3)]
  have "bwrite pid i s = Ret s'"
    using assms v bio_absD(7) [OF assms(1,3)]
    by (auto simp: bwrite_def holdingsleep_def disk_rw_def s'_def buf_for_def)
  moreover have "bio_abs pid s' vw P H"
    by (rule bio_abs_change [OF assms(1), where i = i and b = b and x = "bufs s i"])
      (use assms bio_absD(2,6,7) [OF assms(1)] v in \<open>auto simp: s'_def buf_for_def\<close>)
  ultimately show ?thesis by (intro exI [of _ s']) (simp add: s'_def)
qed

lemma bpin_spec:
  assumes "bio_abs pid s vw P H" "b \<in> H" "b \<notin> P" "buf_for s i b"
  shows "bio_abs pid (bpin i s) vw (insert b P) H" "disk (bpin i s) = disk s" "dwrites (bpin i s) = dwrites s"
    "buf_for (bpin i s) j c \<longleftrightarrow> buf_for s j c"
proof -
  show "bio_abs pid (bpin i s) vw (insert b P) H"
    by (rule bio_abs_change [OF assms(1), where i = i and b = b
          and x = "(bufs s i)\<lparr>b_refcnt := b_refcnt (bufs s i) + 1\<rparr>"])
      (use assms bio_absD(2,3,6,7) [OF assms(1)] held_valid [OF assms(1) _ assms(4)]
        in \<open>auto simp: bpin_def upd_buf_def buf_for_def\<close>)
qed (auto simp: bpin_def upd_buf_def buf_for_def)

lemma bunpin_spec:
  assumes "bio_abs pid s vw P H" "b \<in> H" "b \<in> P" "buf_for s i b"
  shows "bio_abs pid (bunpin i s) vw (P - {b}) H" "disk (bunpin i s) = disk s" "dwrites (bunpin i s) = dwrites s"
    "buf_for (bunpin i s) j c \<longleftrightarrow> buf_for s j c"
proof -
  show "bio_abs pid (bunpin i s) vw (P - {b}) H"
    by (rule bio_abs_change [OF assms(1), where i = i and b = b
          and x = "(bufs s i)\<lparr>b_refcnt := b_refcnt (bufs s i) - 1\<rparr>"])
      (use assms bio_absD(2,3,6,7) [OF assms(1)] held_valid [OF assms(1) _ assms(4)]
        in \<open>auto simp: bunpin_def upd_buf_def buf_for_def\<close>)
qed (auto simp: bunpin_def upd_buf_def buf_for_def)

definition core :: "buf \<Rightarrow> buf" where "core x = x\<lparr>b_prev := 0, b_next := 0\<rparr>"

lemma core_push: "core (bufs (push_front b s) i) = core (bufs s i)"
  by (simp add: push_front_def upd_buf_def core_def Let_def)

lemma core_unlink: "core (bufs (unlink_buf b s) i) = core (bufs s i)"
  by (simp add: unlink_buf_def upd_buf_def core_def Let_def)

lemma core_fields:
  assumes "core x = core y"
  shows "b_valid x = b_valid y" "b_dev x = b_dev y" "b_blockno x = b_blockno y" "b_lock x = b_lock y"
    "b_refcnt x = b_refcnt y" "b_data x = b_data y"
  using assms by (cases x; cases y; simp add: core_def)+

lemma disk_ptrs [simp]:
  "disk (push_front b s) = disk s" "disk (unlink_buf b s) = disk s"
  "dwrites (push_front b s) = dwrites s" "dwrites (unlink_buf b s) = dwrites s"
  by (simp_all add: push_front_def unlink_buf_def upd_buf_def Let_def)

lemma bio_abs_core:
  assumes abs: "bio_abs pid s vw P H" and "lru_all s'" "\<And>i. core (bufs s' i) = core (bufs s i)" "disk s' = disk s"
  shows "bio_abs pid s' vw P H" and "buf_for s' i b = buf_for s i b"
proof -
  note f = core_fields [OF assms(3)]
  have for': "buf_for s' i b = buf_for s i b" for i b by (simp add: buf_for_def f)
  then show "buf_for s' i b = buf_for s i b" .
  show "bio_abs pid s' vw P H" using abs assms(2,4) unfolding bio_abs_def for' f by simp
qed

lemma lru_all_front:
  assumes "lru_all s" "b < NBUF"
  shows "lru_all (push_front b (unlink_buf b s))"
proof -
  obtain xs where xs: "lru s xs" "set xs = {..<NBUF}" using assms(1) by (auto simp: lru_all_def)
  then obtain ys zs where yz: "xs = ys @ b # zs" using assms(2) split_list [of b xs] by auto
  then have "lru (push_front b (unlink_buf b s)) (b # ys @ zs)"
    using xs(1) assms(2) lru_unlink [of s ys b zs] by (intro lru_push) (auto simp: lru_def)
  moreover have "set (b # ys @ zs) = {..<NBUF}" using xs yz by auto
  ultimately show ?thesis unfolding lru_all_def by blast
qed

lemma brelse_spec:
  assumes "bio_abs pid s vw P H" "b \<in> H" "buf_for s i b" "b \<in> P \<or> vw b = disk s b"
  shows "\<exists>s'. brelse pid i s = Ret s' \<and> bio_abs pid s' vw P (H - {b}) \<and> disk s' = disk s \<and>
    dwrites s' = dwrites s \<and> held_same UNIV s s'"
proof -
  define x where "x = (bufs s i)\<lparr>b_lock := releasesleep (b_lock (bufs s i)), b_refcnt := b_refcnt (bufs s i) - 1\<rparr>"
  define t where "t = s\<lparr>bufs := (bufs s)(i := x)\<rparr>"
  define s' where "s' = (if b_refcnt x = 0 then push_front i (unlink_buf i t) else t)"
  note D = bio_absD [OF assms(1)]
  have t: "bio_abs pid t vw P (H - {b})"
    by (rule bio_abs_change [OF assms(1), where i = i and b = b and x = x])
      (use assms D(2,3,6,7) held_valid [OF assms(1) _ assms(3)]
        in \<open>auto simp: t_def x_def releasesleep_def initsleeplock_def buf_for_def\<close>)
  have "brelse pid i s = Ret s'"
    using D(7) [OF assms(3)] assms(2)
    by (simp add: brelse_def holdingsleep_def upd_buf_def s'_def t_def x_def Let_def)
  moreover have i: "i < NBUF" using assms(3) by (simp add: buf_for_def)
  have s': "lru_all s'" "\<And>j. core (bufs s' j) = core (bufs t j)" "disk s' = disk t"
    using lru_all_front [OF bio_absD(1) [OF t] i] bio_absD(1) [OF t] by (simp_all add: s'_def core_push core_unlink)
  then have "bio_abs pid s' vw P (H - {b})" by (intro bio_abs_core [OF t])
  moreover have "buf_for t j c = buf_for s j c" for j c by (simp add: buf_for_def t_def x_def)
  then have "held_same UNIV s s'" using bio_abs_core(2) [OF t s'] by (simp add: held_same_def)
  ultimately show ?thesis by (intro exI [of _ s']) (simp add: s'_def t_def)
qed

section \<open>Initialisation\<close>

definition bio_boot :: "bio \<Rightarrow> bool" where
  "bio_boot s \<longleftrightarrow> (\<forall>i. b_dev (bufs s i) = 0 \<and> b_refcnt (bufs s i) = 0) \<and> (\<forall>b. length (disk s b) = BSIZE)"

lemma binit_loop_fields [simp]:
  "b_dev (bufs (binit_loop k s) i) = b_dev (bufs s i)" "b_refcnt (bufs (binit_loop k s) i) = b_refcnt (bufs s i)"
  "disk (binit_loop k s) = disk s" "dwrites (binit_loop k s) = dwrites s"
  "b_lock (bufs (binit_loop k s) i) = (if i < k then initsleeplock else b_lock (bufs s i))"
proof (induction k)
  case (Suc k)
  note f = core_fields [OF core_push [of k "upd_buf k (\<lambda>x. x\<lparr>b_lock := initsleeplock\<rparr>) (binit_loop k s)" i]]
  { case 1 show ?case using Suc(1) f(2) by (cases "i = k") (simp_all add: upd_buf_def) }
  { case 2 show ?case using Suc(2) f(5) by (cases "i = k") (simp_all add: upd_buf_def) }
  { case 3 show ?case using Suc(3) by (simp add: upd_buf_def) }
  { case 4 show ?case using Suc(4) by (simp add: upd_buf_def) }
  { case 5 show ?case using Suc(5) f(4) by (cases "i = k") (simp_all add: upd_buf_def) }
qed simp_all

lemma binit_loop_lru:
  assumes "lru s []" "k \<le> NBUF"
  shows "lru (binit_loop k s) (rev [0..<k])"
  using assms(2)
proof (induction k)
  case (Suc k)
  let ?s = "upd_buf k (\<lambda>x. x\<lparr>b_lock := initsleeplock\<rparr>) (binit_loop k s)"
  have "lru ?s (rev [0..<k])"
    using Suc linked_cong [of NBUF "rev [0..<k]" "bufs ?s" "bufs (binit_loop k s)" NBUF] by (auto simp: lru_def upd_buf_def)
  then have "lru (push_front k ?s) (k # rev [0..<k])" using Suc.prems by (intro lru_push) auto
  then show ?case by simp
qed (use assms(1) in simp)

lemma binit_lru: "lru (binit s) (rev [0..<NBUF])"
  unfolding binit_def by (rule binit_loop_lru) (simp_all add: lru_def upd_buf_def)

lemma binit_abs:
  assumes "bio_boot s"
  shows "bio_abs pid (binit s) (disk s) {} {}" "dwrites (binit s) = dwrites s" "disk (binit s) = disk s"
proof -
  have "lru_all (binit s)" unfolding lru_all_def by (intro exI [of _ "rev [0..<NBUF]"]) (auto simp: binit_lru)
  moreover have "b_dev (bufs (binit s) i) = 0 \<and> b_refcnt (bufs (binit s) i) = 0" for i
    using assms by (simp add: binit_def bio_boot_def upd_buf_def)
  moreover have "i < NBUF \<Longrightarrow> b_lock (bufs (binit s) i) = initsleeplock" for i by (simp add: binit_def upd_buf_def)
  ultimately show "bio_abs pid (binit s) (disk s) {} {}"
    using assms by (auto simp: bio_abs_def buf_for_def ROOTDEV_def bio_boot_def binit_def upd_buf_def)
qed (simp_all add: binit_def upd_buf_def)

section \<open>When \<open>bread\<close> cannot succeed\<close>

lemma bread_held:
  assumes abs: "bio_abs pid s vw P H" and b: "b \<in> H"
  shows "bread pid ROOTDEV b s = Wait"
proof -
  obtain i where i: "buf_for s i b" using bio_absD(9) [OF abs] b by blast
  obtain r where r: "scan b_next (\<lambda>x. b_dev x = ROOTDEV \<and> b_blockno x = b) (bufs s) (Suc NBUF) (b_next (bufs s NBUF)) = Some r"
    "case r of Some i \<Rightarrow> buf_for s i b | None \<Rightarrow> \<forall>i < NBUF. \<not> buf_for s i b"
    by (rule lru_scan_for [OF bio_absD(1) [OF abs]])
  then have "r = Some i" using i bio_absD(4) [OF abs] by (auto split: option.splits simp: buf_for_def)
  then show ?thesis using r(1) b bio_absD(7) [OF abs i]
    by (simp add: bread_def bget_def lock_buf_def acquiresleep_def upd_buf_def)
qed

lemma bread_full:
  assumes abs: "bio_abs pid s vw P H" and b: "b \<notin> P \<union> H" and full: "NBUF \<le> card (P \<union> H)"
  shows "bread pid ROOTDEV b s = Panic ''bget: no buffers''"
proof -
  define g where "g c = (SOME i. buf_for s i c)" for c
  have g: "buf_for s (g c) c" if "c \<in> P \<union> H" for c
    unfolding g_def by (rule someI_ex) (use bio_absD(9) [OF abs that] in blast)
  have "inj_on g (P \<union> H)" by (rule inj_onI) (metis g buf_for_def)
  moreover have "g ` (P \<union> H) \<subseteq> {..<NBUF}" using g by (auto simp: buf_for_def)
  ultimately have "g ` (P \<union> H) = {..<NBUF}"
    using full by (intro card_subset_eq) (auto simp: card_image dest: card_mono [rotated])
  then have all: "\<exists>c \<in> P \<union> H. buf_for s i c" if "i < NBUF" for i using that g by (metis (no_types, lifting) imageE lessThan_iff)
  have "\<not> buf_for s i b" for i using all [of i] b by (auto simp: buf_for_def)
  moreover obtain r where r: "scan b_next (\<lambda>x. b_dev x = ROOTDEV \<and> b_blockno x = b) (bufs s) (Suc NBUF) (b_next (bufs s NBUF)) = Some r"
    "case r of Some i \<Rightarrow> buf_for s i b | None \<Rightarrow> \<forall>i < NBUF. \<not> buf_for s i b"
    by (rule lru_scan_for [OF bio_absD(1) [OF abs]])
  ultimately have rn: "r = None" by (auto split: option.splits)
  obtain q where q: "scan b_prev (\<lambda>x. b_refcnt x = 0) (bufs s) (Suc NBUF) (b_prev (bufs s NBUF)) = Some q"
    "case q of Some i \<Rightarrow> i < NBUF \<and> b_refcnt (bufs s i) = 0 | None \<Rightarrow> \<forall>i < NBUF. b_refcnt (bufs s i) \<noteq> 0"
    using lru_scans(2) [OF bio_absD(1) [OF abs], of "\<lambda>x. b_refcnt x = 0"] by blast
  have "b_refcnt (bufs s i) \<noteq> 0" if "i < NBUF" for i
    using all [OF that] bio_absD(6) [OF abs, of i] by (auto simp: count_zero)
  then have "q = None" using q(2) by (auto split: option.splits)
  then show ?thesis using r(1) q(1) rn by (simp add: bread_def bget_def)
qed

section \<open>Properties\<close>

text \<open>
  C27. The pointers implement a list in order of use: after \<open>binit\<close> the list holds every buffer;
  \<open>bget\<close> takes the buffer that already caches the block, otherwise the unreferenced buffer
  nearest to the end of the list, and panics exactly when every buffer is referenced; and a
  \<open>brelse\<close> that drops the last reference moves the buffer to the front and keeps the order of
  all others.
\<close>

theorem bcache_lru_list:
  assumes "lru s xs" "set xs = {..<NBUF}" "i < NBUF" "holdingsleep pid (b_lock (bufs s i))" "b_refcnt (bufs s i) = 1"
  shows "lru (binit s) (rev [0..<NBUF]) \<and>
    bget pid dev b s =
      (case find (\<lambda>j. b_dev (bufs s j) = dev \<and> b_blockno (bufs s j) = b) xs of
         Some j \<Rightarrow> lock_buf pid j (upd_buf j (\<lambda>x. x\<lparr>b_refcnt := b_refcnt x + 1\<rparr>) s)
       | None \<Rightarrow>
           (case find (\<lambda>j. b_refcnt (bufs s j) = 0) (rev xs) of
              Some j \<Rightarrow> lock_buf pid j
                (upd_buf j (\<lambda>x. x\<lparr>b_dev := dev, b_blockno := b, b_valid := 0, b_refcnt := 1\<rparr>) s)
            | None \<Rightarrow> Panic ''bget: no buffers'')) \<and>
    (\<exists>s'. brelse pid i s = Ret s' \<and> lru s' (i # remove1 i xs))"
proof -
  have l: "linked (bufs s) NBUF xs NBUF" and n: "NBUF \<notin> set xs" and d: "distinct xs" using assms(1) by (auto simp: lru_def)
  have "length xs = NBUF" using d assms(2) distinct_card [of xs] by simp
  then have k: "length xs < Suc NBUF" by simp
  obtain ys zs where yz: "xs = ys @ i # zs" using assms(2,3) split_list [of i xs] by auto
  define t where "t = upd_buf i (\<lambda>x. x\<lparr>b_lock := releasesleep (b_lock x), b_refcnt := b_refcnt x - 1\<rparr>) s"
  have "lru t xs" using assms(1) linked_cong [of NBUF xs "bufs t" "bufs s" NBUF] by (auto simp: lru_def t_def upd_buf_def)
  then have "lru (push_front i (unlink_buf i t)) (i # ys @ zs)"
    using yz d assms(3) lru_unlink [of t ys i zs] by (intro lru_push) auto
  moreover have "brelse pid i s = Ret (push_front i (unlink_buf i t))"
    using assms(4,5) by (simp add: brelse_def t_def upd_buf_def Let_def)
  moreover have "remove1 i xs = ys @ zs" using d yz by (simp add: remove1_append)
  ultimately have rel: "\<exists>s'. brelse pid i s = Ret s' \<and> lru s' (i # remove1 i xs)" by simp
  show ?thesis using binit_lru rel linked_scan_next [OF l n k] linked_scan_prev [OF l n k]
    by (simp add: bget_def split: option.splits del: scan.simps)
qed

definition bio_zero :: bio where
  "bio_zero = \<lparr>bufs = \<lambda>_. \<lparr>b_valid = 0, b_dev = 0, b_blockno = 0, b_lock = initsleeplock, b_refcnt = 0,
     b_prev = 0, b_next = 0, b_data = replicate BSIZE 0\<rparr>, disk = \<lambda>_. replicate BSIZE 0, dwrites = []\<rparr>"

lemma bio_zero_boot: "bio_boot bio_zero"
  by (simp add: bio_boot_def bio_zero_def)

definition bio_held :: bio where
  "bio_held = upd_buf 0 (\<lambda>x. x\<lparr>b_lock := \<lparr>sl_locked = 1, sl_pid = 3\<rparr>, b_refcnt := 1\<rparr>) (binit bio_zero)"

lemma bio_held_lru: "lru bio_held (rev [0..<NBUF])"
  using binit_lru [of bio_zero] linked_cong [of NBUF "rev [0..<NBUF]" "bufs bio_held" "bufs (binit bio_zero)" NBUF]
  by (auto simp: lru_def bio_held_def upd_buf_def)

theorem bcache_lru_list_witness:
  "\<exists>s'. brelse 3 0 bio_held = Ret s' \<and> lru s' (0 # remove1 0 (rev [0..<NBUF]))"
proof -
  have "set (rev [0..<NBUF]) = {..<NBUF}" "0 < NBUF" by (auto simp: NBUF_def)
  moreover have "holdingsleep 3 (b_lock (bufs bio_held 0))" "b_refcnt (bufs bio_held 0) = 1"
    by (auto simp: bio_held_def upd_buf_def holdingsleep_def)
  ultimately show ?thesis using bcache_lru_list [OF bio_held_lru, of 0 3] by blast
qed

text \<open>
  C30. The cache is transparent. In every state the file system can leave it in, with the current
  contents \<open>vw\<close>, the pinned blocks \<open>P\<close> and the held blocks \<open>H\<close>: \<open>bread\<close> of a block the process does
  not hold returns a locked buffer with the current content, without writing the disk and without
  moving the other buffers it holds, provided the block is pinned or some buffer is unused.
  When all buffers are in use and the block is not among them, it panics. When the process
  already holds the block, it waits for itself.
\<close>

theorem bread_current:
  assumes abs: "bio_abs pid s vw P H"
  shows "(b \<notin> H \<and> (b \<in> P \<or> card (P \<union> H) < NBUF) \<longrightarrow>
      (\<exists>i s'. bread pid ROOTDEV b s = Ret (i, s') \<and> bio_abs pid s' vw P (insert b H) \<and> buf_for s' i b \<and>
         b_data (bufs s' i) = vw b \<and> disk s' = disk s \<and> dwrites s' = dwrites s \<and> held_same H s s')) \<and>
    (b \<notin> P \<union> H \<and> NBUF \<le> card (P \<union> H) \<longrightarrow> bread pid ROOTDEV b s = Panic ''bget: no buffers'') \<and>
    (b \<in> H \<longrightarrow> bread pid ROOTDEV b s = Wait)"
proof (intro conjI impI)
  assume "b \<notin> H \<and> (b \<in> P \<or> card (P \<union> H) < NBUF)"
  then show "\<exists>i s'. bread pid ROOTDEV b s = Ret (i, s') \<and> bio_abs pid s' vw P (insert b H) \<and> buf_for s' i b \<and>
         b_data (bufs s' i) = vw b \<and> disk s' = disk s \<and> dwrites s' = dwrites s \<and> held_same H s s'"
    using bread_spec [OF abs] by blast
next
  assume "b \<notin> P \<union> H \<and> NBUF \<le> card (P \<union> H)"
  then show "bread pid ROOTDEV b s = Panic ''bget: no buffers''" using bread_full [OF abs] by blast
next
  assume "b \<in> H"
  then show "bread pid ROOTDEV b s = Wait" by (rule bread_held [OF abs])
qed

theorem bread_current_witness:
  "\<exists>i s'. bread 3 ROOTDEV 5 (binit bio_zero) = Ret (i, s') \<and> b_data (bufs s' i) = replicate BSIZE 0 \<and> disk s' = disk bio_zero"
proof -
  have "bio_abs 3 (binit bio_zero) (disk bio_zero) {} {}" by (rule binit_abs [OF bio_zero_boot])
  moreover have "disk (binit bio_zero) = disk bio_zero" by (rule binit_abs(3) [OF bio_zero_boot])
  moreover have "disk bio_zero 5 = replicate BSIZE 0" "card ({} \<union> {} :: u32 set) < NBUF"
    by (simp_all add: bio_zero_def NBUF_def)
  ultimately show ?thesis using bread_current [of 3 "binit bio_zero" "disk bio_zero" "{}" "{}" 5]
    by (metis empty_iff)
qed

end
