(* ===== verification/Virtio.thy ===== *)
theory Virtio
  imports Bio Kalloc
begin

text \<open>
  kernel/virtio_disk.c, the disk driver. The descriptor table and the two rings are shared with the
  device. A pointer stored in a descriptor is the object it points to: a request header, the data
  of a buffer, or a status byte. \<open>b->disk\<close> is kept here, with the other fields of a buffer in
  \<open>Bio\<close>. \<open>virtio_disk_rw\<close> is the part up to its last sleep (\<open>rw_begin\<close>) and the part after it
  (\<open>rw_end\<close>). \<open>virtio_disk_init\<close> takes the values it reads from the device registers as arguments
  and yields the list of its register writes.
\<close>

definition NUM :: nat where "NUM = 8"

definition VRING_DESC_F_NEXT :: u16 where "VRING_DESC_F_NEXT = 1"

definition VRING_DESC_F_WRITE :: u16 where "VRING_DESC_F_WRITE = 2"

datatype vaddr = VNull | VOp nat | VData nat | VStatus nat

record virtq_desc =
  d_addr :: vaddr
  d_len :: u32
  d_flags :: u16
  d_next :: u16

record virtio_blk_req =
  r_write :: bool
  r_sector :: u64

record vdisk =
  desc :: "nat \<Rightarrow> virtq_desc"
  avail_idx :: u16
  avail_ring :: "nat \<Rightarrow> u16"
  used_ring_idx :: u16
  used_ring :: "nat \<Rightarrow> u32"
  vfree :: "nat \<Rightarrow> bool"
  used_idx :: u16
  info_b :: "nat \<Rightarrow> nat option"
  info_status :: "nat \<Rightarrow> u8"
  ops :: "nat \<Rightarrow> virtio_blk_req"
  b_disk :: "nat \<Rightarrow> bool"

section \<open>Descriptors\<close>

definition alloc_desc :: "vdisk \<Rightarrow> nat option \<times> vdisk" where
  "alloc_desc v =
     (case find (vfree v) [0..<NUM] of
        None \<Rightarrow> (None, v)
      | Some i \<Rightarrow> (Some i, v\<lparr>vfree := (vfree v)(i := False)\<rparr>))"

definition free_desc :: "nat \<Rightarrow> vdisk \<Rightarrow> vdisk result" where
  "free_desc i v =
     (if i \<ge> NUM then Panic ''free_desc 1''
      else if vfree v i then Panic ''free_desc 2''
      else Ret (v\<lparr>desc := (desc v)(i := \<lparr>d_addr = VNull, d_len = 0, d_flags = 0, d_next = 0\<rparr>),
        vfree := (vfree v)(i := True)\<rparr>))"

lemma free_desc_less:
  assumes "free_desc i v = Ret w"
  shows "card {j \<in> {..<NUM}. \<not> vfree w j} < card {j \<in> {..<NUM}. \<not> vfree v j}"
proof (rule psubset_card_mono)
  have i: "i < NUM" "\<not> vfree v i" and w: "vfree w = (vfree v)(i := True)"
    using assms by (auto simp: free_desc_def split: if_splits)
  have "{j \<in> {..<NUM}. \<not> vfree w j} \<subseteq> {j \<in> {..<NUM}. \<not> vfree v j}" unfolding w by (auto split: if_splits)
  moreover have "i \<in> {j \<in> {..<NUM}. \<not> vfree v j}" "i \<notin> {j \<in> {..<NUM}. \<not> vfree w j}" using i w by auto
  ultimately show "{j \<in> {..<NUM}. \<not> vfree w j} \<subset> {j \<in> {..<NUM}. \<not> vfree v j}" by blast
qed simp

function free_chain :: "nat \<Rightarrow> vdisk \<Rightarrow> vdisk result" where
  "free_chain i v =
     (let flag = d_flags (desc v i); nxt = d_next (desc v i) in
      case free_desc i v of
        Ret w \<Rightarrow> if flag AND VRING_DESC_F_NEXT \<noteq> 0 then free_chain (unat nxt) w else Ret w
      | e \<Rightarrow> e)"
  by pat_completeness auto
termination
  by (relation "measure (\<lambda>(i, v). card {j \<in> {..<NUM}. \<not> vfree v j})") (auto dest: free_desc_less)

declare free_chain.simps [simp del]

text \<open>The loop of \<open>alloc3_desc\<close>; \<open>idx\<close> holds the descriptors allocated so far.\<close>

primrec free_all :: "nat list \<Rightarrow> vdisk \<Rightarrow> vdisk result" where
  "free_all [] v = Ret v"
| "free_all (i # is) v = rbind (free_desc i v) (free_all is)"

primrec alloc3_loop :: "nat \<Rightarrow> nat list \<Rightarrow> vdisk \<Rightarrow> (nat list option \<times> vdisk) result" where
  "alloc3_loop 0 idx v = Ret (Some idx, v)"
| "alloc3_loop (Suc k) idx v =
     (let (i, v) = alloc_desc v in
      case i of
        None \<Rightarrow> rbind (free_all idx v) (\<lambda>v. Ret (None, v))
      | Some i \<Rightarrow> alloc3_loop k (idx @ [i]) v)"

definition alloc3_desc :: "vdisk \<Rightarrow> (nat list option \<times> vdisk) result" where
  "alloc3_desc v = alloc3_loop 3 [] v"

section \<open>Requests\<close>

definition set_desc :: "nat \<Rightarrow> vaddr \<Rightarrow> u32 \<Rightarrow> u16 \<Rightarrow> nat \<Rightarrow> vdisk \<Rightarrow> vdisk" where
  "set_desc i a len flags nxt v =
     v\<lparr>desc := (desc v)(i := \<lparr>d_addr = a, d_len = len, d_flags = flags, d_next = of_nat nxt\<rparr>)\<rparr>"

text \<open>\<open>None\<close>: no descriptors, the process sleeps on \<open>&disk.free[0]\<close> and tries again.\<close>

definition rw_begin :: "nat \<Rightarrow> u32 \<Rightarrow> bool \<Rightarrow> vdisk \<Rightarrow> (nat option \<times> vdisk) result" where
  "rw_begin b blockno write v =
     rbind (alloc3_desc v) (\<lambda>(r, v).
     case r of
       None \<Rightarrow> Ret (None, v)
     | Some idx \<Rightarrow>
         let i0 = idx ! 0; i1 = idx ! 1; i2 = idx ! 2;
             v = v\<lparr>ops := (ops v)(i0 := \<lparr>r_write = write, r_sector = ucast (blockno * of_nat (BSIZE div 512))\<rparr>)\<rparr>;
             v = set_desc i0 (VOp i0) 16 VRING_DESC_F_NEXT i1 v;
             v = set_desc i1 (VData b) (of_nat BSIZE) ((if write then 0 else VRING_DESC_F_WRITE) OR VRING_DESC_F_NEXT) i2 v;
             v = v\<lparr>info_status := (info_status v)(i0 := 0xff)\<rparr>;
             v = set_desc i2 (VStatus i0) 1 VRING_DESC_F_WRITE 0 v;
             v = v\<lparr>b_disk := (b_disk v)(b := True), info_b := (info_b v)(i0 := Some b)\<rparr>;
             v = v\<lparr>avail_ring := (avail_ring v)(unat (avail_idx v) mod NUM := of_nat i0)\<rparr>
         in Ret (Some i0, v\<lparr>avail_idx := avail_idx v + 1\<rparr>))"

definition rw_end :: "nat \<Rightarrow> nat \<Rightarrow> vdisk \<Rightarrow> vdisk result" where
  "rw_end b i0 v =
     (if b_disk v b then Wait else free_chain i0 (v\<lparr>info_b := (info_b v)(i0 := None)\<rparr>))"

text \<open>The interrupt handler: the buffers it wakes, in order.\<close>

function virtio_disk_intr :: "vdisk \<Rightarrow> (nat list \<times> vdisk) result" where
  "virtio_disk_intr v =
     (if used_idx v \<noteq> used_ring_idx v then
        let i = unat (used_ring v (unat (used_idx v) mod NUM)) in
        if i \<ge> NUM then Undef
        else if info_status v i \<noteq> 0 then Panic ''virtio_disk_intr status''
        else case info_b v i of
          None \<Rightarrow> Undef
        | Some b \<Rightarrow>
            rbind (virtio_disk_intr (v\<lparr>b_disk := (b_disk v)(b := False), used_idx := used_idx v + 1\<rparr>)) (\<lambda>(bs, v). Ret (b # bs, v))
      else Ret ([], v))"
  by pat_completeness auto
termination
proof (relation "measure (\<lambda>v. unat (used_ring_idx v - used_idx v))")
  fix v :: vdisk and b :: nat
  assume "used_idx v \<noteq> used_ring_idx v"
  then have "used_ring_idx v - used_idx v \<noteq> 0" by simp
  then have "unat (used_ring_idx v - used_idx v - 1) < unat (used_ring_idx v - used_idx v)"
    by (simp add: unat_minus_one unat_gt_0)
  then show "(v\<lparr>b_disk := (b_disk v)(b := False), used_idx := used_idx v + 1\<rparr>, v) \<in> measure (\<lambda>v. unat (used_ring_idx v - used_idx v))"
    by (simp add: algebra_simps)
qed auto

declare virtio_disk_intr.simps [simp del]

section \<open>Initialization\<close>

text \<open>What the device answers: identification, features, status after negotiation, queue state.\<close>

record vregs =
  v_magic :: u32
  v_version :: u32
  v_device :: u32
  v_vendor :: u32
  v_features :: u32
  v_status :: u32
  v_ready :: u32
  v_max :: u32

definition features :: "u32 \<Rightarrow> u32" where
  "features f = fold (\<lambda>b f. f AND NOT (push_bit b 1)) [5, 7, 11, 12, 27, 29, 28] f"

definition virtio_disk_init :: "vregs \<Rightarrow> vdisk \<Rightarrow> kmem \<Rightarrow> ((nat \<times> u32) list \<times> vdisk \<times> kmem) result" where
  "virtio_disk_init r v m =
     (if v_magic r \<noteq> 0x74726976 \<or> v_version r \<noteq> 2 \<or> v_device r \<noteq> 2 \<or> v_vendor r \<noteq> 0x554d4551
      then Panic ''could not find virtio disk''
      else if v_status r AND 8 = 0 then Panic ''virtio disk FEATURES_OK unset''
      else if v_ready r \<noteq> 0 then Panic ''virtio disk should not be ready''
      else if v_max r = 0 then Panic ''virtio disk has no queue 0''
      else if v_max r < of_nat NUM then Panic ''virtio disk max queue too short''
      else
        rbind (kalloc m) (\<lambda>(desc_pa, m). rbind (kalloc m) (\<lambda>(avail_pa, m). rbind (kalloc m) (\<lambda>(used_pa, m).
        if desc_pa = 0 \<or> avail_pa = 0 \<or> used_pa = 0 then Panic ''virtio disk kalloc''
        else
          let m = m\<lparr>mem := memset (memset (memset (mem m) desc_pa 0 4096) avail_pa 0 4096) used_pa 0 4096\<rparr> in
          Ret
            ([(0x070, 0), (0x070, 1), (0x070, 3), (0x020, features (v_features r)), (0x070, 11), (0x030, 0), (0x038, of_nat NUM),
              (0x080, ucast desc_pa), (0x084, ucast (drop_bit 32 desc_pa)), (0x090, ucast avail_pa),
              (0x094, ucast (drop_bit 32 avail_pa)), (0x0a0, ucast used_pa), (0x0a4, ucast (drop_bit 32 used_pa)),
              (0x044, 1), (0x070, v_status r OR 4)],
             v\<lparr>desc := (\<lambda>_. \<lparr>d_addr = VNull, d_len = 0, d_flags = 0, d_next = 0\<rparr>), avail_idx := 0, avail_ring := (\<lambda>_. 0),
               used_ring_idx := 0, used_ring := (\<lambda>_. 0), vfree := (\<lambda>i. if i < NUM then True else vfree v i)\<rparr>, m)))))"

end
