(* ===== verification/Layout.thy ===== *)
theory Layout
  imports Prelude
begin

text \<open>
  Structures inside a disk block: reading and replacing a run of bytes at an offset, and the
  little-endian 16- and 32-bit fields of the on-disk structures of kernel/fs.h and kernel/log.c.
\<close>

definition get_bytes :: "nat \<Rightarrow> nat \<Rightarrow> u8 list \<Rightarrow> u8 list" where
  "get_bytes off n d = take n (drop off d)"

definition put_bytes :: "nat \<Rightarrow> u8 list \<Rightarrow> u8 list \<Rightarrow> u8 list" where
  "put_bytes off bs d = take off d @ bs @ drop (off + length bs) d"

lemma length_get_bytes [simp]: "off + n \<le> length d \<Longrightarrow> length (get_bytes off n d) = n"
  by (simp add: get_bytes_def)

lemma length_put_bytes [simp]: "off + length bs \<le> length d \<Longrightarrow> length (put_bytes off bs d) = length d"
  by (simp add: put_bytes_def)

lemma nth_get_bytes: "off + n \<le> length d \<Longrightarrow> i < n \<Longrightarrow> get_bytes off n d ! i = d ! (off + i)"
  by (simp add: get_bytes_def)

lemma nth_put_bytes:
  assumes "off + length bs \<le> length d" "i < length d"
  shows "put_bytes off bs d ! i = (if off \<le> i \<and> i < off + length bs then bs ! (i - off) else d ! i)"
  using assms by (auto simp: put_bytes_def nth_append)

lemma get_put_same: "off + length bs \<le> length d \<Longrightarrow> n = length bs \<Longrightarrow> get_bytes off n (put_bytes off bs d) = bs"
  by (simp add: get_bytes_def put_bytes_def)

lemma get_put_other:
  assumes "off + length bs \<le> length d" "o2 + n \<le> length d" "o2 + n \<le> off \<or> off + length bs \<le> o2"
  shows "get_bytes o2 n (put_bytes off bs d) = get_bytes o2 n d"
  using assms by (intro nth_equalityI) (auto simp: nth_get_bytes nth_put_bytes)

lemma put_get_same: "off + n \<le> length d \<Longrightarrow> put_bytes off (get_bytes off n d) d = d"
  by (intro nth_equalityI) (auto simp: nth_put_bytes nth_get_bytes)

lemma put_put_same:
  "off + length bs \<le> length d \<Longrightarrow> length cs = length bs \<Longrightarrow> put_bytes off cs (put_bytes off bs d) = put_bytes off cs d"
  by (intro nth_equalityI) (auto simp: nth_put_bytes)

definition get16 :: "nat \<Rightarrow> u8 list \<Rightarrow> u16" where "get16 off d = of_le_bytes (get_bytes off 2 d)"

definition get32 :: "nat \<Rightarrow> u8 list \<Rightarrow> u32" where "get32 off d = of_le_bytes (get_bytes off 4 d)"

definition put16 :: "nat \<Rightarrow> u16 \<Rightarrow> u8 list \<Rightarrow> u8 list" where "put16 off v d = put_bytes off (le_bytes 2 v) d"

definition put32 :: "nat \<Rightarrow> u32 \<Rightarrow> u8 list \<Rightarrow> u8 list" where "put32 off v d = put_bytes off (le_bytes 4 v) d"

lemma length_put16 [simp]: "off + 2 \<le> length d \<Longrightarrow> length (put16 off v d) = length d"
  by (simp add: put16_def)

lemma length_put32 [simp]: "off + 4 \<le> length d \<Longrightarrow> length (put32 off v d) = length d"
  by (simp add: put32_def)

lemma get16_put16_same [simp]: "off + 2 \<le> length d \<Longrightarrow> get16 off (put16 off v d) = v"
  by (simp add: get16_def put16_def get_put_same of_le_bytes_le_bytes take_bit_word_eq_self del: le_bytes.simps)

lemma get32_put32_same [simp]: "off + 4 \<le> length d \<Longrightarrow> get32 off (put32 off v d) = v"
  by (simp add: get32_def put32_def get_put_same of_le_bytes_le_bytes take_bit_word_eq_self del: le_bytes.simps)

lemma get32_put32_other:
  "off + 4 \<le> length d \<Longrightarrow> o2 + 4 \<le> length d \<Longrightarrow> o2 + 4 \<le> off \<or> off + 4 \<le> o2 \<Longrightarrow> get32 o2 (put32 off v d) = get32 o2 d"
  by (simp add: get32_def put32_def get_put_other)

lemma get_bytes_put16_other:
  "off + 2 \<le> length d \<Longrightarrow> o2 + n \<le> length d \<Longrightarrow> o2 + n \<le> off \<or> off + 2 \<le> o2 \<Longrightarrow> get_bytes o2 n (put16 off v d) = get_bytes o2 n d"
  by (simp add: put16_def get_put_other)

lemma get_bytes_put32_other:
  "off + 4 \<le> length d \<Longrightarrow> o2 + n \<le> length d \<Longrightarrow> o2 + n \<le> off \<or> off + 4 \<le> o2 \<Longrightarrow> get_bytes o2 n (put32 off v d) = get_bytes o2 n d"
  by (simp add: put32_def get_put_other)

lemma get16_bytes: "get_bytes off 2 d = get_bytes off 2 e \<Longrightarrow> get16 off d = get16 off e"
  by (simp add: get16_def)

lemma get32_bytes: "get_bytes off 4 d = get_bytes off 4 e \<Longrightarrow> get32 off d = get32 off e"
  by (simp add: get32_def)

text \<open>An array of 32-bit words at an offset.\<close>

definition get32s :: "nat \<Rightarrow> nat \<Rightarrow> u8 list \<Rightarrow> u32 list" where
  "get32s off n d = map (\<lambda>i. get32 (off + 4 * i) d) [0..<n]"

primrec put32s :: "nat \<Rightarrow> u32 list \<Rightarrow> u8 list \<Rightarrow> u8 list" where
  "put32s off [] d = d"
| "put32s off (v # vs) d = put32s (off + 4) vs (put32 off v d)"

lemma length_get32s [simp]: "length (get32s off n d) = n"
  by (simp add: get32s_def)

lemma nth_get32s [simp]: "i < n \<Longrightarrow> get32s off n d ! i = get32 (off + 4 * i) d"
  by (simp add: get32s_def)

lemma length_put32s [simp]: "off + 4 * length vs \<le> length d \<Longrightarrow> length (put32s off vs d) = length d"
  by (induction vs arbitrary: off d) simp_all

lemma get_bytes_put32s_other:
  "off + 4 * length vs \<le> length d \<Longrightarrow> o2 + n \<le> length d \<Longrightarrow> o2 + n \<le> off \<or> off + 4 * length vs \<le> o2 \<Longrightarrow>
   get_bytes o2 n (put32s off vs d) = get_bytes o2 n d"
  by (induction vs arbitrary: off d) (auto simp: get_bytes_put32_other)

lemma get32s_put32s:
  "off + 4 * length vs \<le> length d \<Longrightarrow> n = length vs \<Longrightarrow> get32s off n (put32s off vs d) = vs"
proof (induction vs arbitrary: off d n)
  case (Cons v vs)
  have "get32s (off + 4) (length vs) (put32s (off + 4) vs (put32 off v d)) = vs" using Cons by simp
  moreover have "get32 off (put32s (off + 4) vs (put32 off v d)) = v"
    using Cons.prems get32_bytes [OF get_bytes_put32s_other, of "off + 4" vs "put32 off v d" off] by simp
  ultimately show ?case using Cons.prems by (simp add: get32s_def upt_conv_Cons map_Suc_upt [symmetric] comp_def algebra_simps del: upt_Suc)
qed (simp add: get32s_def)

end
