(* ===== verification/Log.thy ===== *)
theory Log
  imports Bio Layout
begin

text \<open>
  The write-ahead log, kernel/log.c, on top of the buffer cache. The header block of the log is
  read and written byte for byte; an index outside \<open>block[LOGSIZE]\<close> is \<open>Undef\<close>. A process that
  has to sleep in \<open>begin_op\<close> gets \<open>Wait\<close>. \<open>end_op\<close> is its two critical sections with the commit
  between them.
\<close>

section \<open>Definitions\<close>

definition MAXOPBLOCKS :: int where "MAXOPBLOCKS = 10"

definition LOGSIZE :: int where "LOGSIZE = MAXOPBLOCKS * 3"

record superblock =
  sb_magic :: u32
  sb_size :: u32
  sb_nblocks :: u32
  sb_ninodes :: u32
  sb_nlog :: u32
  sb_logstart :: u32
  sb_inodestart :: u32
  sb_bmapstart :: u32

record log =
  log_start :: int
  log_size :: int
  outstanding :: int
  committing :: int
  log_dev :: int
  lh_n :: int
  lh_block :: "int list"

record lsys =
  bc :: bio
  lg :: log

definition bread_l :: "int \<Rightarrow> int \<Rightarrow> int \<Rightarrow> lsys \<Rightarrow> (nat \<times> lsys) result" where
  "bread_l pid dev bno s = rbind (bread pid (of_int dev) (of_int bno) (bc s)) (\<lambda>(b, t). Ret (b, s\<lparr>bc := t\<rparr>))"

definition bwrite_l :: "int \<Rightarrow> nat \<Rightarrow> lsys \<Rightarrow> lsys result" where
  "bwrite_l pid b s = rbind (bwrite pid b (bc s)) (\<lambda>t. Ret (s\<lparr>bc := t\<rparr>))"

definition brelse_l :: "int \<Rightarrow> nat \<Rightarrow> lsys \<Rightarrow> lsys result" where
  "brelse_l pid b s = rbind (brelse pid b (bc s)) (\<lambda>t. Ret (s\<lparr>bc := t\<rparr>))"

definition data_l :: "nat \<Rightarrow> lsys \<Rightarrow> block" where
  "data_l b s = b_data (bufs (bc s) b)"

definition store_l :: "nat \<Rightarrow> block \<Rightarrow> lsys \<Rightarrow> lsys" where
  "store_l b d s = s\<lparr>bc := set_data b d (bc s)\<rparr>"

definition lh_get :: "int \<Rightarrow> lsys \<Rightarrow> int result" where
  "lh_get i s = (if 0 \<le> i \<and> i < LOGSIZE then Ret (lh_block (lg s) ! nat i) else Undef)"

definition lh_set :: "int \<Rightarrow> int \<Rightarrow> lsys \<Rightarrow> lsys result" where
  "lh_set i v s = (if 0 \<le> i \<and> i < LOGSIZE
     then Ret (s\<lparr>lg := (lg s)\<lparr>lh_block := (lh_block (lg s))[nat i := v]\<rparr>\<rparr>) else Undef)"

function install_trans_loop :: "int \<Rightarrow> bool \<Rightarrow> int \<Rightarrow> int \<Rightarrow> lsys \<Rightarrow> lsys result" where
  "install_trans_loop pid recovering n tail s =
     (if tail < n then
        rbind (bread_l pid (log_dev (lg s)) (log_start (lg s) + tail + 1) s) (\<lambda>(lbuf, s).
        rbind (lh_get tail s) (\<lambda>bno.
        rbind (bread_l pid (log_dev (lg s)) bno s) (\<lambda>(dbuf, s).
        rbind (bwrite_l pid dbuf (store_l dbuf (data_l lbuf s) s)) (\<lambda>s.
        rbind (brelse_l pid lbuf (if recovering then s else s\<lparr>bc := bunpin dbuf (bc s)\<rparr>)) (\<lambda>s.
        rbind (brelse_l pid dbuf s) (\<lambda>s.
        install_trans_loop pid recovering n (tail + 1) s))))))
      else Ret s)"
  by pat_completeness auto
termination
  by (relation "measure (\<lambda>(pid, r, n, tail, s). nat (n - tail))") auto

declare install_trans_loop.simps [simp del]

definition install_trans :: "int \<Rightarrow> bool \<Rightarrow> lsys \<Rightarrow> lsys result" where
  "install_trans pid recovering s = install_trans_loop pid recovering (lh_n (lg s)) 0 s"

text \<open>The header block as a struct: \<open>n\<close> at offset 0, \<open>block[i]\<close> at offset \<open>4 + 4*i\<close>.\<close>

function read_head_loop :: "block \<Rightarrow> int \<Rightarrow> int \<Rightarrow> lsys \<Rightarrow> lsys result" where
  "read_head_loop d n i s =
     (if i < n then rbind (lh_set i (sint (get32 (4 + 4 * nat i) d)) s) (read_head_loop d n (i + 1)) else Ret s)"
  by pat_completeness auto
termination
  by (relation "measure (\<lambda>(d, n, i, s). nat (n - i))") auto

declare read_head_loop.simps [simp del]

definition read_head :: "int \<Rightarrow> lsys \<Rightarrow> lsys result" where
  "read_head pid s =
     rbind (bread_l pid (log_dev (lg s)) (log_start (lg s)) s) (\<lambda>(b, s).
     let n = sint (get32 0 (data_l b s)); s = s\<lparr>lg := (lg s)\<lparr>lh_n := n\<rparr>\<rparr> in
     rbind (read_head_loop (data_l b s) n 0 s) (brelse_l pid b))"

function write_head_loop :: "nat \<Rightarrow> int \<Rightarrow> int \<Rightarrow> lsys \<Rightarrow> lsys result" where
  "write_head_loop b n i s =
     (if i < n then
        rbind (lh_get i s) (\<lambda>v.
        write_head_loop b n (i + 1) (store_l b (put32 (4 + 4 * nat i) (of_int v) (data_l b s)) s))
      else Ret s)"
  by pat_completeness auto
termination
  by (relation "measure (\<lambda>(b, n, i, s). nat (n - i))") auto

declare write_head_loop.simps [simp del]

definition write_head :: "int \<Rightarrow> lsys \<Rightarrow> lsys result" where
  "write_head pid s =
     rbind (bread_l pid (log_dev (lg s)) (log_start (lg s)) s) (\<lambda>(b, s).
     rbind (write_head_loop b (lh_n (lg s)) 0 (store_l b (put32 0 (of_int (lh_n (lg s))) (data_l b s)) s)) (\<lambda>s.
     rbind (bwrite_l pid b s) (brelse_l pid b)))"

definition set_n :: "int \<Rightarrow> lsys \<Rightarrow> lsys" where
  "set_n n s = s\<lparr>lg := (lg s)\<lparr>lh_n := n\<rparr>\<rparr>"

definition recover_from_log :: "int \<Rightarrow> lsys \<Rightarrow> lsys result" where
  "recover_from_log pid s =
     rbind (read_head pid s) (\<lambda>s. rbind (install_trans pid True s) (\<lambda>s. write_head pid (set_n 0 s)))"

definition initlog :: "int \<Rightarrow> int \<Rightarrow> superblock \<Rightarrow> lsys \<Rightarrow> lsys result" where
  "initlog pid dev sb s =
     (if 4 + 4 * LOGSIZE \<ge> int BSIZE then Panic ''initlog: too big logheader''
      else recover_from_log pid (s\<lparr>lg := (lg s)\<lparr>log_start := sint (sb_logstart sb), log_size := sint (sb_nlog sb),
        log_dev := dev\<rparr>\<rparr>))"

definition begin_op :: "lsys \<Rightarrow> lsys result" where
  "begin_op s =
     (if committing (lg s) \<noteq> 0 then Wait
      else if lh_n (lg s) + (outstanding (lg s) + 1) * MAXOPBLOCKS > LOGSIZE then Wait
      else Ret (s\<lparr>lg := (lg s)\<lparr>outstanding := outstanding (lg s) + 1\<rparr>\<rparr>))"

function write_log_loop :: "int \<Rightarrow> int \<Rightarrow> int \<Rightarrow> lsys \<Rightarrow> lsys result" where
  "write_log_loop pid n tail s =
     (if tail < n then
        rbind (bread_l pid (log_dev (lg s)) (log_start (lg s) + tail + 1) s) (\<lambda>(to, s).
        rbind (lh_get tail s) (\<lambda>bno.
        rbind (bread_l pid (log_dev (lg s)) bno s) (\<lambda>(from, s).
        rbind (bwrite_l pid to (store_l to (data_l from s) s)) (\<lambda>s.
        rbind (brelse_l pid from s) (\<lambda>s.
        rbind (brelse_l pid to s) (\<lambda>s.
        write_log_loop pid n (tail + 1) s))))))
      else Ret s)"
  by pat_completeness auto
termination
  by (relation "measure (\<lambda>(pid, n, tail, s). nat (n - tail))") auto

declare write_log_loop.simps [simp del]

definition write_log :: "int \<Rightarrow> lsys \<Rightarrow> lsys result" where
  "write_log pid s = write_log_loop pid (lh_n (lg s)) 0 s"

definition commit :: "int \<Rightarrow> lsys \<Rightarrow> lsys result" where
  "commit pid s =
     (if lh_n (lg s) > 0 then
        rbind (write_log pid s) (\<lambda>s.
        rbind (write_head pid s) (\<lambda>s.
        rbind (install_trans pid False s) (\<lambda>s.
        write_head pid (set_n 0 s))))
      else Ret s)"

definition end_op :: "int \<Rightarrow> lsys \<Rightarrow> lsys result" where
  "end_op pid s =
     (let s = s\<lparr>lg := (lg s)\<lparr>outstanding := outstanding (lg s) - 1\<rparr>\<rparr> in
      if committing (lg s) \<noteq> 0 then Panic ''log.committing''
      else if outstanding (lg s) = 0 then
        rbind (commit pid (s\<lparr>lg := (lg s)\<lparr>committing := 1\<rparr>\<rparr>)) (\<lambda>s.
        Ret (s\<lparr>lg := (lg s)\<lparr>committing := 0\<rparr>\<rparr>))
      else Ret s)"

function log_find :: "int \<Rightarrow> int \<Rightarrow> int \<Rightarrow> lsys \<Rightarrow> int result" where
  "log_find bno n i s =
     (if i < n then rbind (lh_get i s) (\<lambda>v. if v = bno then Ret i else log_find bno n (i + 1) s) else Ret i)"
  by pat_completeness auto
termination
  by (relation "measure (\<lambda>(bno, n, i, s). nat (n - i))") auto

declare log_find.simps [simp del]

definition log_write :: "nat \<Rightarrow> lsys \<Rightarrow> lsys result" where
  "log_write b s =
     (let bno = sint (b_blockno (bufs (bc s) b)) in
      if lh_n (lg s) \<ge> LOGSIZE \<or> lh_n (lg s) \<ge> log_size (lg s) - 1 then Panic ''too big a transaction''
      else if outstanding (lg s) < 1 then Panic ''log_write outside of trans''
      else rbind (log_find bno (lh_n (lg s)) 0 s) (\<lambda>i.
        rbind (lh_set i bno s) (\<lambda>s.
        Ret (if i = lh_n (lg s) then set_n (lh_n (lg s) + 1) (s\<lparr>bc := bpin b (bc s)\<rparr>) else s))))"

section \<open>Steps over the buffer cache\<close>

lemma lsys_upd_order [simp]: "s\<lparr>bc := t, lg := l\<rparr> = s\<lparr>lg := l, bc := t\<rparr>"
  by simp

lemma bread_l_spec:
  assumes "bio_abs pid (bc s) vw P H" "of_int dev = ROOTDEV" "of_int bno = b" "b \<notin> H" "b \<in> P \<or> card (P \<union> H) < NBUF"
  shows "\<exists>i t. bread_l pid dev bno s = Ret (i, s\<lparr>bc := t\<rparr>) \<and> bio_abs pid t vw P (insert b H) \<and> buf_for t i b \<and>
    b_data (bufs t i) = vw b \<and> disk t = disk (bc s) \<and> dwrites t = dwrites (bc s) \<and> held_same H (bc s) t"
  using bread_spec [OF assms(1,4,5)] assms(2,3) by (auto simp: bread_l_def)

lemma bwrite_l_spec:
  assumes "bio_abs pid (bc s) vw P H" "b \<in> H" "buf_for (bc s) i b"
  shows "\<exists>t. bwrite_l pid i s = Ret (s\<lparr>bc := t\<rparr>) \<and> bio_abs pid t vw P H \<and> (\<forall>j c. buf_for t j c \<longleftrightarrow> buf_for (bc s) j c) \<and>
    disk t = (disk (bc s))(b := vw b) \<and> dwrites t = dwrites (bc s) @ [(b, vw b)]"
  using bwrite_spec [OF assms] by (auto simp: bwrite_l_def buf_for_def)

lemma brelse_l_spec:
  assumes "bio_abs pid (bc s) vw P H" "b \<in> H" "buf_for (bc s) i b" "b \<in> P \<or> vw b = disk (bc s) b"
  shows "\<exists>t. brelse_l pid i s = Ret (s\<lparr>bc := t\<rparr>) \<and> bio_abs pid t vw P (H - {b}) \<and> disk t = disk (bc s) \<and>
    dwrites t = dwrites (bc s) \<and> (\<forall>j c. buf_for (bc s) j c \<longrightarrow> buf_for t j c)"
  using brelse_spec [OF assms] by (auto simp: brelse_l_def held_same_def)

lemma buf_for_block: "buf_for s i b \<Longrightarrow> buf_for s i c \<Longrightarrow> b = c"
  by (auto simp: buf_for_def)

text \<open>The common shape of the two copying loops: block \<open>a\<close> and block \<open>d\<close> are read in this order.\<close>

lemma bread_two:
  assumes abs: "bio_abs pid (bc s) vw P {}" and dev: "of_int dev = ROOTDEV" and ab: "of_int an = a" "of_int dn = d" "a \<noteq> d"
    and room: "a \<notin> P" "card P < NBUF" "d \<in> P \<or> card P + 1 < NBUF"
  shows "\<exists>i j t u. bread_l pid dev an s = Ret (i, s\<lparr>bc := t\<rparr>) \<and> bread_l pid dev dn (s\<lparr>bc := t\<rparr>) = Ret (j, s\<lparr>bc := u\<rparr>) \<and>
    bio_abs pid u vw P {d, a} \<and> buf_for u i a \<and> buf_for u j d \<and> b_data (bufs u i) = vw a \<and> b_data (bufs u j) = vw d \<and>
    disk u = disk (bc s) \<and> dwrites u = dwrites (bc s) \<and> i \<noteq> j"
proof -
  obtain i t where t: "bread_l pid dev an s = Ret (i, s\<lparr>bc := t\<rparr>)" "bio_abs pid t vw P {a}" "buf_for t i a"
      "disk t = disk (bc s)" "dwrites t = dwrites (bc s)"
    using bread_l_spec [OF abs dev ab(1)] room(2) by auto
  have "card (P \<union> {a}) \<le> card P + 1" using card_Un_le [of P "{a}"] by simp
  then have "d \<in> P \<or> card (P \<union> {a}) < NBUF" using room(3) by auto
  then obtain j u where u: "bread_l pid dev dn (s\<lparr>bc := t\<rparr>) = Ret (j, s\<lparr>bc := t, bc := u\<rparr>)" "bio_abs pid u vw P {d, a}"
      "buf_for u j d" "b_data (bufs u j) = vw d" "disk u = disk t" "dwrites u = dwrites t" "held_same {a} t u"
    using bread_l_spec [of pid "s\<lparr>bc := t\<rparr>" vw P "{a}" dev dn d] t(2) dev ab by auto
  have i: "buf_for u i a" using u(7) t(3) by (simp add: held_same_def)
  moreover have "i \<noteq> j" using i u(3) ab(3) buf_for_block by blast
  moreover have "b_data (bufs u i) = vw a" using held_valid(2) [OF u(2) _ i] by simp
  ultimately show ?thesis using t u by (intro exI [of _ i] exI [of _ j] exI [of _ t] exI [of _ u]) simp
qed

text \<open>Store, write, and release in either order.\<close>

lemma copy_to_disk:
  assumes abs: "bio_abs pid u vw P {d, a}" and bf: "buf_for u i a" "buf_for u j d" and ad: "a \<noteq> d"
    and len: "length x = BSIZE"
  shows "\<exists>t. bwrite_l pid j (store_l j x (s\<lparr>bc := u\<rparr>)) = Ret (s\<lparr>bc := t\<rparr>) \<and> bio_abs pid t (vw(d := x)) P {d, a} \<and>
    buf_for t i a \<and> buf_for t j d \<and> disk t = (disk u)(d := x) \<and> dwrites t = dwrites u @ [(d, x)]"
proof -
  note st = set_data_spec [OF abs _ bf(2) len]
  obtain t where "bwrite_l pid j (store_l j x (s\<lparr>bc := u\<rparr>)) = Ret (s\<lparr>bc := set_data j x u, bc := t\<rparr>)"
      "bio_abs pid t (vw(d := x)) P {d, a}" "\<forall>k c. buf_for t k c \<longleftrightarrow> buf_for (set_data j x u) k c"
      "disk t = (disk (set_data j x u))(d := x)" "dwrites t = dwrites (set_data j x u) @ [(d, x)]"
    using bwrite_l_spec [of pid "store_l j x (s\<lparr>bc := u\<rparr>)" "vw(d := x)" P "{d, a}" d j] st bf by (auto simp: store_l_def)
  then show ?thesis using st bf by (intro exI [of _ t]) simp
qed

lemma release_two:
  assumes abs: "bio_abs pid u vw P {d, a}" and bf: "buf_for u i a" "buf_for u j d" and ad: "a \<noteq> d"
    and cl: "a \<in> P \<or> vw a = disk u a" "d \<in> P \<or> vw d = disk u d"
  shows "\<exists>t v. brelse_l pid i (s\<lparr>bc := u\<rparr>) = Ret (s\<lparr>bc := t\<rparr>) \<and> brelse_l pid j (s\<lparr>bc := t\<rparr>) = Ret (s\<lparr>bc := v\<rparr>) \<and>
    bio_abs pid v vw P {} \<and> disk v = disk u \<and> dwrites v = dwrites u"
proof -
  obtain t where t: "brelse_l pid i (s\<lparr>bc := u\<rparr>) = Ret (s\<lparr>bc := t\<rparr>)" "bio_abs pid t vw P ({d, a} - {a})" "disk t = disk u"
      "dwrites t = dwrites u" "\<forall>j c. buf_for u j c \<longrightarrow> buf_for t j c"
    using brelse_l_spec [of pid "s\<lparr>bc := u\<rparr>" vw P "{d, a}" a i] abs bf cl by auto
  have "{d, a} - {a} = {d}" using ad by auto
  then obtain v where "brelse_l pid j (s\<lparr>bc := t\<rparr>) = Ret (s\<lparr>bc := v\<rparr>)" "bio_abs pid v vw P ({d} - {d})" "disk v = disk t"
      "dwrites v = dwrites t"
    using brelse_l_spec [of pid "s\<lparr>bc := t\<rparr>" vw P "{d}" d j] t bf cl by auto
  then show ?thesis using t by (intro exI [of _ t] exI [of _ v]) simp
qed

lemma install_step:
  assumes abs: "bio_abs pid (bc s) vw P {}" and dev: "of_int (log_dev (lg s)) = ROOTDEV"
    and tail: "tail < n" "0 \<le> tail" "tail < LOGSIZE"
    and ad: "of_int (log_start (lg s) + tail + 1) = a" "of_int (lh_block (lg s) ! nat tail) = d" "a \<noteq> d" "a \<notin> P"
    and mode: "if recovering then P = {} else d \<in> P \<and> card P < NBUF"
  shows "\<exists>t. install_trans_loop pid recovering n tail s = install_trans_loop pid recovering n (tail + 1) (s\<lparr>bc := t\<rparr>) \<and>
    bio_abs pid t (vw(d := vw a)) (if recovering then P else P - {d}) {} \<and>
    disk t = (disk (bc s))(d := vw a) \<and> dwrites t = dwrites (bc s) @ [(d, vw a)]"
proof -
  have room: "card P < NBUF" "d \<in> P \<or> card P + 1 < NBUF" using mode by (auto simp: NBUF_def split: if_splits)
  obtain i j t u where r: "bread_l pid (log_dev (lg s)) (log_start (lg s) + tail + 1) s = Ret (i, s\<lparr>bc := t\<rparr>)"
      "bread_l pid (log_dev (lg s)) (lh_block (lg s) ! nat tail) (s\<lparr>bc := t\<rparr>) = Ret (j, s\<lparr>bc := u\<rparr>)"
    and u: "bio_abs pid u vw P {d, a}" "buf_for u i a" "buf_for u j d" "b_data (bufs u i) = vw a"
      "disk u = disk (bc s)" "dwrites u = dwrites (bc s)" "i \<noteq> j"
    using bread_two [OF abs dev ad(1-4) room] by blast
  obtain v where v: "bwrite_l pid j (store_l j (vw a) (s\<lparr>bc := u\<rparr>)) = Ret (s\<lparr>bc := v\<rparr>)" "bio_abs pid v (vw(d := vw a)) P {d, a}"
      "buf_for v i a" "buf_for v j d" "disk v = (disk u)(d := vw a)" "dwrites v = dwrites u @ [(d, vw a)]"
    using copy_to_disk [OF u(1-3) ad(3), of "vw a" s] bio_absD(2) [OF abs] by auto
  define P' where "P' = (if recovering then P else P - {d})"
  define w where "w = (if recovering then v else bunpin j v)"
  have w: "bio_abs pid w (vw(d := vw a)) P' {d, a}" "buf_for w i a" "buf_for w j d" "disk w = disk v" "dwrites w = dwrites v"
    using v bunpin_spec [OF v(2) _ _ v(4)] mode by (auto simp: w_def P'_def)
  have cl: "(vw(d := vw a)) a = disk w a" using bio_absD(10) [OF abs, of a] ad(3,4) w(4) v(5) u(5) by simp
  obtain y z where "brelse_l pid i (s\<lparr>bc := w\<rparr>) = Ret (s\<lparr>bc := y\<rparr>)" "brelse_l pid j (s\<lparr>bc := y\<rparr>) = Ret (s\<lparr>bc := z\<rparr>)"
      "bio_abs pid z (vw(d := vw a)) P' {}" "disk z = disk w" "dwrites z = dwrites w"
    using release_two [OF w(1-3) ad(3), of s] cl w(4) v(5) by auto
  then have "install_trans_loop pid recovering n tail s = install_trans_loop pid recovering n (tail + 1) (s\<lparr>bc := z\<rparr>)"
    using r u(4) v(1) tail by (subst install_trans_loop.simps) (auto simp: lh_get_def data_l_def w_def)
  then show ?thesis using \<open>bio_abs pid z _ P' {}\<close> \<open>disk z = _\<close> \<open>dwrites z = _\<close> w v u by (auto simp: P'_def)
qed

lemma write_log_step:
  assumes abs: "bio_abs pid (bc s) vw P {}" and dev: "of_int (log_dev (lg s)) = ROOTDEV"
    and tail: "tail < n" "0 \<le> tail" "tail < LOGSIZE"
    and ad: "of_int (log_start (lg s) + tail + 1) = a" "of_int (lh_block (lg s) ! nat tail) = d" "a \<noteq> d" "a \<notin> P"
    and P: "d \<in> P" "card P < NBUF"
  shows "\<exists>t. write_log_loop pid n tail s = write_log_loop pid n (tail + 1) (s\<lparr>bc := t\<rparr>) \<and>
    bio_abs pid t (vw(a := vw d)) P {} \<and>
    disk t = (disk (bc s))(a := vw d) \<and> dwrites t = dwrites (bc s) @ [(a, vw d)]"
proof -
  obtain i j t u where r: "bread_l pid (log_dev (lg s)) (log_start (lg s) + tail + 1) s = Ret (i, s\<lparr>bc := t\<rparr>)"
      "bread_l pid (log_dev (lg s)) (lh_block (lg s) ! nat tail) (s\<lparr>bc := t\<rparr>) = Ret (j, s\<lparr>bc := u\<rparr>)"
    and u: "bio_abs pid u vw P {a, d}" "buf_for u j d" "buf_for u i a" "b_data (bufs u j) = vw d"
      "disk u = disk (bc s)" "dwrites u = dwrites (bc s)" "i \<noteq> j"
    using bread_two [OF abs dev ad(1-4) P(2)] P(1) by (metis insert_commute)
  have da: "d \<noteq> a" using ad(3) by simp
  obtain v where v: "bwrite_l pid i (store_l i (vw d) (s\<lparr>bc := u\<rparr>)) = Ret (s\<lparr>bc := v\<rparr>)" "bio_abs pid v (vw(a := vw d)) P {a, d}"
      "buf_for v j d" "buf_for v i a" "disk v = (disk u)(a := vw d)" "dwrites v = dwrites u @ [(a, vw d)]"
    using copy_to_disk [OF u(1-3) da, of "vw d" s] bio_absD(2) [OF abs] by auto
  obtain y z where "brelse_l pid j (s\<lparr>bc := v\<rparr>) = Ret (s\<lparr>bc := y\<rparr>)" "brelse_l pid i (s\<lparr>bc := y\<rparr>) = Ret (s\<lparr>bc := z\<rparr>)"
      "bio_abs pid z (vw(a := vw d)) P {}" "disk z = disk v" "dwrites z = dwrites v"
    using release_two [OF v(2-4) da, of s] P(1) v(5) by auto
  moreover from this have "write_log_loop pid n tail s = write_log_loop pid n (tail + 1) (s\<lparr>bc := z\<rparr>)"
    using r u(4) v(1) tail by (subst write_log_loop.simps) (auto simp: lh_get_def data_l_def)
  ultimately show ?thesis using v u by auto
qed

section \<open>The log on the disk\<close>

definition hblk :: "log \<Rightarrow> u32" where "hblk l = of_int (log_start l)"

definition slot :: "log \<Rightarrow> nat \<Rightarrow> u32" where "slot l j = of_int (log_start l + int j + 1)"

definition home :: "log \<Rightarrow> nat \<Rightarrow> u32" where "home l j = of_int (lh_block l ! j)"

definition log_area :: "log \<Rightarrow> u32 set" where "log_area l = insert (hblk l) (slot l ` {..<nat (LOGSIZE - 1)})"

definition logged :: "log \<Rightarrow> u32 list" where "logged l = map (home l) [0..<nat (lh_n l)]"

definition log_geom :: "log \<Rightarrow> bool" where
  "log_geom l \<longleftrightarrow> log_dev l = 1 \<and> 0 \<le> log_start l \<and> log_start l + LOGSIZE < 2 ^ 31 \<and> length (lh_block l) = nat LOGSIZE"

definition log_ok :: "log \<Rightarrow> bool" where
  "log_ok l \<longleftrightarrow> log_geom l \<and> 0 \<le> lh_n l \<and> lh_n l \<le> LOGSIZE - 1 \<and> distinct (logged l) \<and> set (logged l) \<inter> log_area l = {}"

primrec apply_writes :: "(u32 \<times> block) list \<Rightarrow> (u32 \<Rightarrow> block) \<Rightarrow> u32 \<Rightarrow> block" where
  "apply_writes [] d = d"
| "apply_writes (w # ws) d = apply_writes ws (d(fst w := snd w))"

lemma apply_writes_append: "apply_writes (ws @ vs) d = apply_writes vs (apply_writes ws d)"
  by (induction ws arbitrary: d) auto

lemma apply_writes_other: "b \<notin> fst ` set ws \<Longrightarrow> apply_writes ws d b = d b"
  by (induction ws arbitrary: d) auto

lemma apply_writes_map:
  "distinct (map f js) \<Longrightarrow> j \<in> set js \<Longrightarrow> apply_writes (map (\<lambda>j. (f j, g j)) js) d (f j) = g j"
proof (induction js arbitrary: d)
  case (Cons k js)
  show ?case
  proof (cases "j \<in> set js")
    case False
    then have "j = k" "f k \<notin> set (map f js)" using Cons.prems by auto
    then have "apply_writes (map (\<lambda>j. (f j, g j)) js) (d(f k := g k)) (f k) = g k"
      by (subst apply_writes_other) (auto simp: image_image)
    then show ?thesis using \<open>j = k\<close> by simp
  qed (use Cons in simp)
qed simp

lemma log_area_inj:
  assumes "log_geom l"
  shows "i < nat LOGSIZE \<Longrightarrow> j < nat LOGSIZE \<Longrightarrow> slot l i = slot l j \<Longrightarrow> i = j" "i < nat LOGSIZE \<Longrightarrow> slot l i \<noteq> hblk l"
    "i < nat (LOGSIZE - 1) \<Longrightarrow> slot l i \<in> log_area l" "hblk l \<in> log_area l"
proof -
  have w: "of_int x = (of_int y :: u32) \<Longrightarrow> x = y" if "0 \<le> x" "x < 4294967296" "0 \<le> y" "y < 4294967296" for x y :: int
    using that word_of_int_inj [of x y, where 'a = 32] by simp
  have g: "0 \<le> log_start l" "log_start l + LOGSIZE < 2147483648" using assms by (auto simp: log_geom_def)
  show "i = j" if "i < nat LOGSIZE" "j < nat LOGSIZE" "slot l i = slot l j"
  proof -
    have "log_start l + int i + 1 = log_start l + int j + 1"
      using that g by (intro w) (linarith | simp only: slot_def)+
    then show ?thesis by simp
  qed
  show "slot l i \<noteq> hblk l" if "i < nat LOGSIZE"
  proof
    assume "slot l i = hblk l"
    then have "log_start l + int i + 1 = log_start l"
      using that g by (intro w) (linarith | simp only: slot_def hblk_def)+
    then show False by simp
  qed
qed (auto simp: log_area_def)

lemma log_ok_home:
  assumes "log_ok l" "j < nat (lh_n l)"
  shows "home l j \<in> set (logged l)" "home l j \<notin> log_area l"
proof -
  show "home l j \<in> set (logged l)" using assms(2) by (simp add: logged_def)
  then show "home l j \<notin> log_area l" using assms(1) by (auto simp: log_ok_def)
qed

definition log_writes :: "log \<Rightarrow> (u32 \<Rightarrow> block) \<Rightarrow> nat \<Rightarrow> (u32 \<times> block) list" where
  "log_writes l vw k = map (\<lambda>j. (slot l j, vw (home l j))) [k..<nat (lh_n l)]"

definition inst_writes :: "log \<Rightarrow> (u32 \<Rightarrow> block) \<Rightarrow> nat \<Rightarrow> (u32 \<times> block) list" where
  "inst_writes l vw k = map (\<lambda>j. (home l j, vw (slot l j))) [k..<nat (lh_n l)]"

lemma write_log_loop_spec:
  assumes ok: "log_ok l" and k: "k \<le> nat (lh_n l)" and P: "P = set (logged l)" "card P < NBUF"
    and s: "lg s = l" "bio_abs pid (bc s) vw P {}"
  shows "\<exists>t. write_log_loop pid (lh_n l) (int k) s = Ret (s\<lparr>bc := t\<rparr>) \<and>
    bio_abs pid t (apply_writes (log_writes l vw k) vw) P {} \<and>
    disk t = apply_writes (log_writes l vw k) (disk (bc s)) \<and> dwrites t = dwrites (bc s) @ log_writes l vw k"
  using k s
proof (induction k arbitrary: s vw rule: inc_induct)
  case base
  then show ?case using ok by (intro exI [of _ "bc s"]) (simp add: write_log_loop.simps log_writes_def log_ok_def)
next
  case (step k)
  let ?n = "lh_n l"
  have g: "log_geom l" "?n \<le> LOGSIZE - 1" "0 \<le> ?n" using ok by (auto simp: log_ok_def)
  have k: "int k < ?n" "int k < LOGSIZE" "k < nat (LOGSIZE - 1)" using step.hyps g by linarith+
  note h = log_ok_home [OF ok] and a = log_area_inj [OF g(1)]
  have ne: "slot l k \<noteq> home l j" if "j < nat ?n" for j using h(2) [OF that] a(3) [OF k(3)] by auto
  have sP: "slot l k \<notin> P" using a(3) [OF k(3)] ok P(1) by (auto simp: log_ok_def)
  have hP: "home l k \<in> P" using h(1) [of k] step.hyps P(1) by simp
  obtain t where t: "write_log_loop pid ?n (int k) s = write_log_loop pid ?n (int k + 1) (s\<lparr>bc := t\<rparr>)"
      "bio_abs pid t (vw(slot l k := vw (home l k))) P {}" "disk t = (disk (bc s))(slot l k := vw (home l k))"
      "dwrites t = dwrites (bc s) @ [(slot l k, vw (home l k))]"
    using write_log_step [OF step.prems(2), of "int k" ?n "slot l k" "home l k"] k g ne [of k] step.hyps sP hP P(2) step.prems(1)
    by (auto simp: log_geom_def ROOTDEV_def slot_def home_def)
  define vw' where "vw' = vw(slot l k := vw (home l k))"
  have w: "log_writes l vw' (Suc k) = log_writes l vw (Suc k)"
    unfolding log_writes_def by (rule map_cong) (auto simp: vw'_def, metis ne)
  have w': "log_writes l vw k = (slot l k, vw (home l k)) # log_writes l vw (Suc k)"
    using step.hyps by (simp add: log_writes_def upt_conv_Cons)
  obtain u where "write_log_loop pid ?n (int (Suc k)) (s\<lparr>bc := t\<rparr>) = Ret (s\<lparr>bc := t, bc := u\<rparr>)"
      "bio_abs pid u (apply_writes (log_writes l vw' (Suc k)) vw') P {}"
      "disk u = apply_writes (log_writes l vw' (Suc k)) (disk t)" "dwrites u = dwrites t @ log_writes l vw' (Suc k)"
    using step.IH [of "s\<lparr>bc := t\<rparr>" vw'] step.prems(1) t(2) [folded vw'_def] by auto
  then show ?case using t w w' by (intro exI [of _ u]) (simp add: add.commute vw'_def)
qed

lemma install_loop_spec:
  assumes ok: "log_ok l" and k: "k \<le> nat (lh_n l)" and room: "recovering \<or> nat (lh_n l) < NBUF"
    and s: "lg s = l" "bio_abs pid (bc s) vw (if recovering then {} else home l ` {k..<nat (lh_n l)}) {}"
  shows "\<exists>t. install_trans_loop pid recovering (lh_n l) (int k) s = Ret (s\<lparr>bc := t\<rparr>) \<and>
    bio_abs pid t (apply_writes (inst_writes l vw k) vw) {} {} \<and>
    disk t = apply_writes (inst_writes l vw k) (disk (bc s)) \<and> dwrites t = dwrites (bc s) @ inst_writes l vw k"
  using k s
proof (induction k arbitrary: s vw rule: inc_induct)
  case base
  then show ?case using ok
    by (intro exI [of _ "bc s"]) (simp add: install_trans_loop.simps inst_writes_def log_ok_def split: if_splits)
next
  case (step k)
  let ?n = "lh_n l"
  let ?P = "if recovering then {} else home l ` {k..<nat ?n}"
  have g: "log_geom l" "?n \<le> LOGSIZE - 1" "0 \<le> ?n" "distinct (logged l)" using ok by (auto simp: log_ok_def)
  have k: "int k < ?n" "int k < LOGSIZE" "k < nat LOGSIZE" using step.hyps g by linarith+
  note h = log_ok_home [OF ok] and a = log_area_inj [OF g(1)]
  have ne: "slot l j \<noteq> home l i" if "i < nat ?n" "j < nat ?n" for i j
  proof -
    have "j < nat (LOGSIZE - 1)" using that g by linarith
    then show ?thesis using h(2) [OF that(1)] a(3) [of j] by auto
  qed
  have sP: "slot l k \<notin> ?P" using ne step.hyps by auto
  have "card (home l ` {k..<nat ?n}) \<le> nat ?n - k" using card_image_le [of "{k..<nat ?n}" "home l"] by simp
  then have room': "recovering \<or> card ?P < NBUF" using room by auto
  obtain t where t: "install_trans_loop pid recovering ?n (int k) s = install_trans_loop pid recovering ?n (int k + 1) (s\<lparr>bc := t\<rparr>)"
      "bio_abs pid t (vw(home l k := vw (slot l k))) (if recovering then ?P else ?P - {home l k}) {}"
      "disk t = (disk (bc s))(home l k := vw (slot l k))" "dwrites t = dwrites (bc s) @ [(home l k, vw (slot l k))]"
    using install_step [OF step.prems(2), of "int k" ?n "slot l k" "home l k" recovering] k g ne [of k k] step.hyps sP room' step.prems(1)
    by (auto simp: log_geom_def ROOTDEV_def slot_def home_def split: if_splits)
  have "home l k \<noteq> home l j" if "j \<in> {Suc k..<nat ?n}" for j
    using g(4) step.hyps that nth_eq_iff_index_eq [of "logged l" k j] by (simp add: logged_def)
  then have "home l k \<notin> home l ` {Suc k..<nat ?n}" by blast
  moreover have "{k..<nat ?n} = insert k {Suc k..<nat ?n}" using step.hyps by auto
  ultimately have P': "(if recovering then ?P else ?P - {home l k}) = (if recovering then {} else home l ` {Suc k..<nat ?n})"
    using \<open>{k..<nat ?n} = insert k {Suc k..<nat ?n}\<close> by auto
  define vw' where "vw' = vw(home l k := vw (slot l k))"
  have w: "inst_writes l vw' (Suc k) = inst_writes l vw (Suc k)"
    unfolding inst_writes_def by (rule map_cong) (use ne step.hyps in \<open>auto simp: vw'_def\<close>)
  have w': "inst_writes l vw k = (home l k, vw (slot l k)) # inst_writes l vw (Suc k)"
    using step.hyps by (simp add: inst_writes_def upt_conv_Cons)
  obtain u where "install_trans_loop pid recovering ?n (int (Suc k)) (s\<lparr>bc := t\<rparr>) = Ret (s\<lparr>bc := t, bc := u\<rparr>)"
      "bio_abs pid u (apply_writes (inst_writes l vw' (Suc k)) vw') {} {}"
      "disk u = apply_writes (inst_writes l vw' (Suc k)) (disk t)" "dwrites u = dwrites t @ inst_writes l vw' (Suc k)"
    using step.IH [of "s\<lparr>bc := t\<rparr>" vw'] step.prems(1) t(2) [folded vw'_def] P' by auto
  then show ?case using t w w' by (intro exI [of _ u]) (simp add: add.commute vw'_def)
qed

section \<open>The header block\<close>

definition hdr :: "log \<Rightarrow> block \<Rightarrow> block" where
  "hdr l d = put32s 0 (of_int (lh_n l) # map of_int (take (nat (lh_n l)) (lh_block l))) d"

lemma write_head_loop_spec:
  assumes l: "length (lh_block l) = nat LOGSIZE" "0 \<le> lh_n l" "lh_n l \<le> LOGSIZE" and k: "k \<le> nat (lh_n l)" and h: "h \<in> H"
    and s: "lg s = l" "bio_abs pid (bc s) vw P H" "buf_for (bc s) b h"
  shows "\<exists>t. write_head_loop b (lh_n l) (int k) s = Ret (s\<lparr>bc := t\<rparr>) \<and>
    bio_abs pid t (vw(h := put32s (4 + 4 * k) (map of_int (drop k (take (nat (lh_n l)) (lh_block l)))) (vw h))) P H \<and>
    disk t = disk (bc s) \<and> dwrites t = dwrites (bc s) \<and> (\<forall>j c. buf_for t j c \<longleftrightarrow> buf_for (bc s) j c)"
  using k s
proof (induction k arbitrary: s vw rule: inc_induct)
  case base
  then show ?case using l by (intro exI [of _ "bc s"]) (simp add: write_head_loop.simps)
next
  case (step k)
  have k: "int k < lh_n l" "int k < LOGSIZE" "k < nat LOGSIZE" using step.hyps l by linarith+
  have dt: "data_l b s = vw h" using held_valid(2) [OF step.prems(2) _ step.prems(3)] h by (simp add: data_l_def)
  define x where "x = put32 (4 + 4 * k) (of_int (lh_block l ! k)) (vw h)"
  have "4 + 4 * k + 4 \<le> BSIZE" using k by (simp add: BSIZE_def LOGSIZE_def MAXOPBLOCKS_def)
  then have len: "length x = BSIZE" using bio_absD(2) [OF step.prems(2)] by (simp add: x_def)
  note st = set_data_spec [OF step.prems(2) h step.prems(3) len]
  let ?s = "store_l b x s"
  define vw' where "vw' = vw(h := x)"
  have p: "lg ?s = l" "bio_abs pid (bc ?s) vw' P H" "buf_for (bc ?s) b h"
    using st step.prems by (simp_all add: store_l_def vw'_def)
  have "write_head_loop b (lh_n l) (int k) s = write_head_loop b (lh_n l) (int (Suc k)) ?s"
    using k dt step.prems(1) by (subst write_head_loop.simps) (simp add: lh_get_def x_def add.commute)
  moreover obtain t where "write_head_loop b (lh_n l) (int (Suc k)) ?s = Ret (?s\<lparr>bc := t\<rparr>)"
    "bio_abs pid t (vw'(h := put32s (4 + 4 * Suc k) (map of_int (drop (Suc k) (take (nat (lh_n l)) (lh_block l)))) (vw' h))) P H"
    "disk t = disk (bc ?s)" "dwrites t = dwrites (bc ?s)" "\<forall>j c. buf_for t j c \<longleftrightarrow> buf_for (bc ?s) j c"
    using step.IH [OF p] by (elim exE conjE) (rule that)
  moreover have "drop k (take (nat (lh_n l)) (lh_block l)) = lh_block l ! k # drop (Suc k) (take (nat (lh_n l)) (lh_block l))"
    using step.hyps k(3) l by (simp add: Cons_nth_drop_Suc [symmetric])
  moreover from this have "vw'(h := put32s (4 + 4 * Suc k) (map of_int (drop (Suc k) (take (nat (lh_n l)) (lh_block l)))) (vw' h)) =
      vw(h := put32s (4 + 4 * k) (map of_int (drop k (take (nat (lh_n l)) (lh_block l)))) (vw h))"
    by (simp add: vw'_def x_def)
  moreover have "?s\<lparr>bc := t\<rparr> = s\<lparr>bc := t\<rparr>" "disk (bc ?s) = disk (bc s)" "dwrites (bc ?s) = dwrites (bc s)"
    "\<And>j c. buf_for (bc ?s) j c = buf_for (bc s) j c" for t using st by (simp_all add: store_l_def)
  ultimately show ?case by metis
qed

lemma write_head_spec:
  assumes l: "log_geom (lg s)" "0 \<le> lh_n (lg s)" "lh_n (lg s) \<le> LOGSIZE"
    and abs: "bio_abs pid (bc s) vw P {}" and h: "h = hblk (lg s)" "h \<notin> P" "card P < NBUF"
  shows "\<exists>t. write_head pid s = Ret (s\<lparr>bc := t\<rparr>) \<and> bio_abs pid t (vw(h := hdr (lg s) (vw h))) P {} \<and>
    disk t = (disk (bc s))(h := hdr (lg s) (vw h)) \<and> dwrites t = dwrites (bc s) @ [(h, hdr (lg s) (vw h))]"
proof -
  let ?l = "lg s"
  obtain b t where t: "bread_l pid (log_dev ?l) (log_start ?l) s = Ret (b, s\<lparr>bc := t\<rparr>)" "bio_abs pid t vw P {h}" "buf_for t b h"
      "b_data (bufs t b) = vw h" "disk t = disk (bc s)" "dwrites t = dwrites (bc s)"
    using bread_l_spec [OF abs, of "log_dev ?l" "log_start ?l" h] l h by (auto simp: log_geom_def ROOTDEV_def hblk_def)
  define x where "x = put32 0 (of_int (lh_n ?l)) (vw h)"
  have "length x = BSIZE" using bio_absD(2) [OF abs] by (simp add: x_def BSIZE_def)
  note st = set_data_spec [OF t(2) _ t(3) this]
  obtain u where u: "write_head_loop b (lh_n ?l) 0 (store_l b x (s\<lparr>bc := t\<rparr>)) = Ret (store_l b x (s\<lparr>bc := t\<rparr>)\<lparr>bc := u\<rparr>)"
      "bio_abs pid u (vw(h := hdr ?l (vw h))) P {h}" "disk u = disk t" "dwrites u = dwrites t" "buf_for u b h"
    using write_head_loop_spec [of ?l 0 h "{h}" "store_l b x (s\<lparr>bc := t\<rparr>)" pid "vw(h := x)" P b] st t l
    by (auto simp: store_l_def log_geom_def hdr_def x_def)
  obtain v where v: "bwrite_l pid b (s\<lparr>bc := u\<rparr>) = Ret (s\<lparr>bc := v\<rparr>)" "bio_abs pid v (vw(h := hdr ?l (vw h))) P {h}"
      "buf_for v b h" "disk v = (disk u)(h := hdr ?l (vw h))" "dwrites v = dwrites u @ [(h, hdr ?l (vw h))]"
    using bwrite_l_spec [of pid "s\<lparr>bc := u\<rparr>" "vw(h := hdr ?l (vw h))" P "{h}" h b] u by auto
  obtain w where "brelse_l pid b (s\<lparr>bc := v\<rparr>) = Ret (s\<lparr>bc := w\<rparr>)" "bio_abs pid w (vw(h := hdr ?l (vw h))) P ({h} - {h})"
      "disk w = disk v" "dwrites w = dwrites v"
    using brelse_l_spec [of pid "s\<lparr>bc := v\<rparr>" "vw(h := hdr ?l (vw h))" P "{h}" h b] v by auto
  then show ?thesis using t u v by (intro exI [of _ w]) (simp add: write_head_def data_l_def x_def store_l_def)
qed

lemma read_head_loop_spec:
  assumes "length (lh_block (lg s)) = nat LOGSIZE" "k \<le> n" "int n \<le> LOGSIZE"
  shows "read_head_loop d (int n) (int k) s =
    Ret (s\<lparr>lg := (lg s)\<lparr>lh_block := take k (lh_block (lg s)) @ map (\<lambda>j. sint (get32 (4 + 4 * j) d)) [k..<n] @
      drop n (lh_block (lg s))\<rparr>\<rparr>)"
  using assms(2,1)
proof (induction k arbitrary: s rule: inc_induct)
  case base
  then show ?case by (simp add: read_head_loop.simps)
next
  case (step k)
  let ?v = "sint (get32 (4 + 4 * k) d)"
  have k: "int k < int n" "int k < LOGSIZE" "k < length (lh_block (lg s))" using step assms(3) by linarith+
  have "take (Suc k) ((lh_block (lg s))[k := ?v]) = take k (lh_block (lg s)) @ [?v]"
    using k(3) by (simp add: take_Suc_conv_app_nth)
  moreover have "drop n ((lh_block (lg s))[k := ?v]) = drop n (lh_block (lg s))" using k by simp
  ultimately show ?case
    using step.IH [of "s\<lparr>lg := (lg s)\<lparr>lh_block := (lh_block (lg s))[k := ?v]\<rparr>\<rparr>"] step.prems k step.hyps
    by (subst read_head_loop.simps) (simp add: lh_set_def upt_conv_Cons add.commute)
qed

definition hdr_n :: "block \<Rightarrow> int" where "hdr_n d = sint (get32 0 d)"

text \<open>The in-memory header after \<open>read_head\<close> of the header block \<open>d\<close>.\<close>

definition head_of :: "log \<Rightarrow> block \<Rightarrow> log" where
  "head_of l d = l\<lparr>lh_n := hdr_n d, lh_block := map (\<lambda>j. sint (get32 (4 + 4 * j) d)) [0..<nat (hdr_n d)] @
     drop (nat (hdr_n d)) (lh_block l)\<rparr>"

lemma read_head_spec:
  assumes l: "log_geom (lg s)" and abs: "bio_abs pid (bc s) vw {} {}" and h: "h = hblk (lg s)"
    and n: "0 \<le> hdr_n (vw h)" "hdr_n (vw h) \<le> LOGSIZE"
  shows "\<exists>t. read_head pid s = Ret (s\<lparr>lg := head_of (lg s) (vw h), bc := t\<rparr>) \<and> bio_abs pid t vw {} {} \<and>
    disk t = disk (bc s) \<and> dwrites t = dwrites (bc s)"
proof -
  obtain b t where t: "bread_l pid (log_dev (lg s)) (log_start (lg s)) s = Ret (b, s\<lparr>bc := t\<rparr>)" "bio_abs pid t vw {} {h}" "buf_for t b h"
      "b_data (bufs t b) = vw h" "disk t = disk (bc s)" "dwrites t = dwrites (bc s)"
    using bread_l_spec [OF abs, of "log_dev (lg s)" "log_start (lg s)" h] l h by (auto simp: log_geom_def ROOTDEV_def hblk_def NBUF_def)
  let ?s = "s\<lparr>lg := (lg s)\<lparr>lh_n := hdr_n (vw h)\<rparr>, bc := t\<rparr>"
  have "read_head_loop (vw h) (hdr_n (vw h)) 0 ?s = Ret (?s\<lparr>lg := head_of (lg s) (vw h)\<rparr>)"
    using read_head_loop_spec [of ?s 0 "nat (hdr_n (vw h))" "vw h"] l n by (simp add: log_geom_def head_of_def)
  moreover obtain u where "brelse_l pid b (s\<lparr>lg := head_of (lg s) (vw h), bc := t\<rparr>) =
      Ret (s\<lparr>lg := head_of (lg s) (vw h), bc := u\<rparr>)" "bio_abs pid u vw {} ({h} - {h})" "disk u = disk t" "dwrites u = dwrites t"
    using brelse_l_spec [of pid "s\<lparr>lg := head_of (lg s) (vw h), bc := t\<rparr>" vw "{}" "{h}" h b] t
      bio_absD(10) [OF abs, of h] by auto
  ultimately show ?thesis using t by (intro exI [of _ u]) (simp add: read_head_def data_l_def Let_def hdr_n_def)
qed

section \<open>What commit and recovery write\<close>

lemma hdr_zero: "hdr (l\<lparr>lh_n := 0\<rparr>) d = put32 0 0 d"
  by (simp add: hdr_def)

lemma log_writes_fst: "fst ` set (log_writes l vw k) = slot l ` {k..<nat (lh_n l)}"
  by (force simp: log_writes_def)

lemma inst_writes_fst: "fst ` set (inst_writes l vw k) = home l ` {k..<nat (lh_n l)}"
  by (force simp: inst_writes_def)

lemma set_logged: "set (logged l) = home l ` {0..<nat (lh_n l)}"
  by (simp add: logged_def)

definition home_writes :: "log \<Rightarrow> (u32 \<Rightarrow> block) \<Rightarrow> (u32 \<times> block) list" where
  "home_writes l vw = map (\<lambda>j. (home l j, vw (home l j))) [0..<nat (lh_n l)]"

definition commit_writes :: "log \<Rightarrow> (u32 \<Rightarrow> block) \<Rightarrow> (u32 \<times> block) list" where
  "commit_writes l vw = (let h = hblk l; d = hdr l (vw h) in
     log_writes l vw 0 @ (h, d) # home_writes l vw @ [(h, put32 0 0 d)])"

lemma log_ok_facts:
  assumes ok: "log_ok l"
  shows "log_geom l" "0 \<le> lh_n l" "lh_n l \<le> LOGSIZE" "hblk l \<notin> set (logged l)" "hblk l \<notin> slot l ` {0..<nat (lh_n l)}"
    "distinct (map (slot l) [0..<nat (lh_n l)])" "\<And>j. j < nat (lh_n l) \<Longrightarrow> slot l j \<noteq> hblk l"
    "\<And>i j. i < nat (lh_n l) \<Longrightarrow> j < nat (lh_n l) \<Longrightarrow> slot l i \<noteq> home l j"
    "\<And>j. j < nat (lh_n l) \<Longrightarrow> slot l j \<in> log_area l"
proof -
  show g: "log_geom l" "0 \<le> lh_n l" "lh_n l \<le> LOGSIZE" using ok by (auto simp: log_ok_def)
  have "lh_n l \<le> LOGSIZE - 1" using ok by (simp add: log_ok_def)
  then have lt: "j < nat LOGSIZE" "j < nat (LOGSIZE - 1)" if "j < nat (lh_n l)" for j using that by linarith+
  note a = log_area_inj [OF g(1)]
  show "hblk l \<notin> set (logged l)" using ok a(4) by (auto simp: log_ok_def)
  show s: "j < nat (lh_n l) \<Longrightarrow> slot l j \<noteq> hblk l" "j < nat (lh_n l) \<Longrightarrow> slot l j \<in> log_area l" for j
    using a(2,3) lt by blast+
  then show "hblk l \<notin> slot l ` {0..<nat (lh_n l)}" by force
  show "distinct (map (slot l) [0..<nat (lh_n l)])" using a(1) lt by (auto simp: distinct_map inj_on_def)
  show "i < nat (lh_n l) \<Longrightarrow> j < nat (lh_n l) \<Longrightarrow> slot l i \<noteq> home l j" for i j
    using s(2) log_ok_home(2) [OF ok] by metis
qed

lemma commit_spec:
  assumes ok: "log_ok l" and n: "0 < lh_n l" "nat (lh_n l) < NBUF" and s: "lg s = l" "bio_abs pid (bc s) vw (set (logged l)) {}"
  shows "\<exists>t. commit pid s = Ret (s\<lparr>lg := l\<lparr>lh_n := 0\<rparr>, bc := t\<rparr>) \<and> bio_abs pid t (apply_writes (commit_writes l vw) vw) {} {} \<and>
    disk t = apply_writes (commit_writes l vw) (disk (bc s)) \<and> dwrites t = dwrites (bc s) @ commit_writes l vw"
proof -
  note f = log_ok_facts [OF ok]
  define h where "h = hblk l"
  define P where "P = set (logged l)"
  have "card P \<le> nat (lh_n l)" unfolding P_def using card_length [of "logged l"] by (simp add: logged_def)
  then have P: "card P < NBUF" using n by simp
  define wl where "wl = log_writes l vw 0"
  obtain t1 where t1: "write_log pid s = Ret (s\<lparr>bc := t1\<rparr>)" "bio_abs pid t1 (apply_writes wl vw) P {}"
      "disk t1 = apply_writes wl (disk (bc s))" "dwrites t1 = dwrites (bc s) @ wl"
    using write_log_loop_spec [OF ok, of 0 P s pid vw] P s by (auto simp: write_log_def wl_def P_def)
  have vh: "apply_writes wl vw h = vw h" using f(5) by (intro apply_writes_other) (simp add: wl_def log_writes_fst h_def)
  define d where "d = hdr l (vw h)"
  obtain t2 where t2: "write_head pid (s\<lparr>bc := t1\<rparr>) = Ret (s\<lparr>bc := t2\<rparr>)" "bio_abs pid t2 ((apply_writes wl vw)(h := d)) P {}"
      "disk t2 = (disk t1)(h := d)" "dwrites t2 = dwrites t1 @ [(h, d)]"
    using write_head_spec [of "s\<lparr>bc := t1\<rparr>" pid "apply_writes wl vw" P h] t1 f(1-4) s(1) P vh
    by (auto simp: h_def d_def P_def)
  define vw2 where "vw2 = (apply_writes wl vw)(h := d)"
  have "vw2 (slot l j) = vw (home l j)" if "j < nat (lh_n l)" for j
    using f(6,7) that by (simp add: vw2_def wl_def log_writes_def h_def apply_writes_map [where g = "\<lambda>j. vw (home l j)"])
  then have wi: "inst_writes l vw2 0 = home_writes l vw" by (simp add: inst_writes_def home_writes_def)
  obtain t3 where t3: "install_trans pid False (s\<lparr>bc := t2\<rparr>) = Ret (s\<lparr>bc := t3\<rparr>)"
      "bio_abs pid t3 (apply_writes (home_writes l vw) vw2) {} {}"
      "disk t3 = apply_writes (home_writes l vw) (disk t2)" "dwrites t3 = dwrites t2 @ home_writes l vw"
    using install_loop_spec [OF ok, of 0 False "s\<lparr>bc := t2\<rparr>" pid vw2] n s t2(2) wi
    by (auto simp: install_trans_def vw2_def P_def set_logged)
  have "h \<notin> fst ` set (inst_writes l vw2 0)" using f(4) by (simp add: inst_writes_fst set_logged h_def)
  then have vh3: "apply_writes (home_writes l vw) vw2 h = d" unfolding wi by (subst apply_writes_other) (simp_all add: vw2_def)
  let ?s = "s\<lparr>lg := l\<lparr>lh_n := 0\<rparr>, bc := t3\<rparr>"
  have g0: "log_geom (l\<lparr>lh_n := 0\<rparr>)" "h = hblk (l\<lparr>lh_n := 0\<rparr>)" using f(1) by (simp_all add: log_geom_def h_def hblk_def)
  obtain t4 where t4: "write_head pid ?s = Ret (?s\<lparr>bc := t4\<rparr>)"
      "bio_abs pid t4 ((apply_writes (home_writes l vw) vw2)(h := put32 0 0 d)) {} {}"
      "disk t4 = (disk t3)(h := put32 0 0 d)" "dwrites t4 = dwrites t3 @ [(h, put32 0 0 d)]"
    using write_head_spec [of ?s pid "apply_writes (home_writes l vw) vw2" "{}" h] g0 t3(2) vh3
    by (auto simp: hdr_zero NBUF_def LOGSIZE_def MAXOPBLOCKS_def)
  have w: "apply_writes (commit_writes l vw) e = (apply_writes (home_writes l vw) ((apply_writes wl e)(h := d)))(h := put32 0 0 d)" for e
    by (simp add: commit_writes_def Let_def apply_writes_append wl_def d_def h_def)
  have "commit pid s = Ret (s\<lparr>lg := l\<lparr>lh_n := 0\<rparr>, bc := t4\<rparr>)"
    using n(1) s(1) t1(1) t2(1) t3(1) t4(1) by (simp add: commit_def set_n_def)
  then show ?thesis using t1 t2 t3 t4 unfolding w
    by (intro exI [of _ t4]) (simp add: vw2_def commit_writes_def Let_def wl_def d_def h_def)
qed

section \<open>Recovery\<close>

definition recover_writes :: "log \<Rightarrow> (u32 \<Rightarrow> block) \<Rightarrow> (u32 \<times> block) list" where
  "recover_writes l d = (let h = hblk l in inst_writes (head_of l (d h)) d 0 @ [(h, put32 0 0 (d h))])"

text \<open>The disk can be recovered from: its header names at most \<open>LOGSIZE\<close> different blocks outside the log.\<close>

definition disk_ok :: "log \<Rightarrow> (u32 \<Rightarrow> block) \<Rightarrow> bool" where
  "disk_ok l d \<longleftrightarrow> log_ok (head_of l (d (hblk l)))"

definition recovered :: "log \<Rightarrow> (u32 \<Rightarrow> block) \<Rightarrow> u32 \<Rightarrow> block" where
  "recovered l d = apply_writes (recover_writes l d) d"

lemma head_of_simps [simp]:
  "lh_n (head_of l d) = hdr_n d" "hblk (head_of l d) = hblk l" "slot (head_of l d) = slot l"
  "log_area (head_of l d) = log_area l" "log_dev (head_of l d) = log_dev l" "log_start (head_of l d) = log_start l"
  by (simp_all add: head_of_def hblk_def slot_def [abs_def] log_area_def)

lemma home_head_of: "j < nat (hdr_n d) \<Longrightarrow> home (head_of l d) j = get32 (4 + 4 * j) d"
  by (simp add: home_def head_of_def nth_append)

lemma recover_spec:
  assumes l: "log_geom (lg s)" and abs: "bio_abs pid (bc s) d {} {}" and ok: "disk_ok (lg s) d"
  shows "\<exists>t. recover_from_log pid s = Ret (s\<lparr>lg := (head_of (lg s) (d (hblk (lg s))))\<lparr>lh_n := 0\<rparr>, bc := t\<rparr>) \<and>
    bio_abs pid t (recovered (lg s) d) {} {} \<and> disk t = recovered (lg s) d \<and>
    dwrites t = dwrites (bc s) @ recover_writes (lg s) d"
proof -
  define h where "h = hblk (lg s)"
  define l1 where "l1 = head_of (lg s) (d h)"
  have ok1: "log_ok l1" using ok by (simp add: disk_ok_def l1_def h_def)
  note f = log_ok_facts [OF ok1]
  have n: "0 \<le> hdr_n (d h)" "hdr_n (d h) \<le> LOGSIZE" using f(2,3) by (simp_all add: l1_def)
  have dk: "disk (bc s) = d" using bio_absD(10) [OF abs] by auto
  obtain t1 where t1: "read_head pid s = Ret (s\<lparr>lg := l1, bc := t1\<rparr>)" "bio_abs pid t1 d {} {}" "disk t1 = disk (bc s)"
      "dwrites t1 = dwrites (bc s)"
    using read_head_spec [OF l abs h_def n] by (auto simp: l1_def)
  define ws where "ws = inst_writes l1 d 0"
  obtain t2 where t2: "install_trans pid True (s\<lparr>lg := l1, bc := t1\<rparr>) = Ret (s\<lparr>lg := l1, bc := t2\<rparr>)"
      "bio_abs pid t2 (apply_writes ws d) {} {}" "disk t2 = apply_writes ws (disk t1)" "dwrites t2 = dwrites t1 @ ws"
    using install_loop_spec [OF ok1, of 0 True "s\<lparr>lg := l1, bc := t1\<rparr>" pid d] t1(2) by (auto simp: install_trans_def ws_def)
  have "h \<notin> fst ` set ws" using f(4) by (simp add: ws_def inst_writes_fst set_logged l1_def h_def)
  then have vh: "apply_writes ws d h = d h" by (rule apply_writes_other)
  let ?s = "s\<lparr>lg := l1\<lparr>lh_n := 0\<rparr>, bc := t2\<rparr>"
  have g0: "log_geom (l1\<lparr>lh_n := 0\<rparr>)" "h = hblk (l1\<lparr>lh_n := 0\<rparr>)" using f(1) by (simp_all add: log_geom_def h_def hblk_def l1_def)
  obtain t3 where t3: "write_head pid ?s = Ret (?s\<lparr>bc := t3\<rparr>)" "bio_abs pid t3 ((apply_writes ws d)(h := put32 0 0 (d h))) {} {}"
      "disk t3 = (disk t2)(h := put32 0 0 (d h))" "dwrites t3 = dwrites t2 @ [(h, put32 0 0 (d h))]"
    using write_head_spec [of ?s pid "apply_writes ws d" "{}" h] g0 t2(2) vh
    by (auto simp: hdr_zero NBUF_def LOGSIZE_def MAXOPBLOCKS_def)
  have w: "recover_writes (lg s) d = ws @ [(h, put32 0 0 (d h))]" by (simp add: recover_writes_def Let_def ws_def l1_def h_def)
  then have r: "recovered (lg s) d = (apply_writes ws d)(h := put32 0 0 (d h))" by (simp add: recovered_def apply_writes_append)
  show ?thesis using t1 t2 t3 dk unfolding r w
    by (intro exI [of _ t3]) (simp add: recover_from_log_def set_n_def l1_def h_def)
qed

lemma recovered_home:
  assumes "disk_ok l d" "j < nat (hdr_n (d (hblk l)))"
  shows "recovered l d (get32 (4 + 4 * j) (d (hblk l))) = d (slot l j)"
proof -
  let ?l = "head_of l (d (hblk l))"
  have ok: "log_ok ?l" using assms(1) by (simp add: disk_ok_def)
  have "distinct (map (home ?l) [0..<nat (hdr_n (d (hblk l)))])" using ok by (simp add: log_ok_def logged_def)
  then have "apply_writes (inst_writes ?l d 0) d (home ?l j) = d (slot l j)"
    using assms(2) by (simp add: inst_writes_def apply_writes_map [where g = "\<lambda>j. d (slot l j)"])
  moreover have "home ?l j \<noteq> hblk l" using log_ok_home(2) [OF ok, of j] assms(2) by (auto simp: log_area_def)
  ultimately show ?thesis using assms(2)
    by (simp add: recovered_def recover_writes_def Let_def apply_writes_append home_head_of)
qed

lemma recovered_other:
  assumes "\<And>j. j < nat (hdr_n (d (hblk l))) \<Longrightarrow> get32 (4 + 4 * j) (d (hblk l)) \<noteq> b" "b \<noteq> hblk l"
  shows "recovered l d b = d b"
proof -
  have "b \<notin> fst ` set (recover_writes l d)"
    using assms(2) by (auto simp: recover_writes_def Let_def image_Un inst_writes_fst home_head_of dest!: assms(1))
  then show ?thesis unfolding recovered_def by (rule apply_writes_other)
qed

text \<open>Two disks with the same committed transaction recover to the same contents.\<close>

lemma recovered_same:
  assumes ok: "disk_ok l d" and h: "e (hblk l) = d (hblk l)"
    and sl: "\<And>j. j < nat (hdr_n (d (hblk l))) \<Longrightarrow> e (slot l j) = d (slot l j)"
    and other: "\<And>b. b \<notin> log_area l \<Longrightarrow> (\<And>j. j < nat (hdr_n (d (hblk l))) \<Longrightarrow> get32 (4 + 4 * j) (d (hblk l)) \<noteq> b) \<Longrightarrow> e b = d b"
  shows "disk_ok l e \<and> (\<forall>b. b \<notin> log_area l \<longrightarrow> recovered l e b = recovered l d b)"
proof (intro conjI allI impI)
  show oke: "disk_ok l e" using ok h by (simp add: disk_ok_def)
  fix b assume b: "b \<notin> log_area l"
  then have hb: "b \<noteq> hblk l" by (auto simp: log_area_def)
  show "recovered l e b = recovered l d b"
  proof (cases "\<exists>j < nat (hdr_n (d (hblk l))). get32 (4 + 4 * j) (d (hblk l)) = b")
    case True
    then show ?thesis using recovered_home [OF ok] recovered_home [OF oke] h sl by auto
  next
    case False
    then show ?thesis using recovered_other [of d l b] recovered_other [of e l b] h hb other [OF b] by auto
  qed
qed

lemma recovered_none:
  assumes "log_geom l" "hdr_n (d (hblk l)) = 0"
  shows "disk_ok l d \<and> (\<forall>b. b \<notin> log_area l \<longrightarrow> recovered l d b = d b)"
  using assms recovered_other [of d l] by (auto simp: disk_ok_def log_ok_def log_geom_def head_of_def logged_def log_area_def LOGSIZE_def MAXOPBLOCKS_def)

lemma hdr_n_zero: "4 \<le> length d \<Longrightarrow> hdr_n (put32 0 0 d) = 0"
  by (simp add: hdr_n_def)

lemma recovery_prefix:
  assumes l: "log_geom l" and ok: "disk_ok l d" and len: "length (d (hblk l)) = BSIZE"
    and e_def: "e = apply_writes (take k (recover_writes l d)) d"
  shows "disk_ok l e \<and> (\<forall>b. b \<notin> log_area l \<longrightarrow> recovered l e b = recovered l d b)"
proof -
  define h where "h = hblk l"
  define l1 where "l1 = head_of l (d h)"
  define ws where "ws = inst_writes l1 d 0"
  have ok1: "log_ok l1" using ok by (simp add: disk_ok_def l1_def h_def)
  have rw: "recover_writes l d = ws @ [(h, put32 0 0 (d h))]" by (simp add: recover_writes_def Let_def ws_def l1_def h_def)
  have sub: "fst ` set (take i ws) \<subseteq> set (logged l1)" for i
    using set_take_subset [of i ws] inst_writes_fst [of l1 d 0] by (auto simp: ws_def set_logged)
  show ?thesis
  proof (cases "k \<le> length ws")
    case True
    then have e: "e = apply_writes (take k ws) d" by (simp add: e_def rw)
    note f = log_ok_facts [OF ok1]
    show ?thesis
    proof (rule recovered_same [OF ok])
      have out: "e b = d b" if "b \<notin> set (logged l1)" for b
        unfolding e by (rule apply_writes_other) (use sub that in blast)
      show "e (hblk l) = d (hblk l)" using f(4) by (intro out) (simp add: l1_def)
      show "e (slot l j) = d (slot l j)" if "j < nat (hdr_n (d (hblk l)))" for j
      proof (rule out)
        have "slot l j \<in> log_area l1" using f(9) [of j] that by (simp add: l1_def h_def)
        then show "slot l j \<notin> set (logged l1)" using ok1 by (auto simp: log_ok_def)
      qed
      show "e b = d b" if nj: "\<And>j. j < nat (hdr_n (d (hblk l))) \<Longrightarrow> get32 (4 + 4 * j) (d (hblk l)) \<noteq> b" for b
      proof (rule out, rule notI)
        assume "b \<in> set (logged l1)"
        then obtain j where "j < nat (hdr_n (d h))" "b = home l1 j" by (auto simp: set_logged l1_def)
        then show False using nj [of j] by (simp add: l1_def h_def home_head_of)
      qed
    qed
  next
    case False
    then have e: "e = recovered l d" by (simp add: e_def rw recovered_def)
    moreover have "recovered l d h = put32 0 0 (d h)" by (simp add: recovered_def rw apply_writes_append)
    ultimately have "hdr_n (e (hblk l)) = 0" using len by (simp add: hdr_n_zero BSIZE_def h_def)
    then show ?thesis using recovered_none [OF l] e by simp
  qed
qed

lemma sint_small: "0 \<le> k \<Longrightarrow> k \<le> LOGSIZE \<Longrightarrow> sint (of_int k :: u32) = k"
  by (simp add: int_word_sint LOGSIZE_def MAXOPBLOCKS_def)

lemma head_of_hdr:
  assumes ok: "log_ok l" and len: "length x = BSIZE"
  shows "hdr_n (hdr l x) = lh_n l" "j < nat (lh_n l) \<Longrightarrow> get32 (4 + 4 * j) (hdr l x) = home l j"
proof -
  note f = log_ok_facts [OF ok]
  let ?vs = "of_int (lh_n l) # map of_int (take (nat (lh_n l)) (lh_block l)) :: u32 list"
  have n: "nat (lh_n l) \<le> length (lh_block l)" using f by (auto simp: log_geom_def)
  have "4 * length ?vs \<le> BSIZE" using n f(1,3) by (simp add: log_geom_def BSIZE_def LOGSIZE_def MAXOPBLOCKS_def)
  then have "get32s 0 (length ?vs) (hdr l x) = ?vs" unfolding hdr_def using len by (intro get32s_put32s) simp_all
  then have g: "get32 (4 * i) (hdr l x) = ?vs ! i" if "i < length ?vs" for i using that nth_get32s by (metis add_0)
  show "hdr_n (hdr l x) = lh_n l" using g [of 0] sint_small f(2,3) by (simp add: hdr_n_def)
  show "get32 (4 + 4 * j) (hdr l x) = home l j" if "j < nat (lh_n l)" using g [of "Suc j"] that n by (simp add: home_def)
qed

lemma same_start:
  assumes "log_start l' = log_start l"
  shows "hblk l' = hblk l" "slot l' = slot l" "log_area l' = log_area l"
  using assms by (simp_all add: hblk_def slot_def [abs_def] log_area_def)

text \<open>The disk while the committed header is in place, whatever has been installed so far.\<close>

lemma committed_disk:
  assumes ok: "log_ok l" and l': "log_geom l'" "log_start l' = log_start l" and len: "length x = BSIZE"
    and h: "e (hblk l) = hdr l x" and sl: "\<And>j. j < nat (lh_n l) \<Longrightarrow> e (slot l j) = vw (home l j)"
    and other: "\<And>b. b \<notin> log_area l \<Longrightarrow> b \<notin> set (logged l) \<Longrightarrow> e b = vw b"
  shows "disk_ok l' e \<and> (\<forall>b. b \<notin> log_area l' \<longrightarrow> recovered l' e b = vw b)"
proof -
  note p = same_start [OF l'(2)] and hd = head_of_hdr [OF ok len]
  let ?l = "head_of l' (hdr l x)"
  have hm: "home ?l j = home l j" if "j < nat (lh_n l)" for j using that hd by (simp add: home_head_of)
  then have lgd: "logged ?l = logged l" using hd(1) by (simp add: logged_def)
  have "log_geom ?l" using l'(1) hd(1) log_ok_facts [OF ok] by (auto simp: log_geom_def head_of_def)
  then have okl: "log_ok ?l" using ok lgd hd(1) p by (simp add: log_ok_def)
  then have oke: "disk_ok l' e" using h p by (simp add: disk_ok_def)
  moreover have "recovered l' e b = vw b" if b: "b \<notin> log_area l'" for b
  proof (cases "b \<in> set (logged l)")
    case True
    then obtain j where "j < nat (lh_n l)" "b = home l j" by (auto simp: set_logged)
    then show ?thesis using recovered_home [OF oke, of j] h p hd sl by simp
  next
    case False
    moreover have "recovered l' e b = e b"
      by (rule recovered_other) (use False b h p hd in \<open>auto simp: set_logged log_area_def\<close>)
    ultimately show ?thesis using other b p by simp
  qed
  ultimately show ?thesis by blast
qed

lemma log_writes_other:
  assumes ok: "log_ok l" and b: "b \<notin> log_area l \<or> b = hblk l"
  shows "apply_writes (take i (log_writes l vw 0)) d b = d b"
proof (rule apply_writes_other)
  have "b \<notin> slot l ` {0..<nat (lh_n l)}" using b
  proof
    assume "b = hblk l"
    then show ?thesis using log_ok_facts(5) [OF ok] by simp
  qed (use log_ok_facts(9) [OF ok] in auto)
  then show "b \<notin> fst ` set (take i (log_writes l vw 0))"
    using set_take_subset [of i "log_writes l vw 0"] log_writes_fst [of l vw 0] by auto
qed

lemma home_writes_other:
  assumes "b \<notin> set (logged l)"
  shows "apply_writes (take i (home_writes l vw)) d b = d b"
proof (rule apply_writes_other)
  have "fst ` set (home_writes l vw) = set (logged l)" by (force simp: home_writes_def set_logged)
  then show "b \<notin> fst ` set (take i (home_writes l vw))"
    using assms set_take_subset [of i "home_writes l vw"] by auto
qed

lemma log_writes_slot:
  assumes ok: "log_ok l" and j: "j < nat (lh_n l)"
  shows "apply_writes (log_writes l vw 0) d (slot l j) = vw (home l j)"
  using log_ok_facts(6) [OF ok] j by (simp add: log_writes_def apply_writes_map [where g = "\<lambda>j. vw (home l j)"])

lemma home_writes_home:
  assumes ok: "log_ok l" and b: "b \<in> set (logged l)"
  shows "apply_writes (home_writes l vw) d b = vw b"
proof -
  obtain j where j: "j < nat (lh_n l)" "b = home l j" using b by (auto simp: set_logged)
  have "distinct (map (home l) [0..<nat (lh_n l)])" using ok by (simp add: log_ok_def logged_def)
  then show ?thesis using j by (simp add: home_writes_def apply_writes_map [where g = "\<lambda>j. vw (home l j)"])
qed

lemma commit_installing:
  assumes ok: "log_ok l" and l': "log_geom l'" "log_start l' = log_start l" and len: "length (vw (hblk l)) = BSIZE"
    and d: "\<And>b. b \<notin> set (logged l) \<Longrightarrow> vw b = d b"
    and e: "e = apply_writes (take i (home_writes l vw)) ((apply_writes (log_writes l vw 0) d)(hblk l := hdr l (vw (hblk l))))"
  shows "disk_ok l' e \<and> (\<forall>b. b \<notin> log_area l' \<longrightarrow> recovered l' e b = vw b)"
proof (rule committed_disk [OF ok l' len])
  note f = log_ok_facts [OF ok]
  show "e (hblk l) = hdr l (vw (hblk l))" using home_writes_other [OF f(4)] by (simp add: e)
  fix j assume j: "j < nat (lh_n l)"
  then have "slot l j \<notin> set (logged l)" using f(9) ok by (auto simp: log_ok_def)
  then show "e (slot l j) = vw (home l j)" using home_writes_other log_writes_slot [OF ok j] f(7) [OF j] by (simp add: e)
next
  fix b assume b: "b \<notin> log_area l" "b \<notin> set (logged l)"
  then have "e b = apply_writes (take (nat (lh_n l)) (log_writes l vw 0)) d b"
    using home_writes_other by (simp add: e log_area_def log_writes_def)
  then show "e b = vw b" using log_writes_other [OF ok] b d by simp
qed

lemma commit_finished:
  assumes ok: "log_ok l" and l': "log_geom l'" "log_start l' = log_start l" and len: "length (vw (hblk l)) = BSIZE"
    and d: "\<And>b. b \<notin> set (logged l) \<Longrightarrow> vw b = d b" and e: "e = apply_writes (commit_writes l vw) d"
  shows "disk_ok l' e \<and> (\<forall>b. b \<notin> log_area l' \<longrightarrow> recovered l' e b = vw b)"
proof -
  note f = log_ok_facts [OF ok] and p = same_start [OF l'(2)]
  let ?x = "hdr l (vw (hblk l))"
  have e': "e = (apply_writes (home_writes l vw) ((apply_writes (log_writes l vw 0) d)(hblk l := ?x)))(hblk l := put32 0 0 ?x)"
    by (simp add: e commit_writes_def Let_def apply_writes_append)
  have "length ?x = BSIZE"
    using len f(1,3) by (simp add: hdr_def log_geom_def BSIZE_def LOGSIZE_def MAXOPBLOCKS_def min_def)
  then have "hdr_n (e (hblk l')) = 0" using p by (simp add: e' hdr_n_zero BSIZE_def)
  moreover have "e b = vw b" if b: "b \<notin> log_area l'" for b
  proof -
    have nb: "b \<noteq> hblk l" "b \<notin> log_area l" using b p by (auto simp: log_area_def)
    show ?thesis
    proof (cases "b \<in> set (logged l)")
      case True
      then show ?thesis using home_writes_home [OF ok] nb by (simp add: e')
    next
      case False
      then show ?thesis
        using home_writes_other [OF False, of "length (home_writes l vw)" vw] d [OF False] nb
          log_writes_other [OF ok, of b "length (log_writes l vw 0)" vw d] by (simp add: e')
    qed
  qed
  ultimately show ?thesis using recovered_none [OF l'(1), of e] by simp
qed

lemma commit_prefix:
  assumes ok: "log_ok l" and l': "log_geom l'" "log_start l' = log_start l" and len: "length (vw (hblk l)) = BSIZE"
    and d: "hdr_n (d (hblk l)) = 0" "\<And>b. b \<notin> set (logged l) \<Longrightarrow> vw b = d b"
    and e: "e = apply_writes (take k (commit_writes l vw)) d"
  shows "disk_ok l' e \<and> ((\<forall>b. b \<notin> log_area l' \<longrightarrow> recovered l' e b = d b) \<and> k < length (commit_writes l vw) \<or>
    (\<forall>b. b \<notin> log_area l' \<longrightarrow> recovered l' e b = vw b))"
proof -
  let ?wl = "log_writes l vw 0" and ?wh = "home_writes l vw" and ?h = "hblk l"
  have cw: "commit_writes l vw = ?wl @ (?h, hdr l (vw ?h)) # ?wh @ [(?h, put32 0 0 (hdr l (vw ?h)))]"
    by (simp add: commit_writes_def Let_def)
  have "k \<le> a \<or> (\<exists>i. i \<le> b \<and> k = a + Suc i) \<or> a + b + 1 < k" for a b by presburger
  then consider (log) "k \<le> length ?wl" | (inst) "\<exists>i. i \<le> length ?wh \<and> k = length ?wl + Suc i"
    | (all) "length ?wl + length ?wh + 1 < k" by blast
  then show ?thesis
  proof cases
    case log
    then have e': "e = apply_writes (take k ?wl) d" by (simp add: e cw)
    note p = same_start [OF l'(2)]
    have "hdr_n (e (hblk l')) = 0" using log_writes_other [OF ok, of ?h] d(1) p by (simp add: e')
    moreover have "e b = d b" if "b \<notin> log_area l'" for b using log_writes_other [OF ok, of b] that p by (simp add: e')
    moreover have "k < length (commit_writes l vw)" using log by (simp add: cw)
    ultimately show ?thesis using recovered_none [OF l'(1), of e] by simp
  next
    case inst
    then obtain i where "i \<le> length ?wh" "k = length ?wl + Suc i" by blast
    then have "e = apply_writes (take i ?wh) ((apply_writes ?wl d)(?h := hdr l (vw ?h)))" by (simp add: e cw apply_writes_append)
    then show ?thesis using commit_installing [where vw = vw and d = d, OF ok l' len d(2)] by blast
  next
    case all
    then have "take k (commit_writes l vw) = commit_writes l vw" by (simp add: cw)
    then show ?thesis using commit_finished [where vw = vw and d = d, OF ok l' len d(2)] e by simp
  qed
qed

section \<open>Crashes\<close>

text \<open>
  A crash loses the buffer cache and keeps the blocks written so far; each block write is atomic.
  \<open>reboot\<close> runs \<open>binit\<close> and \<open>initlog\<close> on that disk. A crash may hit the commit or any of the
  recoveries after it.
\<close>

definition log_boot :: "log \<Rightarrow> bool" where
  "log_boot l \<longleftrightarrow> length (lh_block l) = nat LOGSIZE \<and> outstanding l = 0 \<and> committing l = 0"

definition reboot :: "int \<Rightarrow> superblock \<Rightarrow> bio \<Rightarrow> log \<Rightarrow> lsys result" where
  "reboot pid sb b l = initlog pid 1 sb \<lparr>bc = binit b, lg = l\<rparr>"

inductive crash_disk :: "int \<Rightarrow> superblock \<Rightarrow> lsys \<Rightarrow> (u32 \<Rightarrow> block) \<Rightarrow> bool" for pid sb s where
  in_commit: "commit pid s = Ret s' \<Longrightarrow> dwrites (bc s') = dwrites (bc s) @ ws \<Longrightarrow>
    crash_disk pid sb s (apply_writes (take k ws) (disk (bc s)))"
| in_recovery: "crash_disk pid sb s d \<Longrightarrow> bio_boot b \<Longrightarrow> disk b = d \<Longrightarrow> log_boot l \<Longrightarrow> reboot pid sb b l = Ret s' \<Longrightarrow>
    dwrites (bc s') = dwrites b @ ws \<Longrightarrow> crash_disk pid sb s (apply_writes (take k ws) d)"

definition sb_log :: "superblock \<Rightarrow> log \<Rightarrow> bool" where
  "sb_log sb l \<longleftrightarrow> sint (sb_logstart sb) = log_start l \<and> sint (sb_nlog sb) = log_size l"

definition log_at :: "superblock \<Rightarrow> log \<Rightarrow> log" where
  "log_at sb l = l\<lparr>log_start := sint (sb_logstart sb), log_size := sint (sb_nlog sb), log_dev := 1\<rparr>"

lemma log_at_geom: "log_geom l \<Longrightarrow> sb_log sb l \<Longrightarrow> log_boot l' \<Longrightarrow> log_geom (log_at sb l') \<and> log_start (log_at sb l') = log_start l"
  by (simp add: log_geom_def sb_log_def log_boot_def log_at_def)

lemma head_of_geom: "log_geom l \<Longrightarrow> hdr_n d \<le> LOGSIZE \<Longrightarrow> log_geom (head_of l d)"
  by (auto simp: log_geom_def head_of_def)

lemma recovered_cong:
  assumes "log_start l = log_start l'"
  shows "disk_ok l d \<Longrightarrow> log_geom l' \<Longrightarrow> disk_ok l' d" "recovered l d = recovered l' d" "recover_writes l d = recover_writes l' d"
proof -
  note p = same_start [OF assms]
  have h: "home (head_of l x) j = home (head_of l' x) j" if "j < nat (hdr_n x)" for x j using that by (simp add: home_head_of)
  then have lgd: "logged (head_of l x) = logged (head_of l' x)" for x by (simp add: logged_def)
  show "disk_ok l d \<Longrightarrow> log_geom l' \<Longrightarrow> disk_ok l' d"
    using p lgd head_of_geom [of l' "d (hblk l')"] by (simp add: disk_ok_def log_ok_def)
  show w: "recover_writes l d = recover_writes l' d" using p h by (simp add: recover_writes_def inst_writes_def Let_def)
  show "recovered l d = recovered l' d" by (simp add: recovered_def w)
qed

lemma reboot_spec:
  assumes g: "log_geom l" "sb_log sb l" and boot: "bio_boot b" "log_boot l'" and ok: "disk_ok l (disk b)"
  shows "\<exists>t. reboot pid sb b l' = Ret \<lparr>bc = t, lg = (head_of (log_at sb l') (disk b (hblk l)))\<lparr>lh_n := 0\<rparr>\<rparr> \<and>
    bio_abs pid t (recovered l (disk b)) {} {} \<and> disk t = recovered l (disk b) \<and> dwrites t = dwrites b @ recover_writes l (disk b)"
proof -
  let ?l = "log_at sb l'"
  have l: "log_geom ?l" "log_start ?l = log_start l" using log_at_geom [OF g boot(2)] by auto
  note c = recovered_cong [OF l(2) [symmetric]]
  have "reboot pid sb b l' = recover_from_log pid \<lparr>bc = binit b, lg = ?l\<rparr>"
    by (simp add: reboot_def initlog_def log_at_def LOGSIZE_def MAXOPBLOCKS_def BSIZE_def)
  moreover have "bio_abs pid (binit b) (disk b) {} {}" by (rule binit_abs [OF boot(1)])
  ultimately show ?thesis
    using recover_spec [of "\<lparr>bc = binit b, lg = ?l\<rparr>" pid "disk b"] l c(1) [OF ok l(1)] binit_abs(2) [OF boot(1)]
    by (simp add: c(2,3) same_start [OF l(2)])
qed

lemma crash_disk_ok:
  assumes ok: "log_ok (lg s)" "0 < lh_n (lg s)" "nat (lh_n (lg s)) < NBUF" "sb_log sb (lg s)"
    and abs: "bio_abs pid (bc s) vw (set (logged (lg s))) {}" and hdr: "hdr_n (disk (bc s) (hblk (lg s))) = 0"
    and cr: "crash_disk pid sb s d"
  shows "disk_ok (lg s) d \<and> ((\<forall>c. c \<notin> log_area (lg s) \<longrightarrow> recovered (lg s) d c = disk (bc s) c) \<or>
    (\<forall>c. c \<notin> log_area (lg s) \<longrightarrow> recovered (lg s) d c = vw c))"
  using cr
proof (induction rule: crash_disk.induct)
  case (in_commit s' ws k)
  have "ws = commit_writes (lg s) vw" using commit_spec [OF ok(1-3) refl abs] in_commit by auto
  then show ?case
    using commit_prefix [OF ok(1) log_ok_facts(1) [OF ok(1)] refl, of vw "disk (bc s)" _ k] bio_absD(2,10) [OF abs] hdr by blast
next
  case (in_recovery d b l s' ws k)
  let ?l = "lg s"
  have g: "log_geom ?l" by (rule log_ok_facts(1) [OF ok(1)])
  have "ws = recover_writes ?l d"
    using reboot_spec [OF g ok(4) in_recovery(2,4), of pid] in_recovery(3,5,6,7) by auto
  moreover have "length (d (hblk ?l)) = BSIZE" using in_recovery(2,3) by (auto simp: bio_boot_def)
  ultimately show ?case using recovery_prefix [OF g, of d _ k] in_recovery.IH by auto
qed

section \<open>Transactions\<close>

text \<open>
  Between system calls and inside one. A transaction is open while \<open>outstanding\<close> is positive; its
  blocks are pinned, so the disk keeps their old contents.
\<close>

definition log_inv :: "int \<Rightarrow> lsys \<Rightarrow> (u32 \<Rightarrow> block) \<Rightarrow> u32 set \<Rightarrow> bool" where
  "log_inv pid s vw H \<longleftrightarrow> log_ok (lg s) \<and> committing (lg s) = 0 \<and> 0 \<le> outstanding (lg s) \<and> lh_n (lg s) \<le> log_size (lg s) - 1 \<and>
     log_size (lg s) \<le> LOGSIZE \<and> bio_abs pid (bc s) vw (set (logged (lg s))) H \<and>
     hdr_n (disk (bc s) (hblk (lg s))) = 0 \<and> (outstanding (lg s) = 0 \<longrightarrow> lh_n (lg s) = 0) \<and>
     (\<forall>j < nat (lh_n (lg s)). lh_block (lg s) ! j = sint (home (lg s) j))"

lemma log_find_spec:
  assumes "length (lh_block (lg s)) = nat LOGSIZE" "k \<le> n" "int n \<le> LOGSIZE"
  shows "log_find v (int n) (int k) s = Ret (int (case find (\<lambda>j. lh_block (lg s) ! j = v) [k..<n] of Some j \<Rightarrow> j | None \<Rightarrow> n))"
  using assms(2)
proof (induction k rule: inc_induct)
  case base
  then show ?case by (simp add: log_find.simps)
next
  case (step k)
  have "int k < int n" "int k < LOGSIZE" using step assms(3) by linarith+
  then show ?case using step by (subst log_find.simps) (simp add: lh_get_def upt_conv_Cons add.commute)
qed

lemma log_invD:
  assumes "log_inv pid s vw H"
  shows "log_ok (lg s)" "committing (lg s) = 0" "0 \<le> outstanding (lg s)" "lh_n (lg s) \<le> log_size (lg s) - 1"
    "log_size (lg s) \<le> LOGSIZE" "bio_abs pid (bc s) vw (set (logged (lg s))) H" "hdr_n (disk (bc s) (hblk (lg s))) = 0"
    "outstanding (lg s) = 0 \<Longrightarrow> lh_n (lg s) = 0" "j < nat (lh_n (lg s)) \<Longrightarrow> lh_block (lg s) ! j = sint (home (lg s) j)"
    "card (set (logged (lg s))) < NBUF"
proof -
  show "log_ok (lg s)" "committing (lg s) = 0" "0 \<le> outstanding (lg s)" "lh_n (lg s) \<le> log_size (lg s) - 1"
    "log_size (lg s) \<le> LOGSIZE" "bio_abs pid (bc s) vw (set (logged (lg s))) H" "hdr_n (disk (bc s) (hblk (lg s))) = 0"
    "outstanding (lg s) = 0 \<Longrightarrow> lh_n (lg s) = 0" "j < nat (lh_n (lg s)) \<Longrightarrow> lh_block (lg s) ! j = sint (home (lg s) j)"
    using assms unfolding log_inv_def by blast+
  then have "nat (lh_n (lg s)) < NBUF" by (simp add: NBUF_def LOGSIZE_def MAXOPBLOCKS_def)
  then show "card (set (logged (lg s))) < NBUF" using card_length [of "logged (lg s)"] by (simp add: logged_def)
qed

lemma logged_snoc:
  assumes l: "log_ok l" "lh_n l < LOGSIZE - 1" and b: "b \<notin> set (logged l)" "b \<notin> log_area l"
  defines "l' \<equiv> l\<lparr>lh_n := lh_n l + 1, lh_block := (lh_block l)[nat (lh_n l) := sint b]\<rparr>"
  shows "logged l' = logged l @ [b]" "log_ok l'" "hblk l' = hblk l" "log_area l' = log_area l"
    "j \<le> nat (lh_n l) \<Longrightarrow> home l' j = (if j = nat (lh_n l) then b else home l j)"
proof -
  note f = log_ok_facts [OF l(1)]
  let ?n = "nat (lh_n l)"
  have n: "?n < length (lh_block l)" "nat (lh_n l + 1) = Suc ?n" using f(1,2) l(2) by (auto simp: log_geom_def)
  show hm: "home l' j = (if j = ?n then b else home l j)" for j using n by (simp add: home_def l'_def)
  have "lh_n l' = lh_n l + 1" by (simp add: l'_def)
  then show lg': "logged l' = logged l @ [b]" using n(2) hm by (simp add: logged_def)
  show st: "hblk l' = hblk l" "log_area l' = log_area l" using same_start [of l' l] by (simp_all add: l'_def)
  show "log_ok l'" unfolding log_ok_def lg' st using l b f by (auto simp: log_ok_def log_geom_def l'_def)
qed

lemma log_write_spec:
  assumes inv: "log_inv pid s vw H" and op: "0 < outstanding (lg s)" and n: "lh_n (lg s) < log_size (lg s) - 1"
    and b: "b \<in> H" "buf_for (bc s) i b" "b \<notin> log_area (lg s)"
  shows "\<exists>s'. log_write i s = Ret s' \<and> log_inv pid s' vw H \<and> set (logged (lg s')) = insert b (set (logged (lg s))) \<and>
    lh_n (lg s') \<le> lh_n (lg s) + 1 \<and> outstanding (lg s') = outstanding (lg s) \<and> log_size (lg s') = log_size (lg s) \<and>
    log_start (lg s') = log_start (lg s) \<and> disk (bc s') = disk (bc s) \<and> dwrites (bc s') = dwrites (bc s) \<and>
    (\<forall>j c. buf_for (bc s') j c \<longleftrightarrow> buf_for (bc s) j c)"
proof -
  let ?l = "lg s"
  note D = log_invD [OF inv] and f = log_ok_facts [OF log_invD(1) [OF inv]]
  have ln: "nat (lh_n ?l) \<le> nat LOGSIZE" "lh_n ?l < LOGSIZE - 1" using D(4,5) n f by linarith+
  have find: "log_find (sint b) (lh_n ?l) 0 s =
      Ret (int (case find (\<lambda>j. lh_block ?l ! j = sint b) [0..<nat (lh_n ?l)] of Some j \<Rightarrow> j | None \<Rightarrow> nat (lh_n ?l)))"
    using log_find_spec [of s 0 "nat (lh_n ?l)" "sint b"] f(1-3) by (auto simp: log_geom_def)
  have same: "lh_block ?l ! j = sint b \<longleftrightarrow> home ?l j = b" if "j < nat (lh_n ?l)" for j using D(9) [OF that] by (auto intro: signed_word_eqI)
  have bno: "sint (b_blockno (bufs (bc s) i)) = sint b" using b(2) by (simp add: buf_for_def)
  show ?thesis
  proof (cases "b \<in> set (logged ?l)")
    case True
    then have "\<exists>j < nat (lh_n ?l). home ?l j = b" by (auto simp: set_logged)
    then obtain j where j: "find (\<lambda>j. lh_block ?l ! j = sint b) [0..<nat (lh_n ?l)] = Some j" "j < nat (lh_n ?l)" "lh_block ?l ! j = sint b"
      using same by (cases "find (\<lambda>j. lh_block ?l ! j = sint b) [0..<nat (lh_n ?l)]") (auto simp: find_None_iff find_Some_iff)
    then have "log_write i s = Ret s" using find bno op n ln
      by (simp add: log_write_def lh_set_def list_update_same_conv f(1) [unfolded log_geom_def])
    then show ?thesis using True inv by (intro exI [of _ s]) auto
  next
    case False
    then have "find (\<lambda>j. lh_block ?l ! j = sint b) [0..<nat (lh_n ?l)] = None" using same by (auto simp: find_None_iff set_logged)
    then have fi: "log_find (sint b) (lh_n ?l) 0 s = Ret (lh_n ?l)" using find f(2) by simp
    define l' where "l' = ?l\<lparr>lh_n := lh_n ?l + 1, lh_block := (lh_block ?l)[nat (lh_n ?l) := sint b]\<rparr>"
    define s' where "s' = s\<lparr>lg := l', bc := bpin i (bc s)\<rparr>"
    have w: "log_write i s = Ret s'" using fi bno op n ln f(2) by (simp add: log_write_def lh_set_def set_n_def s'_def l'_def)
    note sn = logged_snoc [OF D(1) ln(2) False b(3), folded l'_def] and pin = bpin_spec [OF D(6) b(1) False b(2)]
    have "lh_block l' ! j = sint (home l' j)" if "j < nat (lh_n l')" for j
    proof (cases "j = nat (lh_n ?l)")
      case True
      then show ?thesis using sn(5) [of j] f ln by (simp add: l'_def log_geom_def)
    next
      case False
      then show ?thesis using sn(5) [of j] D(9) [of j] that by (simp add: l'_def)
    qed
    then have "log_inv pid s' vw H" using D sn pin n op by (auto simp: log_inv_def s'_def l'_def)
    then show ?thesis using w sn pin by (intro exI [of _ s']) (auto simp: s'_def l'_def)
  qed
qed

lemma begin_op_spec:
  assumes inv: "log_inv pid s vw H" and room: "lh_n (lg s) + (outstanding (lg s) + 1) * MAXOPBLOCKS \<le> LOGSIZE"
  shows "\<exists>s'. begin_op s = Ret s' \<and> log_inv pid s' vw H \<and> bc s' = bc s \<and> outstanding (lg s') = outstanding (lg s) + 1 \<and>
    lh_n (lg s') = lh_n (lg s) \<and> log_size (lg s') = log_size (lg s) \<and> log_start (lg s') = log_start (lg s) \<and> logged (lg s') = logged (lg s)"
proof -
  define l' where "l' = (lg s)\<lparr>outstanding := outstanding (lg s) + 1\<rparr>"
  have eq: "logged l' = logged (lg s)" "log_area l' = log_area (lg s)" "hblk l' = hblk (lg s)" "home l' = home (lg s)"
    by (simp_all add: l'_def logged_def home_def [abs_def] log_area_def hblk_def slot_def [abs_def])
  have "log_ok l'" using log_invD(1) [OF inv] eq by (simp add: log_ok_def log_geom_def l'_def)
  then have "log_inv pid (s\<lparr>lg := l'\<rparr>) vw H" using log_invD [OF inv] eq by (auto simp: log_inv_def l'_def)
  then show ?thesis using room log_invD(2) [OF inv] eq by (intro exI [of _ "s\<lparr>lg := l'\<rparr>"]) (simp add: begin_op_def l'_def)
qed

lemma commit_writes_area:
  assumes ok: "log_ok l" and c: "c \<notin> log_area l"
  shows "apply_writes (commit_writes l vw) d c = (if c \<in> set (logged l) then vw c else d c)"
proof -
  have nb: "c \<noteq> hblk l" using c by (auto simp: log_area_def)
  show ?thesis
    using nb home_writes_home [OF ok, of c vw] home_writes_other [of c l "length (home_writes l vw)" vw]
      log_writes_other [OF ok, of c "length (log_writes l vw 0)" vw d] c
    by (simp add: commit_writes_def Let_def apply_writes_append)
qed

lemma commit_writes_header:
  assumes ok: "log_ok l" and len: "length (vw (hblk l)) = BSIZE"
  shows "hdr_n (apply_writes (commit_writes l vw) d (hblk l)) = 0"
proof -
  have "length (hdr l (vw (hblk l))) = BSIZE"
    using len log_ok_facts(1,3) [OF ok] by (simp add: hdr_def log_geom_def BSIZE_def LOGSIZE_def MAXOPBLOCKS_def min_def)
  then show ?thesis by (simp add: commit_writes_def Let_def apply_writes_append hdr_n_zero BSIZE_def)
qed

lemma commit_any:
  assumes ok: "log_ok l" and n: "nat (lh_n l) < NBUF" and s: "lg s = l" "bio_abs pid (bc s) vw (set (logged l)) {}"
    and h: "hdr_n (disk (bc s) (hblk l)) = 0"
  shows "\<exists>t vw'. commit pid s = Ret (s\<lparr>lg := l\<lparr>lh_n := 0\<rparr>, bc := t\<rparr>) \<and> bio_abs pid t vw' {} {} \<and>
    hdr_n (disk t (hblk l)) = 0 \<and> (\<forall>c. c \<notin> log_area l \<longrightarrow> vw' c = vw c)"
proof (cases "lh_n l > 0")
  case True
  have "length (vw (hblk l)) = BSIZE" by (rule bio_absD(2) [OF s(2)])
  note w = commit_writes_header [where vw = vw and d = "disk (bc s)", OF ok this]
  have "apply_writes (commit_writes l vw) vw c = vw c" if "c \<notin> log_area l" for c
    using commit_writes_area [OF ok that, of vw vw] by simp
  then show ?thesis using commit_spec [OF ok True n s] w by metis
next
  case False
  then have z: "lh_n l = 0" using ok by (simp add: log_ok_def)
  then have "logged l = []" by (simp add: logged_def)
  moreover have "l\<lparr>lh_n := 0\<rparr> = l" using z by (cases l) simp
  moreover have "commit pid s = Ret s" "s\<lparr>lg := l, bc := bc s\<rparr> = s" using s(1) z by (cases s; simp add: commit_def)+
  ultimately show ?thesis using s(2) h by (intro exI [of _ "bc s"] exI [of _ vw]) simp
qed

lemma end_op_spec:
  assumes inv: "log_inv pid s vw {}" and op: "0 < outstanding (lg s)"
  shows "\<exists>s' vw'. end_op pid s = Ret s' \<and> log_inv pid s' vw' {} \<and> (\<forall>c. c \<notin> log_area (lg s) \<longrightarrow> vw' c = vw c) \<and>
    outstanding (lg s') = outstanding (lg s) - 1 \<and> log_size (lg s') = log_size (lg s) \<and> log_start (lg s') = log_start (lg s) \<and>
    (if outstanding (lg s) = 1 then lh_n (lg s') = 0 \<and> (\<forall>c. c \<notin> log_area (lg s) \<longrightarrow> disk (bc s') c = vw c)
     else bc s' = bc s \<and> logged (lg s') = logged (lg s))"
proof -
  note D = log_invD [OF inv]
  define l1 where "l1 = (lg s)\<lparr>outstanding := outstanding (lg s) - 1\<rparr>"
  define l2 where "l2 = l1\<lparr>committing := 1\<rparr>"
  have eq: "logged l2 = logged (lg s)" "log_area l2 = log_area (lg s)" "hblk l2 = hblk (lg s)" "home l2 = home (lg s)"
    "logged l1 = logged (lg s)" "log_area l1 = log_area (lg s)" "hblk l1 = hblk (lg s)" "home l1 = home (lg s)"
    by (simp_all add: l1_def l2_def logged_def home_def [abs_def] log_area_def hblk_def slot_def [abs_def])
  have ok: "log_ok l2" "log_ok l1" using D(1) eq by (simp_all add: log_ok_def log_geom_def l1_def l2_def)
  show ?thesis
  proof (cases "outstanding (lg s) = 1")
    case False
    then have "log_inv pid (s\<lparr>lg := l1\<rparr>) vw {}" using D op eq ok by (auto simp: log_inv_def l1_def)
    then show ?thesis using False D(2) eq
      by (intro exI [of _ "s\<lparr>lg := l1\<rparr>"] exI [of _ vw]) (simp add: end_op_def l1_def)
  next
    case True
    have n: "nat (lh_n l2) < NBUF" using D(4,5) by (simp add: l2_def l1_def NBUF_def LOGSIZE_def MAXOPBLOCKS_def)
    obtain t vw' where t: "commit pid (s\<lparr>lg := l2\<rparr>) = Ret (s\<lparr>lg := l2\<lparr>lh_n := 0\<rparr>, bc := t\<rparr>)" "bio_abs pid t vw' {} {}"
        "hdr_n (disk t (hblk l2)) = 0" and area: "\<And>c. c \<notin> log_area (lg s) \<Longrightarrow> vw' c = vw c"
      using commit_any [OF ok(1) n, of "s\<lparr>lg := l2\<rparr>" pid vw] D(6,7) eq by auto
    define l3 where "l3 = l2\<lparr>lh_n := 0, committing := 0\<rparr>"
    have "hblk l3 = hblk l2" "logged l3 = []" by (simp_all add: l3_def hblk_def logged_def)
    moreover have "log_ok l3" using ok(1) by (simp add: l3_def log_ok_def log_geom_def logged_def)
    ultimately have "log_inv pid (s\<lparr>lg := l3, bc := t\<rparr>) vw' {}"
      using t D(2-5) True log_ok_facts(2) [OF D(1)] by (simp add: log_inv_def l3_def l2_def l1_def)
    moreover have "end_op pid s = Ret (s\<lparr>lg := l3, bc := t\<rparr>)"
      using t(1) True D(2) by (simp add: end_op_def l1_def l2_def l3_def)
    moreover have "disk t c = vw c" if "c \<notin> log_area (lg s)" for c using bio_absD(10) [OF t(2), of c] area [OF that] by simp
    ultimately show ?thesis using area True
      by (intro exI [of _ "s\<lparr>lg := l3, bc := t\<rparr>"] exI [of _ vw']) (simp add: l3_def l2_def l1_def)
  qed
qed

definition log_zero :: log where
  "log_zero = \<lparr>log_start = 2, log_size = 30, outstanding = 0, committing = 0, log_dev = 1, lh_n = 0, lh_block = replicate 30 0\<rparr>"

definition sb_zero :: superblock where
  "sb_zero = \<lparr>sb_magic = 0x10203040, sb_size = 2000, sb_nblocks = 1954, sb_ninodes = 200, sb_nlog = 30, sb_logstart = 2,
     sb_inodestart = 32, sb_bmapstart = 45\<rparr>"

definition lsys_zero :: lsys where "lsys_zero = \<lparr>bc = binit bio_zero, lg = log_zero\<rparr>"

text \<open>One system call that writes block 50 and has not ended yet.\<close>

definition write_50 :: "lsys result" where
  "write_50 = rbind (begin_op lsys_zero) (\<lambda>s. rbind (bread_l 3 1 50 s) (\<lambda>(i, s).
     rbind (log_write i (store_l i (replicate BSIZE 7) s)) (brelse_l 3 i)))"

lemma lsys_zero_inv: "log_inv 3 lsys_zero (\<lambda>_. replicate BSIZE 0) {}"
proof -
  have "bio_abs 3 (binit bio_zero) (\<lambda>_. replicate BSIZE 0) {} {}"
    using binit_abs(1) [OF bio_zero_boot, of 3] by (simp add: bio_zero_def)
  moreover have "hdr_n (disk (binit bio_zero) b) = 0" for b
    by (simp add: binit_abs(3) [OF bio_zero_boot]) (simp add: bio_zero_def hdr_n_def get32_def get_bytes_def BSIZE_def numeral_eq_Suc)
  ultimately show ?thesis
    by (simp add: lsys_zero_def log_zero_def log_inv_def log_ok_def log_geom_def logged_def LOGSIZE_def MAXOPBLOCKS_def)
qed

lemma area_zero:
  assumes "log_start l = 2" "c \<in> log_area l" shows "c \<le> 31"
proof -
  consider "c = 2" | j where "j < 29" "c = of_nat (3 + j)"
    using assms by (auto simp: log_area_def hblk_def slot_def LOGSIZE_def MAXOPBLOCKS_def)
  then show ?thesis by cases (auto simp: word_le_nat_alt unat_of_nat simp del: of_nat_add)
qed

lemma write_50_ok:
  "\<exists>s. write_50 = Ret s \<and> log_inv 3 s ((\<lambda>_. replicate BSIZE 0)(50 := replicate BSIZE 7)) {} \<and> set (logged (lg s)) = {50} \<and>
    outstanding (lg s) = 1 \<and> log_start (lg s) = 2 \<and> log_size (lg s) = 30"
proof -
  let ?v = "\<lambda>_ :: u32. replicate BSIZE 0 :: block"
  obtain s1 where s1: "begin_op lsys_zero = Ret s1" "log_inv 3 s1 ?v {}" "outstanding (lg s1) = 1" "lh_n (lg s1) = 0" "log_size (lg s1) = 30"
      "log_start (lg s1) = 2" "logged (lg s1) = []"
    using begin_op_spec [OF lsys_zero_inv] by (auto simp: lsys_zero_def log_zero_def LOGSIZE_def MAXOPBLOCKS_def logged_def)
  obtain i t where t: "bread_l 3 1 50 s1 = Ret (i, s1\<lparr>bc := t\<rparr>)" "bio_abs 3 t ?v {} {50}" "buf_for t i 50" "disk t = disk (bc s1)"
    using bread_l_spec [OF log_invD(6) [OF s1(2)], of 1 50 50] s1(7) by (auto simp: ROOTDEV_def NBUF_def)
  let ?s2 = "store_l i (replicate BSIZE 7) (s1\<lparr>bc := t\<rparr>)" and ?w = "?v(50 := replicate BSIZE 7)"
  note st = set_data_spec [OF t(2) _ t(3), of "replicate BSIZE 7"]
  have i2: "log_inv 3 ?s2 ?w {50}" using s1(2,7) st t(4) by (simp add: log_inv_def store_l_def)
  have na: "50 \<notin> log_area (lg ?s2)" using area_zero [of "lg s1" 50] s1(6) by (auto simp: store_l_def)
  have bf: "buf_for (bc ?s2) i 50" using st t(3) by (simp add: store_l_def)
  obtain s3 where s3: "log_write i ?s2 = Ret s3" "log_inv 3 s3 ?w {50}" "set (logged (lg s3)) = {50}"
      "outstanding (lg s3) = 1" "log_start (lg s3) = 2" "log_size (lg s3) = 30" "buf_for (bc s3) i 50"
    using log_write_spec [OF i2 _ _ _ bf na] s1(3-7) bf by (auto simp: store_l_def)
  obtain u where u: "brelse_l 3 i s3 = Ret (s3\<lparr>bc := u\<rparr>)" "bio_abs 3 u ?w {50} {}" "disk u = disk (bc s3)"
    using brelse_l_spec [OF log_invD(6) [OF s3(2)] _ s3(7)] s3(3) by auto
  have "log_inv 3 (s3\<lparr>bc := u\<rparr>) ?w {}" using s3(2,3) u(2,3) by (simp add: log_inv_def)
  then show ?thesis using s1 t s3 u by (intro exI [of _ "s3\<lparr>bc := u\<rparr>"]) (simp add: write_50_def)
qed

section \<open>Properties\<close>

text \<open>
  C2. Crash atomicity. Take any moment at which \<open>commit\<close> is called with the transaction \<open>vw\<close> in
  the cache. The machine may crash after any number of the block writes of the commit, and again
  after any number of the writes of each recovery that follows, any number of times. The next
  boot (\<open>binit\<close>, \<open>initlog\<close>) succeeds, and outside the log area the disk then holds either all of
  the old contents or all of the new ones, with an empty log.
\<close>

theorem crash_recovery:
  assumes "log_ok (lg s)" "0 < lh_n (lg s)" "nat (lh_n (lg s)) < NBUF" "sb_log sb (lg s)"
    "bio_abs pid (bc s) vw (set (logged (lg s))) {}" "hdr_n (disk (bc s) (hblk (lg s))) = 0"
    "crash_disk pid sb s d" "bio_boot b" "disk b = d" "log_boot l"
  shows "\<exists>r. reboot pid sb b l = Ret r \<and> lh_n (lg r) = 0 \<and> hdr_n (disk (bc r) (hblk (lg s))) = 0 \<and>
    ((\<forall>c. c \<notin> log_area (lg s) \<longrightarrow> disk (bc r) c = disk (bc s) c) \<or> (\<forall>c. c \<notin> log_area (lg s) \<longrightarrow> disk (bc r) c = vw c))"
proof -
  let ?l = "lg s"
  note c = crash_disk_ok [OF assms(1-7)] and g = log_ok_facts(1) [OF assms(1)]
  have "disk_ok ?l (disk b)" using c assms(9) by simp
  from reboot_spec [OF g assms(4,8,10) this, of pid] obtain t where
    t: "reboot pid sb b l = Ret \<lparr>bc = t, lg = (head_of (log_at sb l) (disk b (hblk ?l)))\<lparr>lh_n := 0\<rparr>\<rparr>"
      "disk t = recovered ?l (disk b)" by blast
  have "recovered ?l (disk b) (hblk ?l) = put32 0 0 (disk b (hblk ?l))"
    by (simp add: recovered_def recover_writes_def Let_def apply_writes_append)
  moreover have "length (disk b (hblk ?l)) = BSIZE" using assms(8) by (simp add: bio_boot_def)
  ultimately have "hdr_n (disk t (hblk ?l)) = 0" using t(2) by (simp add: hdr_n_zero BSIZE_def)
  then show ?thesis using t c assms(9) by simp
qed

theorem crash_recovery_witness:
  "\<exists>s s' r. write_50 = Ret s \<and> commit 3 s = Ret s' \<and> reboot 3 sb_zero (bio_zero\<lparr>disk := disk (bc s')\<rparr>) log_zero = Ret r \<and>
    lh_n (lg r) = 0"
proof -
  obtain s where s: "write_50 = Ret s" and inv: "log_inv 3 s ((\<lambda>_. replicate BSIZE 0)(50 := replicate BSIZE 7)) {}"
      and l: "set (logged (lg s)) = {50}" "log_start (lg s) = 2" "log_size (lg s) = 30"
    using write_50_ok by blast
  note D = log_invD [OF inv]
  have n: "0 < lh_n (lg s)" "nat (lh_n (lg s)) < NBUF"
    using l D(4) by (auto simp: logged_def NBUF_def intro: ccontr)
  obtain s' t where c: "commit 3 s = Ret s'" "dwrites (bc s') = dwrites (bc s) @ t" "disk (bc s') = apply_writes t (disk (bc s))"
      and len: "\<And>b. length (disk (bc s') b) = BSIZE"
    using commit_spec [OF D(1) n refl D(6)] bio_absD(3) by fastforce
  have "crash_disk 3 sb_zero s (apply_writes (take (length t) t) (disk (bc s)))" by (rule crash_disk.in_commit [OF c(1,2)])
  then have cr: "crash_disk 3 sb_zero s (disk (bc s'))" by (simp add: c(3))
  have b: "bio_boot (bio_zero\<lparr>disk := disk (bc s')\<rparr>)" using len by (simp add: bio_boot_def bio_zero_def)
  have "sb_log sb_zero (lg s)" using l by (simp add: sb_log_def sb_zero_def)
  moreover have "log_boot log_zero" by (simp add: log_boot_def log_zero_def LOGSIZE_def MAXOPBLOCKS_def)
  ultimately obtain r where "reboot 3 sb_zero (bio_zero\<lparr>disk := disk (bc s')\<rparr>) log_zero = Ret r" "lh_n (lg r) = 0"
    using crash_recovery [OF D(1) n _ D(6,7) cr b, of log_zero] by auto
  then show ?thesis using s c(1) by blast
qed

text \<open>
  C16. A transaction as its user sees it. From any state between two calls of the log interface,
  \<open>begin_op\<close> opens it without touching the cache when the log has room for \<open>MAXOPBLOCKS\<close> more
  blocks per open call; \<open>end_op\<close> never panics, leaves every block outside the log as it is seen,
  and when it closes the last open call, every such block is on the disk and the log is empty.
  When other calls are open, nothing is written.
\<close>

theorem transaction_ends:
  assumes "log_inv pid s vw {}"
  shows "(lh_n (lg s) + (outstanding (lg s) + 1) * MAXOPBLOCKS \<le> LOGSIZE \<longrightarrow>
      (\<exists>s'. begin_op s = Ret s' \<and> log_inv pid s' vw {} \<and> bc s' = bc s \<and> outstanding (lg s') = outstanding (lg s) + 1)) \<and>
    (0 < outstanding (lg s) \<longrightarrow> (\<exists>s' vw'. end_op pid s = Ret s' \<and> log_inv pid s' vw' {} \<and>
       (\<forall>c. c \<notin> log_area (lg s) \<longrightarrow> vw' c = vw c) \<and> outstanding (lg s') = outstanding (lg s) - 1 \<and>
       (if outstanding (lg s) = 1 then lh_n (lg s') = 0 \<and> (\<forall>c. c \<notin> log_area (lg s) \<longrightarrow> disk (bc s') c = vw c)
        else bc s' = bc s \<and> logged (lg s') = logged (lg s))))"
  using begin_op_spec [OF assms] end_op_spec [OF assms] by meson

theorem transaction_ends_witness:
  "\<exists>s s'. write_50 = Ret s \<and> end_op 3 s = Ret s' \<and> disk (bc s') 50 = replicate BSIZE 7 \<and> lh_n (lg s') = 0"
proof -
  obtain s where s: "write_50 = Ret s" "outstanding (lg s) = 1" and l: "log_start (lg s) = 2"
      and inv: "log_inv 3 s ((\<lambda>_. replicate BSIZE 0)(50 := replicate BSIZE 7)) {}"
    using write_50_ok by blast
  have "50 \<notin> log_area (lg s)" using area_zero [OF l, of 50] by auto
  with transaction_ends [OF inv] s show ?thesis by fastforce
qed



end
