(* ===== verification/Fs.thy ===== *)
theory Fs
  imports Log
begin

text \<open>
  The file system, kernel/fs.c with the on-disk structures of kernel/fs.h and the in-memory inodes
  of kernel/file.h: block allocation, inodes, file contents, directories and paths, over the log
  and the buffer cache. An inode pointer is an index into \<open>itable\<close>, a null pointer is \<open>None\<close>. A
  process that finds a sleep lock taken gets \<open>Wait\<close>. C strings are lists of bytes that end at the
  first 0 or at the end of the list.

  \<open>readi\<close> and \<open>writei\<close> copy to and from some memory of type \<open>'m\<close>, by the function that
  \<open>either_copyout\<close> or \<open>either_copyin\<close> is there: user memory, kernel memory, or a local variable
  such as \<open>struct dirent de\<close>, which is an object of its own.
\<close>

section \<open>Structures\<close>

definition FSMAGIC :: u32 where "FSMAGIC = 0x10203040"

definition ROOTINO :: u32 where "ROOTINO = 1"

definition NDIRECT :: nat where "NDIRECT = 12"

definition NINDIRECT :: nat where "NINDIRECT = BSIZE div 4"

definition MAXFILE :: nat where "MAXFILE = NDIRECT + NINDIRECT"

definition IPB :: nat where "IPB = BSIZE div 64"

definition BPB :: nat where "BPB = BSIZE * 8"

definition DIRSIZ :: nat where "DIRSIZ = 14"

definition NINODE :: nat where "NINODE = 50"

definition T_DIR :: u16 where "T_DIR = 1"

definition T_FILE :: u16 where "T_FILE = 2"

definition T_DEVICE :: u16 where "T_DEVICE = 3"

record inode =
  i_dev :: u32
  i_inum :: u32
  i_ref :: int
  i_lock :: sleeplock
  i_valid :: int
  i_type :: u16
  i_major :: u16
  i_minor :: u16
  i_nlink :: u16
  i_size :: u32
  i_addrs :: "u32 list"

record fs =
  fl :: lsys
  fsb :: superblock
  itable :: "nat \<Rightarrow> inode"

definition IBLOCK :: "u32 \<Rightarrow> superblock \<Rightarrow> u32" where
  "IBLOCK i sb = of_nat (unat i div IPB) + sb_inodestart sb"

definition BBLOCK :: "nat \<Rightarrow> superblock \<Rightarrow> u32" where
  "BBLOCK b sb = of_nat (b div BPB) + sb_bmapstart sb"

definition upd_inode :: "nat \<Rightarrow> (inode \<Rightarrow> inode) \<Rightarrow> fs \<Rightarrow> fs" where
  "upd_inode ip f s = s\<lparr>itable := (itable s)(ip := f (itable s ip))\<rparr>"

section \<open>Buffers\<close>

definition bread_f :: "int \<Rightarrow> u32 \<Rightarrow> u32 \<Rightarrow> fs \<Rightarrow> (nat \<times> fs) result" where
  "bread_f pid dev b s =
     rbind (bread pid dev b (bc (fl s))) (\<lambda>(i, t). Ret (i, s\<lparr>fl := (fl s)\<lparr>bc := t\<rparr>\<rparr>))"

definition brelse_f :: "int \<Rightarrow> nat \<Rightarrow> fs \<Rightarrow> fs result" where
  "brelse_f pid i s = rbind (brelse_l pid i (fl s)) (\<lambda>l. Ret (s\<lparr>fl := l\<rparr>))"

definition log_write_f :: "nat \<Rightarrow> fs \<Rightarrow> fs result" where
  "log_write_f i s = rbind (log_write i (fl s)) (\<lambda>l. Ret (s\<lparr>fl := l\<rparr>))"

definition data_f :: "nat \<Rightarrow> fs \<Rightarrow> block" where
  "data_f i s = data_l i (fl s)"

definition store_f :: "nat \<Rightarrow> block \<Rightarrow> fs \<Rightarrow> fs" where
  "store_f i d s = s\<lparr>fl := store_l i d (fl s)\<rparr>"

section \<open>Super block and initialisation\<close>

definition sb_of :: "block \<Rightarrow> superblock" where
  "sb_of d = \<lparr>sb_magic = get32 0 d, sb_size = get32 4 d, sb_nblocks = get32 8 d, sb_ninodes = get32 12 d,
     sb_nlog = get32 16 d, sb_logstart = get32 20 d, sb_inodestart = get32 24 d, sb_bmapstart = get32 28 d\<rparr>"

definition readsb :: "int \<Rightarrow> u32 \<Rightarrow> fs \<Rightarrow> fs result" where
  "readsb pid dev s = rbind (bread_f pid dev 1 s) (\<lambda>(bp, s).
     brelse_f pid bp (s\<lparr>fsb := sb_of (data_f bp s)\<rparr>))"

definition fsinit :: "int \<Rightarrow> u32 \<Rightarrow> fs \<Rightarrow> fs result" where
  "fsinit pid dev s = rbind (readsb pid dev s) (\<lambda>s.
     if sb_magic (fsb s) \<noteq> FSMAGIC then Panic ''invalid file system''
     else rbind (initlog pid (sint dev) (fsb s) (fl s)) (\<lambda>l. Ret (s\<lparr>fl := l\<rparr>)))"

section \<open>Blocks\<close>

definition bzero :: "int \<Rightarrow> u32 \<Rightarrow> u32 \<Rightarrow> fs \<Rightarrow> fs result" where
  "bzero pid dev bno s = rbind (bread_f pid dev bno s) (\<lambda>(bp, s).
     rbind (log_write_f bp (store_f bp (replicate BSIZE 0) s)) (brelse_f pid bp))"

function balloc_bit :: "block \<Rightarrow> nat \<Rightarrow> nat \<Rightarrow> nat \<Rightarrow> nat option" where
  "balloc_bit d b sz bi =
     (if bi < BPB \<and> b + bi < sz then
        if d ! (bi div 8) AND push_bit (bi mod 8) 1 = 0 then Some bi else balloc_bit d b sz (Suc bi)
      else None)"
  by pat_completeness auto
termination
  by (relation "measure (\<lambda>(d, b, sz, bi). BPB - bi)") auto

declare balloc_bit.simps [simp del]

function balloc_loop :: "int \<Rightarrow> u32 \<Rightarrow> nat \<Rightarrow> nat \<Rightarrow> fs \<Rightarrow> (u32 \<times> fs) result" where
  "balloc_loop pid dev sz b s =
     (if b < sz then
        rbind (bread_f pid dev (BBLOCK b (fsb s)) s) (\<lambda>(bp, s).
        case balloc_bit (data_f bp s) b sz 0 of
          Some bi \<Rightarrow>
            let d = data_f bp s in
            rbind (log_write_f bp (store_f bp (d[bi div 8 := d ! (bi div 8) OR push_bit (bi mod 8) 1]) s)) (\<lambda>s.
            rbind (brelse_f pid bp s) (\<lambda>s.
            rbind (bzero pid dev (of_nat (b + bi)) s) (\<lambda>s. Ret (of_nat (b + bi), s))))
        | None \<Rightarrow> rbind (brelse_f pid bp s) (balloc_loop pid dev sz (b + BPB)))
      else Ret (0, s))"
  by pat_completeness auto
termination
  by (relation "measure (\<lambda>(pid, dev, sz, b, s). sz - b)") (auto simp: BPB_def BSIZE_def)

declare balloc_loop.simps [simp del]

definition balloc :: "int \<Rightarrow> u32 \<Rightarrow> fs \<Rightarrow> (u32 \<times> fs) result" where
  "balloc pid dev s = balloc_loop pid dev (unat (sb_size (fsb s))) 0 s"

definition bfree :: "int \<Rightarrow> u32 \<Rightarrow> u32 \<Rightarrow> fs \<Rightarrow> fs result" where
  "bfree pid dev b s = rbind (bread_f pid dev (BBLOCK (unat b) (fsb s)) s) (\<lambda>(bp, s).
     let bi = unat b mod BPB; d = data_f bp s in
     if d ! (bi div 8) AND push_bit (bi mod 8) 1 = 0 then Panic ''freeing free block''
     else rbind (log_write_f bp (store_f bp (d[bi div 8 := d ! (bi div 8) AND NOT (push_bit (bi mod 8) 1)]) s))
            (brelse_f pid bp))"

section \<open>Inodes\<close>

primrec iinit_loop :: "nat \<Rightarrow> fs \<Rightarrow> fs" where
  "iinit_loop 0 s = s"
| "iinit_loop (Suc i) s = upd_inode i (\<lambda>x. x\<lparr>i_lock := initsleeplock\<rparr>) (iinit_loop i s)"

definition iinit :: "fs \<Rightarrow> fs" where "iinit s = iinit_loop NINODE s"

text \<open>The first entry with \<open>P\<close>, from entry \<open>i\<close> on.\<close>

function iscan :: "(inode \<Rightarrow> bool) \<Rightarrow> nat \<Rightarrow> fs \<Rightarrow> nat option" where
  "iscan P i s = (if i < NINODE then if P (itable s i) then Some i else iscan P (Suc i) s else None)"
  by pat_completeness auto
termination
  by (relation "measure (\<lambda>(P, i, s). NINODE - i)") auto

declare iscan.simps [simp del]

definition iget :: "u32 \<Rightarrow> u32 \<Rightarrow> fs \<Rightarrow> (nat \<times> fs) result" where
  "iget dev inum s =
     (case iscan (\<lambda>x. i_ref x > 0 \<and> i_dev x = dev \<and> i_inum x = inum) 0 s of
        Some ip \<Rightarrow> Ret (ip, upd_inode ip (\<lambda>x. x\<lparr>i_ref := i_ref x + 1\<rparr>) s)
      | None \<Rightarrow>
          (case iscan (\<lambda>x. i_ref x = 0) 0 s of
             None \<Rightarrow> Panic ''iget: no inodes''
           | Some ip \<Rightarrow> Ret (ip, upd_inode ip (\<lambda>x. x\<lparr>i_dev := dev, i_inum := inum, i_ref := 1, i_valid := 0\<rparr>) s)))"

definition idup :: "nat \<Rightarrow> fs \<Rightarrow> nat \<times> fs" where
  "idup ip s = (ip, upd_inode ip (\<lambda>x. x\<lparr>i_ref := i_ref x + 1\<rparr>) s)"

text \<open>\<open>(struct dinode*)bp->data + inum%IPB\<close>: the byte offset of the on-disk inode.\<close>

definition dino_off :: "u32 \<Rightarrow> nat" where "dino_off inum = 64 * (unat inum mod IPB)"

definition dinode_put :: "inode \<Rightarrow> nat \<Rightarrow> block \<Rightarrow> block" where
  "dinode_put x off d =
     put32s (off + 12) (i_addrs x) (put32 (off + 8) (i_size x) (put16 (off + 6) (i_nlink x)
       (put16 (off + 4) (i_minor x) (put16 (off + 2) (i_major x) (put16 off (i_type x) d)))))"

definition dinode_get :: "nat \<Rightarrow> block \<Rightarrow> inode \<Rightarrow> inode" where
  "dinode_get off d x = x\<lparr>i_type := get16 off d, i_major := get16 (off + 2) d, i_minor := get16 (off + 4) d,
     i_nlink := get16 (off + 6) d, i_size := get32 (off + 8) d, i_addrs := get32s (off + 12) (NDIRECT + 1) d\<rparr>"

function ialloc_loop :: "int \<Rightarrow> u32 \<Rightarrow> u16 \<Rightarrow> nat \<Rightarrow> nat \<Rightarrow> fs \<Rightarrow> (nat option \<times> fs) result" where
  "ialloc_loop pid dev type n inum s =
     (if inum < n then
        rbind (bread_f pid dev (IBLOCK (of_nat inum) (fsb s)) s) (\<lambda>(bp, s).
        let d = data_f bp s; off = dino_off (of_nat inum) in
        if get16 off d = 0 then
          rbind (log_write_f bp (store_f bp (put16 off type (put_bytes off (replicate 64 0) d)) s)) (\<lambda>s.
          rbind (brelse_f pid bp s) (\<lambda>s.
          rbind (iget dev (of_nat inum) s) (\<lambda>(ip, s). Ret (Some ip, s))))
        else rbind (brelse_f pid bp s) (ialloc_loop pid dev type n (Suc inum)))
      else Ret (None, s))"
  by pat_completeness auto
termination
  by (relation "measure (\<lambda>(pid, dev, type, n, inum, s). n - inum)") auto

declare ialloc_loop.simps [simp del]

definition ialloc :: "int \<Rightarrow> u32 \<Rightarrow> u16 \<Rightarrow> fs \<Rightarrow> (nat option \<times> fs) result" where
  "ialloc pid dev type s = ialloc_loop pid dev type (unat (sb_ninodes (fsb s))) 1 s"

definition iupdate :: "int \<Rightarrow> nat \<Rightarrow> fs \<Rightarrow> fs result" where
  "iupdate pid ip s =
     rbind (bread_f pid (i_dev (itable s ip)) (IBLOCK (i_inum (itable s ip)) (fsb s)) s) (\<lambda>(bp, s).
     rbind (log_write_f bp (store_f bp (dinode_put (itable s ip) (dino_off (i_inum (itable s ip))) (data_f bp s)) s))
       (brelse_f pid bp))"

definition ilock :: "int \<Rightarrow> nat \<Rightarrow> fs \<Rightarrow> fs result" where
  "ilock pid ip s =
     (if i_ref (itable s ip) < 1 then Panic ''ilock''
      else case acquiresleep pid (i_lock (itable s ip)) of
        None \<Rightarrow> Wait
      | Some lk \<Rightarrow>
          let s = upd_inode ip (\<lambda>x. x\<lparr>i_lock := lk\<rparr>) s in
          if i_valid (itable s ip) = 0 then
            rbind (bread_f pid (i_dev (itable s ip)) (IBLOCK (i_inum (itable s ip)) (fsb s)) s) (\<lambda>(bp, s).
            let s = upd_inode ip (\<lambda>x. dinode_get (dino_off (i_inum x)) (data_f bp s) x) s in
            rbind (brelse_f pid bp s) (\<lambda>s.
            let s = upd_inode ip (\<lambda>x. x\<lparr>i_valid := 1\<rparr>) s in
            if i_type (itable s ip) = 0 then Panic ''ilock: no type'' else Ret s))
          else Ret s)"

definition iunlock :: "int \<Rightarrow> nat \<Rightarrow> fs \<Rightarrow> fs result" where
  "iunlock pid ip s =
     (if \<not> holdingsleep pid (i_lock (itable s ip)) \<or> i_ref (itable s ip) < 1 then Panic ''iunlock''
      else Ret (upd_inode ip (\<lambda>x. x\<lparr>i_lock := releasesleep (i_lock x)\<rparr>) s))"

section \<open>File contents\<close>

definition set_addr :: "nat \<Rightarrow> nat \<Rightarrow> u32 \<Rightarrow> fs \<Rightarrow> fs" where
  "set_addr ip k v s = upd_inode ip (\<lambda>x. x\<lparr>i_addrs := (i_addrs x)[k := v]\<rparr>) s"

text \<open>\<open>addrs[k]\<close>, allocated if it is zero; the result is 0 when the disk is full.\<close>

definition bmap_slot :: "int \<Rightarrow> nat \<Rightarrow> nat \<Rightarrow> fs \<Rightarrow> (u32 \<times> fs) result" where
  "bmap_slot pid ip k s =
     (let a = i_addrs (itable s ip) ! k in
      if a = 0 then rbind (balloc pid (i_dev (itable s ip)) s) (\<lambda>(a, s).
        if a = 0 then Ret (0, s) else Ret (a, set_addr ip k a s))
      else Ret (a, s))"

definition bmap :: "int \<Rightarrow> nat \<Rightarrow> nat \<Rightarrow> fs \<Rightarrow> (u32 \<times> fs) result" where
  "bmap pid ip bn s =
     (if bn < NDIRECT then bmap_slot pid ip bn s
      else if bn - NDIRECT < NINDIRECT then
        rbind (bmap_slot pid ip NDIRECT s) (\<lambda>(addr, s).
        if addr = 0 then Ret (0, s)
        else rbind (bread_f pid (i_dev (itable s ip)) addr s) (\<lambda>(bp, s).
          let off = 4 * (bn - NDIRECT); a = get32 off (data_f bp s) in
          if a = 0 then
            rbind (balloc pid (i_dev (itable s ip)) s) (\<lambda>(a, s).
            rbind (if a \<noteq> 0 then log_write_f bp (store_f bp (put32 off a (data_f bp s)) s) else Ret s) (\<lambda>s.
            rbind (brelse_f pid bp s) (\<lambda>s. Ret (a, s))))
          else rbind (brelse_f pid bp s) (\<lambda>s. Ret (a, s))))
      else Panic ''bmap: out of range'')"

function itrunc_direct :: "int \<Rightarrow> nat \<Rightarrow> nat \<Rightarrow> fs \<Rightarrow> fs result" where
  "itrunc_direct pid ip i s =
     (if i < NDIRECT then
        let a = i_addrs (itable s ip) ! i in
        rbind (if a \<noteq> 0 then rbind (bfree pid (i_dev (itable s ip)) a s) (\<lambda>s. Ret (set_addr ip i 0 s)) else Ret s)
          (itrunc_direct pid ip (Suc i))
      else Ret s)"
  by pat_completeness auto
termination
  by (relation "measure (\<lambda>(pid, ip, i, s). NDIRECT - i)") auto

declare itrunc_direct.simps [simp del]

text \<open>The loop over the indirect block; \<open>a\<close> is its buffer, read again at each index.\<close>

function itrunc_indirect :: "int \<Rightarrow> nat \<Rightarrow> nat \<Rightarrow> nat \<Rightarrow> fs \<Rightarrow> fs result" where
  "itrunc_indirect pid ip bp j s =
     (if j < NINDIRECT then
        let a = get32 (4 * j) (data_f bp s) in
        rbind (if a \<noteq> 0 then bfree pid (i_dev (itable s ip)) a s else Ret s) (itrunc_indirect pid ip bp (Suc j))
      else Ret s)"
  by pat_completeness auto
termination
  by (relation "measure (\<lambda>(pid, ip, bp, j, s). NINDIRECT - j)") auto

declare itrunc_indirect.simps [simp del]

definition itrunc :: "int \<Rightarrow> nat \<Rightarrow> fs \<Rightarrow> fs result" where
  "itrunc pid ip s =
     rbind (itrunc_direct pid ip 0 s) (\<lambda>s.
     let a = i_addrs (itable s ip) ! NDIRECT in
     rbind (if a \<noteq> 0 then
         rbind (bread_f pid (i_dev (itable s ip)) a s) (\<lambda>(bp, s).
         rbind (itrunc_indirect pid ip bp 0 s) (\<lambda>s.
         rbind (brelse_f pid bp s) (\<lambda>s.
         rbind (bfree pid (i_dev (itable s ip)) a s) (\<lambda>s. Ret (set_addr ip NDIRECT 0 s)))))
       else Ret s) (\<lambda>s.
     iupdate pid ip (upd_inode ip (\<lambda>x. x\<lparr>i_size := 0\<rparr>) s)))"

definition iput :: "int \<Rightarrow> nat \<Rightarrow> fs \<Rightarrow> fs result" where
  "iput pid ip s =
     rbind
       (if i_ref (itable s ip) = 1 \<and> i_valid (itable s ip) \<noteq> 0 \<and> i_nlink (itable s ip) = 0 then
          (case acquiresleep pid (i_lock (itable s ip)) of
             None \<Rightarrow> Wait
           | Some lk \<Rightarrow>
               rbind (itrunc pid ip (upd_inode ip (\<lambda>x. x\<lparr>i_lock := lk\<rparr>) s)) (\<lambda>s.
               rbind (iupdate pid ip (upd_inode ip (\<lambda>x. x\<lparr>i_type := 0\<rparr>) s)) (\<lambda>s.
               Ret (upd_inode ip (\<lambda>x. x\<lparr>i_valid := 0, i_lock := releasesleep (i_lock x)\<rparr>) s))))
        else Ret s)
       (\<lambda>s. Ret (upd_inode ip (\<lambda>x. x\<lparr>i_ref := i_ref x - 1\<rparr>) s))"

definition iunlockput :: "int \<Rightarrow> nat \<Rightarrow> fs \<Rightarrow> fs result" where
  "iunlockput pid ip s = rbind (iunlock pid ip s) (iput pid ip)"

record stats =
  st_dev :: int
  st_ino :: u32
  st_type :: u16
  st_nlink :: u16
  st_size :: int

definition stati :: "inode \<Rightarrow> stats" where
  "stati x = \<lparr>st_dev = sint (i_dev x), st_ino = i_inum x, st_type = i_type x, st_nlink = i_nlink x, st_size = sint (i_size x)\<rparr>"

definition chunk_len :: "u32 \<Rightarrow> u32 \<Rightarrow> u32 \<Rightarrow> u32" where
  "chunk_len n tot off = min (n - tot) (of_nat BSIZE - off mod of_nat BSIZE)"

lemma chunk_len_bounds:
  assumes "tot < n"
  shows "0 < chunk_len n tot off" "tot < tot + chunk_len n tot off" "tot + chunk_len n tot off \<le> n"
    "unat (chunk_len n tot off) = min (unat n - unat tot) (BSIZE - unat off mod BSIZE)"
    "unat (tot + chunk_len n tot off) = unat tot + unat (chunk_len n tot off)"
proof -
  have B: "(of_nat BSIZE :: u32) = 1024" "unat (1024 :: u32) = 1024" by (simp_all add: BSIZE_def)
  have "off mod 1024 < (1024 :: u32)" by (simp add: word_mod_less_divisor)
  then have b: "unat (1024 - off mod 1024) = 1024 - unat off mod 1024" by (simp add: unat_sub unat_mod_word word_le_nat_alt word_less_nat_alt)
  have a: "unat (n - tot) = unat n - unat tot" using assms by (simp add: unat_sub)
  have pos: "unat tot < unat n" "unat off mod 1024 < 1024" using assms by (simp_all add: word_less_nat_alt)
  show u: "unat (chunk_len n tot off) = min (unat n - unat tot) (BSIZE - unat off mod BSIZE)"
    using a b by (simp add: chunk_len_def B min_def word_le_nat_alt) (simp add: BSIZE_def)
  then have le: "0 < unat (chunk_len n tot off)" "unat tot + unat (chunk_len n tot off) \<le> unat n" using pos by (auto simp: BSIZE_def)
  then show p: "unat (tot + chunk_len n tot off) = unat tot + unat (chunk_len n tot off)"
    using unat_lt32 [of n] by (subst unat_add_lem [THEN iffD1]) auto
  show "0 < chunk_len n tot off" "tot < tot + chunk_len n tot off" "tot + chunk_len n tot off \<le> n"
    using le p by (simp_all add: word_less_nat_alt word_le_nat_alt)
qed

lemma chunk_len_less: "tot < n \<Longrightarrow> unat n - unat (tot + chunk_len n tot off) < unat n - unat tot"
  using chunk_len_bounds(2,3) [of tot n off] by (simp add: word_less_nat_alt word_le_nat_alt)

function readi_loop ::
  "(u64 \<Rightarrow> u8 list \<Rightarrow> 'm \<Rightarrow> (int \<times> 'm) result) \<Rightarrow> int \<Rightarrow> nat \<Rightarrow> u32 \<Rightarrow> u32 \<Rightarrow> u32 \<Rightarrow> u64 \<Rightarrow> fs \<Rightarrow> 'm \<Rightarrow> (int \<times> fs \<times> 'm) result" where
  "readi_loop out pid ip n tot off dst s m =
     (if tot < n then
        rbind (bmap pid ip (unat off div BSIZE) s) (\<lambda>(addr, s).
        if addr = 0 then Ret (sint tot, s, m)
        else rbind (bread_f pid (i_dev (itable s ip)) addr s) (\<lambda>(bp, s).
          let k = chunk_len n tot off in
          rbind (out dst (get_bytes (unat off mod BSIZE) (unat k) (data_f bp s)) m) (\<lambda>(r, m).
          rbind (brelse_f pid bp s) (\<lambda>s.
          if r = - 1 then Ret (- 1, s, m)
          else readi_loop out pid ip n (tot + k) (off + k) (dst + ucast k) s m))))
      else Ret (sint tot, s, m))"
  by pat_completeness auto
termination
by (relation "measure (\<lambda>(out, pid, ip, n, tot, off, dst, s, m). unat n - unat tot)")
    (simp_all only: in_measure prod.case chunk_len_less wf_measure)

declare readi_loop.simps [simp del]

definition readi ::
  "(u64 \<Rightarrow> u8 list \<Rightarrow> 'm \<Rightarrow> (int \<times> 'm) result) \<Rightarrow> int \<Rightarrow> nat \<Rightarrow> u64 \<Rightarrow> u32 \<Rightarrow> u32 \<Rightarrow> fs \<Rightarrow> 'm \<Rightarrow> (int \<times> fs \<times> 'm) result" where
  "readi out pid ip dst off n s m =
     (let sz = i_size (itable s ip) in
      if off > sz \<or> off + n < off then Ret (0, s, m)
      else readi_loop out pid ip (if off + n > sz then sz - off else n) 0 off dst s m)"

function writei_loop ::
  "(u64 \<Rightarrow> nat \<Rightarrow> (int \<times> u8 list) result) \<Rightarrow> int \<Rightarrow> nat \<Rightarrow> u32 \<Rightarrow> u32 \<Rightarrow> u32 \<Rightarrow> u64 \<Rightarrow> fs \<Rightarrow> (u32 \<times> u32 \<times> fs) result" where
  "writei_loop inp pid ip n tot off src s =
     (if tot < n then
        rbind (bmap pid ip (unat off div BSIZE) s) (\<lambda>(addr, s).
        if addr = 0 then Ret (tot, off, s)
        else rbind (bread_f pid (i_dev (itable s ip)) addr s) (\<lambda>(bp, s).
          let k = chunk_len n tot off in
          rbind (inp src (unat k)) (\<lambda>(r, bs).
          let s = store_f bp (put_bytes (unat off mod BSIZE) bs (data_f bp s)) s in
          if r = - 1 then rbind (brelse_f pid bp s) (\<lambda>s. Ret (tot, off, s))
          else rbind (log_write_f bp s) (\<lambda>s.
            rbind (brelse_f pid bp s)
              (writei_loop inp pid ip n (tot + k) (off + k) (src + ucast k))))))
      else Ret (tot, off, s))"
  by pat_completeness auto
termination
by (relation "measure (\<lambda>(inp, pid, ip, n, tot, off, src, s). unat n - unat tot)")
    (simp_all only: in_measure prod.case chunk_len_less wf_measure)

declare writei_loop.simps [simp del]

definition writei ::
  "(u64 \<Rightarrow> nat \<Rightarrow> (int \<times> u8 list) result) \<Rightarrow> int \<Rightarrow> nat \<Rightarrow> u64 \<Rightarrow> u32 \<Rightarrow> u32 \<Rightarrow> fs \<Rightarrow> (int \<times> fs) result" where
  "writei inp pid ip src off n s =
     (if off > i_size (itable s ip) \<or> off + n < off then Ret (- 1, s)
      else if unat (off + n) > MAXFILE * BSIZE then Ret (- 1, s)
      else rbind (writei_loop inp pid ip n 0 off src s) (\<lambda>(tot, off, s).
        let s = (if off > i_size (itable s ip) then upd_inode ip (\<lambda>x. x\<lparr>i_size := off\<rparr>) s else s) in
        rbind (iupdate pid ip s) (\<lambda>s. Ret (sint tot, s))))"

section \<open>Directories\<close>

definition chd :: "u8 list \<Rightarrow> u8" where
  "chd s = (case s of [] \<Rightarrow> 0 | c # _ \<Rightarrow> c)"

primrec strncmp_l :: "nat \<Rightarrow> u8 list \<Rightarrow> u8 list \<Rightarrow> int" where
  "strncmp_l 0 p q = 0"
| "strncmp_l (Suc n) p q =
     (if chd p \<noteq> 0 \<and> chd p = chd q then strncmp_l n (tl p) (tl q) else uint (chd p) - uint (chd q))"

definition namecmp :: "u8 list \<Rightarrow> u8 list \<Rightarrow> int" where
  "namecmp s t = strncmp_l DIRSIZ s t"

primrec strncpy_l :: "nat \<Rightarrow> u8 list \<Rightarrow> u8 list" where
  "strncpy_l 0 t = []"
| "strncpy_l (Suc n) t = (if chd t \<noteq> 0 then chd t # strncpy_l n (tl t) else replicate (Suc n) 0)"

definition de_inum :: "u8 list \<Rightarrow> u16" where "de_inum de = get16 0 de"

definition de_name :: "u8 list \<Rightarrow> u8 list" where "de_name de = drop 2 de"

definition local_out :: "u64 \<Rightarrow> u8 list \<Rightarrow> u8 list \<Rightarrow> (int \<times> u8 list) result" where
  "local_out dst bs m = Ret (0, put_bytes (unat dst) bs m)"

definition local_in :: "u8 list \<Rightarrow> u64 \<Rightarrow> nat \<Rightarrow> (int \<times> u8 list) result" where
  "local_in m src len = Ret (0, get_bytes (unat src) len m)"

definition read_de :: "int \<Rightarrow> nat \<Rightarrow> nat \<Rightarrow> fs \<Rightarrow> (int \<times> fs \<times> u8 list) result" where
  "read_de pid dp off s = readi local_out pid dp 0 (of_nat off) 16 s (replicate 16 0)"

function dirlookup_loop :: "int \<Rightarrow> nat \<Rightarrow> u8 list \<Rightarrow> nat \<Rightarrow> nat \<Rightarrow> fs \<Rightarrow> ((nat \<times> nat) option \<times> fs) result" where
  "dirlookup_loop pid dp name sz off s =
     (if off < sz then
        rbind (read_de pid dp off s) (\<lambda>(r, s, de).
        if r \<noteq> 16 then Panic ''dirlookup read''
        else if de_inum de = 0 then dirlookup_loop pid dp name sz (off + 16) s
        else if namecmp name (de_name de) = 0
        then rbind (iget (i_dev (itable s dp)) (ucast (de_inum de)) s) (\<lambda>(ip, s). Ret (Some (ip, off), s))
        else dirlookup_loop pid dp name sz (off + 16) s)
      else Ret (None, s))"
  by pat_completeness auto
termination
  by (relation "measure (\<lambda>(pid, dp, name, sz, off, s). sz - off)") auto

declare dirlookup_loop.simps [simp del]

definition dirlookup :: "int \<Rightarrow> nat \<Rightarrow> u8 list \<Rightarrow> fs \<Rightarrow> ((nat \<times> nat) option \<times> fs) result" where
  "dirlookup pid dp name s =
     (if i_type (itable s dp) \<noteq> T_DIR then Panic ''dirlookup not DIR''
      else dirlookup_loop pid dp name (unat (i_size (itable s dp))) 0 s)"

function dirlink_scan :: "int \<Rightarrow> nat \<Rightarrow> nat \<Rightarrow> nat \<Rightarrow> fs \<Rightarrow> (nat \<times> fs) result" where
  "dirlink_scan pid dp sz off s =
     (if off < sz then
        rbind (read_de pid dp off s) (\<lambda>(r, s, de).
        if r \<noteq> 16 then Panic ''dirlink read''
        else if de_inum de = 0 then Ret (off, s)
        else dirlink_scan pid dp sz (off + 16) s)
      else Ret (off, s))"
  by pat_completeness auto
termination
  by (relation "measure (\<lambda>(pid, dp, sz, off, s). sz - off)") auto

declare dirlink_scan.simps [simp del]

definition dirlink :: "int \<Rightarrow> nat \<Rightarrow> u8 list \<Rightarrow> u32 \<Rightarrow> fs \<Rightarrow> (int \<times> fs) result" where
  "dirlink pid dp name inum s =
     rbind (dirlookup pid dp name s) (\<lambda>(found, s).
     case found of
       Some (ip, _) \<Rightarrow> rbind (iput pid ip s) (\<lambda>s. Ret (- 1, s))
     | None \<Rightarrow>
         rbind (dirlink_scan pid dp (unat (i_size (itable s dp))) 0 s) (\<lambda>(off, s).
         rbind (writei (local_in (le_bytes 2 (ucast inum :: u16) @ strncpy_l DIRSIZ name)) pid dp 0 (of_nat off) 16 s) (\<lambda>(r, s).
         Ret (if r \<noteq> 16 then - 1 else 0, s))))"

section \<open>Paths\<close>

definition skipelem :: "u8 list \<Rightarrow> (u8 list \<times> u8 list) option" where
  "skipelem path =
     (let path = dropWhile (\<lambda>c. c = 47) path in
      if chd path = 0 then None
      else let elem = takeWhile (\<lambda>c. c \<noteq> 47 \<and> c \<noteq> 0) path;
               path = dropWhile (\<lambda>c. c \<noteq> 47 \<and> c \<noteq> 0) path
        in Some (dropWhile (\<lambda>c. c = 47) path, take DIRSIZ elem))"

lemma skipelem_shorter: "skipelem path = Some (rest, name) \<Longrightarrow> length rest < length path"
proof -
  assume a: "skipelem path = Some (rest, name)"
  define q where "q = dropWhile (\<lambda>c. c = 47) path"
  have q: "chd q \<noteq> 0" "rest = dropWhile (\<lambda>c. c = 47) (dropWhile (\<lambda>c. c \<noteq> 47 \<and> c \<noteq> 0) q)"
    using a by (auto simp: skipelem_def Let_def q_def split: if_splits)
  then obtain c r where c: "q = c # r" "c \<noteq> 0" by (cases q) (auto simp: chd_def)
  have "c \<noteq> 47" using hd_dropWhile [of "\<lambda>c. c = 47" path, folded q_def] c(1) by simp
  then have "rest = dropWhile (\<lambda>c. c = 47) (dropWhile (\<lambda>c. c \<noteq> 47 \<and> c \<noteq> 0) r)" using q(2) c by simp
  then have "length rest \<le> length r"
    using length_dropWhile_le [of "\<lambda>c. c = 47" "dropWhile (\<lambda>c. c \<noteq> 47 \<and> c \<noteq> 0) r"]
      length_dropWhile_le [of "\<lambda>c. c \<noteq> 47 \<and> c \<noteq> 0" r] by simp
  moreover have "length q \<le> length path" unfolding q_def by (rule length_dropWhile_le)
  ultimately show ?thesis using c(1) by simp
qed

function namex_loop :: "int \<Rightarrow> bool \<Rightarrow> u8 list \<Rightarrow> u8 list \<Rightarrow> nat \<Rightarrow> fs \<Rightarrow> ((nat option \<times> u8 list) \<times> fs) result" where
  "namex_loop pid parent path name ip s =
     (case skipelem path of
        None \<Rightarrow>
          if parent then rbind (iput pid ip s) (\<lambda>s. Ret ((None, name), s))
          else Ret ((Some ip, name), s)
      | Some (path, name) \<Rightarrow>
          rbind (ilock pid ip s) (\<lambda>s.
          if i_type (itable s ip) \<noteq> T_DIR then rbind (iunlockput pid ip s) (\<lambda>s. Ret ((None, name), s))
          else if parent \<and> chd path = 0 then rbind (iunlock pid ip s) (\<lambda>s. Ret ((Some ip, name), s))
          else rbind (dirlookup pid ip name s) (\<lambda>(found, s).
            rbind (iunlockput pid ip s) (\<lambda>s.
            case found of
              None \<Rightarrow> Ret ((None, name), s)
            | Some (nxt, _) \<Rightarrow> namex_loop pid parent path name nxt s))))"
  by pat_completeness auto
termination
  by (relation "measure (\<lambda>(pid, parent, path, name, ip, s). length path)") (auto simp del: split_paired_All dest: skipelem_shorter [OF trans, OF _ arg_cong [where f = Some, OF sym]])

declare namex_loop.simps [simp del]

definition namex :: "int \<Rightarrow> nat \<Rightarrow> u8 list \<Rightarrow> bool \<Rightarrow> fs \<Rightarrow> ((nat option \<times> u8 list) \<times> fs) result" where
  "namex pid cwd path parent s =
     rbind (if chd path = 47 then iget ROOTDEV ROOTINO s else Ret (idup cwd s)) (\<lambda>(ip, s).
     namex_loop pid parent path [] ip s)"

definition namei :: "int \<Rightarrow> nat \<Rightarrow> u8 list \<Rightarrow> fs \<Rightarrow> (nat option \<times> fs) result" where
  "namei pid cwd path s = rbind (namex pid cwd path False s) (\<lambda>((ip, _), s). Ret (ip, s))"

definition nameiparent :: "int \<Rightarrow> nat \<Rightarrow> u8 list \<Rightarrow> fs \<Rightarrow> ((nat option \<times> u8 list) \<times> fs) result" where
  "nameiparent pid cwd path s = namex pid cwd path True s"

end
