(* ===== verification/Printf.thy ===== *)
theory Printf
  imports Prelude
begin

text \<open>
  Formatted output: kernel/printf.c and user/printf.c, and \<open>atoi\<close> of user/ulib.c. The bytes handed
  to \<open>consputc\<close> or \<open>putc\<close> are the result, in order. A variable argument is a value of type \<open>parg\<close>;
  \<open>va_arg\<close> with the wrong type, or past the last argument, is undefined, as is \<open>-xx\<close> on the smallest
  \<open>int\<close>. \<open>printint\<close> is called with base 10 and 16 only; the digits are collected in the order of
  \<open>buf\<close>.
\<close>

section \<open>Definitions\<close>

datatype parg = PInt int | PLong u64 | PStr "u8 list option"

definition kdigits :: "u8 list" where
  "kdigits = [48, 49, 50, 51, 52, 53, 54, 55, 56, 57, 97, 98, 99, 100, 101, 102]"

definition udigits :: "u8 list" where
  "udigits = [48, 49, 50, 51, 52, 53, 54, 55, 56, 57, 65, 66, 67, 68, 69, 70]"

function int_digits :: "u8 list \<Rightarrow> nat \<Rightarrow> u32 \<Rightarrow> u8 list" where
  "int_digits ds base x =
     (if base < 2 \<or> base \<ge> 2 ^ 31 then []
      else
        let y = x div of_nat base in
        ds ! unat (x mod of_nat base) # (if y \<noteq> 0 then int_digits ds base y else []))"
  by pat_completeness auto
termination
proof (relation "measure (\<lambda>(ds, base, x). unat x)")
  fix ds :: "u8 list" and base :: nat and x y :: u32
  assume b: "\<not> (base < 2 \<or> base \<ge> 2 ^ 31)" and y: "y = x div of_nat base" "y \<noteq> 0"
  from b have u: "unat (of_nat base :: u32) = base" by (simp add: unat_of_nat take_bit_nat_eq_self)
  then have "unat y = unat x div base" using y(1) by (simp add: unat_div)
  moreover have "unat x \<noteq> 0" using y by (auto simp: unat_eq_0)
  ultimately show "((ds, base, y), (ds, base, x)) \<in> measure (\<lambda>(ds, base, x). unat x)" using b by simp
qed simp

declare int_digits.simps [simp del]

definition printint :: "u8 list \<Rightarrow> int \<Rightarrow> nat \<Rightarrow> bool \<Rightarrow> u8 list result" where
  "printint ds xx base sg =
     (if sg \<and> xx < 0 then
        if xx = - (2 ^ 31) then Undef else Ret (rev (int_digits ds base (of_int (- xx)) @ [45]))
      else Ret (rev (int_digits ds base (of_int xx))))"

primrec ptr_digits :: "u8 list \<Rightarrow> nat \<Rightarrow> u64 \<Rightarrow> u8 list" where
  "ptr_digits ds 0 x = []"
| "ptr_digits ds (Suc n) x = ds ! unat (drop_bit 60 x) # ptr_digits ds n (push_bit 4 x)"

definition printptr :: "u8 list \<Rightarrow> u64 \<Rightarrow> u8 list" where
  "printptr ds x = [48, 120] @ ptr_digits ds 16 x"

text \<open>The text of a string argument; \<open>"(null)"\<close> for a null pointer.\<close>

definition str_arg :: "u8 list option \<Rightarrow> u8 list" where
  "str_arg s = (case s of None \<Rightarrow> [40, 110, 117, 108, 108, 41] | Some s \<Rightarrow> takeWhile (\<lambda>c. c \<noteq> 0) s)"

text \<open>One conversion of the kernel's \<open>printf\<close>: the bytes, and the arguments left.\<close>

definition kconv :: "u8 \<Rightarrow> parg list \<Rightarrow> (u8 list \<times> parg list) result" where
  "kconv c args =
     (if c = 100 then (case args of PInt n # args \<Rightarrow> rbind (printint kdigits n 10 True) (\<lambda>o1. Ret (o1, args)) | _ \<Rightarrow> Undef)
      else if c = 120 then (case args of PInt n # args \<Rightarrow> rbind (printint kdigits n 16 True) (\<lambda>o1. Ret (o1, args)) | _ \<Rightarrow> Undef)
      else if c = 112 then (case args of PLong p # args \<Rightarrow> Ret (printptr kdigits p, args) | _ \<Rightarrow> Undef)
      else if c = 115 then (case args of PStr s # args \<Rightarrow> Ret (str_arg s, args) | _ \<Rightarrow> Undef)
      else if c = 37 then Ret ([37], args)
      else Ret ([37, c], args))"

fun kprintf :: "u8 list \<Rightarrow> parg list \<Rightarrow> u8 list result" where
  "kprintf [] args = Ret []"
| "kprintf [c] args = (if c = 0 \<or> c = 37 then Ret [] else Ret [c])"
| "kprintf (c # d # fmt) args =
     (if c = 0 then Ret []
      else if c \<noteq> 37 then rbind (kprintf (d # fmt) args) (\<lambda>o2. Ret (c # o2))
      else if d = 0 then Ret []
      else rbind (kconv d args) (\<lambda>(o1, args). rbind (kprintf fmt args) (\<lambda>o2. Ret (o1 @ o2))))"

text \<open>One conversion of the user library's \<open>vprintf\<close>, and the loop with its state.\<close>

definition uconv :: "u8 \<Rightarrow> parg list \<Rightarrow> (u8 list \<times> parg list) result" where
  "uconv c args =
     (if c = 100 then (case args of PInt n # args \<Rightarrow> rbind (printint udigits n 10 True) (\<lambda>o1. Ret (o1, args)) | _ \<Rightarrow> Undef)
      else if c = 108 then
        (case args of PLong n # args \<Rightarrow> rbind (printint udigits (sint (ucast n :: u32)) 10 False) (\<lambda>o1. Ret (o1, args)) | _ \<Rightarrow> Undef)
      else if c = 120 then (case args of PInt n # args \<Rightarrow> rbind (printint udigits n 16 False) (\<lambda>o1. Ret (o1, args)) | _ \<Rightarrow> Undef)
      else if c = 112 then (case args of PLong p # args \<Rightarrow> Ret (printptr udigits p, args) | _ \<Rightarrow> Undef)
      else if c = 115 then (case args of PStr s # args \<Rightarrow> Ret (str_arg s, args) | _ \<Rightarrow> Undef)
      else if c = 99 then (case args of PInt n # args \<Rightarrow> Ret ([of_int n], args) | _ \<Rightarrow> Undef)
      else if c = 37 then Ret ([c], args)
      else Ret ([37, c], args))"

primrec vprintf :: "u8 list \<Rightarrow> bool \<Rightarrow> parg list \<Rightarrow> u8 list result" where
  "vprintf [] st args = Ret []"
| "vprintf (c # fmt) st args =
     (if c = 0 then Ret []
      else if \<not> st then
        if c = 37 then vprintf fmt True args
        else rbind (vprintf fmt False args) (\<lambda>o2. Ret (c # o2))
      else rbind (uconv c args) (\<lambda>(o1, args). rbind (vprintf fmt False args) (\<lambda>o2. Ret (o1 @ o2))))"

text \<open>\<open>atoi\<close>; \<open>n*10 + *s++ - '0'\<close> is undefined when it leaves the range of \<open>int\<close>.\<close>

primrec atoi_loop :: "u8 list \<Rightarrow> int \<Rightarrow> int result" where
  "atoi_loop [] n = Ret n"
| "atoi_loop (c # s) n =
     (if 48 \<le> c \<and> c \<le> 57 then
        if n * 10 + uint c \<ge> 2 ^ 31 then Undef else atoi_loop s (n * 10 + uint c - 48)
      else Ret n)"

definition atoi :: "u8 list \<Rightarrow> int result" where "atoi s = atoi_loop s 0"

section \<open>Printing and reading back\<close>

lemma digit_char: "d < 10 \<Longrightarrow> uint (udigits ! d) = 48 + int d" for d :: nat
proof -
  assume "d < 10"
  then have "d \<in> {0, 1, 2, 3, 4, 5, 6, 7, 8, 9}" by auto
  then show ?thesis by (auto simp: udigits_def)
qed

lemma int_digits_10: "int_digits ds 10 x = ds ! unat (x mod 10) # (if x div 10 \<noteq> 0 then int_digits ds 10 (x div 10) else [])"
  by (subst int_digits.simps) (simp add: Let_def)

lemma div_10: "unat (x div 10 :: u32) = unat x div 10" "unat (x mod 10 :: u32) = unat x mod 10"
  by (simp_all add: unat_div unat_mod)

lemma int_digits_length: "unat x < 10 ^ Suc k \<Longrightarrow> length (int_digits ds 10 x) \<le> Suc k"
proof (induction k arbitrary: x)
  case 0
  then have "x div 10 = 0" by (metis div_10(1) div_less power_one_right unat_eq_0 One_nat_def)
  then show ?case by (subst int_digits_10) simp
next
  case (Suc k)
  have "unat (x div 10) < 10 ^ Suc k" using Suc.prems unfolding div_10 by (simp add: less_mult_imp_div_less mult.commute)
  from Suc.IH [OF this] show ?case by (subst int_digits_10) simp
qed

lemma atoi_digit: "48 \<le> uint c \<Longrightarrow> uint c \<le> 57 \<Longrightarrow> n * 10 + uint c < 2 ^ 31 \<Longrightarrow> atoi_loop (c # s) n = atoi_loop s (n * 10 + uint c - 48)"
  by (simp add: word_le_def)

lemma atoi_digits: "uint x + 48 < 2 ^ 31 \<Longrightarrow> atoi_loop (rev (int_digits udigits 10 x) @ s) 0 = atoi_loop s (uint x)"
proof (induction "unat x" arbitrary: x s rule: less_induct)
  case less
  let ?y = "x div 10" let ?d = "udigits ! unat (x mod 10)"
  have d: "uint ?d = 48 + uint x mod 10"
  proof -
    have "int (unat (x mod 10)) = uint x mod 10" unfolding div_10 zmod_int by simp
    moreover have "unat (x mod 10) < 10" unfolding div_10 by simp
    ultimately show ?thesis using digit_char [of "unat (x mod 10)"] by linarith
  qed
  have y: "uint ?y = uint x div 10" by (simp add: uint_div)
  have step: "atoi_loop (?d # s) (uint ?y) = atoi_loop s (uint x)"
    using less.prems d y by (subst atoi_digit) (auto intro: arg_cong [of _ _ "atoi_loop s"])
  show ?case
  proof (cases "?y = 0")
    case True
    then show ?thesis using step by (subst int_digits_10) simp
  next
    case False
    then have "unat x \<noteq> 0" by (auto simp: unat_eq_0)
    then have "unat ?y < unat x" unfolding div_10 by (intro div_less_dividend) auto
    then have "atoi_loop (rev (int_digits udigits 10 ?y) @ ?d # s) 0 = atoi_loop (?d # s) (uint ?y)"
      using less.prems y by (intro less.hyps) auto
    then show ?thesis using False step by (subst int_digits_10) simp
  qed
qed

text \<open>
  C32. A number printed by the user library's \<open>printf("%d")\<close> is read back by \<open>atoi\<close>: for every
  non-negative \<open>int\<close> that stays 48 below the largest one (the sum \<open>n*10 + *s++\<close> overflows before
  \<open>'0'\<close> is taken off), and the digits fit into the 16 bytes of \<open>buf\<close>.
\<close>

theorem printint_atoi:
  assumes "0 \<le> n" "n + 48 < 2 ^ 31"
  shows "\<exists>ds. printint udigits n 10 True = Ret ds \<and> length ds \<le> 16 \<and> atoi ds = Ret n"
proof -
  have u: "uint (of_int n :: u32) = n" using assms by (simp add: uint_word_of_int)
  have "unat (of_int n :: u32) < 10 ^ Suc 15" by (rule order.strict_trans2 [OF unsigned_less]) simp
  from int_digits_length [OF this] have "length (int_digits udigits 10 (of_int n)) \<le> 16" by simp
  moreover have "atoi_loop (rev (int_digits udigits 10 (of_int n)) @ []) 0 = atoi_loop [] n"
    using assms by (subst atoi_digits) (simp_all only: u)
  ultimately show ?thesis using assms by (simp add: printint_def atoi_def)
qed

theorem printint_atoi_witness: "\<exists>ds. printint udigits 2147483599 10 True = Ret ds \<and> atoi ds = Ret 2147483599"
  using printint_atoi [of 2147483599] by auto

end
