(* ===== verification/Kernel.thy ===== *)
theory Kernel
  imports Vm_Properties Pipe Console Virtio Fs Printf
begin

text \<open>
  The kernel state as a whole, and the process table of kernel/proc.c: process and file structures,
  the tables that hold them, and the operations on processes that involve neither files nor the
  file system. The current process \<open>myproc()\<close> is the argument \<open>cur\<close>, an index into \<open>proc\<close>. The
  registers a process saved in its trap frame are bytes of physical memory, in the page
  \<open>p->trapframe\<close> points to. The structure of a pipe is kept apart from the bytes of its page.

  A call is followed as long as it runs without sleeping: the outcome \<open>Wait\<close> says that it has to
  sleep first. The segments of the calls that sleep on a condition of their own (pipes, console,
  \<open>wait\<close>) are modelled where that condition is.
\<close>

section \<open>State\<close>

definition NPROC :: nat where "NPROC = 64"

definition NOFILE :: nat where "NOFILE = 16"

definition NFILE :: nat where "NFILE = 100"

definition NDEV :: int where "NDEV = 10"

definition MAXARG :: nat where "MAXARG = 32"

definition MAXPATH :: nat where "MAXPATH = 128"

definition TRAMPOLINE :: u64 where "TRAMPOLINE = MAXVA - PGSIZE"

definition TRAPFRAME :: u64 where "TRAPFRAME = TRAMPOLINE - PGSIZE"

definition KSTACK :: "nat \<Rightarrow> u64" where "KSTACK p = TRAMPOLINE - of_nat (p + 1) * 2 * PGSIZE"

datatype procstate = UNUSED | USED | SLEEPING | RUNNABLE | RUNNING | ZOMBIE

datatype chan = Proc_chan nat | Pipe_chan pchan u64 | Log_chan | Ticks_chan | Cons_chan | Lock_chan nat | Buf_chan nat

text \<open>
  \<open>struct proc\<close>. The fields that no reachable code reads (\<open>create_time\<close>, \<open>terminate_time\<close>,
  \<open>running_time\<close>, \<open>trac\<close> and those for alarms) are left out, and so are the callee-saved registers
  of \<open>context\<close>.
\<close>

record proc =
  pstate :: procstate
  pchan :: "chan option"
  killed_flag :: int
  xstate :: int
  p_pid :: int
  priority :: int
  tracemask :: int
  parent :: "nat option"
  kstack :: u64
  p_sz :: u64
  pagetable :: u64
  trapframe :: u64
  context_ra :: u64
  context_sp :: u64
  ofile :: "nat option list"
  cwd :: "nat option"
  p_name :: "u8 list"
  rtime :: u32
  ctime :: u32
  etime :: u32

text \<open>The registers of \<open>struct trapframe\<close> with their offsets.\<close>

datatype tfreg = TF_kernel_satp | TF_kernel_sp | TF_kernel_trap | TF_epc | TF_kernel_hartid | TF_ra | TF_sp | TF_gp | TF_tp
  | TF_t0 | TF_t1 | TF_t2 | TF_s0 | TF_s1 | TF_a0 | TF_a1 | TF_a2 | TF_a3 | TF_a4 | TF_a5 | TF_a6 | TF_a7 | TF_s2 | TF_s3
  | TF_s4 | TF_s5 | TF_s6 | TF_s7 | TF_s8 | TF_s9 | TF_s10 | TF_s11 | TF_t3 | TF_t4 | TF_t5 | TF_t6

primrec tf_off :: "tfreg \<Rightarrow> u64" where
  "tf_off TF_kernel_satp = 0" | "tf_off TF_kernel_sp = 8" | "tf_off TF_kernel_trap = 16" | "tf_off TF_epc = 24"
| "tf_off TF_kernel_hartid = 32" | "tf_off TF_ra = 40" | "tf_off TF_sp = 48" | "tf_off TF_gp = 56" | "tf_off TF_tp = 64"
| "tf_off TF_t0 = 72" | "tf_off TF_t1 = 80" | "tf_off TF_t2 = 88" | "tf_off TF_s0 = 96" | "tf_off TF_s1 = 104"
| "tf_off TF_a0 = 112" | "tf_off TF_a1 = 120" | "tf_off TF_a2 = 128" | "tf_off TF_a3 = 136" | "tf_off TF_a4 = 144"
| "tf_off TF_a5 = 152" | "tf_off TF_a6 = 160" | "tf_off TF_a7 = 168" | "tf_off TF_s2 = 176" | "tf_off TF_s3 = 184"
| "tf_off TF_s4 = 192" | "tf_off TF_s5 = 200" | "tf_off TF_s6 = 208" | "tf_off TF_s7 = 216" | "tf_off TF_s8 = 224"
| "tf_off TF_s9 = 232" | "tf_off TF_s10 = 240" | "tf_off TF_s11 = 248" | "tf_off TF_t3 = 256" | "tf_off TF_t4 = 264"
| "tf_off TF_t5 = 272" | "tf_off TF_t6 = 280"

definition TF_SIZE :: nat where "TF_SIZE = 288"

datatype ftype = FD_NONE | FD_PIPE | FD_INODE | FD_DEVICE

record file_s =
  f_type :: ftype
  f_ref :: int
  f_readable :: bool
  f_writable :: bool
  f_pipe :: u64
  f_ip :: nat
  f_off :: u32
  f_major :: int

record kernel =
  kfs :: fs
  km :: kmem
  pipes :: "u64 \<Rightarrow> pipe"
  ftable :: "nat \<Rightarrow> file_s"
  procs :: "nat \<Rightarrow> proc"
  ptable :: "nat \<Rightarrow> proc"
  nextpid :: int
  ticks :: u32
  initproc :: nat
  con :: cons
  console_out :: "u8 list"
  devsw :: "int \<Rightarrow> bool"
  ku :: uart
  kv :: vdisk
  kernel_pagetable :: u64

text \<open>Addresses the linker fixes: the end of the kernel, the trampoline page, the entry of \<open>forkret\<close> and the end of the kernel text.\<close>

record image =
  kend :: u64
  trampoline :: u64
  forkret_pc :: u64
  etext :: u64

definition upd_proc :: "nat \<Rightarrow> (proc \<Rightarrow> proc) \<Rightarrow> kernel \<Rightarrow> kernel" where
  "upd_proc p f s = s\<lparr>procs := (procs s)(p := f (procs s p))\<rparr>"

definition upd_file :: "nat \<Rightarrow> (file_s \<Rightarrow> file_s) \<Rightarrow> kernel \<Rightarrow> kernel" where
  "upd_file i f s = s\<lparr>ftable := (ftable s)(i := f (ftable s i))\<rparr>"

text \<open>A register of the trap frame of process \<open>p\<close>.\<close>

definition tf_get :: "nat \<Rightarrow> tfreg \<Rightarrow> kernel \<Rightarrow> u64" where
  "tf_get p r s = load64 (mem (km s)) (trapframe (procs s p) + tf_off r)"

definition tf_set :: "nat \<Rightarrow> tfreg \<Rightarrow> u64 \<Rightarrow> kernel \<Rightarrow> kernel" where
  "tf_set p r v s = s\<lparr>km := (km s)\<lparr>mem := store64 (mem (km s)) (trapframe (procs s p) + tf_off r) v\<rparr>\<rparr>"

text \<open>An operation on memory or on the file system, run in the kernel state.\<close>

definition on_km :: "(kmem \<Rightarrow> ('a \<times> kmem) result) \<Rightarrow> kernel \<Rightarrow> ('a \<times> kernel) result" where
  "on_km f s = rbind (f (km s)) (\<lambda>(r, m). Ret (r, s\<lparr>km := m\<rparr>))"

definition do_km :: "(kmem \<Rightarrow> kmem result) \<Rightarrow> kernel \<Rightarrow> kernel result" where
  "do_km f s = rbind (f (km s)) (\<lambda>m. Ret (s\<lparr>km := m\<rparr>))"

definition on_fs :: "(fs \<Rightarrow> ('a \<times> fs) result) \<Rightarrow> kernel \<Rightarrow> ('a \<times> kernel) result" where
  "on_fs f s = rbind (f (kfs s)) (\<lambda>(r, t). Ret (r, s\<lparr>kfs := t\<rparr>))"

definition do_fs :: "(fs \<Rightarrow> fs result) \<Rightarrow> kernel \<Rightarrow> kernel result" where
  "do_fs f s = rbind (f (kfs s)) (\<lambda>t. Ret (s\<lparr>kfs := t\<rparr>))"

definition do_log :: "(lsys \<Rightarrow> lsys result) \<Rightarrow> kernel \<Rightarrow> kernel result" where
  "do_log f s = rbind (f (fl (kfs s))) (\<lambda>l. Ret (s\<lparr>kfs := (kfs s)\<lparr>fl := l\<rparr>\<rparr>))"

text \<open>\<open>begin_op(); f; end_op();\<close>\<close>

definition in_op :: "int \<Rightarrow> (fs \<Rightarrow> fs result) \<Rightarrow> kernel \<Rightarrow> kernel result" where
  "in_op pid f s = rbind (do_log begin_op s) (\<lambda>s. rbind (do_fs f s) (do_log (end_op pid)))"

text \<open>\<open>safestrcpy(s, t, k + 1)\<close> on the bytes of an array.\<close>

primrec safestrcpy_l :: "nat \<Rightarrow> u8 list \<Rightarrow> u8 list \<Rightarrow> u8 list" where
  "safestrcpy_l 0 s t = 0 # tl s"
| "safestrcpy_l (Suc k) s t = (if chd t \<noteq> 0 then chd t # safestrcpy_l k (tl s) (tl t) else 0 # 0 # drop 2 s)"

text \<open>\<open>printf\<close> to the console.\<close>

definition str :: "string \<Rightarrow> u8 list" where "str s = map of_char s"

definition print :: "u8 list \<Rightarrow> parg list \<Rightarrow> kernel \<Rightarrow> kernel result" where
  "print fmt args s = rbind (kprintf fmt args) (\<lambda>bs. Ret (s\<lparr>console_out := console_out s @ bs\<rparr>))"

section \<open>Process identifiers\<close>

definition allocpid :: "kernel \<Rightarrow> (int \<times> kernel) result" where
  "allocpid s = (if nextpid s \<ge> 2 ^ 31 - 1 then Undef else Ret (nextpid s, s\<lparr>nextpid := nextpid s + 1\<rparr>))"

primrec procinit_loop :: "nat \<Rightarrow> kernel \<Rightarrow> kernel" where
  "procinit_loop 0 s = s"
| "procinit_loop (Suc p) s = upd_proc p (\<lambda>x. x\<lparr>pstate := UNUSED, kstack := KSTACK p\<rparr>) (procinit_loop p s)"

definition procinit :: "kernel \<Rightarrow> kernel" where "procinit s = procinit_loop NPROC s"

primrec proc_mapstacks_loop :: "nat \<Rightarrow> u64 \<Rightarrow> kmem \<Rightarrow> kmem result" where
  "proc_mapstacks_loop 0 kpgtbl m = Ret m"
| "proc_mapstacks_loop (Suc p) kpgtbl m = rbind (proc_mapstacks_loop p kpgtbl m) (\<lambda>m.
     rbind (kalloc m) (\<lambda>(pa, m).
     if pa = 0 then Panic ''kalloc''
     else kvmmap kpgtbl (KSTACK p) pa PGSIZE (PTE_R OR PTE_W) m))"

definition proc_mapstacks :: "u64 \<Rightarrow> kmem \<Rightarrow> kmem result" where
  "proc_mapstacks kpgtbl m = proc_mapstacks_loop NPROC kpgtbl m"

section \<open>Address spaces\<close>

definition proc_pagetable :: "image \<Rightarrow> u64 \<Rightarrow> kmem \<Rightarrow> (u64 \<times> kmem) result" where
  "proc_pagetable K tf m =
     rbind (uvmcreate m) (\<lambda>(pt, m).
     if pt = 0 then Ret (0, m)
     else rbind (mappages pt TRAMPOLINE PGSIZE (trampoline K) (PTE_R OR PTE_X) m) (\<lambda>(r, m).
       if r < 0 then rbind (uvmfree (kend K) pt 0 m) (\<lambda>m. Ret (0, m))
       else rbind (mappages pt TRAPFRAME PGSIZE tf (PTE_R OR PTE_W) m) (\<lambda>(r, m).
         if r < 0 then
           rbind (uvmunmap (kend K) pt TRAMPOLINE 1 False m) (\<lambda>m.
           rbind (uvmfree (kend K) pt 0 m) (\<lambda>m. Ret (0, m)))
         else Ret (pt, m))))"

definition proc_freepagetable :: "image \<Rightarrow> u64 \<Rightarrow> u64 \<Rightarrow> kmem \<Rightarrow> kmem result" where
  "proc_freepagetable K pt sz m =
     rbind (uvmunmap (kend K) pt TRAMPOLINE 1 False m) (\<lambda>m.
     rbind (uvmunmap (kend K) pt TRAPFRAME 1 False m) (\<lambda>m.
     uvmfree (kend K) pt sz m))"

section \<open>The process table\<close>

definition freeproc :: "image \<Rightarrow> nat \<Rightarrow> kernel \<Rightarrow> kernel result" where
  "freeproc K p s =
     rbind (if trapframe (procs s p) \<noteq> 0 then do_km (kfree (kend K) (trapframe (procs s p))) s else Ret s) (\<lambda>s.
     let s = upd_proc p (\<lambda>x. x\<lparr>trapframe := 0\<rparr>) s in
     rbind (if pagetable (procs s p) \<noteq> 0
            then do_km (proc_freepagetable K (pagetable (procs s p)) (p_sz (procs s p))) s else Ret s) (\<lambda>s.
     Ret (upd_proc p (\<lambda>x. x\<lparr>pagetable := 0, p_sz := 0, p_pid := 0, parent := None, p_name := (p_name x)[0 := 0],
       pchan := None, killed_flag := 0, xstate := 0, pstate := UNUSED\<rparr>) s)))"

definition find_proc :: "(proc \<Rightarrow> bool) \<Rightarrow> kernel \<Rightarrow> nat option" where
  "find_proc P s = find (\<lambda>p. P (procs s p)) [0..<NPROC]"

definition allocproc :: "image \<Rightarrow> kernel \<Rightarrow> (nat option \<times> kernel) result" where
  "allocproc K s =
     (case find_proc (\<lambda>x. pstate x = UNUSED) s of
        None \<Rightarrow> Ret (None, s)
      | Some p \<Rightarrow>
          rbind (allocpid s) (\<lambda>(pid, s).
          let s = upd_proc p (\<lambda>x. x\<lparr>p_pid := pid, pstate := USED\<rparr>) s in
          rbind (allocpid s) (\<lambda>(pid, s).
          let s = upd_proc p (\<lambda>x. x\<lparr>p_pid := pid, priority := 60\<rparr>) s in
          rbind (on_km kalloc s) (\<lambda>(tf, s).
          let s = upd_proc p (\<lambda>x. x\<lparr>trapframe := tf\<rparr>) s in
          if tf = 0 then rbind (freeproc K p s) (\<lambda>s. Ret (None, s))
          else rbind (on_km (proc_pagetable K tf) s) (\<lambda>(pt, s).
            let s = upd_proc p (\<lambda>x. x\<lparr>pagetable := pt\<rparr>) s in
            if pt = 0 then rbind (freeproc K p s) (\<lambda>s. Ret (None, s))
            else Ret (Some p, upd_proc p (\<lambda>x. x\<lparr>context_ra := forkret_pc K, context_sp := kstack x + PGSIZE,
              rtime := 0, etime := 0, ctime := ticks s\<rparr>) s))))))"

definition growproc :: "image \<Rightarrow> nat \<Rightarrow> int \<Rightarrow> kernel \<Rightarrow> (int \<times> kernel) result" where
  "growproc K cur n s =
     (let p = procs s cur; sz = p_sz p in
      if n > 0 then
        rbind (on_km (uvmalloc (kend K) (pagetable p) sz (sz + of_int n) PTE_W) s) (\<lambda>(sz, s).
        if sz = 0 then Ret (- 1, s) else Ret (0, upd_proc cur (\<lambda>x. x\<lparr>p_sz := sz\<rparr>) s))
      else if n < 0 then
        rbind (on_km (uvmdealloc (kend K) (pagetable p) sz (sz + of_int n)) s) (\<lambda>(sz, s).
        Ret (0, upd_proc cur (\<lambda>x. x\<lparr>p_sz := sz\<rparr>) s))
      else Ret (0, upd_proc cur (\<lambda>x. x\<lparr>p_sz := sz\<rparr>) s))"

section \<open>Sleeping and waking\<close>

definition wakeup :: "nat option \<Rightarrow> chan option \<Rightarrow> kernel \<Rightarrow> kernel" where
  "wakeup cur c s = s\<lparr>procs := (\<lambda>p.
     if p < NPROC \<and> Some p \<noteq> cur \<and> pstate (procs s p) = SLEEPING \<and> pchan (procs s p) = c
     then (procs s p)\<lparr>pstate := RUNNABLE\<rparr> else procs s p)\<rparr>"

text \<open>\<open>sleep\<close> up to the switch to the scheduler, and after the switch back.\<close>

definition sleep_begin :: "nat \<Rightarrow> chan \<Rightarrow> kernel \<Rightarrow> kernel" where
  "sleep_begin cur c s = upd_proc cur (\<lambda>x. x\<lparr>pchan := Some c, pstate := SLEEPING\<rparr>) s"

definition sleep_end :: "nat \<Rightarrow> kernel \<Rightarrow> kernel" where
  "sleep_end cur s = upd_proc cur (\<lambda>x. x\<lparr>pchan := None\<rparr>) s"

definition yield_begin :: "nat \<Rightarrow> kernel \<Rightarrow> kernel" where
  "yield_begin cur s = upd_proc cur (\<lambda>x. x\<lparr>pstate := RUNNABLE\<rparr>) s"

text \<open>
  The checks of \<open>sched\<close> before it switches: \<open>held\<close> is \<open>holding(&p->lock)\<close>, \<open>c\<close> the CPU. The
  result is the interrupt flag it puts back after the switch.
\<close>

definition sched :: "bool \<Rightarrow> cpu_intr \<Rightarrow> nat \<Rightarrow> kernel \<Rightarrow> bool result" where
  "sched held c cur s =
     (if \<not> held then Panic ''sched p->lock''
      else if noff c \<noteq> 1 then Panic ''sched locks''
      else if pstate (procs s cur) = RUNNING then Panic ''sched running''
      else if intr_on c then Panic ''sched interruptible''
      else Ret (intena c))"

definition kill :: "int \<Rightarrow> kernel \<Rightarrow> int \<times> kernel" where
  "kill pid s =
     (case find_proc (\<lambda>x. p_pid x = pid) s of
        None \<Rightarrow> (- 1, s)
      | Some p \<Rightarrow> (0, upd_proc p (\<lambda>x. x\<lparr>killed_flag := 1,
          pstate := (if pstate x = SLEEPING then RUNNABLE else pstate x)\<rparr>) s))"

definition setkilled :: "nat \<Rightarrow> kernel \<Rightarrow> kernel" where
  "setkilled p s = upd_proc p (\<lambda>x. x\<lparr>killed_flag := 1\<rparr>) s"

definition killed :: "nat \<Rightarrow> kernel \<Rightarrow> bool" where
  "killed p s \<longleftrightarrow> killed_flag (procs s p) \<noteq> 0"

definition update_time :: "kernel \<Rightarrow> kernel" where
  "update_time s = s\<lparr>procs := (\<lambda>p.
     if p < NPROC \<and> pstate (procs s p) = RUNNING then (procs s p)\<lparr>rtime := rtime (procs s p) + 1\<rparr> else procs s p)\<rparr>"

definition reparent :: "nat \<Rightarrow> kernel \<Rightarrow> kernel" where
  "reparent p s = fold (\<lambda>pp s.
     if parent (procs s pp) = Some p
     then wakeup (Some p) (Some (Proc_chan (initproc s))) (upd_proc pp (\<lambda>x. x\<lparr>parent := Some (initproc s)\<rparr>) s) else s) [0..<NPROC] s"

section \<open>The scheduler\<close>

text \<open>
  One round of the loop of \<open>scheduler\<close>. \<open>run p\<close> is what happens from the switch to process \<open>p\<close>
  until it switches back. The second result lists the processes that ran.
\<close>

primrec sched_round :: "(nat \<Rightarrow> kernel \<Rightarrow> kernel) \<Rightarrow> nat list \<Rightarrow> kernel \<Rightarrow> kernel \<times> nat list" where
  "sched_round run [] s = (s, [])"
| "sched_round run (p # ps) s =
     (if pstate (procs s p) = RUNNABLE
      then let s = run p (upd_proc p (\<lambda>x. x\<lparr>pstate := RUNNING\<rparr>) s);
               (s, ran) = sched_round run ps s
        in (s, p # ran)
      else sched_round run ps s)"

definition scheduler_pass :: "(nat \<Rightarrow> kernel \<Rightarrow> kernel) \<Rightarrow> kernel \<Rightarrow> kernel \<times> nat list" where
  "scheduler_pass run s = sched_round run [0..<NPROC] s"

section \<open>The process listing\<close>

definition state_name :: "procstate \<Rightarrow> string" where
  "state_name st = (case st of UNUSED \<Rightarrow> ''unused'' | USED \<Rightarrow> ''used'' | SLEEPING \<Rightarrow> ''sleep '' | RUNNABLE \<Rightarrow> ''runble''
     | RUNNING \<Rightarrow> ''run   '' | ZOMBIE \<Rightarrow> ''zombie'')"

primrec procdump_loop :: "nat list \<Rightarrow> kernel \<Rightarrow> kernel result" where
  "procdump_loop [] s = Ret s"
| "procdump_loop (p # ps) s =
     (let x = procs s p in
      if pstate x = UNUSED then procdump_loop ps s
      else
        rbind (print (str ''%d %s %s'') [PInt (p_pid x), PStr (Some (str (state_name (pstate x)))), PStr (Some (p_name x))] s) (\<lambda>s.
        rbind (print [10] [] s) (procdump_loop ps)))"

definition procdump :: "kernel \<Rightarrow> kernel result" where
  "procdump s = rbind (print [10] [] s) (procdump_loop [0..<NPROC])"

section \<open>The second table\<close>

text \<open>\<open>cps\<close> and \<open>chpr\<close> work on \<open>ptable.proc\<close>, which nothing else writes.\<close>

primrec cps_loop :: "nat list \<Rightarrow> kernel \<Rightarrow> kernel result" where
  "cps_loop [] s = Ret s"
| "cps_loop (p # ps) s =
     (let x = ptable s p in
      rbind (if pstate x = SLEEPING \<or> pstate x = RUNNING \<or> pstate x = RUNNABLE
        then print (str ''%s '' @ [9] @ str '' %d '' @ [9] @
               str (if pstate x = SLEEPING then '' SLEEPING '' else if pstate x = RUNNING then '' RUNNING '' else '' RUNNABLE '') @
               [9] @ str '' %d '' @ [10, 32]) [PStr (Some (p_name x)), PInt (p_pid x), PInt (priority x)] s
        else Ret s) (cps_loop ps))"

definition cps :: "kernel \<Rightarrow> (int \<times> kernel) result" where
  "cps s =
     rbind (print (str ''name '' @ [9] @ str '' pid '' @ [9] @ str '' state '' @ [9] @ str '' priority '' @ [10]) [] s) (\<lambda>s.
     rbind (cps_loop [0..<NPROC] s) (\<lambda>s. Ret (22, s)))"

definition chpr :: "int \<Rightarrow> int \<Rightarrow> kernel \<Rightarrow> int \<times> kernel" where
  "chpr pid pr s =
     (case find (\<lambda>p. p_pid (ptable s p) = pid) [0..<NPROC] of
        None \<Rightarrow> (pid, s)
      | Some p \<Rightarrow> (pid, s\<lparr>ptable := (ptable s)(p := (ptable s p)\<lparr>priority := pr\<rparr>)\<rparr>))"

end
