(* ===== verification/File.thy ===== *)
theory File
  imports Kernel
begin

text \<open>
  kernel/file.c: the table of open files and the operations on an open file, whatever is behind it
  (an inode, a pipe, a device), and \<open>pipealloc\<close> of kernel/pipe.c. Only the console has device
  functions. \<open>cur\<close> is the calling process, \<open>i\<close> an index into the file table.
\<close>

section \<open>The file table\<close>

definition CONSOLE :: int where "CONSOLE = 1"

definition consoleinit :: "kernel \<Rightarrow> kernel" where
  "consoleinit s = s\<lparr>devsw := (devsw s)(CONSOLE := True)\<rparr>"

definition cur_pid :: "nat \<Rightarrow> kernel \<Rightarrow> int" where "cur_pid cur s = p_pid (procs s cur)"

definition cur_pt :: "nat \<Rightarrow> kernel \<Rightarrow> u64" where "cur_pt cur s = pagetable (procs s cur)"

definition filealloc :: "kernel \<Rightarrow> nat option \<times> kernel" where
  "filealloc s =
     (case find (\<lambda>i. f_ref (ftable s i) = 0) [0..<NFILE] of
        None \<Rightarrow> (None, s)
      | Some i \<Rightarrow> (Some i, upd_file i (\<lambda>f. f\<lparr>f_ref := 1\<rparr>) s))"

definition filedup :: "nat \<Rightarrow> kernel \<Rightarrow> kernel result" where
  "filedup i s =
     (if f_ref (ftable s i) < 1 then Panic ''filedup''
      else Ret (upd_file i (\<lambda>f. f\<lparr>f_ref := f_ref f + 1\<rparr>) s))"

definition close_pipe :: "image \<Rightarrow> nat \<Rightarrow> u64 \<Rightarrow> bool \<Rightarrow> kernel \<Rightarrow> kernel result" where
  "close_pipe K cur pa writable s =
     rbind (pipeclose (kend K) pa writable (pipes s pa) (km s)) (\<lambda>(wk, pi, m).
     Ret (fold (\<lambda>c. wakeup (Some cur) (Some (Pipe_chan c pa))) wk (s\<lparr>pipes := (pipes s)(pa := pi), km := m\<rparr>)))"

definition fileclose :: "image \<Rightarrow> nat \<Rightarrow> nat \<Rightarrow> kernel \<Rightarrow> kernel result" where
  "fileclose K cur i s =
     (if f_ref (ftable s i) < 1 then Panic ''fileclose''
      else
        let s = upd_file i (\<lambda>f. f\<lparr>f_ref := f_ref f - 1\<rparr>) s in
        if f_ref (ftable s i) > 0 then Ret s
        else
          let ff = ftable s i; s = upd_file i (\<lambda>f. f\<lparr>f_ref := 0, f_type := FD_NONE\<rparr>) s in
          case f_type ff of
            FD_PIPE \<Rightarrow> close_pipe K cur (f_pipe ff) (f_writable ff) s
          | FD_INODE \<Rightarrow> in_op (cur_pid cur s) (iput (cur_pid cur s) (f_ip ff)) s
          | FD_DEVICE \<Rightarrow> in_op (cur_pid cur s) (iput (cur_pid cur s) (f_ip ff)) s
          | FD_NONE \<Rightarrow> Ret s)"

definition pipealloc :: "image \<Rightarrow> nat \<Rightarrow> kernel \<Rightarrow> ((nat \<times> nat) option \<times> kernel) result" where
  "pipealloc K cur s =
     (let (f0, s) = filealloc s in
      case f0 of
        None \<Rightarrow> Ret (None, s)
      | Some f0 \<Rightarrow>
          let (f1, s) = filealloc s in
          case f1 of
            None \<Rightarrow> rbind (fileclose K cur f0 s) (\<lambda>s. Ret (None, s))
          | Some f1 \<Rightarrow>
              rbind (on_km kalloc s) (\<lambda>(pi, s).
              if pi = 0 then rbind (fileclose K cur f0 s) (\<lambda>s. rbind (fileclose K cur f1 s) (\<lambda>s. Ret (None, s)))
              else
                let s = s\<lparr>pipes := (pipes s)(pi := pipe_init (pipes s pi))\<rparr>;
                    s = upd_file f0 (\<lambda>f. f\<lparr>f_type := FD_PIPE, f_readable := True, f_writable := False, f_pipe := pi\<rparr>) s;
                    s = upd_file f1 (\<lambda>f. f\<lparr>f_type := FD_PIPE, f_readable := False, f_writable := True, f_pipe := pi\<rparr>) s
                in Ret (Some (f0, f1), s)))"

section \<open>Reading and writing\<close>

definition stat_bytes :: "stats \<Rightarrow> u8 list" where
  "stat_bytes st = le_bytes 4 (of_int (st_dev st) :: u32) @ le_bytes 4 (st_ino st) @ le_bytes 2 (st_type st) @
     le_bytes 2 (st_nlink st) @ le_bytes 4 (of_int (st_size st) :: u32)"

definition filestat :: "image \<Rightarrow> nat \<Rightarrow> nat \<Rightarrow> u64 \<Rightarrow> kernel \<Rightarrow> (int \<times> kernel) result" where
  "filestat K cur i addr s =
     (let f = ftable s i; pid = cur_pid cur s in
      if f_type f = FD_INODE \<or> f_type f = FD_DEVICE then
        rbind (do_fs (ilock pid (f_ip f)) s) (\<lambda>s.
        let st = stati (itable (kfs s) (f_ip f)) in
        rbind (do_fs (iunlock pid (f_ip f)) s) (\<lambda>s.
        rbind (on_km (copyout (kend K) (cur_pt cur s) addr (stat_bytes st)) s) (\<lambda>(r, s).
        Ret (if r < 0 then - 1 else 0, s))))
      else Ret (- 1, s))"

text \<open>\<open>readi\<close> and \<open>writei\<close> with a user buffer of the current process.\<close>

definition readi_user :: "image \<Rightarrow> nat \<Rightarrow> nat \<Rightarrow> u64 \<Rightarrow> u32 \<Rightarrow> u32 \<Rightarrow> kernel \<Rightarrow> (int \<times> kernel) result" where
  "readi_user K cur ip dst off n s =
     rbind (readi (either_copyout (kend K) (cur_pt cur s) True) (cur_pid cur s) ip dst off n (kfs s) (km s)) (\<lambda>(r, t, m).
     Ret (r, s\<lparr>kfs := t, km := m\<rparr>))"

definition writei_user :: "nat \<Rightarrow> nat \<Rightarrow> u64 \<Rightarrow> u32 \<Rightarrow> u32 \<Rightarrow> kernel \<Rightarrow> (int \<times> kernel) result" where
  "writei_user cur ip src off n s =
     on_fs (writei (\<lambda>a len. either_copyin (cur_pt cur s) True a len (km s)) (cur_pid cur s) ip src off n) s"

definition piperead_k :: "image \<Rightarrow> nat \<Rightarrow> u64 \<Rightarrow> u64 \<Rightarrow> int \<Rightarrow> kernel \<Rightarrow> (int \<times> kernel) result" where
  "piperead_k K cur pa addr n s =
     rbind (piperead (kend K) (cur_pt cur s) (killed cur s) addr n (pipes s pa) (km s)) (\<lambda>(b, wk, pi, m).
     case b of
       Sleep _ _ \<Rightarrow> Wait
     | Done r \<Rightarrow> Ret (r, fold (\<lambda>c. wakeup (Some cur) (Some (Pipe_chan c pa))) wk (s\<lparr>pipes := (pipes s)(pa := pi), km := m\<rparr>)))"

definition pipewrite_k :: "nat \<Rightarrow> u64 \<Rightarrow> u64 \<Rightarrow> int \<Rightarrow> kernel \<Rightarrow> (int \<times> kernel) result" where
  "pipewrite_k cur pa addr n s =
     rbind (pipewrite (cur_pt cur s) (\<lambda>_. killed cur s) addr n (pipes s pa) (km s)) (\<lambda>(b, wk, pi).
     case b of
       Sleep _ _ \<Rightarrow> Wait
     | Done r \<Rightarrow> Ret (r, fold (\<lambda>c. wakeup (Some cur) (Some (Pipe_chan c pa))) wk (s\<lparr>pipes := (pipes s)(pa := pi)\<rparr>)))"

definition consoleread_k :: "image \<Rightarrow> nat \<Rightarrow> u64 \<Rightarrow> int \<Rightarrow> kernel \<Rightarrow> (int \<times> kernel) result" where
  "consoleread_k K cur addr n s =
     rbind (consoleread (kend K) (cur_pt cur s) True (\<lambda>_. killed cur s) addr n (con s) (km s)) (\<lambda>(b, cs, m).
     case b of
       CSleep _ _ \<Rightarrow> Wait
     | CDone r \<Rightarrow> Ret (r, s\<lparr>con := cs, km := m\<rparr>))"

definition consolewrite_k :: "nat \<Rightarrow> u64 \<Rightarrow> int \<Rightarrow> kernel \<Rightarrow> (int \<times> kernel) result" where
  "consolewrite_k cur addr n s =
     rbind (consolewrite (cur_pt cur s) True addr n (km s)) (\<lambda>(r, bs).
     Ret (r, s\<lparr>console_out := console_out s @ bs\<rparr>))"

definition fileread :: "image \<Rightarrow> nat \<Rightarrow> nat \<Rightarrow> u64 \<Rightarrow> int \<Rightarrow> kernel \<Rightarrow> (int \<times> kernel) result" where
  "fileread K cur i addr n s =
     (let f = ftable s i; pid = cur_pid cur s in
      if \<not> f_readable f then Ret (- 1, s)
      else case f_type f of
        FD_PIPE \<Rightarrow> piperead_k K cur (f_pipe f) addr n s
      | FD_DEVICE \<Rightarrow>
          if f_major f < 0 \<or> f_major f \<ge> NDEV \<or> \<not> devsw s (f_major f) then Ret (- 1, s)
          else consoleread_k K cur addr n s
      | FD_INODE \<Rightarrow>
          rbind (do_fs (ilock pid (f_ip f)) s) (\<lambda>s.
          rbind (readi_user K cur (f_ip f) addr (f_off f) (of_int n) s) (\<lambda>(r, s).
          let s = (if r > 0 then upd_file i (\<lambda>f. f\<lparr>f_off := f_off f + of_int r\<rparr>) s else s) in
          rbind (do_fs (iunlock pid (f_ip f)) s) (\<lambda>s. Ret (r, s))))
      | FD_NONE \<Rightarrow> Panic ''fileread'')"

definition MAX_WRITE :: int where "MAX_WRITE = (MAXOPBLOCKS - 1 - 1 - 2) div 2 * int BSIZE"

function filewrite_loop :: "nat \<Rightarrow> nat \<Rightarrow> u64 \<Rightarrow> int \<Rightarrow> int \<Rightarrow> kernel \<Rightarrow> (int \<times> kernel) result" where
  "filewrite_loop cur i addr n k s =
     (if k < n then
        let n1 = min (n - k) MAX_WRITE; ip = f_ip (ftable s i); pid = cur_pid cur s in
        rbind (do_log begin_op s) (\<lambda>s.
        rbind (do_fs (ilock pid ip) s) (\<lambda>s.
        rbind (writei_user cur ip (addr + of_int k) (f_off (ftable s i)) (of_int n1) s) (\<lambda>(r, s).
        let s = (if r > 0 then upd_file i (\<lambda>f. f\<lparr>f_off := f_off f + of_int r\<rparr>) s else s) in
        rbind (do_fs (iunlock pid ip) s) (\<lambda>s.
        rbind (do_log (end_op pid) s) (\<lambda>s.
        if r \<noteq> n1 then Ret (k, s) else filewrite_loop cur i addr n (k + n1) s)))))
      else Ret (k, s))"
  by pat_completeness auto
termination
  by (relation "measure (\<lambda>(cur, i, addr, n, k, s). nat (n - k))") (auto simp: MAX_WRITE_def MAXOPBLOCKS_def BSIZE_def)

declare filewrite_loop.simps [simp del]

definition filewrite :: "nat \<Rightarrow> nat \<Rightarrow> u64 \<Rightarrow> int \<Rightarrow> kernel \<Rightarrow> (int \<times> kernel) result" where
  "filewrite cur i addr n s =
     (let f = ftable s i in
      if \<not> f_writable f then Ret (- 1, s)
      else case f_type f of
        FD_PIPE \<Rightarrow> pipewrite_k cur (f_pipe f) addr n s
      | FD_DEVICE \<Rightarrow>
          if f_major f < 0 \<or> f_major f \<ge> NDEV \<or> \<not> devsw s (f_major f) then Ret (- 1, s)
          else consolewrite_k cur addr n s
      | FD_INODE \<Rightarrow>
          rbind (filewrite_loop cur i addr n 0 s) (\<lambda>(k, s). Ret (if k = n then n else - 1, s))
      | FD_NONE \<Rightarrow> Panic ''filewrite'')"

end
