(* ===== verification/Process.thy ===== *)
theory Process
  imports File
begin

text \<open>
  The life of a process, kernel/proc.c: \<open>userinit\<close>, \<open>fork\<close>, \<open>exit\<close>, \<open>wait\<close> and \<open>waitx\<close>. \<open>wait\<close> is
  one turn of its loop: it returns, or leaves the process asleep and its caller has to call it
  again once it is awake.
\<close>

section \<open>Creation\<close>

definition initcode :: "u8 list" where
  "initcode =
     [0x17, 0x05, 0x00, 0x00, 0x13, 0x05, 0x45, 0x02,
      0x97, 0x05, 0x00, 0x00, 0x93, 0x85, 0x35, 0x02,
      0x93, 0x08, 0x70, 0x00, 0x73, 0x00, 0x00, 0x00,
      0x93, 0x08, 0x20, 0x00, 0x73, 0x00, 0x00, 0x00,
      0xef, 0xf0, 0x9f, 0xff, 0x2f, 0x69, 0x6e, 0x69,
      0x74, 0x00, 0x00, 0x24, 0x00, 0x00, 0x00, 0x00,
      0x00, 0x00, 0x00, 0x00]"

definition userinit :: "image \<Rightarrow> kernel \<Rightarrow> kernel result" where
  "userinit K s =
     rbind (allocproc K s) (\<lambda>(p, s).
     case p of
       None \<Rightarrow> Undef
     | Some p \<Rightarrow>
         rbind (do_km (uvmfirst (pagetable (procs s p)) initcode) (s\<lparr>initproc := p\<rparr>)) (\<lambda>s.
         let s = upd_proc p (\<lambda>x. x\<lparr>p_sz := PGSIZE\<rparr>) s;
             s = tf_set p TF_sp PGSIZE (tf_set p TF_epc 0 s);
             s = upd_proc p (\<lambda>x. x\<lparr>p_name := safestrcpy_l 15 (p_name x) [105, 110, 105, 116, 99, 111, 100, 101, 0]\<rparr>) s
         in rbind (on_fs (namei (p_pid (procs s p)) 0 [47, 0]) s) (\<lambda>(ip, s).
         Ret (upd_proc p (\<lambda>x. x\<lparr>cwd := ip, pstate := RUNNABLE\<rparr>) s))))"

text \<open>The loop over the file descriptors in \<open>fork\<close>: \<open>np->ofile[i] = filedup(p->ofile[i])\<close>.\<close>

primrec fork_files :: "nat \<Rightarrow> nat \<Rightarrow> nat list \<Rightarrow> kernel \<Rightarrow> kernel result" where
  "fork_files p np [] s = Ret s"
| "fork_files p np (fd # fds) s =
     (case ofile (procs s p) ! fd of
        None \<Rightarrow> fork_files p np fds s
      | Some f \<Rightarrow> rbind (filedup f s) (\<lambda>s.
          fork_files p np fds (upd_proc np (\<lambda>x. x\<lparr>ofile := (ofile x)[fd := Some f]\<rparr>) s)))"

definition copy_trapframe :: "nat \<Rightarrow> nat \<Rightarrow> kernel \<Rightarrow> kernel" where
  "copy_trapframe p np s = s\<lparr>km := (km s)\<lparr>mem :=
     write_bytes (mem (km s)) (trapframe (procs s np)) (read_bytes (mem (km s)) (trapframe (procs s p)) TF_SIZE)\<rparr>\<rparr>"

definition fork :: "image \<Rightarrow> nat \<Rightarrow> kernel \<Rightarrow> (int \<times> kernel) result" where
  "fork K cur s =
     rbind (allocproc K s) (\<lambda>(np, s).
     case np of
       None \<Rightarrow> Ret (- 1, s)
     | Some np \<Rightarrow>
         rbind (on_km (uvmcopy (kend K) (pagetable (procs s cur)) (pagetable (procs s np)) (p_sz (procs s cur))) s) (\<lambda>(r, s).
         if r < 0 then rbind (freeproc K np s) (\<lambda>s. Ret (- 1, s))
         else
           let s = upd_proc np (\<lambda>x. x\<lparr>p_sz := p_sz (procs s cur)\<rparr>) s;
               s = tf_set np TF_a0 0 (copy_trapframe cur np s)
           in rbind (fork_files cur np [0..<NOFILE] s) (\<lambda>s.
           case cwd (procs s cur) of
             None \<Rightarrow> Undef
           | Some ip \<Rightarrow>
               let s = s\<lparr>kfs := snd (idup ip (kfs s))\<rparr>;
                   s = upd_proc np (\<lambda>x. x\<lparr>cwd := Some ip, p_name := safestrcpy_l 15 (p_name x) (p_name (procs s cur))\<rparr>) s;
                   pid = p_pid (procs s np);
                   s = upd_proc np (\<lambda>x. x\<lparr>parent := Some cur\<rparr>) s
               in Ret (pid, upd_proc np (\<lambda>x. x\<lparr>pstate := RUNNABLE\<rparr>) s))))"

section \<open>Exit\<close>

primrec exit_files :: "image \<Rightarrow> nat \<Rightarrow> nat list \<Rightarrow> kernel \<Rightarrow> kernel result" where
  "exit_files K cur [] s = Ret s"
| "exit_files K cur (fd # fds) s =
     (case ofile (procs s cur) ! fd of
        None \<Rightarrow> exit_files K cur fds s
      | Some f \<Rightarrow> rbind (fileclose K cur f s) (\<lambda>s.
          exit_files K cur fds (upd_proc cur (\<lambda>x. x\<lparr>ofile := (ofile x)[fd := None]\<rparr>) s)))"

text \<open>The part of \<open>exit\<close> that holds \<open>wait_lock\<close>.\<close>

definition exit_tail :: "nat \<Rightarrow> int \<Rightarrow> kernel \<Rightarrow> kernel" where
  "exit_tail cur status s =
     (let s = reparent cur s;
          s = wakeup (Some cur) (map_option Proc_chan (parent (procs s cur))) s
      in upd_proc cur (\<lambda>x. x\<lparr>xstate := status, pstate := ZOMBIE, etime := ticks s\<rparr>) s)"

definition exit :: "image \<Rightarrow> nat \<Rightarrow> int \<Rightarrow> kernel \<Rightarrow> kernel result" where
  "exit K cur status s =
     (if cur = initproc s then Panic ''init exiting''
      else rbind (exit_files K cur [0..<NOFILE] s) (\<lambda>s.
        case cwd (procs s cur) of
          None \<Rightarrow> Undef
        | Some ip \<Rightarrow> rbind (in_op (cur_pid cur s) (iput (cur_pid cur s) ip) s) (\<lambda>s.
            Ret (exit_tail cur status (upd_proc cur (\<lambda>x. x\<lparr>cwd := None\<rparr>) s)))))"

section \<open>Wait\<close>

datatype wait_res = WReturn int | WSleep

definition zombie_child :: "nat \<Rightarrow> proc \<Rightarrow> bool" where
  "zombie_child p x \<longleftrightarrow> parent x = Some p \<and> pstate x = ZOMBIE"

definition xstate_bytes :: "proc \<Rightarrow> u8 list" where
  "xstate_bytes x = le_bytes 4 (of_int (xstate x) :: u32)"

definition wait :: "image \<Rightarrow> nat \<Rightarrow> u64 \<Rightarrow> kernel \<Rightarrow> (wait_res \<times> kernel) result" where
  "wait K cur addr s =
     (case find_proc (zombie_child cur) s of
        Some pp \<Rightarrow>
          let pid = p_pid (procs s pp) in
          rbind (if addr \<noteq> 0 then on_km (copyout (kend K) (cur_pt cur s) addr (xstate_bytes (procs s pp))) s
                 else Ret (0, s)) (\<lambda>(r, s).
          if r < 0 then Ret (WReturn (- 1), s)
          else rbind (freeproc K pp s) (\<lambda>s. Ret (WReturn pid, s)))
      | None \<Rightarrow>
          if find_proc (\<lambda>x. parent x = Some cur) s = None \<or> killed cur s then Ret (WReturn (- 1), s)
          else Ret (WSleep, sleep_begin cur (Proc_chan cur) s))"

text \<open>\<open>waitx\<close> also stores the waiting and running time of the child, before it copies its status.\<close>

definition waitx :: "image \<Rightarrow> nat \<Rightarrow> u64 \<Rightarrow> kernel \<Rightarrow> (wait_res \<times> (u32 \<times> u32) option \<times> kernel) result" where
  "waitx K cur addr s =
     (case find_proc (zombie_child cur) s of
        Some np \<Rightarrow>
          let x = procs s np; pid = p_pid x; tm = (etime x - ctime x - rtime x, rtime x) in
          rbind (if addr \<noteq> 0 then on_km (copyout (kend K) (cur_pt cur s) addr (xstate_bytes x)) s
                 else Ret (0, s)) (\<lambda>(r, s).
          if r < 0 then Ret (WReturn (- 1), Some tm, s)
          else rbind (freeproc K np s) (\<lambda>s. Ret (WReturn pid, Some tm, s)))
      | None \<Rightarrow>
          if find_proc (\<lambda>x. parent x = Some cur) s = None \<or> killed cur s then Ret (WReturn (- 1), None, s)
          else Ret (WSleep, None, sleep_begin cur (Proc_chan cur) s))"

end
