(* ===== verification/Sysargs.thy ===== *)
theory Sysargs
  imports Process
begin

text \<open>
  The arguments of system calls, kernel/syscall.c lines 10 to 82: they are in the registers \<open>a0\<close> to
  \<open>a5\<close> of the trap frame. A buffer that a string is copied to is the list of bytes written to it.
\<close>

definition fetchaddr :: "nat \<Rightarrow> u64 \<Rightarrow> kernel \<Rightarrow> (int \<times> u64) result" where
  "fetchaddr cur addr s =
     (let p = procs s cur in
      if addr \<ge> p_sz p \<or> addr + 8 > p_sz p then Ret (- 1, 0)
      else rbind (copyin (pagetable p) addr 8 (km s)) (\<lambda>(r, bs).
        if r \<noteq> 0 then Ret (- 1, 0) else Ret (0, of_le_bytes bs)))"

definition fetchstr :: "nat \<Rightarrow> u64 \<Rightarrow> nat \<Rightarrow> kernel \<Rightarrow> (int \<times> u8 list) result" where
  "fetchstr cur addr mx s =
     rbind (copyinstr (cur_pt cur s) addr mx (km s)) (\<lambda>(r, bs).
     if r < 0 then Ret (- 1, bs) else Ret (int (length (takeWhile (\<lambda>c. c \<noteq> 0) bs)), bs))"

definition argraw :: "nat \<Rightarrow> int \<Rightarrow> kernel \<Rightarrow> u64 result" where
  "argraw cur n s =
     (if n = 0 then Ret (tf_get cur TF_a0 s)
      else if n = 1 then Ret (tf_get cur TF_a1 s)
      else if n = 2 then Ret (tf_get cur TF_a2 s)
      else if n = 3 then Ret (tf_get cur TF_a3 s)
      else if n = 4 then Ret (tf_get cur TF_a4 s)
      else if n = 5 then Ret (tf_get cur TF_a5 s)
      else Panic ''argraw'')"

definition argint :: "nat \<Rightarrow> int \<Rightarrow> kernel \<Rightarrow> int result" where
  "argint cur n s = rbind (argraw cur n s) (\<lambda>v. Ret (sint (ucast v :: u32)))"

definition argaddr :: "nat \<Rightarrow> int \<Rightarrow> kernel \<Rightarrow> u64 result" where
  "argaddr cur n s = argraw cur n s"

definition argstr :: "nat \<Rightarrow> int \<Rightarrow> nat \<Rightarrow> kernel \<Rightarrow> (int \<times> u8 list) result" where
  "argstr cur n mx s = rbind (argaddr cur n s) (\<lambda>addr. fetchstr cur addr mx s)"

text \<open>The current directory of the process, for \<open>namei\<close>; a null one is dereferenced by \<open>idup\<close>.\<close>

definition cur_cwd :: "nat \<Rightarrow> u8 list \<Rightarrow> kernel \<Rightarrow> nat result" where
  "cur_cwd cur path s =
     (case cwd (procs s cur) of Some ip \<Rightarrow> Ret ip | None \<Rightarrow> if chd path = 47 then Ret 0 else Undef)"

end
