(* ===== verification/Exec.thy ===== *)
theory Exec
  imports Sysargs
begin

text \<open>
  kernel/exec.c. The arguments \<open>argv\<close> are the pointers before the null one; the strings are in
  physical memory, in the pages \<open>sys_exec\<close> copied them to. The headers are read into byte arrays.
  A jump to \<open>bad\<close> is the call of \<open>exec_bad\<close> with what it looks at: the new page table, its size, and
  the inode if it is still locked.
\<close>

definition ELF_MAGIC :: u32 where "ELF_MAGIC = 0x464C457F"

definition ELF_PROG_LOAD :: u32 where "ELF_PROG_LOAD = 1"

definition get64 :: "nat \<Rightarrow> u8 list \<Rightarrow> u64" where "get64 off d = of_le_bytes (get_bytes off 8 d)"

record elfhdr =
  e_magic :: u32
  e_entry :: u64
  e_phoff :: u64
  e_phnum :: u16

definition elfhdr_of :: "u8 list \<Rightarrow> elfhdr" where
  "elfhdr_of d = \<lparr>e_magic = get32 0 d, e_entry = get64 24 d, e_phoff = get64 32 d, e_phnum = get16 56 d\<rparr>"

record proghdr =
  ph_type :: u32
  ph_flags :: u32
  ph_off :: u64
  ph_vaddr :: u64
  ph_filesz :: u64
  ph_memsz :: u64

definition proghdr_of :: "u8 list \<Rightarrow> proghdr" where
  "proghdr_of d = \<lparr>ph_type = get32 0 d, ph_flags = get32 4 d, ph_off = get64 8 d, ph_vaddr = get64 16 d,
     ph_filesz = get64 32 d, ph_memsz = get64 40 d\<rparr>"

definition flags2perm :: "u32 \<Rightarrow> u64" where
  "flags2perm flags =
     (let perm = (if flags AND 1 \<noteq> 0 then PTE_X else 0) in if flags AND 2 \<noteq> 0 then perm OR PTE_W else perm)"

text \<open>\<open>readi\<close> into a structure of \<open>len\<close> bytes of the kernel stack.\<close>

definition readi_local :: "nat \<Rightarrow> nat \<Rightarrow> u32 \<Rightarrow> nat \<Rightarrow> kernel \<Rightarrow> ((int \<times> u8 list) \<times> kernel) result" where
  "readi_local cur ip off len s =
     rbind (readi local_out (cur_pid cur s) ip 0 off (of_nat len) (kfs s) (replicate len 0)) (\<lambda>(r, t, d).
     Ret ((r, d), s\<lparr>kfs := t\<rparr>))"

definition readi_kernel :: "image \<Rightarrow> nat \<Rightarrow> nat \<Rightarrow> u64 \<Rightarrow> u32 \<Rightarrow> u32 \<Rightarrow> kernel \<Rightarrow> (int \<times> kernel) result" where
  "readi_kernel K cur ip dst off n s =
     rbind (readi (either_copyout (kend K) (cur_pt cur s) False) (cur_pid cur s) ip dst off n (kfs s) (km s)) (\<lambda>(r, t, m).
     Ret (r, s\<lparr>kfs := t, km := m\<rparr>))"

text \<open>The loop of \<open>loadseg\<close>, with fuel for the index \<open>i\<close> of type \<open>uint\<close>: it takes \<open>2^20\<close> steps at most before it wraps.\<close>

primrec loadseg_loop :: "nat \<Rightarrow> image \<Rightarrow> nat \<Rightarrow> u64 \<Rightarrow> u64 \<Rightarrow> nat \<Rightarrow> u32 \<Rightarrow> u32 \<Rightarrow> u32 \<Rightarrow> kernel \<Rightarrow> (int \<times> kernel) result" where
  "loadseg_loop 0 K cur pt va ip offset sz i s = Undef"
| "loadseg_loop (Suc fuel) K cur pt va ip offset sz i s =
     (if i < sz then
        rbind (walkaddr pt (va + ucast i) (km s)) (\<lambda>pa.
        if pa = 0 then Panic ''loadseg: address should exist''
        else
          let n = (if sz - i < 4096 then sz - i else 4096) in
          rbind (readi_kernel K cur ip pa (offset + i) n s) (\<lambda>(r, s).
          if r \<noteq> uint n then Ret (- 1, s)
          else loadseg_loop fuel K cur pt va ip offset sz (i + 4096) s))
      else Ret (0, s))"

text \<open>The fuel is enough: from the point where it covers the rest of the segment, more of it changes nothing.\<close>

lemma loadseg_fuel:
  "unat sz \<le> 2 ^ 32 - 4096 \<Longrightarrow> unat sz \<le> unat i + 4096 * n \<Longrightarrow>
     loadseg_loop (Suc n + k) K cur pt va ip offset sz i s = loadseg_loop (Suc n) K cur pt va ip offset sz i s"
proof (induction n arbitrary: i s)
  case 0
  then show ?case by (simp add: word_less_nat_alt)
next
  case (Suc n)
  have "loadseg_loop (Suc n + k) K cur pt va ip offset sz (i + 4096) t = loadseg_loop (Suc n) K cur pt va ip offset sz (i + 4096) t"
    if "i < sz" for t
  proof (rule Suc.IH [OF Suc.prems(1)])
    have "unat i + 4096 < 2 ^ 32" using that Suc.prems(1) by (simp add: word_less_nat_alt)
    then have "unat (i + 4096) = unat i + 4096" by (simp add: unat_word_ariths)
    then show "unat sz \<le> unat (i + 4096) + 4096 * n" using Suc.prems(2) by simp
  qed
  note step = this
  show ?case
  proof (cases "i < sz")
    case True
    have e: "Suc (Suc n) + k = Suc (Suc n + k)" by simp
    show ?thesis unfolding e by (subst (1 2) loadseg_loop.simps(2)) (simp only: step [OF True])
  qed simp
qed

definition loadseg :: "image \<Rightarrow> nat \<Rightarrow> u64 \<Rightarrow> u64 \<Rightarrow> nat \<Rightarrow> u32 \<Rightarrow> u32 \<Rightarrow> kernel \<Rightarrow> (int \<times> kernel) result" where
  "loadseg K cur pt va ip offset sz s = loadseg_loop (2 ^ 20 + 1) K cur pt va ip offset sz 0 s"

definition exec_bad :: "image \<Rightarrow> nat \<Rightarrow> u64 \<Rightarrow> u64 \<Rightarrow> nat option \<Rightarrow> kernel \<Rightarrow> (int \<times> kernel) result" where
  "exec_bad K cur pt sz ip s =
     rbind (if pt \<noteq> 0 then do_km (proc_freepagetable K pt sz) s else Ret s) (\<lambda>s.
     case ip of
       None \<Rightarrow> Ret (- 1, s)
     | Some ip \<Rightarrow>
         rbind (do_fs (iunlockput (cur_pid cur s) ip) s) (\<lambda>s.
         rbind (do_log (end_op (cur_pid cur s)) s) (\<lambda>s. Ret (- 1, s))))"

text \<open>The loop over the program headers: the size of the image, or \<open>None\<close> and the size so far on a jump to \<open>bad\<close>.\<close>

primrec exec_load :: "nat \<Rightarrow> image \<Rightarrow> nat \<Rightarrow> u64 \<Rightarrow> nat \<Rightarrow> u32 \<Rightarrow> u64 \<Rightarrow> kernel \<Rightarrow> ((bool \<times> u64) \<times> kernel) result" where
  "exec_load 0 K cur pt ip off sz s = Ret ((True, sz), s)"
| "exec_load (Suc k) K cur pt ip off sz s =
     rbind (readi_local cur ip off 56 s) (\<lambda>((r, d), s).
     let ph = proghdr_of d in
     if r \<noteq> 56 then Ret ((False, sz), s)
     else if ph_type ph \<noteq> ELF_PROG_LOAD then exec_load k K cur pt ip (off + 56) sz s
     else if ph_memsz ph < ph_filesz ph then Ret ((False, sz), s)
     else if ph_vaddr ph + ph_memsz ph < ph_vaddr ph then Ret ((False, sz), s)
     else if ph_vaddr ph mod PGSIZE \<noteq> 0 then Ret ((False, sz), s)
     else rbind (on_km (uvmalloc (kend K) pt sz (ph_vaddr ph + ph_memsz ph) (flags2perm (ph_flags ph))) s) (\<lambda>(sz1, s).
       if sz1 = 0 then Ret ((False, sz), s)
       else rbind (loadseg K cur pt (ph_vaddr ph) ip (ucast (ph_off ph)) (ucast (ph_filesz ph)) s) (\<lambda>(r, s).
         if r < 0 then Ret ((False, sz1), s) else exec_load k K cur pt ip (off + 56) sz1 s)))"

text \<open>The loop that pushes the argument strings: the addresses of the strings and the stack pointer.\<close>

fun exec_args :: "image \<Rightarrow> u64 \<Rightarrow> u64 \<Rightarrow> u64 list \<Rightarrow> u64 list \<Rightarrow> u64 \<Rightarrow> kmem \<Rightarrow> ((u64 list \<times> u64) option \<times> kmem) result" where
  "exec_args K pt stackbase [] ustack sp m = Ret (Some (ustack, sp), m)"
| "exec_args K pt stackbase (a # argv) ustack sp m =
     (if length ustack \<ge> MAXARG then Ret (None, m)
      else rbind (strlen (mem m) a) (\<lambda>len.
        let sp = sp - of_int (len + 1); sp = sp - sp mod 16 in
        if sp < stackbase then Ret (None, m)
        else rbind (copyout (kend K) pt sp (read_bytes (mem m) a (nat (len + 1))) m) (\<lambda>(r, m).
          if r < 0 then Ret (None, m)
          else exec_args K pt stackbase argv (ustack @ [sp]) sp m)))"

fun last_elem :: "u8 list \<Rightarrow> u8 list \<Rightarrow> u8 list" where
  "last_elem lst [] = lst"
| "last_elem lst (c # s) = (if c = 0 then lst else last_elem (if c = 47 then s else lst) s)"

text \<open>
  \<open>exec\<close> from the stack on, when the file has been read and its inode released. \<open>ustack[argc] = 0\<close>
  writes past the array when there are \<open>MAXARG\<close> arguments.
\<close>

definition exec_stack :: "image \<Rightarrow> nat \<Rightarrow> u8 list \<Rightarrow> u64 list \<Rightarrow> elfhdr \<Rightarrow> u64 \<Rightarrow> u64 \<Rightarrow> kernel \<Rightarrow> (int \<times> kernel) result" where
  "exec_stack K cur path argv elf pt sz s =
     (let oldsz = p_sz (procs s cur); sz = PGROUNDUP sz in
      rbind (on_km (uvmalloc (kend K) pt sz (sz + 2 * PGSIZE) PTE_W) s) (\<lambda>(sz1, s).
      if sz1 = 0 then exec_bad K cur pt sz None s
      else
        let sz = sz1 in
        rbind (do_km (uvmclear pt (sz - 2 * PGSIZE)) s) (\<lambda>s.
        let stackbase = sz - PGSIZE in
        rbind (on_km (exec_args K pt stackbase argv [] sz) s) (\<lambda>(pushed, s).
        case pushed of
          None \<Rightarrow> exec_bad K cur pt sz None s
        | Some (ustack, sp) \<Rightarrow>
            if length ustack \<ge> MAXARG then Undef
            else
              let argc = length ustack; sp = sp - of_nat ((argc + 1) * 8); sp = sp - sp mod 16 in
              if sp < stackbase then exec_bad K cur pt sz None s
              else rbind (on_km (copyout (kend K) pt sp (concat (map (le_bytes 8) (ustack @ [0])))) s) (\<lambda>(r, s).
                if r < 0 then exec_bad K cur pt sz None s
                else
                  let s = tf_set cur TF_a1 sp s;
                      s = upd_proc cur (\<lambda>x. x\<lparr>p_name := safestrcpy_l 15 (p_name x) (last_elem path path)\<rparr>) s;
                      oldpt = pagetable (procs s cur);
                      s = upd_proc cur (\<lambda>x. x\<lparr>pagetable := pt, p_sz := sz\<rparr>) s;
                      s = tf_set cur TF_sp sp (tf_set cur TF_epc (e_entry elf) s);
                      s = upd_proc cur (\<lambda>x. x\<lparr>priority := 20\<rparr>) s
                  in rbind (do_km (proc_freepagetable K oldpt oldsz) s) (\<lambda>s. Ret (int argc, s)))))))"

definition exec :: "image \<Rightarrow> nat \<Rightarrow> u8 list \<Rightarrow> u64 list \<Rightarrow> kernel \<Rightarrow> (int \<times> kernel) result" where
  "exec K cur path argv s =
     (let pid = cur_pid cur s in
      rbind (do_log begin_op s) (\<lambda>s.
      rbind (cur_cwd cur path s) (\<lambda>wd.
      rbind (on_fs (namei pid wd path) s) (\<lambda>(ip, s).
      case ip of
        None \<Rightarrow> rbind (do_log (end_op pid) s) (\<lambda>s. Ret (- 1, s))
      | Some ip \<Rightarrow>
          rbind (do_fs (ilock pid ip) s) (\<lambda>s.
          rbind (readi_local cur ip 0 64 s) (\<lambda>((r, d), s).
          let elf = elfhdr_of d in
          if r \<noteq> 64 \<or> e_magic elf \<noteq> ELF_MAGIC then exec_bad K cur 0 0 (Some ip) s
          else rbind (on_km (proc_pagetable K (trapframe (procs s cur))) s) (\<lambda>(pt, s).
            if pt = 0 then exec_bad K cur 0 0 (Some ip) s
            else rbind (exec_load (unat (e_phnum elf)) K cur pt ip (ucast (e_phoff elf)) 0 s) (\<lambda>((ok, sz), s).
              if \<not> ok then exec_bad K cur pt sz (Some ip) s
              else
                rbind (do_fs (iunlockput pid ip) s) (\<lambda>s.
                rbind (do_log (end_op pid) s) (\<lambda>s.
                exec_stack K cur path argv elf pt sz s))))))))))"

end
