(* ===== verification/Sysfile.thy ===== *)
theory Sysfile
  imports Exec
begin

text \<open>
  kernel/sysfile.c, the system calls on files. The work between \<open>begin_op\<close> and \<open>end_op\<close> of a call
  that only touches the file system is a function on \<open>fs\<close> (\<open>link_body\<close>, \<open>unlink_body\<close>, \<open>create\<close>);
  every path of the C function out of it goes through \<open>end_op\<close>. \<open>wd\<close> is the current directory.
\<close>

definition O_WRONLY :: int where "O_WRONLY = 1"

definition O_RDWR :: int where "O_RDWR = 2"

definition O_CREATE :: int where "O_CREATE = 0x200"

definition O_TRUNC :: int where "O_TRUNC = 0x400"

section \<open>File descriptors\<close>

definition argfd :: "nat \<Rightarrow> int \<Rightarrow> kernel \<Rightarrow> (nat \<times> nat) option result" where
  "argfd cur n s =
     rbind (argint cur n s) (\<lambda>fd.
     Ret (if fd < 0 \<or> fd \<ge> int NOFILE then None
          else map_option (\<lambda>f. (nat fd, f)) (ofile (procs s cur) ! nat fd)))"

definition set_ofile :: "nat \<Rightarrow> nat \<Rightarrow> nat option \<Rightarrow> kernel \<Rightarrow> kernel" where
  "set_ofile p fd f s = upd_proc p (\<lambda>x. x\<lparr>ofile := (ofile x)[fd := f]\<rparr>) s"

definition fdalloc :: "nat \<Rightarrow> nat \<Rightarrow> kernel \<Rightarrow> nat option \<times> kernel" where
  "fdalloc cur f s =
     (case find (\<lambda>fd. ofile (procs s cur) ! fd = None) [0..<NOFILE] of
        None \<Rightarrow> (None, s)
      | Some fd \<Rightarrow> (Some fd, set_ofile cur fd (Some f) s))"

definition sys_dup :: "nat \<Rightarrow> kernel \<Rightarrow> (u64 \<times> kernel) result" where
  "sys_dup cur s =
     rbind (argfd cur 0 s) (\<lambda>a.
     case a of
       None \<Rightarrow> Ret (- 1, s)
     | Some (_, f) \<Rightarrow>
         let (fd, s) = fdalloc cur f s in
         case fd of
           None \<Rightarrow> Ret (- 1, s)
         | Some fd \<Rightarrow> rbind (filedup f s) (\<lambda>s. Ret (of_nat fd, s)))"

definition sys_read :: "image \<Rightarrow> nat \<Rightarrow> kernel \<Rightarrow> (u64 \<times> kernel) result" where
  "sys_read K cur s =
     rbind (argaddr cur 1 s) (\<lambda>p. rbind (argint cur 2 s) (\<lambda>n. rbind (argfd cur 0 s) (\<lambda>a.
     case a of
       None \<Rightarrow> Ret (- 1, s)
     | Some (_, f) \<Rightarrow> rbind (fileread K cur f p n s) (\<lambda>(r, s). Ret (of_int r, s)))))"

definition sys_write :: "nat \<Rightarrow> kernel \<Rightarrow> (u64 \<times> kernel) result" where
  "sys_write cur s =
     rbind (argaddr cur 1 s) (\<lambda>p. rbind (argint cur 2 s) (\<lambda>n. rbind (argfd cur 0 s) (\<lambda>a.
     case a of
       None \<Rightarrow> Ret (- 1, s)
     | Some (_, f) \<Rightarrow> rbind (filewrite cur f p n s) (\<lambda>(r, s). Ret (of_int r, s)))))"

definition sys_close :: "image \<Rightarrow> nat \<Rightarrow> kernel \<Rightarrow> (u64 \<times> kernel) result" where
  "sys_close K cur s =
     rbind (argfd cur 0 s) (\<lambda>a.
     case a of
       None \<Rightarrow> Ret (- 1, s)
     | Some (fd, f) \<Rightarrow> rbind (fileclose K cur f (set_ofile cur fd None s)) (\<lambda>s. Ret (0, s)))"

definition sys_fstat :: "image \<Rightarrow> nat \<Rightarrow> kernel \<Rightarrow> (u64 \<times> kernel) result" where
  "sys_fstat K cur s =
     rbind (argaddr cur 1 s) (\<lambda>st. rbind (argfd cur 0 s) (\<lambda>a.
     case a of
       None \<Rightarrow> Ret (- 1, s)
     | Some (_, f) \<Rightarrow> rbind (filestat K cur f st s) (\<lambda>(r, s). Ret (of_int r, s))))"

section \<open>Directories\<close>

text \<open>Run \<open>f\<close> between \<open>begin_op\<close> and \<open>end_op\<close>.\<close>

definition fs_op :: "int \<Rightarrow> (fs \<Rightarrow> ('a \<times> fs) result) \<Rightarrow> kernel \<Rightarrow> ('a \<times> kernel) result" where
  "fs_op pid f s =
     rbind (do_log begin_op s) (\<lambda>s. rbind (on_fs f s) (\<lambda>(r, s). rbind (do_log (end_op pid) s) (\<lambda>s. Ret (r, s))))"

definition add_nlink :: "int \<Rightarrow> nat \<Rightarrow> u16 \<Rightarrow> fs \<Rightarrow> fs result" where
  "add_nlink pid ip d t = iupdate pid ip (upd_inode ip (\<lambda>x. x\<lparr>i_nlink := i_nlink x + d\<rparr>) t)"

text \<open>The label \<open>bad\<close> of \<open>sys_link\<close>.\<close>

definition link_undo :: "int \<Rightarrow> nat \<Rightarrow> fs \<Rightarrow> (int \<times> fs) result" where
  "link_undo pid ip t =
     rbind (ilock pid ip t) (\<lambda>t. rbind (add_nlink pid ip (- 1) t) (\<lambda>t. rbind (iunlockput pid ip t) (\<lambda>t. Ret (- 1, t))))"

definition link_body :: "int \<Rightarrow> nat \<Rightarrow> u8 list \<Rightarrow> u8 list \<Rightarrow> fs \<Rightarrow> (int \<times> fs) result" where
  "link_body pid wd old new t =
     rbind (namei pid wd old t) (\<lambda>(ip, t).
     case ip of
       None \<Rightarrow> Ret (- 1, t)
     | Some ip \<Rightarrow>
         rbind (ilock pid ip t) (\<lambda>t.
         if i_type (itable t ip) = T_DIR then rbind (iunlockput pid ip t) (\<lambda>t. Ret (- 1, t))
         else
           rbind (add_nlink pid ip 1 t) (\<lambda>t.
           rbind (iunlock pid ip t) (\<lambda>t.
           rbind (nameiparent pid wd new t) (\<lambda>((dp, name), t).
           case dp of
             None \<Rightarrow> link_undo pid ip t
           | Some dp \<Rightarrow>
               rbind (ilock pid dp t) (\<lambda>t.
               rbind (if i_dev (itable t dp) \<noteq> i_dev (itable t ip) then Ret (- 1, t)
                      else dirlink pid dp name (i_inum (itable t ip)) t) (\<lambda>(r, t).
               if r < 0 then rbind (iunlockput pid dp t) (link_undo pid ip)
               else
                 rbind (iunlockput pid dp t) (\<lambda>t.
                 rbind (iput pid ip t) (\<lambda>t. Ret (0, t))))))))))"

definition sys_link :: "nat \<Rightarrow> kernel \<Rightarrow> (u64 \<times> kernel) result" where
  "sys_link cur s =
     rbind (argstr cur 0 MAXPATH s) (\<lambda>(r0, old).
     if r0 < 0 then Ret (- 1, s)
     else rbind (argstr cur 1 MAXPATH s) (\<lambda>(r1, new).
       if r1 < 0 then Ret (- 1, s)
       else rbind (cur_cwd cur old s) (\<lambda>wd.
         rbind (fs_op (cur_pid cur s) (link_body (cur_pid cur s) wd old new) s) (\<lambda>(r, s). Ret (of_int r, s)))))"

function isdirempty_loop :: "int \<Rightarrow> nat \<Rightarrow> nat \<Rightarrow> nat \<Rightarrow> fs \<Rightarrow> (bool \<times> fs) result" where
  "isdirempty_loop pid dp sz off t =
     (if off < sz then
        rbind (read_de pid dp off t) (\<lambda>(r, t, de).
        if r \<noteq> 16 then Panic ''isdirempty: readi''
        else if de_inum de \<noteq> 0 then Ret (False, t)
        else isdirempty_loop pid dp sz (off + 16) t)
      else Ret (True, t))"
  by pat_completeness auto
termination
  by (relation "measure (\<lambda>(pid, dp, sz, off, t). sz - off)") auto

declare isdirempty_loop.simps [simp del]

definition isdirempty :: "int \<Rightarrow> nat \<Rightarrow> fs \<Rightarrow> (bool \<times> fs) result" where
  "isdirempty pid dp t = isdirempty_loop pid dp (unat (i_size (itable t dp))) 32 t"

definition unlink_body :: "int \<Rightarrow> nat \<Rightarrow> u8 list \<Rightarrow> fs \<Rightarrow> (int \<times> fs) result" where
  "unlink_body pid wd path t =
     rbind (nameiparent pid wd path t) (\<lambda>((dp, name), t).
     case dp of
       None \<Rightarrow> Ret (- 1, t)
     | Some dp \<Rightarrow>
         let bad = (\<lambda>t. rbind (iunlockput pid dp t) (\<lambda>t. Ret (- 1, t))) in
         rbind (ilock pid dp t) (\<lambda>t.
         if namecmp name [46, 0] = 0 \<or> namecmp name [46, 46, 0] = 0 then bad t
         else rbind (dirlookup pid dp name t) (\<lambda>(found, t).
           case found of
             None \<Rightarrow> bad t
           | Some (ip, off) \<Rightarrow>
               rbind (ilock pid ip t) (\<lambda>t.
               if sint (i_nlink (itable t ip)) < 1 then Panic ''unlink: nlink < 1''
               else rbind (if i_type (itable t ip) = T_DIR then isdirempty pid ip t else Ret (True, t)) (\<lambda>(empty, t).
                 if \<not> empty then rbind (iunlockput pid ip t) bad
                 else rbind (writei (local_in (replicate 16 0)) pid dp 0 (of_nat off) 16 t) (\<lambda>(r, t).
                   if r \<noteq> 16 then Panic ''unlink: writei''
                   else
                     rbind (if i_type (itable t ip) = T_DIR then add_nlink pid dp (- 1) t else Ret t) (\<lambda>t.
                     rbind (iunlockput pid dp t) (\<lambda>t.
                     rbind (add_nlink pid ip (- 1) t) (\<lambda>t.
                     rbind (iunlockput pid ip t) (\<lambda>t. Ret (0, t)))))))))))"

definition sys_unlink :: "nat \<Rightarrow> kernel \<Rightarrow> (u64 \<times> kernel) result" where
  "sys_unlink cur s =
     rbind (argstr cur 0 MAXPATH s) (\<lambda>(r0, path).
     if r0 < 0 then Ret (- 1, s)
     else rbind (cur_cwd cur path s) (\<lambda>wd.
       rbind (fs_op (cur_pid cur s) (unlink_body (cur_pid cur s) wd path) s) (\<lambda>(r, s). Ret (of_int r, s))))"

text \<open>The label \<open>fail\<close> of \<open>create\<close>.\<close>

definition create_fail :: "int \<Rightarrow> nat \<Rightarrow> nat \<Rightarrow> fs \<Rightarrow> (nat option \<times> fs) result" where
  "create_fail pid ip dp t =
     rbind (iupdate pid ip (upd_inode ip (\<lambda>x. x\<lparr>i_nlink := 0\<rparr>) t)) (\<lambda>t.
     rbind (iunlockput pid ip t) (\<lambda>t. rbind (iunlockput pid dp t) (\<lambda>t. Ret (None, t))))"

definition create_dots :: "int \<Rightarrow> nat \<Rightarrow> nat \<Rightarrow> fs \<Rightarrow> (int \<times> fs) result" where
  "create_dots pid ip dp t =
     rbind (dirlink pid ip [46, 0] (i_inum (itable t ip)) t) (\<lambda>(r, t).
     if r < 0 then Ret (r, t) else dirlink pid ip [46, 46, 0] (i_inum (itable t dp)) t)"

definition create :: "int \<Rightarrow> nat \<Rightarrow> u8 list \<Rightarrow> u16 \<Rightarrow> u16 \<Rightarrow> u16 \<Rightarrow> fs \<Rightarrow> (nat option \<times> fs) result" where
  "create pid wd path type major minor t =
     rbind (nameiparent pid wd path t) (\<lambda>((dp, name), t).
     case dp of
       None \<Rightarrow> Ret (None, t)
     | Some dp \<Rightarrow>
         rbind (ilock pid dp t) (\<lambda>t.
         rbind (dirlookup pid dp name t) (\<lambda>(found, t).
         case found of
           Some (ip, _) \<Rightarrow>
             rbind (iunlockput pid dp t) (\<lambda>t.
             rbind (ilock pid ip t) (\<lambda>t.
             if type = T_FILE \<and> (i_type (itable t ip) = T_FILE \<or> i_type (itable t ip) = T_DEVICE) then Ret (Some ip, t)
             else rbind (iunlockput pid ip t) (\<lambda>t. Ret (None, t))))
         | None \<Rightarrow>
             rbind (ialloc pid (i_dev (itable t dp)) type t) (\<lambda>(new, t).
             case new of
               None \<Rightarrow> rbind (iunlockput pid dp t) (\<lambda>t. Ret (None, t))
             | Some ip \<Rightarrow>
                 rbind (ilock pid ip t) (\<lambda>t.
                 rbind (iupdate pid ip (upd_inode ip (\<lambda>x. x\<lparr>i_major := major, i_minor := minor, i_nlink := 1\<rparr>) t)) (\<lambda>t.
                 rbind (if type = T_DIR then create_dots pid ip dp t else Ret (0, t)) (\<lambda>(r, t).
                 if r < 0 then create_fail pid ip dp t
                 else rbind (dirlink pid dp name (i_inum (itable t ip)) t) (\<lambda>(r, t).
                   if r < 0 then create_fail pid ip dp t
                   else
                     rbind (if type = T_DIR then add_nlink pid dp 1 t else Ret t) (\<lambda>t.
                     rbind (iunlockput pid dp t) (\<lambda>t. Ret (Some ip, t)))))))))))"

section \<open>Open and the rest\<close>

text \<open>The first part of \<open>sys_open\<close>: the inode, locked, or \<open>None\<close> for an early return.\<close>

definition open_inode :: "int \<Rightarrow> nat \<Rightarrow> u8 list \<Rightarrow> int \<Rightarrow> fs \<Rightarrow> (nat option \<times> fs) result" where
  "open_inode pid wd path omode t =
     rbind (if omode AND O_CREATE \<noteq> 0 then create pid wd path T_FILE 0 0 t
       else
         rbind (namei pid wd path t) (\<lambda>(ip, t).
         case ip of
           None \<Rightarrow> Ret (None, t)
         | Some ip \<Rightarrow>
             rbind (ilock pid ip t) (\<lambda>t.
             if i_type (itable t ip) = T_DIR \<and> omode \<noteq> 0 then rbind (iunlockput pid ip t) (\<lambda>t. Ret (None, t))
             else Ret (Some ip, t)))) (\<lambda>(ip, t).
     case ip of
       None \<Rightarrow> Ret (None, t)
     | Some ip \<Rightarrow>
         if i_type (itable t ip) = T_DEVICE \<and> (sint (i_major (itable t ip)) < 0 \<or> sint (i_major (itable t ip)) \<ge> NDEV)
         then rbind (iunlockput pid ip t) (\<lambda>t. Ret (None, t))
         else Ret (Some ip, t))"

definition open_file :: "int \<Rightarrow> nat \<Rightarrow> inode \<Rightarrow> file_s \<Rightarrow> file_s" where
  "open_file omode ip x f =
     (let f = (if i_type x = T_DEVICE then f\<lparr>f_type := FD_DEVICE, f_major := sint (i_major x)\<rparr>
               else f\<lparr>f_type := FD_INODE, f_off := 0\<rparr>)
      in f\<lparr>f_ip := ip, f_readable := (omode AND O_WRONLY = 0), f_writable := (omode AND O_WRONLY \<noteq> 0 \<or> omode AND O_RDWR \<noteq> 0)\<rparr>)"

text \<open>The second part: a file structure and a descriptor for the locked inode.\<close>

definition open_alloc :: "image \<Rightarrow> nat \<Rightarrow> int \<Rightarrow> int \<Rightarrow> nat \<Rightarrow> kernel \<Rightarrow> (u64 \<times> kernel) result" where
  "open_alloc K cur pid omode ip s =
     (let (f, s) = filealloc s;
          (fd, s) = (case f of None \<Rightarrow> (None, s) | Some f \<Rightarrow> fdalloc cur f s)
      in case (f, fd) of
           (Some f, Some fd) \<Rightarrow>
             let s = upd_file f (open_file omode ip (itable (kfs s) ip)) s in
             rbind (if omode AND O_TRUNC \<noteq> 0 \<and> i_type (itable (kfs s) ip) = T_FILE
                    then do_fs (itrunc pid ip) s else Ret s) (\<lambda>s.
             rbind (do_fs (iunlock pid ip) s) (\<lambda>s.
             rbind (do_log (end_op pid) s) (\<lambda>s. Ret (of_nat fd, s))))
         | _ \<Rightarrow>
             rbind (case f of Some f \<Rightarrow> fileclose K cur f s | None \<Rightarrow> Ret s) (\<lambda>s.
             rbind (do_fs (iunlockput pid ip) s) (\<lambda>s.
             rbind (do_log (end_op pid) s) (\<lambda>s. Ret (- 1, s)))))"

definition sys_open :: "image \<Rightarrow> nat \<Rightarrow> kernel \<Rightarrow> (u64 \<times> kernel) result" where
  "sys_open K cur s =
     (let pid = cur_pid cur s in
      rbind (argint cur 1 s) (\<lambda>omode. rbind (argstr cur 0 MAXPATH s) (\<lambda>(n, path).
      if n < 0 then Ret (- 1, s)
      else
        rbind (do_log begin_op s) (\<lambda>s.
        rbind (cur_cwd cur path s) (\<lambda>wd.
        rbind (on_fs (open_inode pid wd path omode) s) (\<lambda>(ip, s).
        case ip of
          None \<Rightarrow> rbind (do_log (end_op pid) s) (\<lambda>s. Ret (- 1, s))
        | Some ip \<Rightarrow> open_alloc K cur pid omode ip s))))))"

text \<open>\<open>create\<close> and release the new inode: the common part of \<open>sys_mkdir\<close> and \<open>sys_mknod\<close>.\<close>

definition create_node :: "int \<Rightarrow> nat \<Rightarrow> u8 list \<Rightarrow> u16 \<Rightarrow> u16 \<Rightarrow> u16 \<Rightarrow> fs \<Rightarrow> (int \<times> fs) result" where
  "create_node pid wd path type major minor t =
     rbind (create pid wd path type major minor t) (\<lambda>(ip, t).
     case ip of
       None \<Rightarrow> Ret (- 1, t)
     | Some ip \<Rightarrow> rbind (iunlockput pid ip t) (\<lambda>t. Ret (0, t)))"

definition sys_mkdir :: "nat \<Rightarrow> kernel \<Rightarrow> (u64 \<times> kernel) result" where
  "sys_mkdir cur s =
     rbind (do_log begin_op s) (\<lambda>s.
     rbind (argstr cur 0 MAXPATH s) (\<lambda>(n, path).
     rbind (if n < 0 then Ret (- 1, s)
            else rbind (cur_cwd cur path s) (\<lambda>wd. on_fs (create_node (cur_pid cur s) wd path T_DIR 0 0) s)) (\<lambda>(r, s).
     rbind (do_log (end_op (cur_pid cur s)) s) (\<lambda>s. Ret (of_int r, s)))))"

definition sys_mknod :: "nat \<Rightarrow> kernel \<Rightarrow> (u64 \<times> kernel) result" where
  "sys_mknod cur s =
     rbind (do_log begin_op s) (\<lambda>s.
     rbind (argint cur 1 s) (\<lambda>major. rbind (argint cur 2 s) (\<lambda>minor.
     rbind (argstr cur 0 MAXPATH s) (\<lambda>(n, path).
     rbind (if n < 0 then Ret (- 1, s)
            else rbind (cur_cwd cur path s) (\<lambda>wd.
              on_fs (create_node (cur_pid cur s) wd path T_DEVICE (of_int major) (of_int minor)) s)) (\<lambda>(r, s).
     rbind (do_log (end_op (cur_pid cur s)) s) (\<lambda>s. Ret (of_int r, s)))))))"

definition chdir_body :: "int \<Rightarrow> nat option \<Rightarrow> nat \<Rightarrow> u8 list \<Rightarrow> fs \<Rightarrow> (nat option \<times> fs) result" where
  "chdir_body pid old wd path t =
     rbind (namei pid wd path t) (\<lambda>(ip, t).
     case ip of
       None \<Rightarrow> Ret (None, t)
     | Some ip \<Rightarrow>
         rbind (ilock pid ip t) (\<lambda>t.
         if i_type (itable t ip) \<noteq> T_DIR then rbind (iunlockput pid ip t) (\<lambda>t. Ret (None, t))
         else
           rbind (iunlock pid ip t) (\<lambda>t.
           case old of
             None \<Rightarrow> Undef
           | Some old \<Rightarrow> rbind (iput pid old t) (\<lambda>t. Ret (Some ip, t)))))"

definition sys_chdir :: "nat \<Rightarrow> kernel \<Rightarrow> (u64 \<times> kernel) result" where
  "sys_chdir cur s =
     rbind (do_log begin_op s) (\<lambda>s.
     rbind (argstr cur 0 MAXPATH s) (\<lambda>(n, path).
     rbind (if n < 0 then Ret (None, s)
            else rbind (cur_cwd cur path s) (\<lambda>wd.
              on_fs (chdir_body (cur_pid cur s) (cwd (procs s cur)) wd path) s)) (\<lambda>(ip, s).
     rbind (do_log (end_op (cur_pid cur s)) s) (\<lambda>s.
     case ip of
       None \<Rightarrow> Ret (- 1, s)
     | Some ip \<Rightarrow> Ret (0, upd_proc cur (\<lambda>x. x\<lparr>cwd := Some ip\<rparr>) s)))))"

text \<open>
  The loop of \<open>sys_exec\<close> that copies the arguments, each into a page of its own; \<open>k\<close> counts the
  free entries of \<open>argv\<close>. The pages are returned also when it jumps to \<open>bad\<close>.
\<close>

primrec exec_argv :: "nat \<Rightarrow> nat \<Rightarrow> u64 \<Rightarrow> u64 list \<Rightarrow> kernel \<Rightarrow> ((bool \<times> u64 list) \<times> kernel) result" where
  "exec_argv 0 cur uargv argv s = Ret ((False, argv), s)"
| "exec_argv (Suc k) cur uargv argv s =
     rbind (fetchaddr cur uargv s) (\<lambda>(r, uarg).
     if r < 0 then Ret ((False, argv), s)
     else if uarg = 0 then Ret ((True, argv), s)
     else rbind (on_km kalloc s) (\<lambda>(pa, s).
       if pa = 0 then Ret ((False, argv), s)
       else rbind (fetchstr cur uarg 4096 s) (\<lambda>(n, bs).
         let s = s\<lparr>km := (km s)\<lparr>mem := write_bytes (mem (km s)) pa bs\<rparr>\<rparr> in
         if n < 0 then Ret ((False, argv @ [pa]), s)
         else exec_argv k cur (uargv + 8) (argv @ [pa]) s)))"

primrec free_argv :: "image \<Rightarrow> u64 list \<Rightarrow> kernel \<Rightarrow> kernel result" where
  "free_argv K [] s = Ret s"
| "free_argv K (pa # argv) s = rbind (do_km (kfree (kend K) pa) s) (free_argv K argv)"

definition sys_exec :: "image \<Rightarrow> nat \<Rightarrow> kernel \<Rightarrow> (u64 \<times> kernel) result" where
  "sys_exec K cur s =
     rbind (argaddr cur 1 s) (\<lambda>uargv. rbind (argstr cur 0 MAXPATH s) (\<lambda>(n, path).
     if n < 0 then Ret (- 1, s)
     else rbind (exec_argv MAXARG cur uargv [] s) (\<lambda>((ok, argv), s).
       rbind (if ok then exec K cur path argv s else Ret (- 1, s)) (\<lambda>(r, s).
       rbind (free_argv K argv s) (\<lambda>s. Ret (of_int r, s))))))"

definition fd_bytes :: "nat \<Rightarrow> u8 list" where "fd_bytes fd = le_bytes 4 (of_nat fd :: u32)"

definition close_both :: "image \<Rightarrow> nat \<Rightarrow> nat \<Rightarrow> nat \<Rightarrow> kernel \<Rightarrow> (u64 \<times> kernel) result" where
  "close_both K cur rf wfl s =
     rbind (fileclose K cur rf s) (\<lambda>s. rbind (fileclose K cur wfl s) (\<lambda>s. Ret (- 1, s)))"

text \<open>\<open>sys_pipe\<close> once it has the two files.\<close>

definition pipe_fds :: "image \<Rightarrow> nat \<Rightarrow> u64 \<Rightarrow> nat \<Rightarrow> nat \<Rightarrow> kernel \<Rightarrow> (u64 \<times> kernel) result" where
  "pipe_fds K cur fdarray rf wfl s =
     (let (fd0, s) = fdalloc cur rf s in
      case fd0 of
        None \<Rightarrow> close_both K cur rf wfl s
      | Some fd0 \<Rightarrow>
          let (fd1, s) = fdalloc cur wfl s in
          case fd1 of
            None \<Rightarrow> close_both K cur rf wfl (set_ofile cur fd0 None s)
          | Some fd1 \<Rightarrow>
              rbind (on_km (copyout (kend K) (cur_pt cur s) fdarray (fd_bytes fd0)) s) (\<lambda>(r, s).
              rbind (if r < 0 then Ret (r, s)
                     else on_km (copyout (kend K) (cur_pt cur s) (fdarray + 4) (fd_bytes fd1)) s) (\<lambda>(r, s).
              if r < 0 then close_both K cur rf wfl (set_ofile cur fd1 None (set_ofile cur fd0 None s))
              else Ret (0, s))))"

definition sys_pipe :: "image \<Rightarrow> nat \<Rightarrow> kernel \<Rightarrow> (u64 \<times> kernel) result" where
  "sys_pipe K cur s =
     rbind (argaddr cur 0 s) (\<lambda>fdarray.
     rbind (pipealloc K cur s) (\<lambda>(fs, s).
     case fs of
       None \<Rightarrow> Ret (- 1, s)
     | Some (rf, wfl) \<Rightarrow> pipe_fds K cur fdarray rf wfl s))"

end
