(* ===== verification/Syscall.thy ===== *)
theory Syscall
  imports Sysfile
begin

text \<open>
  kernel/sysproc.c and the dispatcher of kernel/syscall.c. A call returns a value, ends the process,
  or leaves it asleep; in the last case \<open>wait\<close>, \<open>waitx\<close> and \<open>sleep\<close> run again when it wakes.
\<close>

datatype sysres = Returned u64 | Exited | Asleep

definition returns :: "(u64 \<times> kernel) result \<Rightarrow> (sysres \<times> kernel) result" where
  "returns r = rbind r (\<lambda>(v, s). Ret (Returned v, s))"

definition waited :: "wait_res \<Rightarrow> sysres" where
  "waited w = (case w of WReturn r \<Rightarrow> Returned (of_int r) | WSleep \<Rightarrow> Asleep)"

section \<open>Calls on processes\<close>

definition sys_exit :: "image \<Rightarrow> nat \<Rightarrow> kernel \<Rightarrow> (sysres \<times> kernel) result" where
  "sys_exit K cur s = rbind (argint cur 0 s) (\<lambda>n. rbind (exit K cur n s) (\<lambda>s. Ret (Exited, s)))"

definition sys_getpid :: "nat \<Rightarrow> kernel \<Rightarrow> (u64 \<times> kernel) result" where
  "sys_getpid cur s = Ret (of_int (p_pid (procs s cur)), s)"

definition sys_fork :: "image \<Rightarrow> nat \<Rightarrow> kernel \<Rightarrow> (u64 \<times> kernel) result" where
  "sys_fork K cur s = rbind (fork K cur s) (\<lambda>(r, s). Ret (of_int r, s))"

definition sys_wait :: "image \<Rightarrow> nat \<Rightarrow> kernel \<Rightarrow> (sysres \<times> kernel) result" where
  "sys_wait K cur s = rbind (argaddr cur 0 s) (\<lambda>p. rbind (wait K cur p s) (\<lambda>(w, s). Ret (waited w, s)))"

definition waitx_copy :: "image \<Rightarrow> nat \<Rightarrow> u64 \<Rightarrow> u64 \<Rightarrow> u32 \<times> u32 \<Rightarrow> int \<Rightarrow> kernel \<Rightarrow> (u64 \<times> kernel) result" where
  "waitx_copy K cur addr1 addr2 tm ret s =
     rbind (on_km (copyout (kend K) (cur_pt cur s) addr1 (le_bytes 4 (fst tm))) s) (\<lambda>(r, s).
     if r < 0 then Ret (- 1, s)
     else rbind (on_km (copyout (kend K) (cur_pt cur s) addr2 (le_bytes 4 (snd tm))) s) (\<lambda>(r, s).
       if r < 0 then Ret (- 1, s) else Ret (of_int ret, s)))"

text \<open>\<open>wtime\<close> and \<open>rtime\<close> have no value when no child was found: \<open>junk\<close> is what is on the stack.\<close>

definition sys_waitx :: "image \<Rightarrow> u32 \<times> u32 \<Rightarrow> nat \<Rightarrow> kernel \<Rightarrow> (sysres \<times> kernel) result" where
  "sys_waitx K junk cur s =
     rbind (argaddr cur 0 s) (\<lambda>addr. rbind (argaddr cur 1 s) (\<lambda>addr1. rbind (argaddr cur 2 s) (\<lambda>addr2.
     rbind (waitx K cur addr s) (\<lambda>(w, tm, s).
     case w of
       WSleep \<Rightarrow> Ret (Asleep, s)
     | WReturn ret \<Rightarrow> returns (waitx_copy K cur addr1 addr2 (case tm of Some tm \<Rightarrow> tm | None \<Rightarrow> junk) ret s)))))"

definition sys_sbrk :: "image \<Rightarrow> nat \<Rightarrow> kernel \<Rightarrow> (u64 \<times> kernel) result" where
  "sys_sbrk K cur s =
     rbind (argint cur 0 s) (\<lambda>n.
     let addr = p_sz (procs s cur) in
     rbind (growproc K cur n s) (\<lambda>(r, s). if r < 0 then Ret (- 1, s) else Ret (addr, s)))"

text \<open>One turn of the loop of \<open>sys_sleep\<close>, started when \<open>ticks\<close> was \<open>ticks0\<close>.\<close>

definition sys_sleep_turn :: "nat \<Rightarrow> u32 \<Rightarrow> kernel \<Rightarrow> (sysres \<times> kernel) result" where
  "sys_sleep_turn cur ticks0 s =
     rbind (argint cur 0 s) (\<lambda>n.
     if ticks s - ticks0 < of_int n then
       if killed cur s then Ret (Returned (- 1), s)
       else Ret (Asleep, sleep_begin cur Ticks_chan s)
     else Ret (Returned 0, s))"

definition sys_sleep :: "nat \<Rightarrow> kernel \<Rightarrow> (sysres \<times> kernel) result" where
  "sys_sleep cur s = sys_sleep_turn cur (ticks s) s"

definition sys_kill :: "nat \<Rightarrow> kernel \<Rightarrow> (u64 \<times> kernel) result" where
  "sys_kill cur s = rbind (argint cur 0 s) (\<lambda>pid. let (r, s) = kill pid s in Ret (of_int r, s))"

definition sys_uptime :: "kernel \<Rightarrow> (u64 \<times> kernel) result" where
  "sys_uptime s = Ret (ucast (ticks s), s)"

definition sys_trace :: "nat \<Rightarrow> kernel \<Rightarrow> (u64 \<times> kernel) result" where
  "sys_trace cur s =
     rbind (argint cur 0 s) (\<lambda>m.
     let s = upd_proc cur (\<lambda>x. x\<lparr>tracemask := m\<rparr>) s in
     Ret (if tracemask (procs s cur) < 0 then - 1 else 0, s))"

definition sys_cps :: "kernel \<Rightarrow> (u64 \<times> kernel) result" where
  "sys_cps s = rbind (cps s) (\<lambda>(r, s). Ret (of_int r, s))"

definition sys_chpr :: "nat \<Rightarrow> kernel \<Rightarrow> (u64 \<times> kernel) result" where
  "sys_chpr cur s =
     rbind (argint cur 0 s) (\<lambda>pid.
     if pid < 0 then Ret (- 1, s)
     else rbind (argint cur 1 s) (\<lambda>pr.
       if pr < 0 then Ret (- 1, s)
       else let (r, s) = chpr pid pr s in Ret (of_int r, s)))"

section \<open>The dispatcher\<close>

text \<open>The table \<open>syscalls\<close>: \<open>None\<close> where it has no entry.\<close>

definition syscalls :: "image \<Rightarrow> u32 \<times> u32 \<Rightarrow> nat \<Rightarrow> int \<Rightarrow> kernel \<Rightarrow> (sysres \<times> kernel) result option" where
  "syscalls K junk cur num s =
     (if num = 1 then Some (returns (sys_fork K cur s))
      else if num = 2 then Some (sys_exit K cur s)
      else if num = 3 then Some (sys_wait K cur s)
      else if num = 4 then Some (returns (sys_pipe K cur s))
      else if num = 5 then Some (returns (sys_read K cur s))
      else if num = 6 then Some (returns (sys_kill cur s))
      else if num = 7 then Some (returns (sys_exec K cur s))
      else if num = 8 then Some (returns (sys_fstat K cur s))
      else if num = 9 then Some (returns (sys_chdir cur s))
      else if num = 10 then Some (returns (sys_dup cur s))
      else if num = 11 then Some (returns (sys_getpid cur s))
      else if num = 12 then Some (returns (sys_sbrk K cur s))
      else if num = 13 then Some (sys_sleep cur s)
      else if num = 14 then Some (returns (sys_uptime s))
      else if num = 15 then Some (returns (sys_open K cur s))
      else if num = 16 then Some (returns (sys_write cur s))
      else if num = 17 then Some (returns (sys_mknod cur s))
      else if num = 18 then Some (returns (sys_unlink cur s))
      else if num = 19 then Some (returns (sys_link cur s))
      else if num = 20 then Some (returns (sys_mkdir cur s))
      else if num = 21 then Some (returns (sys_close K cur s))
      else if num = 24 then Some (returns (sys_trace cur s))
      else if num = 25 then Some (returns (sys_cps s))
      else if num = 26 then Some (returns (sys_chpr cur s))
      else if num = 27 then Some (sys_waitx K junk cur s)
      else None)"

text \<open>The table \<open>names\<close>, with a null pointer in its holes.\<close>

definition names :: "string option list" where
  "names = [None, Some ''fork'', Some ''exit'', Some ''wait'', Some ''pipe'', Some ''read'', Some ''kill'', Some ''exec'',
     Some ''fstat'', Some ''chdir'', Some ''dup'', Some ''getpid'', Some ''sbrk'', Some ''sleep'', Some ''uptime'', Some ''open'',
     Some ''write'', Some ''mknod'', Some ''unlink'', Some ''link'', Some ''mkdir'', Some ''close'', None, None, Some ''trace'',
     Some ''cps'', Some ''chpr'', Some ''waitx'']"

text \<open>The table \<open>syscallNos\<close> of argument counts; its last entry is that of \<open>trace\<close>.\<close>

definition syscallNos :: "nat list" where
  "syscallNos = [0, 0, 1, 1, 1, 3, 1, 2, 2, 1, 1, 0, 1, 1, 0, 2, 3, 3, 1, 2, 1, 1, 0, 0, 1]"

primrec print_args :: "nat \<Rightarrow> nat list \<Rightarrow> kernel \<Rightarrow> kernel result" where
  "print_args cur [] s = Ret s"
| "print_args cur (i # is) s =
     rbind (if i \<noteq> 0 then argint cur (int i) s else Ret (sint (ucast (tf_get cur TF_a0 s) :: u32))) (\<lambda>ar.
     rbind (print (str ''%d '') [PInt ar] s) (print_args cur is))"

text \<open>The trace output after a call. A shift by a negative or too large number, and an index outside a table, are undefined.\<close>

definition trace_call :: "nat \<Rightarrow> int \<Rightarrow> kernel \<Rightarrow> kernel result" where
  "trace_call cur num s =
     (let p = procs s cur in
      if num < 0 \<or> num \<ge> 32 then Undef
      else if drop_bit (nat num) (tracemask p) = 0 then Ret s
      else if nat num \<ge> length names then Undef
      else
        rbind (print (str ''%d: syscall %s ('') [PInt (p_pid p), PStr (map_option str (names ! nat num))] s) (\<lambda>s.
        if nat num \<ge> length syscallNos then Undef
        else
          rbind (print_args cur [0..<syscallNos ! nat num] s) (\<lambda>s.
          print (str '') -> %d'' @ [10]) [PInt (sint (ucast (tf_get cur TF_a0 s) :: u32))] s)))"

definition syscall :: "image \<Rightarrow> u32 \<times> u32 \<Rightarrow> nat \<Rightarrow> kernel \<Rightarrow> (sysres \<times> kernel) result" where
  "syscall K junk cur s =
     (let num = sint (ucast (tf_get cur TF_a7 s) :: u32) in
      case syscalls K junk cur num s of
        Some r \<Rightarrow>
          rbind r (\<lambda>(res, s).
          case res of
            Returned v \<Rightarrow> rbind (trace_call cur num (tf_set cur TF_a0 v s)) (\<lambda>s. Ret (res, s))
          | _ \<Rightarrow> Ret (res, s))
      | None \<Rightarrow>
          rbind (print (str ''%d %s: unknown sys call %d'' @ [10])
            [PInt (p_pid (procs s cur)), PStr (Some (p_name (procs s cur))), PInt num] s) (\<lambda>s.
          rbind (trace_call cur num (tf_set cur TF_a0 (- 1) s)) (\<lambda>s. Ret (Returned (- 1), s))))"

end
