(* ===== verification/Trap.thy ===== *)
theory Trap
  imports Syscall
begin

text \<open>
  kernel/trap.c: what happens on a trap from user space, on a trap from the kernel and on a device
  interrupt. The supervisor registers at the time of the trap are a record; what the devices have to
  say is another: the interrupt the PLIC hands out, the bytes waiting in the UART and when it is
  ready to send. The code after the call of \<open>usertrapret\<close> in \<open>usertrap\<close> is never reached, since
  \<open>usertrapret\<close> leaves the kernel.
\<close>

record sregs =
  scause :: u64
  sepc :: u64
  stval :: u64
  sstatus :: u64
  satp :: u64
  hartid :: u64

record devices =
  irq :: int
  rx :: "u8 list"
  tx_idle :: "nat \<Rightarrow> bool"
  junk :: "u32 \<times> u32"
  usertrap_pc :: u64

definition SSTATUS_SPP :: u64 where "SSTATUS_SPP = push_bit 8 1"

definition SSTATUS_SPIE :: u64 where "SSTATUS_SPIE = push_bit 5 1"

definition UART0_IRQ :: int where "UART0_IRQ = 10"

definition VIRTIO0_IRQ :: int where "VIRTIO0_IRQ = 1"

definition MAKE_SATP :: "u64 \<Rightarrow> u64" where "MAKE_SATP pt = push_bit 60 8 OR drop_bit 12 pt"

section \<open>Interrupts\<close>

definition clockintr :: "nat option \<Rightarrow> kernel \<Rightarrow> kernel" where
  "clockintr cur s = wakeup cur (Some Ticks_chan) (update_time (s\<lparr>ticks := ticks s + 1\<rparr>))"

text \<open>The console events of an interrupt, in order.\<close>

primrec cons_events :: "nat option \<Rightarrow> cons_event list \<Rightarrow> kernel \<Rightarrow> kernel result" where
  "cons_events cur [] s = Ret s"
| "cons_events cur (e # es) s =
     rbind (case e of
              Tx b \<Rightarrow> Ret (s\<lparr>console_out := console_out s @ [b]\<rparr>)
            | Procdump \<Rightarrow> procdump s
            | Wakeup_r \<Rightarrow> Ret (wakeup cur (Some Cons_chan) s)) (cons_events cur es)"

definition uart_interrupt :: "nat option \<Rightarrow> devices \<Rightarrow> kernel \<Rightarrow> kernel result" where
  "uart_interrupt cur d s =
     (let (ev, cs, out, u) = uartintr (rx d) (tx_idle d) (con s) (ku s) in
      rbind (cons_events cur ev s) (\<lambda>s. Ret (s\<lparr>con := cs, ku := u, console_out := console_out s @ out\<rparr>)))"

definition disk_interrupt :: "nat option \<Rightarrow> kernel \<Rightarrow> kernel result" where
  "disk_interrupt cur s =
     rbind (virtio_disk_intr (kv s)) (\<lambda>(bs, v).
     Ret (fold (\<lambda>b. wakeup cur (Some (Buf_chan b))) bs (s\<lparr>kv := v\<rparr>)))"

definition devintr :: "nat option \<Rightarrow> sregs \<Rightarrow> devices \<Rightarrow> kernel \<Rightarrow> (int \<times> kernel) result" where
  "devintr cur r d s =
     (if scause r AND 0x8000000000000000 \<noteq> 0 \<and> scause r AND 0xff = 9 then
        rbind
          (if irq d = UART0_IRQ then uart_interrupt cur d s
           else if irq d = VIRTIO0_IRQ then disk_interrupt cur s
           else if irq d \<noteq> 0 then print (str ''unexpected interrupt irq=%d'' @ [10]) [PInt (irq d)] s
           else Ret s) (\<lambda>s. Ret (1, s))
      else if scause r = 0x8000000000000001 then Ret (2, if hartid r = 0 then clockintr cur s else s)
      else Ret (0, s))"

section \<open>Traps\<close>

datatype trap_res = Resumes | Yields | Exits | Sleeps

definition usertrapret :: "nat \<Rightarrow> sregs \<Rightarrow> devices \<Rightarrow> kernel \<Rightarrow> sregs \<times> kernel" where
  "usertrapret cur r d s =
     (let s = tf_set cur TF_kernel_satp (satp r) s;
          s = tf_set cur TF_kernel_sp (kstack (procs s cur) + PGSIZE) s;
          s = tf_set cur TF_kernel_trap (usertrap_pc d) s;
          s = tf_set cur TF_kernel_hartid (hartid r) s;
          x = (sstatus r AND NOT SSTATUS_SPP) OR SSTATUS_SPIE
      in (r\<lparr>sstatus := x, sepc := tf_get cur TF_epc s, satp := MAKE_SATP (pagetable (procs s cur))\<rparr>, s))"

text \<open>Up to the last test of \<open>killed\<close>: \<open>which_dev\<close>, unless the process is gone or asleep.\<close>

definition usertrap_handle :: "image \<Rightarrow> nat \<Rightarrow> sregs \<Rightarrow> devices \<Rightarrow> kernel \<Rightarrow> ((trap_res \<times> int) \<times> kernel) result" where
  "usertrap_handle K cur r d s =
     (let s = tf_set cur TF_epc (sepc r) s in
      if scause r = 15 then
        rbind (on_km (cowfault (kend K) (cur_pt cur s) (stval r)) s) (\<lambda>(c, s).
        Ret ((Resumes, 0), if c < 0 then setkilled cur s else s))
      else if scause r = 8 then
        if killed cur s then rbind (exit K cur (- 1) s) (\<lambda>s. Ret ((Exits, 0), s))
        else
          rbind (syscall K (junk d) cur (tf_set cur TF_epc (tf_get cur TF_epc s + 4) s)) (\<lambda>(res, s).
          Ret ((case res of Returned _ \<Rightarrow> Resumes | Exited \<Rightarrow> Exits | Asleep \<Rightarrow> Sleeps, 0), s))
      else
        rbind (devintr (Some cur) r d s) (\<lambda>(w, s).
        if w \<noteq> 0 then Ret ((Resumes, w), s)
        else
          rbind (print (str ''usertrap(): unexpected scause %p pid=%d'' @ [10]) [PLong (scause r), PInt (cur_pid cur s)] s) (\<lambda>s.
          rbind (print (str ''            sepc=%p stval=%p'' @ [10]) [PLong (sepc r), PLong (stval r)] s) (\<lambda>s.
          Ret ((Resumes, 0), setkilled cur s)))))"

definition usertrap :: "image \<Rightarrow> nat \<Rightarrow> sregs \<Rightarrow> devices \<Rightarrow> kernel \<Rightarrow> ((trap_res \<times> sregs) \<times> kernel) result" where
  "usertrap K cur r d s =
     (if sstatus r AND SSTATUS_SPP \<noteq> 0 then Panic ''usertrap: not from user mode''
      else rbind (usertrap_handle K cur r d s) (\<lambda>((t, w), s).
        if t \<noteq> Resumes then Ret ((t, r), s)
        else if killed cur s then rbind (exit K cur (- 1) s) (\<lambda>s. Ret ((Exits, r), s))
        else if w = 2 then Ret ((Yields, r), yield_begin cur s)
        else let (r, s) = usertrapret cur r d s in Ret ((Resumes, r), s)))"

definition kerneltrap :: "nat option \<Rightarrow> bool \<Rightarrow> sregs \<Rightarrow> devices \<Rightarrow> kernel \<Rightarrow> (trap_res \<times> kernel) result" where
  "kerneltrap cur intr r d s =
     (if sstatus r AND SSTATUS_SPP = 0 then Panic ''kerneltrap: not from supervisor mode''
      else if intr then Panic ''kerneltrap: interrupts enabled''
      else rbind (devintr cur r d s) (\<lambda>(w, s).
        if w = 0 then Panic ''kerneltrap''
        else
          case cur of
            None \<Rightarrow> Ret (Resumes, s)
          | Some p \<Rightarrow>
              if w = 2 \<and> pstate (procs s p) = RUNNING then Ret (Yields, yield_begin p s)
              else Ret (Resumes, s)))"

text \<open>\<open>forkret\<close>, where a new process starts; \<open>first\<close> is its static variable.\<close>

definition forkret :: "nat \<Rightarrow> sregs \<Rightarrow> devices \<Rightarrow> bool \<Rightarrow> kernel \<Rightarrow> (sregs \<times> kernel) result" where
  "forkret cur r d first s =
     rbind (if first then do_fs (fsinit (cur_pid cur s) ROOTDEV) s else Ret s) (\<lambda>s. Ret (usertrapret cur r d s))"

end
