(* ===== verification/Boot.thy ===== *)
theory Boot
  imports Trap
begin

text \<open>
  Booting: the kernel page table (\<open>kvmmake\<close>, kernel/vm.c), the initialization of the UART and of the
  interrupt controller as lists of register writes (kernel/uart.c, kernel/plic.c), and \<open>main\<close> on the
  first CPU (kernel/main.c) up to the scheduler. The messages \<open>main\<close> prints are in \<open>console_out\<close>.
\<close>

definition UART0 :: u64 where "UART0 = 0x10000000"

definition VIRTIO0 :: u64 where "VIRTIO0 = 0x10001000"

definition PLIC :: u64 where "PLIC = 0x0c000000"

definition PLIC_SENABLE :: "u64 \<Rightarrow> u64" where "PLIC_SENABLE hart = PLIC + 0x2080 + hart * 0x100"

definition PLIC_SPRIORITY :: "u64 \<Rightarrow> u64" where "PLIC_SPRIORITY hart = PLIC + 0x201000 + hart * 0x2000"

definition PLIC_SCLAIM :: "u64 \<Rightarrow> u64" where "PLIC_SCLAIM hart = PLIC + 0x201004 + hart * 0x2000"

section \<open>Device registers\<close>

definition uartinit :: "(u64 \<times> u8) list" where
  "uartinit = [(UART0 + 1, 0x00), (UART0 + 3, push_bit 7 1), (UART0 + 0, 0x03), (UART0 + 1, 0x00), (UART0 + 3, push_bit 0 3),
     (UART0 + 2, push_bit 0 1 OR push_bit 1 3), (UART0 + 1, push_bit 1 1 OR push_bit 0 1)]"

definition plicinit :: "(u64 \<times> u32) list" where
  "plicinit = [(PLIC + of_int UART0_IRQ * 4, 1), (PLIC + of_int VIRTIO0_IRQ * 4, 1)]"

definition plicinithart :: "u64 \<Rightarrow> (u64 \<times> u32) list" where
  "plicinithart hart = [(PLIC_SENABLE hart, push_bit (nat UART0_IRQ) 1 OR push_bit (nat VIRTIO0_IRQ) 1), (PLIC_SPRIORITY hart, 0)]"

text \<open>\<open>plic_claim\<close> reads the register that \<open>plic_complete\<close> writes; \<open>rd\<close> is the read.\<close>

definition plic_claim :: "(u64 \<Rightarrow> u32) \<Rightarrow> u64 \<Rightarrow> int" where
  "plic_claim rd hart = sint (rd (PLIC_SCLAIM hart))"

definition plic_complete :: "u64 \<Rightarrow> int \<Rightarrow> (u64 \<times> u32) list" where
  "plic_complete hart i = [(PLIC_SCLAIM hart, of_int i)]"

section \<open>The kernel page table\<close>

definition kvmmake :: "image \<Rightarrow> kmem \<Rightarrow> (u64 \<times> kmem) result" where
  "kvmmake K m =
     rbind (kalloc m) (\<lambda>(pt, m).
     if pt = 0 then Undef
     else
       let m = m\<lparr>mem := memset (mem m) pt 0 4096\<rparr> in
       rbind (kvmmap pt UART0 UART0 PGSIZE (PTE_R OR PTE_W) m) (\<lambda>m.
       rbind (kvmmap pt VIRTIO0 VIRTIO0 PGSIZE (PTE_R OR PTE_W) m) (\<lambda>m.
       rbind (kvmmap pt PLIC PLIC 0x400000 (PTE_R OR PTE_W) m) (\<lambda>m.
       rbind (kvmmap pt KERNBASE KERNBASE (etext K - KERNBASE) (PTE_R OR PTE_X) m) (\<lambda>m.
       rbind (kvmmap pt (etext K) (etext K) (PHYSTOP - etext K) (PTE_R OR PTE_W) m) (\<lambda>m.
       rbind (kvmmap pt TRAMPOLINE (trampoline K) PGSIZE (PTE_R OR PTE_X) m) (\<lambda>m.
       rbind (proc_mapstacks pt m) (\<lambda>m. Ret (pt, m)))))))))"

definition kvminit :: "image \<Rightarrow> kernel \<Rightarrow> kernel result" where
  "kvminit K s = rbind (on_km (kvmmake K) s) (\<lambda>(pt, s). Ret (s\<lparr>kernel_pagetable := pt\<rparr>))"

section \<open>Main\<close>

definition main :: "image \<Rightarrow> vregs \<Rightarrow> kernel \<Rightarrow> kernel result" where
  "main K vr s =
     (let s = consoleinit s in
      rbind (print [10] [] s) (\<lambda>s.
      rbind (print (str ''xv6 kernel is booting'' @ [10]) [] s) (\<lambda>s.
      rbind (print [10] [] s) (\<lambda>s.
      rbind (do_km (kinit (kend K)) s) (\<lambda>s.
      rbind (kvminit K s) (\<lambda>s.
      let s = procinit s;
          t = kfs s;
          s = s\<lparr>kfs := iinit (t\<lparr>fl := (fl t)\<lparr>bc := binit (bc (fl t))\<rparr>\<rparr>)\<rparr>
      in rbind (virtio_disk_init vr (kv s) (km s)) (\<lambda>(ws, v, m).
      userinit K (s\<lparr>kv := v, km := m\<rparr>))))))))"

text \<open>The other CPUs, once \<open>started\<close> is set; they wait as long as it is not.\<close>

definition main_other :: "bool \<Rightarrow> nat \<Rightarrow> kernel \<Rightarrow> ((u64 \<times> u32) list \<times> kernel) result" where
  "main_other started hart s =
     (if \<not> started then Wait
      else rbind (print (str ''hart %d starting'' @ [10]) [PInt (int hart)] s) (\<lambda>s. Ret (plicinithart (of_nat hart), s)))"

end
