(* ===== verification/Kernel_Inv.thy ===== *)
theory Kernel_Inv
  imports Boot
begin

text \<open>
  What the operations of the kernel leave alone. \<open>keeps\<close> relates two states of one kernel when
  nothing happened to the process table but that sleeping processes were woken, and nothing to the
  number of references to open files. Every system call that neither creates nor ends a process and
  neither opens nor closes a file is of this kind, whatever it does to memory and to the disk.
\<close>

section \<open>Outcomes\<close>

definition all_ret :: "('a \<Rightarrow> bool) \<Rightarrow> 'a result \<Rightarrow> bool" where
  "all_ret Q r \<longleftrightarrow> (\<forall>x. r = Ret x \<longrightarrow> Q x)"

lemma all_ret_simps [simp]:
  "all_ret Q (Ret x) \<longleftrightarrow> Q x" "all_ret Q (Panic e)" "all_ret Q Undef" "all_ret Q Wait"
  by (simp_all add: all_ret_def)

lemma all_ret_bind: "all_ret Q (rbind m f) \<longleftrightarrow> all_ret (\<lambda>x. all_ret Q (f x)) m"
  by (cases m) (auto simp: all_ret_def)

lemma all_ret_mono: "all_ret P m \<Longrightarrow> (\<And>x. P x \<Longrightarrow> Q x) \<Longrightarrow> all_ret Q m"
  by (simp add: all_ret_def)

lemma all_ret_bindI: "all_ret P m \<Longrightarrow> (\<And>x. P x \<Longrightarrow> all_ret Q (f x)) \<Longrightarrow> all_ret Q (rbind m f)"
  by (auto simp: all_ret_def result_simps)

lemma all_ret_bind2I: "all_ret (\<lambda>(a, t). P a t) m \<Longrightarrow> (\<And>a t. P a t \<Longrightarrow> all_ret Q (f (a, t))) \<Longrightarrow> all_ret Q (rbind m f)"
  by (auto simp: all_ret_def result_simps)

lemma all_retD: "all_ret Q r \<Longrightarrow> r = Ret x \<Longrightarrow> Q x"
  by (simp add: all_ret_def)

section \<open>Keeping\<close>

definition pstep :: "proc \<Rightarrow> proc \<Rightarrow> bool" where
  "pstep x y \<longleftrightarrow> p_pid y = p_pid x \<and> ofile y = ofile x \<and> parent y = parent x \<and>
     (pstate y = pstate x \<and> pchan y = pchan x \<or> pstate x = SLEEPING \<and> pstate y = RUNNABLE)"

definition keeps :: "kernel \<Rightarrow> kernel \<Rightarrow> bool" where
  "keeps s t \<longleftrightarrow> nextpid t = nextpid s \<and> (\<forall>i. f_ref (ftable t i) = f_ref (ftable s i)) \<and>
     (\<forall>p. pstep (procs s p) (procs t p))"

lemma pstep_refl [simp]: "pstep x x"
  by (simp add: pstep_def)

lemma keeps_refl [simp]: "keeps s s"
  by (simp add: keeps_def)

lemma keeps_trans [trans]: "keeps s t \<Longrightarrow> keeps t u \<Longrightarrow> keeps s u"
  by (auto simp: keeps_def pstep_def) metis+

named_theorems keep

lemma keeps_fields [keep]:
  assumes "keeps s0 s"
  shows "keeps s0 (s\<lparr>kfs := a\<rparr>)" "keeps s0 (s\<lparr>km := b\<rparr>)" "keeps s0 (s\<lparr>pipes := c\<rparr>)" "keeps s0 (s\<lparr>con := d\<rparr>)"
    "keeps s0 (s\<lparr>console_out := e\<rparr>)" "keeps s0 (s\<lparr>ticks := f\<rparr>)" "keeps s0 (s\<lparr>ptable := g\<rparr>)" "keeps s0 (s\<lparr>ku := h\<rparr>)"
    "keeps s0 (s\<lparr>kv := i\<rparr>)"
  using assms by (simp_all add: keeps_def)

lemma keeps_tf_set [keep]: "keeps s0 s \<Longrightarrow> keeps s0 (tf_set p r v s)"
  by (simp add: keeps_def tf_set_def)

lemma keeps_upd_file [keep]: "keeps s0 s \<Longrightarrow> (\<And>x. f_ref (f x) = f_ref x) \<Longrightarrow> keeps s0 (upd_file i f s)"
  by (simp add: keeps_def upd_file_def)

lemma keeps_upd_proc [keep]: "keeps s0 s \<Longrightarrow> (\<And>x. pstep x (f x)) \<Longrightarrow> keeps s0 (upd_proc p f s)"
  by (rule keeps_trans, assumption) (simp add: keeps_def upd_proc_def)

lemma keeps_wakeup [keep]: "keeps s0 s \<Longrightarrow> keeps s0 (wakeup cur c s)"
  by (rule keeps_trans, assumption) (simp add: keeps_def wakeup_def pstep_def)

lemma keeps_fold [keep]: "keeps s0 s \<Longrightarrow> (\<And>x t. keeps s0 t \<Longrightarrow> keeps s0 (g x t)) \<Longrightarrow> keeps s0 (fold g xs s)"
  by (induction xs arbitrary: s) auto

text \<open>Rules that follow the structure of an operation.\<close>

lemma keep_bind:
  assumes "all_ret (\<lambda>(a, t). keeps s0 t) m" "\<And>a t. keeps s0 t \<Longrightarrow> all_ret Q (f (a, t))"
  shows "all_ret Q (rbind m f)"
  using assms by (auto simp: all_ret_def result_simps)

lemma keep_bind1:
  assumes "all_ret (keeps s0) m" "\<And>t. keeps s0 t \<Longrightarrow> all_ret Q (f t)"
  shows "all_ret Q (rbind m f)"
  using assms by (auto simp: all_ret_def result_simps)

lemma value_bind: "(\<And>x. all_ret Q (f x)) \<Longrightarrow> all_ret Q (rbind m f)"
  by (auto simp: all_ret_def result_simps)

lemma value_bind2: "(\<And>x y. all_ret Q (f (x, y))) \<Longrightarrow> all_ret Q (rbind m f)"
  by (auto simp: all_ret_def result_simps)

lemma keep_Ret: "keeps s0 s \<Longrightarrow> all_ret (\<lambda>(a, t). keeps s0 t) (Ret (a, s))" "keeps s0 s \<Longrightarrow> all_ret (keeps s0) (Ret s)"
  by simp_all

lemma all_ret_if: "(b \<Longrightarrow> all_ret Q m) \<Longrightarrow> (\<not> b \<Longrightarrow> all_ret Q n) \<Longrightarrow> all_ret Q (if b then m else n)"
  by simp

lemma all_ret_option:
  "(o1 = None \<Longrightarrow> all_ret Q m) \<Longrightarrow> (\<And>x. o1 = Some x \<Longrightarrow> all_ret Q (f x)) \<Longrightarrow> all_ret Q (case o1 of None \<Rightarrow> m | Some x \<Rightarrow> f x)"
  by (cases o1) simp_all

lemma all_ret_pair: "(\<And>x y. z = (x, y) \<Longrightarrow> all_ret Q (f x y)) \<Longrightarrow> all_ret Q (case z of (x, y) \<Rightarrow> f x y)"
  by (cases z) simp

lemma all_ret_pair2: "(\<And>x y. z = (x, y) \<Longrightarrow> all_ret Q (f x y t)) \<Longrightarrow> all_ret Q ((case z of (x, y) \<Rightarrow> f x y) t)"
  by (cases z) simp

lemma all_ret_blocking:
  "(\<And>r. b = Done r \<Longrightarrow> all_ret Q (f r)) \<Longrightarrow> (\<And>c j. b = Sleep c j \<Longrightarrow> all_ret Q (g c j)) \<Longrightarrow>
    all_ret Q (case b of Done r \<Rightarrow> f r | Sleep c j \<Rightarrow> g c j)"
  by (cases b) simp_all

lemma all_ret_cons_read:
  "(\<And>r. b = CDone r \<Longrightarrow> all_ret Q (f r)) \<Longrightarrow> (\<And>c j. b = CSleep c j \<Longrightarrow> all_ret Q (g c j)) \<Longrightarrow>
    all_ret Q (case b of CDone r \<Rightarrow> f r | CSleep c j \<Rightarrow> g c j)"
  by (cases b) simp_all

lemma all_ret_ftype:
  "all_ret Q a \<Longrightarrow> all_ret Q b \<Longrightarrow> all_ret Q c \<Longrightarrow> all_ret Q d \<Longrightarrow>
    all_ret Q (case t of FD_NONE \<Rightarrow> a | FD_PIPE \<Rightarrow> b | FD_INODE \<Rightarrow> c | FD_DEVICE \<Rightarrow> d)"
  by (cases t) simp_all

lemma keeps_if [keep]: "(b \<Longrightarrow> keeps s0 s) \<Longrightarrow> (\<not> b \<Longrightarrow> keeps s0 t) \<Longrightarrow> keeps s0 (if b then s else t)"
  by simp

lemmas keep_struct = all_ret_if all_ret_option all_ret_pair all_ret_pair2 all_ret_blocking all_ret_cons_read all_ret_ftype keep_Ret all_ret_simps(2-4) keep_bind keep_bind1 value_bind

lemma keep_on [keep]:
  assumes "keeps s0 s"
  shows "all_ret (\<lambda>(a, t). keeps s0 t) (on_km f s)" "all_ret (\<lambda>(a, t). keeps s0 t) (on_fs g s)"
    "all_ret (keeps s0) (do_km h s)" "all_ret (keeps s0) (do_fs i s)" "all_ret (keeps s0) (do_log j s)"
  using assms by (auto simp: on_km_def on_fs_def do_km_def do_fs_def do_log_def all_ret_def result_simps keep)

lemma keep_in_op [keep]: "keeps s0 s \<Longrightarrow> all_ret (keeps s0) (in_op pid f s)"
  unfolding in_op_def by (rule keep_struct keep | assumption)+

lemma keep_print [keep]: "keeps s0 s \<Longrightarrow> all_ret (keeps s0) (print fmt args s)"
  unfolding print_def by (rule keep_struct keep | assumption)+

section \<open>Operations that keep\<close>

lemma keep_growproc [keep]: "keeps s0 s \<Longrightarrow> all_ret (\<lambda>(r, t). keeps s0 t) (growproc K cur n s)"
  unfolding growproc_def by (simp only: prod.case Let_def | rule keep_struct keep | assumption | simp add: pstep_def)+

lemma keep_kill [keep]: "keeps s0 s \<Longrightarrow> keeps s0 (snd (kill pid s))"
  by (auto simp: kill_def pstep_def intro!: keep split: option.split)

lemma keep_setkilled [keep]: "keeps s0 s \<Longrightarrow> keeps s0 (setkilled p s)"
  unfolding setkilled_def by (rule keep) (auto simp: pstep_def)

lemma keep_update_time [keep]: "keeps s0 s \<Longrightarrow> keeps s0 (update_time s)"
  by (rule keeps_trans, assumption) (simp add: keeps_def update_time_def pstep_def)

lemma keep_chpr [keep]: "keeps s0 s \<Longrightarrow> keeps s0 (snd (chpr pid pr s))"
  by (auto simp: chpr_def intro!: keep split: option.split)

lemma keep_cps_loop [keep]: "keeps s0 s \<Longrightarrow> all_ret (keeps s0) (cps_loop ps s)"
proof (induction ps arbitrary: s)
  case (Cons p ps)
  show ?case unfolding cps_loop.simps Let_def by (rule keep_struct keep Cons | assumption)+
qed simp

lemma keep_cps [keep]: "keeps s0 s \<Longrightarrow> all_ret (\<lambda>(r, t). keeps s0 t) (cps s)"
  unfolding cps_def by (rule keep_struct keep | assumption)+

lemma keep_procdump_loop [keep]: "keeps s0 s \<Longrightarrow> all_ret (keeps s0) (procdump_loop ps s)"
proof (induction ps arbitrary: s)
  case (Cons p ps)
  show ?case unfolding procdump_loop.simps Let_def by (rule keep_struct keep Cons | assumption)+
qed simp

lemma keep_procdump [keep]: "keeps s0 s \<Longrightarrow> all_ret (keeps s0) (procdump s)"
  unfolding procdump_def by (rule keep_struct keep | assumption)+

lemma keep_close_pipe [keep]: "keeps s0 s \<Longrightarrow> all_ret (keeps s0) (close_pipe K cur pa w s)"
  unfolding close_pipe_def by (simp only: prod.case Let_def | rule keep_struct keep | assumption)+

lemma keep_filestat [keep]: "keeps s0 s \<Longrightarrow> all_ret (\<lambda>(r, t). keeps s0 t) (filestat K cur i addr s)"
  unfolding filestat_def by (simp only: prod.case Let_def | rule keep_struct keep | assumption)+

lemma keep_readi [keep]:
  assumes "keeps s0 s"
  shows "all_ret (\<lambda>(r, t). keeps s0 t) (readi_user K cur ip dst off n s)"
    "all_ret (\<lambda>(r, t). keeps s0 t) (readi_kernel K cur ip dst off n s)"
    "all_ret (\<lambda>(r, t). keeps s0 t) (readi_local cur ip off len s)"
    "all_ret (\<lambda>(r, t). keeps s0 t) (writei_user cur ip src off n s)"
  using assms by (auto simp: readi_user_def readi_kernel_def readi_local_def writei_user_def on_fs_def all_ret_def result_simps keep)

lemma keep_devices [keep]:
  assumes "keeps s0 s"
  shows "all_ret (\<lambda>(r, t). keeps s0 t) (piperead_k K cur pa addr n s)"
    "all_ret (\<lambda>(r, t). keeps s0 t) (pipewrite_k cur pa addr n s)"
    "all_ret (\<lambda>(r, t). keeps s0 t) (consoleread_k K cur addr n s)"
    "all_ret (\<lambda>(r, t). keeps s0 t) (consolewrite_k cur addr n s)"
  using assms unfolding piperead_k_def pipewrite_k_def consoleread_k_def consolewrite_k_def
  by - (simp only: prod.case Let_def | rule keep_struct keep | assumption)+

lemma keep_fileread [keep]: "keeps s0 s \<Longrightarrow> all_ret (\<lambda>(r, t). keeps s0 t) (fileread K cur i addr n s)"
  unfolding fileread_def by (simp only: prod.case Let_def | rule keep_struct keep | assumption | simp)+

lemma keep_filewrite_loop [keep]: "keeps s0 s \<Longrightarrow> all_ret (\<lambda>(r, t). keeps s0 t) (filewrite_loop cur i addr n k s)"
proof (induction "nat (n - k)" arbitrary: k s rule: less_induct)
  case less
  have m: "nat (n - (k + min (n - k) MAX_WRITE)) < nat (n - k)" if "k < n"
    using that by (simp add: MAX_WRITE_def MAXOPBLOCKS_def BSIZE_def)
  show ?case using less.prems
    by (subst filewrite_loop.simps)
      (simp only: prod.case Let_def | rule keep_struct keep less.hyps m | assumption | simp)+
qed

lemma keep_filewrite [keep]: "keeps s0 s \<Longrightarrow> all_ret (\<lambda>(r, t). keeps s0 t) (filewrite cur i addr n s)"
  unfolding filewrite_def by (simp only: prod.case Let_def | rule keep_struct keep | assumption | simp)+

section \<open>Program loading\<close>

lemma keep_loadseg_loop [keep]: "keeps s0 s \<Longrightarrow> all_ret (\<lambda>(r, t). keeps s0 t) (loadseg_loop fuel K cur pt va ip offset sz i s)"
proof (induction fuel arbitrary: i s)
  case (Suc fuel)
  show ?case unfolding loadseg_loop.simps by (simp only: prod.case Let_def | rule keep_struct keep Suc | assumption)+
qed simp

lemma keep_loadseg [keep]: "keeps s0 s \<Longrightarrow> all_ret (\<lambda>(r, t). keeps s0 t) (loadseg K cur pt va ip offset sz s)"
  unfolding loadseg_def by (rule keep)

lemma keep_exec_bad [keep]: "keeps s0 s \<Longrightarrow> all_ret (\<lambda>(r, t). keeps s0 t) (exec_bad K cur pt sz ip s)"
  unfolding exec_bad_def by (simp only: prod.case Let_def | rule keep_struct keep | assumption)+

lemma keep_exec_load [keep]: "keeps s0 s \<Longrightarrow> all_ret (\<lambda>(r, t). keeps s0 t) (exec_load k K cur pt ip off sz s)"
proof (induction k arbitrary: off sz s)
  case (Suc k)
  show ?case unfolding exec_load.simps by (simp only: prod.case Let_def | rule keep_struct keep Suc | assumption)+
qed simp

lemma keep_exec_stack [keep]: "keeps s0 s \<Longrightarrow> all_ret (\<lambda>(r, t). keeps s0 t) (exec_stack K cur path argv elf pt sz s)"
  unfolding exec_stack_def by (simp only: prod.case Let_def | rule keep_struct keep | assumption | simp add: pstep_def)+

lemma keep_exec [keep]: "keeps s0 s \<Longrightarrow> all_ret (\<lambda>(r, t). keeps s0 t) (exec K cur path argv s)"
  unfolding exec_def by (simp only: prod.case Let_def | rule keep_struct keep | assumption)+

section \<open>System calls\<close>

lemma keep_fs_op [keep]: "keeps s0 s \<Longrightarrow> all_ret (\<lambda>(r, t). keeps s0 t) (fs_op pid f s)"
  unfolding fs_op_def by (simp only: prod.case Let_def | rule keep_struct keep | assumption)+

lemma keep_exec_argv [keep]: "keeps s0 s \<Longrightarrow> all_ret (\<lambda>(r, t). keeps s0 t) (exec_argv k cur uargv argv s)"
proof (induction k arbitrary: uargv argv s)
  case (Suc k)
  show ?case unfolding exec_argv.simps by (simp only: prod.case Let_def | rule keep_struct keep Suc | assumption)+
qed simp

lemma keep_free_argv [keep]: "keeps s0 s \<Longrightarrow> all_ret (keeps s0) (free_argv K argv s)"
proof (induction argv arbitrary: s)
  case (Cons a argv)
  show ?case unfolding free_argv.simps by (simp only: prod.case Let_def | rule keep_struct keep Cons | assumption)+
qed simp

lemma keep_sysfile [keep]:
  assumes "keeps s0 s"
  shows "all_ret (\<lambda>(r, t). keeps s0 t) (sys_read K cur s)" "all_ret (\<lambda>(r, t). keeps s0 t) (sys_write cur s)"
    "all_ret (\<lambda>(r, t). keeps s0 t) (sys_fstat K cur s)" "all_ret (\<lambda>(r, t). keeps s0 t) (sys_link cur s)"
    "all_ret (\<lambda>(r, t). keeps s0 t) (sys_unlink cur s)" "all_ret (\<lambda>(r, t). keeps s0 t) (sys_mkdir cur s)"
    "all_ret (\<lambda>(r, t). keeps s0 t) (sys_mknod cur s)" "all_ret (\<lambda>(r, t). keeps s0 t) (sys_chdir cur s)"
    "all_ret (\<lambda>(r, t). keeps s0 t) (sys_exec K cur s)"
  using assms
  unfolding sys_read_def sys_write_def sys_fstat_def sys_link_def sys_unlink_def sys_mkdir_def sys_mknod_def sys_chdir_def sys_exec_def
  by - (simp only: prod.case Let_def | rule keep_struct keep | assumption | simp add: pstep_def)+

lemma keep_sysproc [keep]:
  assumes "keeps s0 s"
  shows "all_ret (\<lambda>(r, t). keeps s0 t) (sys_getpid cur s)" "all_ret (\<lambda>(r, t). keeps s0 t) (sys_sbrk K cur s)"
    "all_ret (\<lambda>(r, t). keeps s0 t) (sys_kill cur s)" "all_ret (\<lambda>(r, t). keeps s0 t) (sys_uptime s)"
    "all_ret (\<lambda>(r, t). keeps s0 t) (sys_trace cur s)" "all_ret (\<lambda>(r, t). keeps s0 t) (sys_cps s)"
    "all_ret (\<lambda>(r, t). keeps s0 t) (sys_chpr cur s)"
  using assms
  unfolding sys_getpid_def sys_sbrk_def sys_kill_def sys_uptime_def sys_trace_def sys_cps_def sys_chpr_def case_prod_beta
  by - (simp only: prod.case Let_def | rule keep_struct keep | assumption | simp add: pstep_def)+

lemma keep_print_args [keep]: "keeps s0 s \<Longrightarrow> all_ret (keeps s0) (print_args cur is s)"
proof (induction "is" arbitrary: s)
  case (Cons i "is")
  show ?case unfolding print_args.simps by (simp only: prod.case Let_def | rule keep_struct keep Cons | assumption)+
qed simp

lemma keep_trace_call [keep]: "keeps s0 s \<Longrightarrow> all_ret (keeps s0) (trace_call cur num s)"
  unfolding trace_call_def by (simp only: prod.case Let_def | rule keep_struct keep | assumption)+

section \<open>Interrupts\<close>

lemma keep_cons_events [keep]: "keeps s0 s \<Longrightarrow> all_ret (keeps s0) (cons_events cur es s)"
proof (induction es arbitrary: s)
  case (Cons e es)
  show ?case using Cons.prems
    by (cases e; simp only: cons_events.simps cons_event.case) (rule keep_struct keep Cons.IH | assumption)+
qed simp

lemma keep_devintr [keep]: "keeps s0 s \<Longrightarrow> all_ret (\<lambda>(r, t). keeps s0 t) (devintr cur r d s)"
  unfolding devintr_def uart_interrupt_def disk_interrupt_def clockintr_def
  by (simp only: prod.case Let_def | rule keep_struct keep | assumption)+

lemma keep_usertrapret [keep]: "keeps s0 s \<Longrightarrow> keeps s0 (snd (usertrapret cur r d s))"
  unfolding usertrapret_def by (simp only: prod.case Let_def snd_conv | rule keep | assumption)+

end
