(* ===== verification/Kernel_Runs.thy ===== *)
theory Kernel_Runs
  imports Kernel_Inv
begin

text \<open>
  Invariants of the kernel as a whole, kept by every step of a run: traps from user space with all
  the system calls behind them, interrupts, the scheduler's choices, processes resuming after a
  sleep. Process identifiers are unique, the reference count of every open file is the number of
  descriptors that refer to it, and no process sleeps in \<open>wait\<close> while it has a child to collect.
\<close>

section \<open>The invariant\<close>

definition idle :: "proc \<Rightarrow> bool" where
  "idle x \<longleftrightarrow> pstate x = UNUSED \<or> pstate x = ZOMBIE"

definition slots :: "kernel \<Rightarrow> nat \<Rightarrow> int" where
  "slots s i = (\<Sum>p<NPROC. int (count_list (ofile (procs s p)) (Some i)))"

text \<open>\<open>E i\<close> is the number of references to file \<open>i\<close> held by the running system call itself.\<close>

definition files_ok :: "(nat \<Rightarrow> int) \<Rightarrow> kernel \<Rightarrow> bool" where
  "files_ok E s \<longleftrightarrow> (\<forall>i<NFILE. f_ref (ftable s i) = slots s i + E i) \<and>
     (\<forall>p<NPROC. length (ofile (procs s p)) = NOFILE \<and> (\<forall>i. Some i \<in> set (ofile (procs s p)) \<longrightarrow> i < NFILE) \<and>
        (idle (procs s p) \<longrightarrow> set (ofile (procs s p)) \<subseteq> {None}))"

definition pids_ok :: "kernel \<Rightarrow> bool" where
  "pids_ok s \<longleftrightarrow> 0 < nextpid s \<and>
     (\<forall>p<NPROC. if pstate (procs s p) = UNUSED then p_pid (procs s p) = 0
        else 0 < p_pid (procs s p) \<and> p_pid (procs s p) < nextpid s) \<and>
     (\<forall>p<NPROC. \<forall>q<NPROC. pstate (procs s p) \<noteq> UNUSED \<longrightarrow> p_pid (procs s p) = p_pid (procs s q) \<longrightarrow> p = q)"

definition in_wait :: "nat \<Rightarrow> proc \<Rightarrow> bool" where
  "in_wait p x \<longleftrightarrow> pstate x = SLEEPING \<and> pchan x = Some (Proc_chan p)"

definition sleep_ok :: "kernel \<Rightarrow> bool" where
  "sleep_ok s \<longleftrightarrow> (\<forall>p<NPROC. \<forall>c<NPROC. in_wait p (procs s p) \<longrightarrow> \<not> zombie_child p (procs s c))"

definition k_inv :: "(nat \<Rightarrow> int) \<Rightarrow> kernel \<Rightarrow> bool" where
  "k_inv E s \<longleftrightarrow> files_ok E s \<and> pids_ok s \<and> sleep_ok s"

lemma k_inv_cong: "k_inv E s \<Longrightarrow> (\<And>i. E i = F i) \<Longrightarrow> k_inv F s"
  by (simp add: k_inv_def files_ok_def)

lemma k_invD:
  assumes "k_inv E s" "p < NPROC"
  shows "length (ofile (procs s p)) = NOFILE" "Some i \<in> set (ofile (procs s p)) \<Longrightarrow> i < NFILE"
    "idle (procs s p) \<Longrightarrow> set (ofile (procs s p)) \<subseteq> {None}"
    "pstate (procs s p) \<noteq> UNUSED \<Longrightarrow> 0 < p_pid (procs s p)" "p_pid (procs s p) < nextpid s" "0 < nextpid s"
  using assms by (auto simp: k_inv_def files_ok_def pids_ok_def split: if_splits)

lemma keeps_inv: "k_inv E s \<Longrightarrow> keeps s t \<Longrightarrow> k_inv E t"
proof -
  assume s: "k_inv E s" and k: "keeps s t"
  have ps: "pstep (procs s p) (procs t p)" for p using k by (simp add: keeps_def)
  have e: "p_pid (procs t p) = p_pid (procs s p)" "ofile (procs t p) = ofile (procs s p)"
    "(pstate (procs t p) = UNUSED) = (pstate (procs s p) = UNUSED)" "idle (procs t p) = idle (procs s p)"
    "in_wait q (procs t p) \<Longrightarrow> in_wait q (procs s p)" "zombie_child q (procs t p) = zombie_child q (procs s p)" for p q
    using ps [of p] by (auto simp: pstep_def idle_def in_wait_def zombie_child_def)
  have "nextpid t = nextpid s" "f_ref (ftable t i) = f_ref (ftable s i)" for i using k by (simp_all add: keeps_def)
  with s e show ?thesis by (auto simp: k_inv_def files_ok_def pids_ok_def sleep_ok_def slots_def)
qed

section \<open>Updates of one process\<close>

lemma sum_upd:
  fixes n :: nat
  assumes "p < n"
  shows "(\<Sum>q<n. g (if q = p then a else h q)) = (\<Sum>q<n. g (h q)) - g (h p) + (g a :: int)"
proof -
  have "(\<Sum>q<n. g (if q = p then a else h q)) = g a + (\<Sum>q\<in>{..<n} - {p}. g (h q))"
    using assms by (subst sum.remove [of _ p]) auto
  moreover have "(\<Sum>q<n. g (h q)) = g (h p) + (\<Sum>q\<in>{..<n} - {p}. g (h q))"
    using assms by (subst sum.remove [of _ p]) auto
  ultimately show ?thesis by simp
qed

lemma slots_upd:
  "p < NPROC \<Longrightarrow> slots (upd_proc p f s) i = slots s i - int (count_list (ofile (procs s p)) (Some i)) +
     int (count_list (ofile (f (procs s p))) (Some i))"
  using sum_upd [of p NPROC "\<lambda>x. int (count_list (ofile x) (Some i))" "f (procs s p)" "procs s"]
  by (simp add: slots_def upd_proc_def fun_upd_def)

lemma count_list_upd:
  "k < length xs \<Longrightarrow> int (count_list (xs[k := v]) x) = int (count_list xs x) - of_bool (xs ! k = x) + of_bool (v = x)"
proof (induction xs arbitrary: k)
  case (Cons y ys)
  then show ?case using Cons.IH [of "k - 1"] by (cases k) (auto simp del: of_bool_eq_iff)
qed simp

text \<open>An update that keeps the open files and does not make the process a zombie or put it to sleep in \<open>wait\<close>.\<close>

lemma inv_upd:
  assumes s: "k_inv E s" and p: "p < NPROC" and o: "ofile (f (procs s p)) = ofile (procs s p)"
    and i: "idle (f (procs s p)) \<Longrightarrow> set (ofile (procs s p)) \<subseteq> {None}"
    and pid: "if pstate (f (procs s p)) = UNUSED then p_pid (f (procs s p)) = 0
      else 0 < p_pid (f (procs s p)) \<and> p_pid (f (procs s p)) < nextpid s \<and>
        (\<forall>q<NPROC. q \<noteq> p \<longrightarrow> p_pid (procs s q) \<noteq> p_pid (f (procs s p)))"
    and z: "pstate (f (procs s p)) \<noteq> ZOMBIE" "\<not> in_wait p (f (procs s p))"
  shows "k_inv E (upd_proc p f s)"
proof -
  have "files_ok E (upd_proc p f s)"
    using s p o i unfolding k_inv_def files_ok_def slots_upd [OF p] by (simp add: upd_proc_def)
  moreover have "pids_ok (upd_proc p f s)"
    using s p pid unfolding k_inv_def pids_ok_def by (auto simp: upd_proc_def split: if_splits)
  moreover have "sleep_ok (upd_proc p f s)"
    using s z by (auto simp: k_inv_def sleep_ok_def upd_proc_def zombie_child_def)
  ultimately show ?thesis by (simp add: k_inv_def)
qed

lemma inv_upd_live:
  assumes s: "k_inv E s" and p: "p < NPROC" and l: "\<not> idle (procs s p)" "\<not> idle (f (procs s p))" "\<not> in_wait p (f (procs s p))"
    and e: "ofile (f (procs s p)) = ofile (procs s p)" "p_pid (f (procs s p)) = p_pid (procs s p)"
  shows "k_inv E (upd_proc p f s)"
proof (rule inv_upd [OF s p])
  show "if pstate (f (procs s p)) = UNUSED then p_pid (f (procs s p)) = 0
    else 0 < p_pid (f (procs s p)) \<and> p_pid (f (procs s p)) < nextpid s \<and>
      (\<forall>q<NPROC. q \<noteq> p \<longrightarrow> p_pid (procs s q) \<noteq> p_pid (f (procs s p)))"
    using s p l e unfolding k_inv_def pids_ok_def by (auto simp: idle_def) metis+
qed (use l e in \<open>auto simp: idle_def\<close>)

section \<open>Open files\<close>

text \<open>The current process in the middle of a system call.\<close>

definition c_inv :: "nat \<Rightarrow> (nat \<Rightarrow> int) \<Rightarrow> kernel \<Rightarrow> bool" where
  "c_inv cur E s \<longleftrightarrow> k_inv E s \<and> cur < NPROC \<and> pstate (procs s cur) = RUNNING"

lemma c_inv_cong: "c_inv cur E s \<Longrightarrow> (\<And>i. E i = F i) \<Longrightarrow> c_inv cur F s"
  using k_inv_cong by (auto simp: c_inv_def)

lemma keeps_c_inv: "c_inv cur E s \<Longrightarrow> keeps s t \<Longrightarrow> c_inv cur E t"
  using keeps_inv [of E s t] by (auto simp: c_inv_def keeps_def pstep_def) (metis procstate.distinct)

lemma c_ofile:
  assumes "c_inv cur E s"
  shows "length (ofile (procs s cur)) = NOFILE" "fd < NOFILE \<Longrightarrow> ofile (procs s cur) ! fd = Some i \<Longrightarrow> i < NFILE"
  using assms k_invD(1,2) [of E s cur] by (auto simp: c_inv_def) (metis nth_mem)

lemma c_refs:
  assumes "c_inv cur E s" "i < NFILE" "f_ref (g (ftable s i)) = f_ref (ftable s i) + d"
  shows "c_inv cur (\<lambda>j. E j + of_bool (j = i) * d) (upd_file i g s)"
  using assms by (auto simp: c_inv_def k_inv_def files_ok_def pids_ok_def sleep_ok_def upd_file_def slots_def)

lemma c_keep: "all_ret (keeps s) m \<Longrightarrow> c_inv cur E s \<Longrightarrow> all_ret (c_inv cur E) m"
  "all_ret (\<lambda>(r, t). keeps s t) n \<Longrightarrow> c_inv cur E s \<Longrightarrow> all_ret (\<lambda>(r, t). c_inv cur E t) n"
  using keeps_c_inv by (auto simp: all_ret_def)

lemma inv_set_ofile:
  assumes inv: "k_inv E s" "cur < NPROC" "\<not> idle (procs s cur)" and fd: "fd < NOFILE" and f: "\<And>i. f = Some i \<Longrightarrow> i < NFILE"
  shows "k_inv (\<lambda>i. E i + of_bool (ofile (procs s cur) ! fd = Some i) - of_bool (f = Some i)) (set_ofile cur fd f s)"
proof -
  note p = inv(2,3,1)
  have c: "length (ofile (procs s cur)) = NOFILE" by (rule k_invD(1) [OF inv(1,2)])
  let ?s = "set_ofile cur fd f s"
  have len: "fd < length (ofile (procs s cur))" using fd c by simp
  have pr: "procs ?s = (procs s)(cur := (procs s cur)\<lparr>ofile := (ofile (procs s cur))[fd := f]\<rparr>)"
    by (simp add: set_ofile_def upd_proc_def)
  have sl: "slots ?s i = slots s i - of_bool (ofile (procs s cur) ! fd = Some i) + of_bool (f = Some i)" for i
    unfolding set_ofile_def slots_upd [OF p(1)] by (simp add: count_list_upd [OF len])
  have e: "f_ref (ftable ?s i) = f_ref (ftable s i)" "nextpid ?s = nextpid s" "pstate (procs ?s q) = pstate (procs s q)"
    "p_pid (procs ?s q) = p_pid (procs s q)" "in_wait j (procs ?s q) = in_wait j (procs s q)" "idle (procs ?s q) = idle (procs s q)"
    "zombie_child j (procs ?s q) = zombie_child j (procs s q)" for i j q
    by (simp_all add: set_ofile_def upd_proc_def in_wait_def zombie_child_def idle_def)
  have sub: "i < NFILE" if "Some i \<in> set ((ofile (procs s cur))[fd := f])" for i
    using that set_update_subset_insert [of "ofile (procs s cur)" fd f] f k_invD(2) [OF p(3,1)] by auto
  have "length (ofile (procs ?s q)) = NOFILE \<and> (\<forall>i. Some i \<in> set (ofile (procs ?s q)) \<longrightarrow> i < NFILE) \<and>
    (idle (procs ?s q) \<longrightarrow> set (ofile (procs ?s q)) \<subseteq> {None})" if q: "q < NPROC" for q
  proof (cases "q = cur")
    case True
    then show ?thesis using sub c p(2) by (simp add: e) (simp add: pr)
  next
    case False
    then show ?thesis using k_invD(1,2,3) [OF p(3) q] unfolding e by (simp add: pr)
  qed
  moreover have "f_ref (ftable ?s i) = slots ?s i + (E i + of_bool (ofile (procs s cur) ! fd = Some i) - of_bool (f = Some i))"
    if "i < NFILE" for i
    using p(3) that unfolding sl e k_inv_def files_ok_def by simp
  ultimately have "files_ok (\<lambda>i. E i + of_bool (ofile (procs s cur) ! fd = Some i) - of_bool (f = Some i)) ?s"
    unfolding files_ok_def by blast
  moreover have "pids_ok ?s" "sleep_ok ?s"
    using p(3) unfolding k_inv_def pids_ok_def sleep_ok_def e by blast+
  ultimately show ?thesis by (simp add: k_inv_def)
qed

lemma c_set_ofile:
  assumes "c_inv cur E s" "fd < NOFILE" "\<And>i. f = Some i \<Longrightarrow> i < NFILE"
  shows "c_inv cur (\<lambda>i. E i + of_bool (ofile (procs s cur) ! fd = Some i) - of_bool (f = Some i)) (set_ofile cur fd f s)"
  using inv_set_ofile [of E s cur fd f] assms by (simp add: c_inv_def idle_def) (simp add: set_ofile_def upd_proc_def)

lemma c_filedup:
  assumes "c_inv cur E s" "i < NFILE"
  shows "all_ret (c_inv cur (\<lambda>j. E j + of_bool (j = i))) (filedup i s)"
  using c_refs [OF assms, of _ 1] by (simp add: filedup_def)

lemma c_filealloc:
  assumes "c_inv cur E s" "filealloc s = (r, t)"
  shows "case r of None \<Rightarrow> t = s | Some i \<Rightarrow> i < NFILE \<and> c_inv cur (\<lambda>j. E j + of_bool (j = i)) t"
proof (cases "find (\<lambda>i. f_ref (ftable s i) = 0) [0..<NFILE]")
  case None
  then show ?thesis using assms by (auto simp: filealloc_def)
next
  case (Some i)
  then have i: "i < NFILE" "f_ref (ftable s i) = 0" by (auto simp: find_Some_iff)
  have "r = Some i" "t = upd_file i (\<lambda>f. f\<lparr>f_ref := 1\<rparr>) s" using assms(2) Some by (auto simp: filealloc_def)
  then show ?thesis using i c_refs [OF assms(1) i(1), of "\<lambda>f. f\<lparr>f_ref := 1\<rparr>" 1] by simp
qed

lemma c_fdalloc:
  assumes c: "c_inv cur E s" and e: "fdalloc cur f s = (r, t)" and f: "f < NFILE"
  shows "case r of None \<Rightarrow> t = s
    | Some fd \<Rightarrow> fd < NOFILE \<and> ofile (procs t cur) ! fd = Some f \<and> c_inv cur (\<lambda>j. E j - of_bool (j = f)) t"
proof (cases "find (\<lambda>fd. ofile (procs s cur) ! fd = None) [0..<NOFILE]")
  case None
  then show ?thesis using e by (auto simp: fdalloc_def)
next
  case (Some fd)
  then have fd: "fd < NOFILE" "ofile (procs s cur) ! fd = None" by (auto simp: find_Some_iff)
  have "c_inv cur (\<lambda>j. E j - of_bool (j = f)) (set_ofile cur fd (Some f) s)"
    by (rule c_inv_cong [OF c_set_ofile [OF c fd(1)]]) (use f fd(2) in auto)
  moreover have "r = Some fd" "t = set_ofile cur fd (Some f) s" using e Some by (auto simp: fdalloc_def)
  ultimately show ?thesis using fd c_ofile(1) [OF c] by (simp add: set_ofile_def upd_proc_def)
qed

lemma c_fileclose:
  assumes c: "c_inv cur E s" and i: "i < NFILE"
  shows "all_ret (c_inv cur (\<lambda>j. E j - of_bool (j = i))) (fileclose K cur i s)"
proof -
  define t where "t = upd_file i (\<lambda>f. f\<lparr>f_ref := f_ref f - 1\<rparr>) s"
  have t: "c_inv cur (\<lambda>j. E j - of_bool (j = i)) t"
    unfolding t_def by (rule c_inv_cong [OF c_refs [OF c i, of _ "- 1"]]) simp_all
  define u where "u = upd_file i (\<lambda>f. f\<lparr>f_ref := 0, f_type := FD_NONE\<rparr>) t"
  have u: "c_inv cur (\<lambda>j. E j - of_bool (j = i)) u" if "\<not> f_ref (ftable s i) < 1" "\<not> 0 < f_ref (ftable t i)"
    by (rule keeps_c_inv [OF t]) (use that in \<open>simp add: keeps_def u_def t_def upd_file_def\<close>)
  show ?thesis unfolding fileclose_def Let_def t_def [symmetric] u_def [symmetric]
    by (rule all_ret_if all_ret_ftype all_ret_simps(2) c_keep(1) keep_close_pipe keep_in_op keeps_refl u | assumption | simp add: t u)+
qed

end
