(* ===== verification/Kernel_Life.thy ===== *)
theory Kernel_Life
  imports Kernel_Runs
begin

text \<open>
  The invariant through the life of a process: \<open>allocproc\<close>, \<open>freeproc\<close>, \<open>fork\<close>, \<open>exit\<close>, \<open>wait\<close>, and the
  system calls that open and close files.
\<close>

section \<open>Allocation\<close>

lemma do_km_Ret: "do_km f s = Ret t \<Longrightarrow> procs t = procs s"
  by (auto simp: do_km_def result_simps)

lemma on_km_Ret: "on_km f s = Ret (r, t) \<Longrightarrow> procs t = procs s"
  by (auto simp: on_km_def result_simps)

lemma find_procD:
  "find_proc P s = Some p \<Longrightarrow> p < NPROC \<and> P (procs s p)" "find_proc P s = None \<Longrightarrow> q < NPROC \<Longrightarrow> \<not> P (procs s q)"
  by (auto simp: find_proc_def find_Some_iff find_None_iff)

lemma freeproc_inv:
  assumes s: "k_inv E s" and p: "p < NPROC" "set (ofile (procs s p)) \<subseteq> {None}"
  shows "all_ret (\<lambda>t. k_inv E t \<and> (\<forall>q. q \<noteq> p \<longrightarrow> procs t q = procs s q)) (freeproc K p s)"
proof -
  let ?n = "\<lambda>x. x\<lparr>pagetable := 0, p_sz := 0, p_pid := 0, parent := None, p_name := (p_name x)[0 := 0],
       pchan := None, killed_flag := 0, xstate := 0, pstate := UNUSED\<rparr>"
  have "k_inv E (upd_proc p ?n w) \<and> (\<forall>q. q \<noteq> p \<longrightarrow> procs (upd_proc p ?n w) q = procs s q)"
    if "keeps s w" "\<forall>q. q \<noteq> p \<longrightarrow> procs w q = procs s q" for w
  proof -
    have "ofile (procs w p) = ofile (procs s p)" using that(1) by (simp add: keeps_def pstep_def)
    then have "k_inv E (upd_proc p ?n w)"
      by (intro inv_upd [OF keeps_inv [OF s that(1)] p(1)]) (use p(2) in \<open>simp_all add: in_wait_def\<close>)
    then show ?thesis using that(2) by (simp add: upd_proc_def)
  qed
  moreover have "\<exists>w. t = upd_proc p ?n w \<and> keeps s w \<and> (\<forall>q. q \<noteq> p \<longrightarrow> procs w q = procs s q)" if "freeproc K p s = Ret t" for t
  proof -
    obtain u where u: "(if trapframe (procs s p) \<noteq> 0 then do_km (kfree (kend K) (trapframe (procs s p))) s else Ret s) = Ret u"
      "(let v = upd_proc p (\<lambda>x. x\<lparr>trapframe := 0\<rparr>) u in
         rbind (if pagetable (procs v p) \<noteq> 0
            then do_km (proc_freepagetable K (pagetable (procs v p)) (p_sz (procs v p))) v else Ret v) (\<lambda>w. Ret (upd_proc p ?n w))) = Ret t"
      using \<open>freeproc K p s = Ret t\<close> unfolding freeproc_def by (auto simp: result_simps Let_def)
    define v where "v = upd_proc p (\<lambda>x. x\<lparr>trapframe := 0\<rparr>) u"
    have ku: "keeps s u" "procs u = procs s"
      using u(1) all_retD [OF keep_on(3) [OF keeps_refl], of "kfree (kend K) (trapframe (procs s p))" s u] do_km_Ret by (auto split: if_splits)
    have kv: "keeps s v" unfolding v_def by (rule keeps_upd_proc [OF ku(1)]) (simp add: pstep_def)
    obtain w where w: "(if pagetable (procs v p) \<noteq> 0
            then do_km (proc_freepagetable K (pagetable (procs v p)) (p_sz (procs v p))) v else Ret v) = Ret w" "t = upd_proc p ?n w"
      using u(2) by (auto simp: Let_def result_simps v_def [symmetric])
    have "keeps s w" "procs w = procs v"
      using w(1) kv all_retD [OF keep_on(3) [OF kv], of "proc_freepagetable K (pagetable (procs v p)) (p_sz (procs v p))" w] do_km_Ret
      by (auto split: if_splits)
    then show ?thesis using w(2) ku(2) by (intro exI [of _ w]) (simp add: v_def upd_proc_def)
  qed
  ultimately show ?thesis by (force simp: all_ret_def)
qed

text \<open>\<open>new_proc s p t\<close>: slot \<open>p\<close>, free in \<open>s\<close>, is taken in \<open>t\<close>, and no other process changed.\<close>

definition new_proc :: "(nat \<Rightarrow> int) \<Rightarrow> kernel \<Rightarrow> nat \<Rightarrow> kernel \<Rightarrow> bool" where
  "new_proc E s p t \<longleftrightarrow> k_inv E t \<and> p < NPROC \<and> pstate (procs s p) = UNUSED \<and> pstate (procs t p) = USED \<and>
     set (ofile (procs t p)) \<subseteq> {None} \<and> (\<forall>q. q \<noteq> p \<longrightarrow> procs t q = procs s q)"

lemma new_proc_keep:
  assumes n: "new_proc E s p t" and k: "keeps t u" "\<And>q. q \<noteq> p \<Longrightarrow> procs u q = procs t q"
  shows "new_proc E s p u"
proof -
  have "pstep (procs t p) (procs u p)" using k(1) by (simp add: keeps_def)
  then show ?thesis using n keeps_inv [OF _ k(1)] k(2) by (auto simp: new_proc_def pstep_def)
qed

lemma new_proc_pid:
  assumes s: "k_inv E s" and p: "p < NPROC" "pstate (procs s p) = UNUSED \<or> pstate (procs s p) = USED" "set (ofile (procs s p)) \<subseteq> {None}"
    and f: "\<And>x. ofile (f x) = ofile x" "\<And>x. p_pid (f x) = nextpid s" "pstate (f (procs s p)) = USED"
  shows "k_inv E (upd_proc p f (s\<lparr>nextpid := nextpid s + 1\<rparr>))"
proof -
  have n: "k_inv E (s\<lparr>nextpid := nextpid s + 1\<rparr>)" using s by (auto simp: k_inv_def files_ok_def pids_ok_def sleep_ok_def slots_def)
  have "p_pid (procs s q) \<noteq> nextpid s" if "q < NPROC" for q using k_invD(5) [OF s that] by simp
  then show ?thesis
    by (intro inv_upd [OF n p(1)]) (use k_invD(6) [OF s p(1)] p f in \<open>auto simp: idle_def in_wait_def\<close>)
qed

lemma allocproc_inv:
  assumes s: "k_inv E s"
  shows "all_ret (\<lambda>(r, t). case r of None \<Rightarrow> k_inv E t \<and> (\<forall>q. pstate (procs s q) \<noteq> UNUSED \<longrightarrow> procs t q = procs s q)
    | Some p \<Rightarrow> new_proc E s p t) (allocproc K s)"
proof (cases "find_proc (\<lambda>x. pstate x = UNUSED) s")
  case (Some p)
  then have p: "p < NPROC" "pstate (procs s p) = UNUSED" using find_procD(1) by auto
  have o: "set (ofile (procs s p)) \<subseteq> {None}" using k_invD(3) [OF s p(1)] p(2) by (simp add: idle_def)
  have pid: "all_ret (\<lambda>x. x = (nextpid u, u\<lparr>nextpid := nextpid u + 1\<rparr>)) (allocpid u)" for u by (simp add: allocpid_def)
  define s1 where "s1 = upd_proc p (\<lambda>x. x\<lparr>p_pid := nextpid s, pstate := USED\<rparr>) (s\<lparr>nextpid := nextpid s + 1\<rparr>)"
  define s2 where "s2 = upd_proc p (\<lambda>x. x\<lparr>p_pid := nextpid s1, priority := 60\<rparr>) (s1\<lparr>nextpid := nextpid s1 + 1\<rparr>)"
  have s1: "k_inv E s1" unfolding s1_def by (rule new_proc_pid [OF s]) (use p o in auto)
  have "k_inv E s2" unfolding s2_def by (rule new_proc_pid [OF s1 p(1)]) (use o in \<open>simp_all add: s1_def upd_proc_def\<close>)
  then have n2: "new_proc E s p s2" using p o by (simp add: new_proc_def s2_def s1_def upd_proc_def)
  let ?Q = "\<lambda>(r, t). case r of None \<Rightarrow> k_inv E t \<and> (\<forall>q. pstate (procs s q) \<noteq> UNUSED \<longrightarrow> procs t q = procs s q)
    | Some p \<Rightarrow> new_proc E s p t"
  have fail: "all_ret ?Q (rbind (freeproc K p u) (\<lambda>s. Ret (None, s)))" if "new_proc E s p u" for u
    by (rule all_ret_bindI [OF freeproc_inv [of E u p K]]) (use that p(2) in \<open>auto simp: new_proc_def\<close>)
  have km: "all_ret (\<lambda>(r, t). new_proc E s p t) (on_km f u)" if "new_proc E s p u" for f :: "kmem \<Rightarrow> (u64 \<times> kmem) result" and u
    using new_proc_keep [OF that] all_retD [OF keep_on(1) [OF keeps_refl]] on_km_Ret by (fastforce simp: all_ret_def)
  have up: "new_proc E s p (upd_proc p f u)" if "new_proc E s p u" "\<And>x. pstep x (f x)" for f u
    by (rule new_proc_keep [OF that(1) keeps_upd_proc [OF keeps_refl that(2)]]) (simp add: upd_proc_def)
  have ok: "all_ret ?Q (Ret (Some p, u))" if "new_proc E s p u" for u using that by simp
  show ?thesis unfolding allocproc_def Some option.case Let_def
    by (rule all_ret_bindI [OF pid], simp only: prod.case s1_def [symmetric],
        rule all_ret_bindI [OF pid], simp only: prod.case s2_def [symmetric])
      (simp only: prod.case | rule n2 all_ret_if fail ok all_ret_bind2I [OF km] up | assumption | simp add: pstep_def)+
next
  case None
  then show ?thesis using s by (simp add: allocproc_def)
qed

section \<open>Fork\<close>

text \<open>The parent runs, the child has been allocated.\<close>

definition forking :: "nat \<Rightarrow> nat \<Rightarrow> kernel \<Rightarrow> bool" where
  "forking cur np s \<longleftrightarrow> c_inv cur (\<lambda>_. 0) s \<and> np < NPROC \<and> pstate (procs s np) = USED"

lemma forking_keep: "forking cur np s \<Longrightarrow> keeps s t \<Longrightarrow> forking cur np t"
  using keeps_c_inv by (auto simp: forking_def keeps_def pstep_def) (metis procstate.distinct)

lemma fork_files_inv:
  assumes "forking cur np s" "distinct fds" "\<And>fd. fd \<in> set fds \<Longrightarrow> fd < NOFILE \<and> ofile (procs s np) ! fd = None"
  shows "all_ret (forking cur np) (fork_files cur np fds s)"
  using assms
proof (induction fds arbitrary: s)
  case (Cons fd fds)
  have c: "c_inv cur (\<lambda>_. 0) s" "cur \<noteq> np" and np: "np < NPROC" "pstate (procs s np) = USED" using Cons.prems(1) by (auto simp: forking_def c_inv_def)
  have fd: "fd < NOFILE" "ofile (procs s np) ! fd = None" using Cons.prems(3) [of fd] by auto
  show ?case
  proof (cases "ofile (procs s cur) ! fd")
    case None
    then show ?thesis using Cons by simp
  next
    case (Some f)
    then have f: "f < NFILE" using c_ofile(2) [OF c(1) fd(1)] by simp
    have "all_ret (forking cur np) (fork_files cur np fds (set_ofile np fd (Some f) u))"
      if u: "c_inv cur (\<lambda>j. 0 + of_bool (j = f)) u" "procs u = procs s" for u
    proof (rule Cons.IH)
      have "k_inv (\<lambda>i. 0 + of_bool (i = f) + of_bool (ofile (procs u np) ! fd = Some i) - of_bool (Some f = Some i)) (set_ofile np fd (Some f) u)"
        by (rule inv_set_ofile [OF _ np(1)]) (use u fd np f in \<open>auto simp: c_inv_def idle_def\<close>)
      then have "k_inv (\<lambda>_. 0) (set_ofile np fd (Some f) u)" by (rule k_inv_cong) (use fd u(2) in auto)
      then show "forking cur np (set_ofile np fd (Some f) u)" using u np c(2) by (simp add: forking_def c_inv_def) (simp add: set_ofile_def upd_proc_def)
      show "distinct fds" using Cons.prems(2) by simp
      show "fd' < NOFILE \<and> ofile (procs (set_ofile np fd (Some f) u) np) ! fd' = None" if "fd' \<in> set fds" for fd'
        using Cons.prems(2) Cons.prems(3) [of fd'] that u(2) by (cases "fd' = fd") (auto simp: set_ofile_def upd_proc_def)
    qed
    moreover have d: "all_ret (\<lambda>u. c_inv cur (\<lambda>j. 0 + of_bool (j = f)) u \<and> procs u = procs s) (filedup f s)"
      using c_filedup [OF c(1) f] by (auto simp: all_ret_def filedup_def upd_file_def split: if_splits)
    ultimately show ?thesis unfolding fork_files.simps Some option.case set_ofile_def [symmetric]
      by (intro all_ret_bindI [OF d]) auto
  qed
qed simp

lemma forking_run:
  assumes "forking cur np s" "\<And>x. ofile (f x) = ofile x \<and> p_pid (f x) = p_pid x \<and> pstate (f x) = RUNNABLE"
  shows "c_inv cur (\<lambda>_. 0) (upd_proc np f s)"
proof -
  have "k_inv (\<lambda>_. 0) (upd_proc np f s)"
    by (rule inv_upd_live) (use assms in \<open>auto simp: forking_def c_inv_def idle_def in_wait_def\<close>)
  then show ?thesis using assms by (auto simp: forking_def c_inv_def upd_proc_def)
qed

lemma fork_inv:
  assumes c: "c_inv cur (\<lambda>_. 0) s"
  shows "all_ret (\<lambda>(r, t). c_inv cur (\<lambda>_. 0) t) (fork K cur s)"
proof -
  have s: "k_inv (\<lambda>_. 0) s" "cur < NPROC" "pstate (procs s cur) = RUNNING" using c by (simp_all add: c_inv_def)
  let ?a = "\<lambda>r t. case r of None \<Rightarrow> k_inv (\<lambda>_. 0) t \<and> (\<forall>q. pstate (procs s q) \<noteq> UNUSED \<longrightarrow> procs t q = procs s q)
    | Some p \<Rightarrow> new_proc (\<lambda>_. 0) s p t"
  have none: "c_inv cur (\<lambda>_. 0) t" if "?a None t" for t using that s by (simp add: c_inv_def)
  have new: "forking cur np t \<and> set (ofile (procs t np)) \<subseteq> {None}" if "?a (Some np) t" for np t
  proof -
    have "np \<noteq> cur" using that s(3) by (auto simp: new_proc_def)
    then show ?thesis using that s by (simp add: new_proc_def forking_def c_inv_def)
  qed
  have free: "all_ret (\<lambda>(r, t). c_inv cur (\<lambda>_. 0) t) (rbind (freeproc K np t) (\<lambda>s. Ret (- 1, s)))"
    if "forking cur np t \<and> set (ofile (procs t np)) \<subseteq> {None}" for np t
  proof -
    have "np \<noteq> cur" using that by (auto simp: forking_def c_inv_def)
    then show ?thesis by (intro all_ret_bindI [OF freeproc_inv [of "\<lambda>_. 0"]]) (use that in \<open>auto simp: forking_def c_inv_def\<close>)
  qed
  have km: "all_ret (\<lambda>(r, u). forking cur np u \<and> set (ofile (procs u np)) \<subseteq> {None}) (on_km f t)"
    if "forking cur np t \<and> set (ofile (procs t np)) \<subseteq> {None}" for f :: "kmem \<Rightarrow> (int \<times> kmem) result" and np t
    using that forking_keep all_retD [OF keep_on(1) [OF keeps_refl]] on_km_Ret by (fastforce simp: all_ret_def)
  have files: "all_ret (forking cur np) (fork_files cur np [0..<NOFILE] u)"
    if "forking cur np t \<and> set (ofile (procs t np)) \<subseteq> {None}" "keeps t u" for np t u
  proof (rule fork_files_inv)
    have e: "ofile (procs u np) = ofile (procs t np)" using that(2) by (simp add: keeps_def pstep_def)
    have "length (ofile (procs t np)) = NOFILE" using that(1) k_invD(1) [of "\<lambda>_. 0" t np] by (simp add: forking_def c_inv_def)
    then show "fd < NOFILE \<and> ofile (procs u np) ! fd = None" if "fd \<in> set [0..<NOFILE]" for fd
      using that subsetD [OF conjunct2 [OF \<open>forking cur np t \<and> set (ofile (procs t np)) \<subseteq> {None}\<close>] nth_mem [of fd]] by (simp add: e)
  qed (use that forking_keep in auto)
  have last: "all_ret (\<lambda>(r, t). c_inv cur (\<lambda>_. 0) t) (Ret (a, upd_proc np (\<lambda>x. x\<lparr>pstate := RUNNABLE\<rparr>) v))"
    if "forking cur np v" for np v and a :: int
    using forking_run [OF that, of "\<lambda>x. x\<lparr>pstate := RUNNABLE\<rparr>"] by simp
  have par: "forking cur np (upd_proc np f v)"
    if "forking cur np v" "\<And>x. ofile (f x) = ofile x \<and> p_pid (f x) = p_pid x \<and> pstate (f x) = pstate x" for np v f
  proof -
    have "k_inv (\<lambda>_. 0) (upd_proc np f v)"
      by (rule inv_upd_live) (use that in \<open>auto simp: forking_def c_inv_def idle_def in_wait_def\<close>)
    then show ?thesis using that by (auto simp: forking_def c_inv_def upd_proc_def)
  qed
  have idup: "forking cur np (v\<lparr>kfs := t\<rparr>)" if "forking cur np v" for np v t
    by (rule forking_keep [OF that]) (rule keeps_fields keeps_refl)+
  have keeps: "keeps t (tf_set np TF_a0 0 (copy_trapframe cur np (upd_proc np (\<lambda>x. x\<lparr>p_sz := z\<rparr>) t)))" for np t z
    unfolding copy_trapframe_def by (rule keep keeps_refl | simp add: pstep_def)+
  show ?thesis unfolding fork_def Let_def
    apply (rule all_ret_bind2I [OF allocproc_inv [OF s(1)]])
    apply (simp only: prod.case)
    apply (rule all_ret_option)
     apply (simp add: none)
    apply (simp only:)
    apply (drule new)
    apply (rule all_ret_bind2I [OF km], assumption, simp only: prod.case)
    apply (rule all_ret_if)
     apply (rule free, assumption)
    apply (rule all_ret_bindI [OF files], assumption, rule keeps)
    apply (rule all_ret_option, simp)
    apply (rule last par idup | assumption | simp)+
    done
qed

section \<open>Exit and wait\<close>

lemma fileclose_ofile: "all_ret (\<lambda>t. \<forall>p. ofile (procs t p) = ofile (procs s p)) (fileclose K cur i s)"
proof -
  have k: "all_ret (\<lambda>t. \<forall>p. ofile (procs t p) = ofile (procs s p)) m" if "all_ret (keeps u) m" "procs u = procs s" for m u
    using that by (auto simp: all_ret_def keeps_def pstep_def)
  show ?thesis unfolding fileclose_def Let_def
    by (rule all_ret_if all_ret_ftype all_ret_simps(2) k [OF keep_close_pipe [OF keeps_refl]] k [OF keep_in_op [OF keeps_refl]]
      | simp add: upd_file_def)+
qed

lemma exit_files_inv:
  assumes "c_inv cur E s" "\<And>fd. fd \<in> set fds \<Longrightarrow> fd < NOFILE"
  shows "all_ret (\<lambda>t. c_inv cur E t \<and> (\<forall>fd<NOFILE. fd \<in> set fds \<or> ofile (procs s cur) ! fd = None \<longrightarrow> ofile (procs t cur) ! fd = None))
    (exit_files K cur fds s)"
  using assms
proof (induction fds arbitrary: s)
  case (Cons fd fds)
  have fd: "fd < NOFILE" using Cons.prems(2) by simp
  show ?case
  proof (cases "ofile (procs s cur) ! fd")
    case None
    then show ?thesis using Cons.IH [OF Cons.prems(1)] Cons.prems(2) by (auto simp: all_ret_def)
  next
    case (Some f)
    have f: "f < NFILE" using c_ofile(2) [OF Cons.prems(1) fd] Some by simp
    let ?P = "\<lambda>u. c_inv cur (\<lambda>j. E j - of_bool (j = f)) u \<and> ofile (procs u cur) = ofile (procs s cur)"
    have "all_ret (\<lambda>t. c_inv cur E t \<and> (\<forall>g<NOFILE. g \<in> set (fd # fds) \<or> ofile (procs s cur) ! g = None \<longrightarrow> ofile (procs t cur) ! g = None))
      (exit_files K cur fds (set_ofile cur fd None u))" if u: "?P u" for u
    proof -
      have "c_inv cur E (set_ofile cur fd None u)"
        by (rule c_inv_cong [OF c_set_ofile [OF conjunct1 [OF u] fd]]) (use u Some in auto)
      moreover have "ofile (procs (set_ofile cur fd None u) cur) = (ofile (procs s cur))[fd := None]" "fd < length (ofile (procs s cur))"
        using u c_ofile(1) [OF Cons.prems(1)] fd by (simp_all add: set_ofile_def upd_proc_def)
      ultimately show ?thesis using Cons.IH [of "set_ofile cur fd None u"] Cons.prems(2)
        by (auto simp: all_ret_def nth_list_update)
    qed
    moreover have "all_ret ?P (fileclose K cur f s)"
      using c_fileclose [OF Cons.prems(1) f, of K] fileclose_ofile [of s K cur f] by (auto simp: all_ret_def)
    ultimately show ?thesis unfolding exit_files.simps Some option.case set_ofile_def [symmetric] by (intro all_ret_bindI)
  qed
qed simp

lemma reparent_one:
  assumes c: "c_inv cur E s"
  shows "c_inv cur E (wakeup (Some cur) (Some (Proc_chan i)) (upd_proc c (\<lambda>x. x\<lparr>parent := Some i\<rparr>) s))" (is "c_inv cur E ?t")
proof -
  let ?u = "upd_proc c (\<lambda>x. x\<lparr>parent := Some i\<rparr>) s"
  have e: "p_pid (procs ?t q) = p_pid (procs s q)" "ofile (procs ?t q) = ofile (procs s q)"
    "(pstate (procs ?t q) = UNUSED) = (pstate (procs s q) = UNUSED)" "idle (procs ?t q) = idle (procs s q)" for q
    by (auto simp: wakeup_def upd_proc_def idle_def)
  have f: "nextpid ?t = nextpid s" "ftable ?t = ftable s" by (simp_all add: wakeup_def upd_proc_def)
  have cur: "pstate (procs s cur) = RUNNING" "cur < NPROC" "k_inv E s" using c by (simp_all add: c_inv_def)
  have "files_ok E ?t" "pids_ok ?t" using cur(3) unfolding k_inv_def files_ok_def pids_ok_def slots_def e f by blast+
  moreover have "sleep_ok ?t"
    unfolding sleep_ok_def
  proof (intro allI impI notI)
    fix q d assume q: "q < NPROC" "d < NPROC" "in_wait q (procs ?t q)" "zombie_child q (procs ?t d)"
    have w: "in_wait q (procs s q)" "q \<noteq> i"
      using q(1,3) cur(1) by (auto simp: wakeup_def upd_proc_def in_wait_def split: if_splits)
    have "zombie_child q (procs s d)"
      using q(4) w(2) by (auto simp: wakeup_def upd_proc_def zombie_child_def split: if_splits)
    with w q show False using cur(3) by (auto simp: k_inv_def sleep_ok_def)
  qed
  moreover have "pstate (procs ?t cur) = RUNNING" using cur(1) by (auto simp: wakeup_def upd_proc_def)
  ultimately show ?thesis using cur(2) by (simp add: c_inv_def k_inv_def)
qed

lemma reparent_inv: "c_inv cur E s \<Longrightarrow> c_inv cur E (reparent cur s)"
proof -
  have "c_inv cur E (fold (\<lambda>pp s. if parent (procs s pp) = Some cur
     then wakeup (Some cur) (Some (Proc_chan (initproc s))) (upd_proc pp (\<lambda>x. x\<lparr>parent := Some (initproc s)\<rparr>) s) else s) ps s)"
    if "c_inv cur E s" for ps
    using that by (induction ps arbitrary: s) (auto simp: reparent_one)
  then show "c_inv cur E s \<Longrightarrow> c_inv cur E (reparent cur s)" by (simp add: reparent_def)
qed

lemma reparent_ofile: "ofile (procs (reparent p s) q) = ofile (procs s q)"
proof -
  have "ofile (procs (fold (\<lambda>pp s. if parent (procs s pp) = Some p
     then wakeup (Some p) (Some (Proc_chan (initproc s))) (upd_proc pp (\<lambda>x. x\<lparr>parent := Some (initproc s)\<rparr>) s) else s) ps s) q) = ofile (procs s q)" for ps
    by (induction ps arbitrary: s) (auto simp: wakeup_def upd_proc_def)
  then show ?thesis by (simp add: reparent_def)
qed

lemma exit_tail_inv:
  assumes c: "c_inv cur E s" and o: "set (ofile (procs s cur)) \<subseteq> {None}"
  shows "k_inv E (exit_tail cur status s)"
proof -
  define u where "u = reparent cur s"
  define v where "v = wakeup (Some cur) (map_option Proc_chan (parent (procs u cur))) u"
  let ?f = "\<lambda>x. x\<lparr>xstate := status, pstate := ZOMBIE, etime := ticks v\<rparr>"
  have t: "exit_tail cur status s = upd_proc cur ?f v" by (simp add: exit_tail_def Let_def u_def v_def)
  have k: "keeps u v" unfolding v_def by (rule keep keeps_refl)+
  have cv: "c_inv cur E v" by (rule keeps_c_inv [OF reparent_inv [OF c, folded u_def] k])
  then have v: "k_inv E v" "cur < NPROC" "pstate (procs v cur) = RUNNING" by (simp_all add: c_inv_def)
  have o: "set (ofile (procs v cur)) \<subseteq> {None}" using o k by (simp add: keeps_def pstep_def u_def reparent_ofile)
  have par: "\<not> in_wait q (procs v q)" if "parent (procs v cur) = Some q" "q < NPROC" for q
  proof -
    have "parent (procs u cur) = Some q" using that(1) k by (simp add: keeps_def pstep_def)
    then show ?thesis using that(2) v(3) by (cases "q = cur") (auto simp: v_def wakeup_def in_wait_def)
  qed
  have e: "p_pid (procs (upd_proc cur ?f v) q) = p_pid (procs v q)" "nextpid (upd_proc cur ?f v) = nextpid v"
    "(pstate (procs (upd_proc cur ?f v) q) = UNUSED) = (pstate (procs v q) = UNUSED)" for q
    using v(3) by (auto simp: upd_proc_def)
  have "files_ok E (upd_proc cur ?f v)"
    using v(1) o unfolding k_inv_def files_ok_def slots_upd [OF v(2)] by (simp add: upd_proc_def)
  moreover have "pids_ok (upd_proc cur ?f v)" using v(1) unfolding k_inv_def pids_ok_def e by blast
  moreover have "sleep_ok (upd_proc cur ?f v)"
    using v(1) par by (auto simp: k_inv_def sleep_ok_def upd_proc_def zombie_child_def in_wait_def split: if_splits)
  ultimately show ?thesis by (simp add: t k_inv_def)
qed

lemma exit_inv:
  assumes c: "c_inv cur E s"
  shows "all_ret (k_inv E) (exit K cur status s)"
proof -
  let ?P = "\<lambda>t. c_inv cur E t \<and> set (ofile (procs t cur)) \<subseteq> {None}"
  have 1: "all_ret ?P (exit_files K cur [0..<NOFILE] s)"
  proof (rule all_ret_mono [OF exit_files_inv [OF c]])
    fix t assume t: "c_inv cur E t \<and> (\<forall>fd<NOFILE. fd \<in> set [0..<NOFILE] \<or> ofile (procs s cur) ! fd = None \<longrightarrow> ofile (procs t cur) ! fd = None)"
    then have "x = None" if "x \<in> set (ofile (procs t cur))" for x
      using that c_ofile(1) [of cur E t] by (auto simp: in_set_conv_nth)
    then show "?P t" using t by blast
  qed simp
  have 2: "all_ret ?P (in_op pid f t)" if "?P t" for pid f t
  proof (rule all_ret_mono [OF keep_in_op [OF keeps_refl]])
    fix u assume k: "keeps t u"
    then have "ofile (procs u cur) = ofile (procs t cur)" by (simp add: keeps_def pstep_def)
    then show "?P u" using that keeps_c_inv [OF _ k] by simp
  qed
  have 3: "k_inv E (exit_tail cur status (upd_proc cur (\<lambda>x. x\<lparr>cwd := None\<rparr>) t))" if "?P t" for t
  proof (rule exit_tail_inv)
    have "keeps t (upd_proc cur (\<lambda>x. x\<lparr>cwd := None\<rparr>) t)" by (rule keep keeps_refl | simp add: pstep_def)+
    then show "c_inv cur E (upd_proc cur (\<lambda>x. x\<lparr>cwd := None\<rparr>) t)" using that keeps_c_inv by blast
  qed (use that in \<open>simp add: upd_proc_def\<close>)
  show ?thesis unfolding exit_def
    by (rule all_ret_if, simp, rule all_ret_bindI [OF 1], rule all_ret_option, simp, rule all_ret_bindI [OF 2], assumption)
      (simp add: 3)
qed

lemma sleep_wait_inv:
  assumes c: "c_inv cur E s" and z: "\<And>q. q < NPROC \<Longrightarrow> \<not> zombie_child cur (procs s q)"
  shows "k_inv E (sleep_begin cur (Proc_chan cur) s)"
proof -
  have s: "k_inv E s" "cur < NPROC" "pstate (procs s cur) = RUNNING" using c by (simp_all add: c_inv_def)
  let ?t = "sleep_begin cur (Proc_chan cur) s"
  have e: "p_pid (procs ?t q) = p_pid (procs s q)" "nextpid ?t = nextpid s" "ofile (procs ?t q) = ofile (procs s q)" "ftable ?t = ftable s"
    "(pstate (procs ?t q) = UNUSED) = (pstate (procs s q) = UNUSED)" "idle (procs ?t q) = idle (procs s q)"
    "zombie_child j (procs ?t q) = zombie_child j (procs s q)" "q \<noteq> cur \<Longrightarrow> procs ?t q = procs s q" for q j
    using s(3) by (auto simp: sleep_begin_def upd_proc_def idle_def zombie_child_def)
  have "files_ok E ?t" "pids_ok ?t" using s(1) unfolding k_inv_def files_ok_def pids_ok_def slots_def e(1-6) by blast+
  moreover have "sleep_ok ?t" unfolding sleep_ok_def e(7)
    using s(1) z e(8) by (metis k_inv_def sleep_ok_def)
  ultimately show ?thesis by (simp add: k_inv_def)
qed

text \<open>After a turn of \<open>wait\<close>: the process goes on, or it sleeps.\<close>

definition waited_inv :: "nat \<Rightarrow> wait_res \<Rightarrow> kernel \<Rightarrow> bool" where
  "waited_inv cur w t \<longleftrightarrow> (case w of WReturn _ \<Rightarrow> c_inv cur (\<lambda>_. 0) t | WSleep \<Rightarrow> k_inv (\<lambda>_. 0) t)"

lemma collect_inv:
  assumes c: "c_inv cur (\<lambda>_. 0) s" and z: "find_proc (zombie_child cur) s = Some p" and k: "keeps s t" "procs t = procs s"
  shows "all_ret (c_inv cur (\<lambda>_. 0)) (freeproc K p t)"
proof -
  have p: "p < NPROC" "pstate (procs s p) = ZOMBIE" using find_procD(1) [OF z] by (auto simp: zombie_child_def)
  have t: "c_inv cur (\<lambda>_. 0) t" by (rule keeps_c_inv [OF c k(1)])
  then have inv: "k_inv (\<lambda>_. 0) t" and cur: "cur < NPROC" "pstate (procs t cur) = RUNNING" by (simp_all add: c_inv_def)
  have "set (ofile (procs t p)) \<subseteq> {None}" using k_invD(3) [OF inv p(1)] p(2) k(2) by (simp add: idle_def)
  moreover have "p \<noteq> cur" using p(2) cur(2) k(2) by auto
  ultimately show ?thesis using cur
    by (intro all_ret_mono [OF freeproc_inv [OF inv p(1)]]) (auto simp: c_inv_def)
qed

lemma copyout_status:
  "all_ret (\<lambda>(r, t). keeps s t \<and> procs t = procs s) (if addr \<noteq> 0 then on_km f s else Ret ((0 :: int), s))"
  using all_retD [OF keep_on(1) [OF keeps_refl], of f s] on_km_Ret by (fastforce simp: all_ret_def)

lemma wait_inv:
  assumes c: "c_inv cur (\<lambda>_. 0) s"
  shows "all_ret (\<lambda>(w, t). waited_inv cur w t) (wait K cur addr s)" "all_ret (\<lambda>(w, tm, t). waited_inv cur w t) (waitx K cur addr s)"
proof -
  have "all_ret (\<lambda>(w, t). waited_inv cur w t) (wait K cur addr s) \<and> all_ret (\<lambda>(w, tm, t). waited_inv cur w t) (waitx K cur addr s)"
  proof (cases "find_proc (zombie_child cur) s")
    case (Some p)
    have f: "all_ret (\<lambda>(w, t). waited_inv cur w t) (rbind (freeproc K p t) (\<lambda>s. Ret (WReturn i, s)))"
      "all_ret (\<lambda>(w, tm, t). waited_inv cur w t) (rbind (freeproc K p t) (\<lambda>s. Ret (WReturn i, tm, s)))"
      if "keeps s t \<and> procs t = procs s" for t i and tm :: "(u32 \<times> u32) option"
      by (rule all_ret_bindI [OF collect_inv [OF c Some]]; use that in \<open>simp add: waited_inv_def\<close>)+
    have r: "waited_inv cur (WReturn i) t" if "keeps s t \<and> procs t = procs s" for i t
      using keeps_c_inv [OF c] that by (simp add: waited_inv_def)
    show ?thesis unfolding wait_def waitx_def Some option.case Let_def
      by (intro conjI all_ret_bind2I [OF copyout_status]; simp only: prod.case) (rule all_ret_if f | simp add: r)+
  next
    case None
    then have "k_inv (\<lambda>_. 0) (sleep_begin cur (Proc_chan cur) s)" by (intro sleep_wait_inv [OF c] find_procD(2))
    then show ?thesis using c unfolding wait_def waitx_def None option.case by (simp add: waited_inv_def)
  qed
  then show "all_ret (\<lambda>(w, t). waited_inv cur w t) (wait K cur addr s)" "all_ret (\<lambda>(w, tm, t). waited_inv cur w t) (waitx K cur addr s)"
    by simp_all
qed

end
