(* ===== verification/Kernel_Steps.thy ===== *)
theory Kernel_Steps
  imports Kernel_Life
begin

text \<open>
  Runs of the kernel: every system call keeps the invariant, hence every trap from user space, and
  every step of a run of the whole system.
\<close>

section \<open>Calls that open and close files\<close>

lemma argfd_ok: "all_ret (\<lambda>a. \<forall>fd f. a = Some (fd, f) \<longrightarrow> fd < NOFILE \<and> ofile (procs s cur) ! fd = Some f) (argfd cur n s)"
  by (auto simp: argfd_def all_ret_def result_simps split: if_splits)

lemma sys_dup_inv:
  assumes c: "c_inv cur (\<lambda>_. 0) s"
  shows "all_ret (\<lambda>(r, t). c_inv cur (\<lambda>_. 0) t) (sys_dup cur s)"
  unfolding sys_dup_def
proof (rule all_ret_bindI [OF argfd_ok], rule all_ret_option)
  fix a x assume a: "\<forall>fd f. a = Some (fd, f) \<longrightarrow> fd < NOFILE \<and> ofile (procs s cur) ! fd = Some f" and x: "a = Some x"
  obtain fd0 f where f: "x = (fd0, f)" by (cases x)
  then have f': "f < NFILE" using a x c_ofile(2) [OF c] by auto
  obtain r t where rt: "fdalloc cur f s = (r, t)" by (cases "fdalloc cur f s")
  note A = c_fdalloc [OF c rt f']
  show "all_ret (\<lambda>(r, t). c_inv cur (\<lambda>_. 0) t) (case x of (_, f) \<Rightarrow> let (fd, s) = fdalloc cur f s in
     case fd of None \<Rightarrow> Ret (- 1, s) | Some fd \<Rightarrow> rbind (filedup f s) (\<lambda>s. Ret (of_nat fd, s)))"
  proof (cases r)
    case None
    then show ?thesis using c A by (simp add: f rt)
  next
    case (Some fd)
    then have "all_ret (c_inv cur (\<lambda>j. 0 - of_bool (j = f) + of_bool (j = f))) (filedup f t)" using A f' by (intro c_filedup) auto
    then have "all_ret (c_inv cur (\<lambda>_. 0)) (filedup f t)" by (rule all_ret_mono) (erule c_inv_cong, simp)
    then show ?thesis by (simp add: f rt Some all_ret_bind)
  qed
qed (use c in simp)

lemma sys_close_inv:
  assumes c: "c_inv cur (\<lambda>_. 0) s"
  shows "all_ret (\<lambda>(r, t). c_inv cur (\<lambda>_. 0) t) (sys_close K cur s)"
  unfolding sys_close_def
proof (rule all_ret_bindI [OF argfd_ok], rule all_ret_option)
  fix a x assume a: "\<forall>fd f. a = Some (fd, f) \<longrightarrow> fd < NOFILE \<and> ofile (procs s cur) ! fd = Some f" and x: "a = Some x"
  obtain fd f where f: "x = (fd, f)" by (cases x)
  then have fd: "fd < NOFILE" "ofile (procs s cur) ! fd = Some f" "f < NFILE" using a x c_ofile(2) [OF c] by auto
  have "c_inv cur (\<lambda>i. of_bool (i = f)) (set_ofile cur fd None s)"
    by (rule c_inv_cong [OF c_set_ofile [OF c fd(1)]]) (use fd(2) in auto)
  from c_fileclose [OF this fd(3), of K]
  have "all_ret (c_inv cur (\<lambda>_. 0)) (fileclose K cur f (set_ofile cur fd None s))" by (rule all_ret_mono) (erule c_inv_cong, simp)
  then show "all_ret (\<lambda>(r, t). c_inv cur (\<lambda>_. 0) t)
    (case x of (fd, f) \<Rightarrow> rbind (fileclose K cur f (set_ofile cur fd None s)) (\<lambda>s. Ret (0, s)))"
    by (simp add: f all_ret_bind)
qed (use c in simp)

text \<open>Closing a file the call itself holds.\<close>

lemma c_close:
  assumes "c_inv cur (\<lambda>j. E j + of_bool (j = i)) s" "i < NFILE"
  shows "all_ret (c_inv cur E) (fileclose K cur i s)"
  by (rule all_ret_mono [OF c_fileclose [OF assms]]) (erule c_inv_cong, simp)

lemma c_close_both:
  assumes "c_inv cur (\<lambda>j. of_bool (j = i) + of_bool (j = k)) s" "i < NFILE" "k < NFILE"
  shows "all_ret (\<lambda>(r, t). c_inv cur (\<lambda>_. 0) t) (close_both K cur i k s)"
    "all_ret (\<lambda>(r, t). c_inv cur (\<lambda>_. 0) t)
      (rbind (fileclose K cur i s) (\<lambda>s. rbind (fileclose K cur k s) (\<lambda>s. Ret (None :: 'a option, s))))"
proof -
  have 1: "all_ret (c_inv cur (\<lambda>j. 0 + of_bool (j = k))) (fileclose K cur i s)"
    by (rule c_close [OF _ assms(2)]) (rule c_inv_cong [OF assms(1)], simp)
  note 2 = c_close [OF _ assms(3), of _ "\<lambda>_. 0"]
  show "all_ret (\<lambda>(r, t). c_inv cur (\<lambda>_. 0) t) (close_both K cur i k s)"
    "all_ret (\<lambda>(r, t). c_inv cur (\<lambda>_. 0) t)
      (rbind (fileclose K cur i s) (\<lambda>s. rbind (fileclose K cur k s) (\<lambda>s. Ret (None :: 'a option, s))))"
    unfolding close_both_def by (rule all_ret_bindI [OF 1], rule all_ret_bindI [OF 2], assumption, simp)+
qed

lemma pipealloc_inv:
  assumes c: "c_inv cur (\<lambda>_. 0) s"
  shows "all_ret (\<lambda>(r, t). case r of None \<Rightarrow> c_inv cur (\<lambda>_. 0) t
    | Some (i, k) \<Rightarrow> i < NFILE \<and> k < NFILE \<and> c_inv cur (\<lambda>j. of_bool (j = i) + of_bool (j = k)) t) (pipealloc K cur s)"
proof -
  obtain r0 s0 where 0: "filealloc s = (r0, s0)" by (cases "filealloc s")
  note a0 = c_filealloc [OF c 0]
  show ?thesis
  proof (cases r0)
    case None
    then show ?thesis using a0 c by (simp add: pipealloc_def 0)
  next
    case (Some i)
    then have i: "i < NFILE" "c_inv cur (\<lambda>j. 0 + of_bool (j = i)) s0" using a0 by simp_all
    obtain r1 s1 where 1: "filealloc s0 = (r1, s1)" by (cases "filealloc s0")
    note a1 = c_filealloc [OF i(2) 1]
    show ?thesis
    proof (cases r1)
      case None
      then have "all_ret (c_inv cur (\<lambda>_. 0)) (fileclose K cur i s1)" using a1 c_close [OF i(2,1)] by simp
      then show ?thesis by (simp add: pipealloc_def 0 1 Some None all_ret_bind)
    next
      case (Some k)
      then have k: "k < NFILE" "c_inv cur (\<lambda>j. of_bool (j = i) + of_bool (j = k)) s1" using a1 by simp_all
      let ?Q = "\<lambda>(r, t). case r of None \<Rightarrow> c_inv cur (\<lambda>_. 0) t
        | Some (i, k) \<Rightarrow> i < NFILE \<and> k < NFILE \<and> c_inv cur (\<lambda>j. of_bool (j = i) + of_bool (j = k)) t"
      have bad: "all_ret ?Q (rbind (fileclose K cur i t) (\<lambda>s. rbind (fileclose K cur k s) (\<lambda>s. Ret (None, s))))"
        if "c_inv cur (\<lambda>j. of_bool (j = i) + of_bool (j = k)) t" for t
        using c_close_both(2) [OF that i(1) k(1), of K, where 'a = "nat \<times> nat"]
        by (simp add: all_ret_bind)
      have ok: "all_ret ?Q (Ret (Some (i, k), t))" if "keeps s1 t" for t
        using keeps_c_inv [OF k(2) that] i(1) k(1) by simp
      show ?thesis unfolding pipealloc_def 0 1 \<open>r0 = Some i\<close> Some Let_def prod.case option.case
        by (rule keep_bind [OF keep_on(1) [OF keeps_refl]], simp only: prod.case)
          (rule all_ret_if bad ok keep keeps_c_inv [OF k(2)] | assumption | simp)+
    qed
  qed
qed

lemma c_unset:
  assumes "c_inv cur E u" "ofile (procs u cur) ! fd = Some i" "fd < NOFILE"
  shows "c_inv cur (\<lambda>j. E j + of_bool (j = i)) (set_ofile cur fd None u)"
  by (rule c_inv_cong [OF c_set_ofile [OF assms(1,3)]]) (use assms(2) in auto)

lemma pipe_undo:
  assumes c: "c_inv cur (\<lambda>_. 0) t" and o: "ofile (procs t cur) ! fd0 = Some i" "ofile (procs t cur) ! fd1 = Some k"
    and fd: "fd1 \<noteq> fd0" "fd0 < NOFILE" "fd1 < NOFILE" and l: "i < NFILE" "k < NFILE" and u: "keeps t u"
  shows "all_ret (\<lambda>(r, t). c_inv cur (\<lambda>_. 0) t) (close_both K cur i k (set_ofile cur fd1 None (set_ofile cur fd0 None u)))"
proof (rule c_close_both(1) [OF _ l])
  have e: "ofile (procs u cur) = ofile (procs t cur)" using u by (simp add: keeps_def pstep_def)
  have v: "c_inv cur (\<lambda>j. 0 + of_bool (j = i)) (set_ofile cur fd0 None u)"
    by (rule c_unset [OF keeps_c_inv [OF c u] _ fd(2)]) (simp add: e o)
  show "c_inv cur (\<lambda>j. of_bool (j = i) + of_bool (j = k)) (set_ofile cur fd1 None (set_ofile cur fd0 None u))"
    by (rule c_inv_cong [OF c_unset [OF v _ fd(3)]]) (use fd o in \<open>auto simp: set_ofile_def upd_proc_def e\<close>)
qed

lemma pipe_fds_inv:
  assumes l: "c_inv cur (\<lambda>j. of_bool (j = i) + of_bool (j = k)) t" "i < NFILE" "k < NFILE"
  shows "all_ret (\<lambda>(r, t). c_inv cur (\<lambda>_. 0) t) (pipe_fds K cur addr i k t)"
proof -
  obtain r0 t0 where 0: "fdalloc cur i t = (r0, t0)" by (cases "fdalloc cur i t")
  note a0 = c_fdalloc [OF l(1) 0 l(2)]
  show ?thesis
  proof (cases r0)
    case None
    then show ?thesis using a0 c_close_both(1) [OF l] by (simp add: pipe_fds_def 0)
  next
    case (Some fd0)
    then have f0: "fd0 < NOFILE" "ofile (procs t0 cur) ! fd0 = Some i" "c_inv cur (\<lambda>j. of_bool (j = k)) t0"
      using a0 by (auto elim: c_inv_cong)
    obtain r1 t1 where 1: "fdalloc cur k t0 = (r1, t1)" by (cases "fdalloc cur k t0")
    note a1 = c_fdalloc [OF f0(3) 1 l(3)]
    show ?thesis
    proof (cases r1)
      case None
      have "c_inv cur (\<lambda>j. of_bool (j = i) + of_bool (j = k)) (set_ofile cur fd0 None t0)" by (rule c_inv_cong [OF c_unset [OF f0(3,2,1)]]) simp
      then show ?thesis using None a1 c_close_both(1) l by (simp add: pipe_fds_def 0 1 \<open>r0 = Some fd0\<close>)
    next
      case (Some fd1)
      have "find (\<lambda>fd. ofile (procs t0 cur) ! fd = None) [0..<NOFILE] = Some fd1" "t1 = set_ofile cur fd1 (Some k) t0"
        using 1 Some by (auto simp: fdalloc_def split: option.splits)
      then have ne: "fd1 \<noteq> fd0" "fd1 < NOFILE" using f0(2) by (auto simp: find_Some_iff)
      then have f1: "ofile (procs t1 cur) ! fd0 = Some i" "ofile (procs t1 cur) ! fd1 = Some k" "c_inv cur (\<lambda>_. 0) t1"
        using a1 Some f0(2) \<open>t1 = _\<close> by (auto simp: set_ofile_def upd_proc_def elim: c_inv_cong)
      note undo = pipe_undo [OF f1(3,1,2) ne(1) f0(1) ne(2) l(2,3)]
      have fin: "all_ret (\<lambda>(r, t). c_inv cur (\<lambda>_. 0) t) (Ret (0, u))" if "keeps t1 u" for u using keeps_c_inv [OF f1(3) that] by simp
      show ?thesis unfolding pipe_fds_def 0 1 \<open>r0 = Some fd0\<close> Some Let_def prod.case option.case
        by (rule keep_bind [OF keep_on(1) [OF keeps_refl]], simp only: prod.case)
          (rule keep_bind, (rule all_ret_if keep_Ret keep_on | assumption)+, simp only: prod.case, (rule all_ret_if undo fin | assumption)+)
    qed
  qed
qed

lemma sys_pipe_inv:
  assumes c: "c_inv cur (\<lambda>_. 0) s"
  shows "all_ret (\<lambda>(r, t). c_inv cur (\<lambda>_. 0) t) (sys_pipe K cur s)"
  unfolding sys_pipe_def
  by (rule value_bind, rule all_ret_bind2I [OF pipealloc_inv [OF c]]) (auto simp: pipe_fds_inv split: option.split)

text \<open>\<open>sys_open\<close>.\<close>

lemma open_alloc_inv:
  assumes t: "c_inv cur (\<lambda>_. 0) t"
  shows "all_ret (\<lambda>(r, t). c_inv cur (\<lambda>_. 0) t) (open_alloc K cur pid omode ip t)"
proof -
  let ?Q = "\<lambda>(r :: u64, t). c_inv cur (\<lambda>_. 0) t"
  have ret: "all_ret ?Q (Ret (r, t))" if "keeps u t" "c_inv cur (\<lambda>_. 0) u" for r t u using keeps_c_inv [OF that(2,1)] by simp
  have fail: "all_ret ?Q (rbind (do_fs f t) (\<lambda>s. rbind (do_log g s) (\<lambda>s. Ret (v, s))))" if "c_inv cur (\<lambda>_. 0) t" for f g v t
    by (rule keep_bind1 [OF keep_on(4) [OF keeps_refl]], rule keep_bind1 [OF keep_on(5)], assumption, rule ret [OF _ that], assumption)
  obtain r0 t0 where 0: "filealloc t = (r0, t0)" by (cases "filealloc t")
  note a0 = c_filealloc [OF t 0]
  show ?thesis
  proof (cases r0)
    case None
    then show ?thesis using a0 fail [OF t] by (simp add: open_alloc_def 0)
  next
    case (Some f)
    then have f: "f < NFILE" "c_inv cur (\<lambda>j. 0 + of_bool (j = f)) t0" using a0 by simp_all
    obtain r1 t1 where 1: "fdalloc cur f t0 = (r1, t1)" by (cases "fdalloc cur f t0")
    note a1 = c_fdalloc [OF f(2) 1 f(1)]
    show ?thesis
    proof (cases r1)
      case None
      then have "all_ret (c_inv cur (\<lambda>_. 0)) (fileclose K cur f t1)" using a1 c_close [OF f(2,1)] by simp
      then show ?thesis using fail unfolding open_alloc_def 0 1 Some None Let_def prod.case option.case by (rule all_ret_bindI)
    next
      case (Some fd)
      then have t1: "c_inv cur (\<lambda>_. 0) t1" using a1 by (auto elim: c_inv_cong)
      have k: "keeps t1 (upd_file f (open_file omode ip x) t1)" for x
        by (rule keep keeps_refl)+ (simp add: open_file_def Let_def)
      show ?thesis unfolding open_alloc_def 0 1 \<open>r0 = Some f\<close> Some Let_def prod.case option.case
        by (rule keep_bind1, (rule all_ret_if keep_on keep_Ret k)+) (rule keep_bind1 keep_on ret [OF _ t1] | assumption)+
    qed
  qed
qed

lemma sys_open_inv:
  assumes c: "c_inv cur (\<lambda>_. 0) s"
  shows "all_ret (\<lambda>(r, t). c_inv cur (\<lambda>_. 0) t) (sys_open K cur s)"
proof -
  have init: "c_inv cur (\<lambda>_. 0) t" if "keeps s t" for t by (rule keeps_c_inv [OF c that])
  show ?thesis unfolding sys_open_def Let_def
    by (rule value_bind, rule value_bind, rule all_ret_pair, rule all_ret_if, simp add: c,
        rule keep_bind1 [OF keep_on(5) [OF keeps_refl]], rule value_bind, rule keep_bind, rule keep_on, assumption,
        simp only: prod.case, rule all_ret_option, rule keep_bind1, rule keep_on, assumption, simp add: init)
      (rule open_alloc_inv, rule init, assumption)
qed

section \<open>Every system call\<close>

lemma fork_inv': "c_inv cur (\<lambda>_. 0) s \<Longrightarrow> all_ret (\<lambda>(r, t). c_inv cur (\<lambda>_. 0) t) (sys_fork K cur s)"
  unfolding sys_fork_def by (rule all_ret_bind2I [OF fork_inv]) simp_all

definition sys_inv :: "nat \<Rightarrow> sysres \<Rightarrow> kernel \<Rightarrow> bool" where
  "sys_inv cur r t \<longleftrightarrow> k_inv (\<lambda>_. 0) t \<and> (\<forall>v. r = Returned v \<longrightarrow> c_inv cur (\<lambda>_. 0) t)"

lemma returns_inv: "all_ret (\<lambda>(r, t). c_inv cur (\<lambda>_. 0) t) m \<Longrightarrow> all_ret (\<lambda>(r, t). sys_inv cur r t) (returns m)"
  unfolding returns_def by (rule all_ret_bind2I, assumption) (simp add: sys_inv_def c_inv_def)

lemma sys_exit_inv: "c_inv cur (\<lambda>_. 0) s \<Longrightarrow> all_ret (\<lambda>(r, t). sys_inv cur r t) (sys_exit K cur s)"
  unfolding sys_exit_def by (rule value_bind, rule all_ret_bindI [OF exit_inv]) (simp_all add: sys_inv_def)

lemma sys_wait_inv: "c_inv cur (\<lambda>_. 0) s \<Longrightarrow> all_ret (\<lambda>(r, t). sys_inv cur r t) (sys_wait K cur s)"
  unfolding sys_wait_def
  by (rule value_bind, rule all_ret_bind2I [OF wait_inv(1)])
    (auto simp: sys_inv_def waited_inv_def waited_def c_inv_def split: wait_res.splits)

lemma keep_waitx_copy: "keeps s0 s \<Longrightarrow> all_ret (\<lambda>(r, t). keeps s0 t) (waitx_copy K cur a b tm ret s)"
  unfolding waitx_copy_def by (simp only: prod.case Let_def | rule keep_struct keep | assumption)+

lemma sys_waitx_inv:
  assumes c: "c_inv cur (\<lambda>_. 0) s"
  shows "all_ret (\<lambda>(r, t). sys_inv cur r t) (sys_waitx K jk cur s)"
  unfolding sys_waitx_def
proof (rule value_bind, rule value_bind, rule value_bind, rule all_ret_bindI [OF wait_inv(2) [OF c]])
  fix a b d :: u64 and x :: "wait_res \<times> (u32 \<times> u32) option \<times> kernel"
  assume x: "case x of (w, tm, t) \<Rightarrow> waited_inv cur w t"
  obtain w tm t where e: "x = (w, tm, t)" by (cases x)
  show "all_ret (\<lambda>(r, t). sys_inv cur r t) (case x of (w, tm, s) \<Rightarrow> (case w of WReturn ret \<Rightarrow>
      returns (waitx_copy K cur b d (case tm of None \<Rightarrow> jk | Some tm \<Rightarrow> tm) ret s) | WSleep \<Rightarrow> Ret (Asleep, s)))"
    using x returns_inv [OF c_keep(2) [OF keep_waitx_copy [OF keeps_refl]]] unfolding e
    by (cases w) (auto simp: waited_inv_def sys_inv_def)
qed

lemma sys_sleep_inv:
  assumes c: "c_inv cur (\<lambda>_. 0) s"
  shows "all_ret (\<lambda>(r, t). sys_inv cur r t) (sys_sleep_turn cur t0 s)"
proof -
  have "k_inv (\<lambda>_. 0) (sleep_begin cur Ticks_chan s)" unfolding sleep_begin_def
    by (rule inv_upd_live) (use c in \<open>auto simp: c_inv_def idle_def in_wait_def\<close>)
  then show ?thesis unfolding sys_sleep_turn_def using c by (intro value_bind all_ret_if) (simp_all add: sys_inv_def c_inv_def)
qed

lemma syscalls_inv:
  assumes c: "c_inv cur (\<lambda>_. 0) s" and r: "syscalls K jk cur num s = Some r"
  shows "all_ret (\<lambda>(r, t). sys_inv cur r t) r"
proof -
  note calls = sys_exit_inv [OF c] sys_wait_inv [OF c] sys_waitx_inv [OF c] sys_sleep_inv [OF c]
    returns_inv [OF fork_inv' [OF c]] returns_inv [OF sys_pipe_inv [OF c]] returns_inv [OF sys_dup_inv [OF c]]
    returns_inv [OF sys_open_inv [OF c]] returns_inv [OF sys_close_inv [OF c]]
    keep_sysfile [OF keeps_refl, THEN c_keep(2), OF c, THEN returns_inv]
    keep_sysproc [OF keeps_refl, THEN c_keep(2), OF c, THEN returns_inv]
  show ?thesis using r unfolding syscalls_def sys_sleep_def
    by (simp only: if_distrib [where f = "\<lambda>x. x = Some r"] option.inject if_bool_eq_disj option.distinct) (elim disjE conjE FalseE; hypsubst; rule calls)
qed

lemma syscall_inv:
  assumes c: "c_inv cur (\<lambda>_. 0) s"
  shows "all_ret (\<lambda>(r, t). sys_inv cur r t) (syscall K jk cur s)"
proof -
  let ?n = "sint (ucast (tf_get cur TF_a7 s) :: u32)"
  have ret: "all_ret (\<lambda>(r, t). sys_inv cur r t) (rbind (trace_call cur num (tf_set cur TF_a0 v t)) (\<lambda>s. Ret (Returned w, s)))"
    if t: "c_inv cur (\<lambda>_. 0) t" for num v w t
  proof (rule keep_bind1 [OF keep_trace_call])
    show "keeps t (tf_set cur TF_a0 v t)" by (rule keep keeps_refl)+
    show "all_ret (\<lambda>(r, t). sys_inv cur r t) (Ret (Returned w, u))" if "keeps t u" for u
      using keeps_c_inv [OF t that] by (simp add: sys_inv_def c_inv_def)
  qed
  show ?thesis
  proof (cases "syscalls K jk cur ?n s")
    case None
    have "all_ret (\<lambda>(r, t). sys_inv cur r t) (rbind (print fmt args s) (\<lambda>s.
          rbind (trace_call cur ?n (tf_set cur TF_a0 (- 1) s)) (\<lambda>s. Ret (Returned (- 1), s))))" for fmt args
      by (rule keep_bind1 [OF keep_print [OF keeps_refl]], rule ret, rule keeps_c_inv [OF c])
    then show ?thesis unfolding syscall_def Let_def None option.case .
  next
    case (Some r)
    have "all_ret (\<lambda>(r, t). sys_inv cur r t) (case res of
            Returned v \<Rightarrow> rbind (trace_call cur ?n (tf_set cur TF_a0 v t)) (\<lambda>s. Ret (res, s)) | Exited \<Rightarrow> Ret (res, t) | Asleep \<Rightarrow> Ret (res, t))"
      if "sys_inv cur res t" for res t
      using that ret by (cases res) (auto simp: sys_inv_def)
    then show ?thesis unfolding syscall_def Let_def Some option.case
      by (intro all_ret_bind2I [OF syscalls_inv [OF c Some]]) simp
  qed
qed

section \<open>Traps\<close>

lemma usertrap_handle_inv:
  assumes c: "c_inv cur (\<lambda>_. 0) s"
  shows "all_ret (\<lambda>((t, w), u). k_inv (\<lambda>_. 0) u \<and> (t = Resumes \<longrightarrow> c_inv cur (\<lambda>_. 0) u)) (usertrap_handle K cur r d s)"
proof -
  let ?Q = "\<lambda>((t, w :: int), u). k_inv (\<lambda>_. 0) u \<and> (t = Resumes \<longrightarrow> c_inv cur (\<lambda>_. 0) u)"
  define v where "v = tf_set cur TF_epc (sepc r) s"
  have kv: "keeps s v" unfolding v_def by (rule keep keeps_refl)+
  have ret: "all_ret ?Q (Ret ((a, w), u))" if "keeps s u" for a w u
    using keeps_c_inv [OF c that] by (simp add: c_inv_def)
  have "keeps s (tf_set cur TF_epc x v)" for x by (rule keep kv)+
  note sc = syscall_inv [OF keeps_c_inv [OF c this]] and ex = exit_inv [OF keeps_c_inv [OF c kv]]
  have page: "all_ret ?Q (rbind (on_km f v) (\<lambda>(c, s). Ret ((Resumes, 0), if c < 0 then setkilled cur s else s)))"
    for f :: "kmem \<Rightarrow> (int \<times> kmem) result"
    by (rule keep_bind [OF keep_on(1) [OF kv]], simp only: prod.case) (rule ret keep | assumption)+
  have call: "all_ret ?Q (if killed cur v then rbind (exit K cur (- 1) v) (\<lambda>s. Ret ((Exits, 0), s))
        else
          rbind (syscall K (junk d) cur (tf_set cur TF_epc (tf_get cur TF_epc v + 4) v)) (\<lambda>(res, s).
          Ret ((case res of Returned _ \<Rightarrow> Resumes | Exited \<Rightarrow> Exits | Asleep \<Rightarrow> Sleeps, 0), s)))"
    by (rule all_ret_if, rule all_ret_bindI [OF ex], simp, rule all_ret_bind2I [OF sc])
      (auto simp: sys_inv_def split: sysres.splits)
  show ?thesis unfolding usertrap_handle_def Let_def v_def [symmetric]
    by (rule all_ret_if page call)+ (simp only: prod.case | rule all_ret_if keep_bind [OF keep_devintr [OF kv]] ret keep_bind1 keep | assumption)+
qed

lemma usertrap_inv:
  assumes c: "c_inv cur (\<lambda>_. 0) s"
  shows "all_ret (\<lambda>(a, u). k_inv (\<lambda>_. 0) u) (usertrap K cur r d s)"
proof -
  have go: "all_ret (\<lambda>(a, u). k_inv (\<lambda>_. 0) u) (if killed cur u then rbind (exit K cur (- 1) u) (\<lambda>s. Ret ((Exits, r), s))
        else if w = 2 then Ret ((Yields, r), yield_begin cur u)
        else let (r, s) = usertrapret cur r d u in Ret ((Resumes, r), s))" if u: "c_inv cur (\<lambda>_. 0) u" for u and w :: int
  proof -
    have "k_inv (\<lambda>_. 0) (yield_begin cur u)" unfolding yield_begin_def
      by (rule inv_upd_live) (use u in \<open>auto simp: c_inv_def idle_def in_wait_def\<close>)
    moreover have "k_inv (\<lambda>_. 0) (snd (usertrapret cur r d u))"
      using keeps_c_inv [OF u keep_usertrapret [OF keeps_refl]] by (simp add: c_inv_def)
    ultimately show ?thesis using exit_inv [OF u] by (auto simp: all_ret_bind Let_def case_prod_beta)
  qed
  show ?thesis unfolding usertrap_def
  proof (rule all_ret_if, simp, rule all_ret_bindI [OF usertrap_handle_inv [OF c]])
    fix x :: "(trap_res \<times> int) \<times> kernel"
    assume x: "(\<lambda>((t, w), u). k_inv (\<lambda>_. 0) u \<and> (t = Resumes \<longrightarrow> c_inv cur (\<lambda>_. 0) u)) x"
    obtain t w u where e: "x = ((t, w), u)" by (cases x) auto
    show "all_ret (\<lambda>(a, u). k_inv (\<lambda>_. 0) u) ((\<lambda>((t, w), s). if t \<noteq> Resumes then Ret ((t, r), s)
        else if killed cur s then rbind (exit K cur (- 1) s) (\<lambda>s. Ret ((Exits, r), s))
        else if w = 2 then Ret ((Yields, r), yield_begin cur s)
        else let (r, s) = usertrapret cur r d s in Ret ((Resumes, r), s)) x)"
      unfolding e prod.case by (rule all_ret_if) (use x go [of u w] in \<open>simp_all add: e\<close>)
  qed
qed

section \<open>Runs\<close>

text \<open>
  A step of the system: a trap from user space with everything the kernel does about it until the
  process resumes, sleeps, yields or is gone; an interrupt while the kernel runs; the scheduler
  choosing a process; a process that was woken tidying up in \<open>sleep\<close> and going round the loop it
  slept in again; the first process being set up. A system call runs without interruption up to the
  point where it sleeps.
\<close>

inductive kstep :: "image \<Rightarrow> kernel \<Rightarrow> kernel \<Rightarrow> bool" for K where
  trap: "p < NPROC \<Longrightarrow> pstate (procs s p) = RUNNING \<Longrightarrow> usertrap K p r d s = Ret (a, s') \<Longrightarrow> kstep K s s'"
| interrupt: "(\<forall>p. cur = Some p \<longrightarrow> p < NPROC) \<Longrightarrow> kerneltrap cur i r d s = Ret (a, s') \<Longrightarrow> kstep K s s'"
| schedule: "p < NPROC \<Longrightarrow> pstate (procs s p) = RUNNABLE \<Longrightarrow> kstep K s (upd_proc p (\<lambda>x. x\<lparr>pstate := RUNNING\<rparr>) s)"
| awake: "p < NPROC \<Longrightarrow> pstate (procs s p) = RUNNING \<Longrightarrow> kstep K s (sleep_end p s)"
| wait_on: "p < NPROC \<Longrightarrow> pstate (procs s p) = RUNNING \<Longrightarrow> wait K p addr s = Ret (w, s') \<Longrightarrow> kstep K s s'"
| waitx_on: "p < NPROC \<Longrightarrow> pstate (procs s p) = RUNNING \<Longrightarrow> waitx K p addr s = Ret (w, tm, s') \<Longrightarrow> kstep K s s'"
| sleep_on: "p < NPROC \<Longrightarrow> pstate (procs s p) = RUNNING \<Longrightarrow> sys_sleep_turn p t0 s = Ret (x, s') \<Longrightarrow> kstep K s s'"
| first: "userinit K s = Ret s' \<Longrightarrow> kstep K s s'"

abbreviation kruns :: "image \<Rightarrow> kernel \<Rightarrow> kernel \<Rightarrow> bool" where "kruns K \<equiv> (kstep K)\<^sup>*\<^sup>*"

lemma kerneltrap_inv:
  assumes s: "k_inv (\<lambda>_. 0) s" and cur: "\<forall>p. cur = Some p \<longrightarrow> p < NPROC"
  shows "all_ret (\<lambda>(a, t). k_inv (\<lambda>_. 0) t) (kerneltrap cur i r d s)"
proof -
  have y: "k_inv (\<lambda>_. 0) (yield_begin p t)" if "cur = Some p" "keeps s t" "pstate (procs t p) = RUNNING" for p t
    unfolding yield_begin_def
    by (rule inv_upd_live [OF keeps_inv [OF s that(2)]]) (use that cur in \<open>auto simp: idle_def in_wait_def\<close>)
  have "all_ret (\<lambda>(a, t). k_inv (\<lambda>_. 0) t) (case cur of None \<Rightarrow> Ret (Resumes, t)
     | Some p \<Rightarrow> if w = 2 \<and> pstate (procs t p) = RUNNING then Ret (Yields, yield_begin p t) else Ret (Resumes, t))"
    if "keeps s t" for t and w :: int
    by (rule all_ret_option all_ret_if)+ (use keeps_inv [OF s that] y [OF _ that] in auto)
  then show ?thesis unfolding kerneltrap_def
    by (intro all_ret_if all_ret_simps(2) keep_bind [OF keep_devintr [OF keeps_refl]]; simp only: prod.case) (rule all_ret_if | simp)+
qed

lemma userinit_inv:
  assumes s: "k_inv (\<lambda>_. 0) s"
  shows "all_ret (k_inv (\<lambda>_. 0)) (userinit K s)"
  unfolding userinit_def
proof (rule all_ret_bind2I [OF allocproc_inv [OF s]], simp only: prod.case, rule all_ret_option, simp)
  fix a t p assume "case a of None \<Rightarrow> k_inv (\<lambda>_. 0) t \<and> (\<forall>q. pstate (procs s q) \<noteq> UNUSED \<longrightarrow> procs t q = procs s q)
    | Some p \<Rightarrow> new_proc (\<lambda>_. 0) s p t" "a = Some p"
  then have n: "k_inv (\<lambda>_. 0) t" "p < NPROC" "pstate (procs t p) = USED" by (simp_all add: new_proc_def)
  have fin: "k_inv (\<lambda>_. 0) (upd_proc p (\<lambda>x. x\<lparr>cwd := ip, pstate := RUNNABLE\<rparr>) u)" if "keeps t u" for ip u
  proof -
    have "pstep (procs t p) (procs u p)" using that by (simp add: keeps_def)
    then show ?thesis using n(3)
      by (intro inv_upd_live [OF keeps_inv [OF n(1) that] n(2)]) (auto simp: idle_def in_wait_def pstep_def)
  qed
  have i: "keeps t (t\<lparr>initproc := p\<rparr>)" by (simp add: keeps_def)
  show "all_ret (k_inv (\<lambda>_. 0)) (rbind (do_km (uvmfirst (pagetable (procs t p)) initcode) (t\<lparr>initproc := p\<rparr>)) (\<lambda>s.
         let s = upd_proc p (\<lambda>x. x\<lparr>p_sz := PGSIZE\<rparr>) s;
             s = tf_set p TF_sp PGSIZE (tf_set p TF_epc 0 s);
             s = upd_proc p (\<lambda>x. x\<lparr>p_name := safestrcpy_l 15 (p_name x) [105, 110, 105, 116, 99, 111, 100, 101, 0]\<rparr>) s
         in rbind (on_fs (namei (p_pid (procs s p)) 0 [47, 0]) s) (\<lambda>(ip, s).
         Ret (upd_proc p (\<lambda>x. x\<lparr>cwd := ip, pstate := RUNNABLE\<rparr>) s))))"
    unfolding Let_def
    by (rule keep_bind1 [OF keep_on(3) [OF i]], rule keep_bind)
      (simp only: prod.case all_ret_simps(1) | rule keep fin | assumption | simp add: pstep_def)+
qed

lemma kstep_inv: "kstep K s t \<Longrightarrow> k_inv (\<lambda>_. 0) s \<Longrightarrow> k_inv (\<lambda>_. 0) t"
proof (induction rule: kstep.induct)
  case (trap p s r d a s')
  then show ?case using all_retD [OF usertrap_inv [of p s K r d]] by (simp add: c_inv_def)
next
  case (interrupt cur i r d s a s')
  then show ?case using all_retD [OF kerneltrap_inv [of s cur i r d]] by simp
next
  case (schedule p s)
  then show ?case by (intro inv_upd_live) (auto simp: idle_def in_wait_def)
next
  case (awake p s)
  then show ?case unfolding sleep_end_def by (intro inv_upd_live) (auto simp: idle_def in_wait_def)
next
  case (wait_on p s addr w s')
  then show ?case using all_retD [OF wait_inv(1) [of p s K addr]] by (cases w) (auto simp: c_inv_def waited_inv_def)
next
  case (waitx_on p s addr w tm s')
  then show ?case using all_retD [OF wait_inv(2) [of p s K addr]] by (cases w) (auto simp: c_inv_def waited_inv_def)
next
  case (sleep_on p s t0 x s')
  then show ?case using all_retD [OF sys_sleep_inv [of p s t0]] by (auto simp: c_inv_def sys_inv_def)
next
  case (first s s')
  then show ?case using all_retD [OF userinit_inv [of s K]] by simp
qed

interpretation system: transitions "k_inv (\<lambda>_. 0)" "kstep K" "k_inv (\<lambda>_. 0)" for K
  by unfold_locales (assumption, rule kstep_inv)

end
