(* ===== verification/Fs_Blocks.thy ===== *)
theory Fs_Blocks
  imports Fs
begin

text \<open>
  The block layer of kernel/fs.c: reading and updating a block inside a transaction, and the
  allocator \<open>balloc\<close> and \<open>bfree\<close> against the set of blocks marked in use.
\<close>

section \<open>Steps inside a transaction\<close>

abbreviation lgd :: "fs \<Rightarrow> u32 set" where "lgd s \<equiv> set (logged (lg (fl s)))"

abbreviation area :: "fs \<Rightarrow> u32 set" where "area s \<equiv> log_area (lg (fl s))"

definition fs_abs :: "int \<Rightarrow> fs \<Rightarrow> (u32 \<Rightarrow> block) \<Rightarrow> u32 set \<Rightarrow> bool" where
  "fs_abs pid s vw H \<longleftrightarrow> log_inv pid (fl s) vw H"

text \<open>What a step that logs the blocks \<open>W\<close> leaves alone; \<open>H\<close> is held throughout.\<close>

definition fstep :: "u32 set \<Rightarrow> u32 set \<Rightarrow> fs \<Rightarrow> fs \<Rightarrow> bool" where
  "fstep W H s s' \<longleftrightarrow> fsb s' = fsb s \<and> itable s' = itable s \<and> log_start (lg (fl s')) = log_start (lg (fl s)) \<and>
     log_size (lg (fl s')) = log_size (lg (fl s)) \<and> outstanding (lg (fl s')) = outstanding (lg (fl s)) \<and>
     disk (bc (fl s')) = disk (bc (fl s)) \<and> lgd s' = lgd s \<union> W \<and> held_same H (bc (fl s)) (bc (fl s'))"

text \<open>\<open>k\<close> more blocks fit into the open transaction.\<close>

definition fs_room :: "nat \<Rightarrow> fs \<Rightarrow> bool" where
  "fs_room k s \<longleftrightarrow> 0 < outstanding (lg (fl s)) \<and> int (card (lgd s) + k) < log_size (lg (fl s)) - 1"

lemma fstep_refl [simp]: "fstep {} H s s"
  by (simp add: fstep_def held_same_def)

lemma fstep_trans: "fstep W H s s' \<Longrightarrow> fstep W' H s' s'' \<Longrightarrow> fstep (W \<union> W') H s s''"
  by (auto simp: fstep_def held_same_def)

lemma fstep_mono: "fstep W H s s' \<Longrightarrow> H' \<subseteq> H \<Longrightarrow> fstep W H' s s'"
  by (auto simp: fstep_def held_same_def)

lemma fstep_area: "fstep W H s s' \<Longrightarrow> area s' = area s"
  using same_start [of "lg (fl s')" "lg (fl s)"] by (simp add: fstep_def)

lemma fstep_room:
  assumes "fstep W H s s'" "fs_room (j + k) s" "card W \<le> j" shows "fs_room k s'"
proof -
  have "card (lgd s \<union> W) \<le> card (lgd s) + j" using card_Un_le [of "lgd s" W] assms(3) by simp
  then show ?thesis using assms(1,2) by (auto simp: fstep_def fs_room_def)
qed

lemma fs_room_mono: "fs_room k s \<Longrightarrow> j \<le> k \<Longrightarrow> fs_room j s"
  by (auto simp: fs_room_def)

lemma lh_n_card:
  assumes "fs_abs pid s vw H" shows "lh_n (lg (fl s)) = int (card (lgd s))"
proof -
  have "log_ok (lg (fl s))" using log_invD(1) assms by (simp add: fs_abs_def)
  then have "card (lgd s) = length (logged (lg (fl s)))" "0 \<le> lh_n (lg (fl s))"
    by (auto simp: log_ok_def distinct_card)
  then show ?thesis by (simp add: logged_def)
qed

lemma spare:
  assumes "fs_abs pid s vw H" "fs_room k s" "card H \<le> Suc k"
  shows "card (lgd s \<union> H) < NBUF"
proof -
  have "log_size (lg (fl s)) \<le> 30" using assms(1) log_invD(5) by (fastforce simp: fs_abs_def LOGSIZE_def MAXOPBLOCKS_def)
  then have "card (lgd s) + k < 29" using assms(2) by (simp add: fs_room_def)
  then show ?thesis using card_Un_le [of "lgd s" H] assms(3) by (simp add: NBUF_def)
qed

lemma bread_f_spec:
  assumes abs: "fs_abs pid s vw H" and b: "b \<notin> H" "b \<in> lgd s \<or> card (lgd s \<union> H) < NBUF"
  shows "\<exists>i s'. bread_f pid ROOTDEV b s = Ret (i, s') \<and> fs_abs pid s' vw (insert b H) \<and> fstep {} H s s' \<and>
    buf_for (bc (fl s')) i b \<and> data_f i s' = vw b"
proof -
  have inv: "log_inv pid (fl s) vw H" using abs by (simp add: fs_abs_def)
  obtain i t where t: "bread pid ROOTDEV b (bc (fl s)) = Ret (i, t)" "bio_abs pid t vw (lgd s) (insert b H)" "buf_for t i b"
      "b_data (bufs t i) = vw b" "disk t = disk (bc (fl s))" "held_same H (bc (fl s)) t"
    using bread_spec [OF log_invD(6) [OF inv] b] by blast
  let ?s = "s\<lparr>fl := (fl s)\<lparr>bc := t\<rparr>\<rparr>"
  have "log_inv pid (fl ?s) vw (insert b H)" using inv t(2,5) by (simp add: log_inv_def)
  then show ?thesis using t by (intro exI [of _ i] exI [of _ ?s]) (simp add: bread_f_def fs_abs_def fstep_def data_f_def data_l_def)
qed

lemma brelse_f_spec:
  assumes abs: "fs_abs pid s vw (insert b H)" and b: "b \<notin> H" "buf_for (bc (fl s)) i b"
    and cl: "b \<in> lgd s \<or> vw b = disk (bc (fl s)) b"
  shows "\<exists>s'. brelse_f pid i s = Ret s' \<and> fs_abs pid s' vw H \<and> fstep {} H s s'"
proof -
  have inv: "log_inv pid (fl s) vw (insert b H)" using abs by (simp add: fs_abs_def)
  obtain t where t: "brelse_l pid i (fl s) = Ret ((fl s)\<lparr>bc := t\<rparr>)" "bio_abs pid t vw (lgd s) (insert b H - {b})"
      "disk t = disk (bc (fl s))" "\<forall>j c. buf_for (bc (fl s)) j c \<longrightarrow> buf_for t j c"
    using brelse_l_spec [OF log_invD(6) [OF inv] _ b(2) cl] by auto
  let ?s = "s\<lparr>fl := (fl s)\<lparr>bc := t\<rparr>\<rparr>"
  have "log_inv pid (fl ?s) vw H" using inv t(2,3) b(1) by (simp add: log_inv_def)
  then show ?thesis using t by (intro exI [of _ ?s]) (simp add: brelse_f_def fs_abs_def fstep_def held_same_def)
qed

lemma log_write_f_spec:
  assumes abs: "fs_abs pid s vw H" and b: "b \<in> H" "buf_for (bc (fl s)) i b" "b \<notin> area s" and d: "length d = BSIZE"
    and room: "fs_room 0 s"
  shows "\<exists>s'. log_write_f i (store_f i d s) = Ret s' \<and> fs_abs pid s' (vw(b := d)) H \<and> fstep {b} H s s'"
proof -
  have inv: "log_inv pid (fl s) vw H" using abs by (simp add: fs_abs_def)
  note st = set_data_spec [OF log_invD(6) [OF inv] b(1,2) d]
  let ?t = "fl (store_f i d s)"
  have t: "log_inv pid ?t (vw(b := d)) H" "lg ?t = lg (fl s)" "disk (bc ?t) = disk (bc (fl s))"
    "\<And>j c. buf_for (bc ?t) j c = buf_for (bc (fl s)) j c"
    using inv st by (simp_all add: log_inv_def store_f_def store_l_def)
  have "0 < outstanding (lg ?t)" "lh_n (lg ?t) < log_size (lg ?t) - 1"
    using room lh_n_card [OF abs] t(2) by (simp_all add: fs_room_def)
  with log_write_spec [OF t(1) _ _ b(1), of i] b t(2,4) obtain l where
    l: "log_write i ?t = Ret l" "log_inv pid l (vw(b := d)) H" "set (logged (lg l)) = insert b (lgd s)"
      "outstanding (lg l) = outstanding (lg (fl s))" "log_size (lg l) = log_size (lg (fl s))" "log_start (lg l) = log_start (lg (fl s))"
      "disk (bc l) = disk (bc ?t)" "\<forall>j c. buf_for (bc l) j c \<longleftrightarrow> buf_for (bc ?t) j c" by auto
  then show ?thesis using t
    by (intro exI [of _ "(store_f i d s)\<lparr>fl := l\<rparr>"]) (auto simp: log_write_f_def fs_abs_def fstep_def held_same_def store_f_def)
qed

text \<open>The two idioms of the file system: look at a block, and change a block.\<close>

lemma read_block:
  assumes abs: "fs_abs pid s vw H" and b: "b \<notin> H" "card (lgd s \<union> H) < NBUF"
  shows "\<exists>i s1 s2. bread_f pid ROOTDEV b s = Ret (i, s1) \<and> data_f i s1 = vw b \<and> fstep {} H s s1 \<and>
    fs_abs pid s1 vw (insert b H) \<and> buf_for (bc (fl s1)) i b \<and>
    brelse_f pid i s1 = Ret s2 \<and> fs_abs pid s2 vw H \<and> fstep {} H s s2"
proof -
  obtain i s1 where s1: "bread_f pid ROOTDEV b s = Ret (i, s1)" "fs_abs pid s1 vw (insert b H)" "fstep {} H s s1"
      "buf_for (bc (fl s1)) i b" "data_f i s1 = vw b"
    using bread_f_spec [OF abs b(1)] b(2) by blast
  have "b \<in> lgd s1 \<or> vw b = disk (bc (fl s1)) b"
    using bio_absD(10) [OF log_invD(6), of pid "fl s" vw H b] abs b(1) s1(3) by (auto simp: fs_abs_def fstep_def)
  then obtain s2 where "brelse_f pid i s1 = Ret s2" "fs_abs pid s2 vw H" "fstep {} H s1 s2"
    using brelse_f_spec [OF s1(2) b(1) s1(4)] by blast
  then show ?thesis using s1 fstep_trans [OF s1(3), of "{}" s2] by auto
qed

lemma update_block:
  assumes abs: "fs_abs pid s vw H" and b: "b \<notin> H" "b \<notin> area s" "card H \<le> 1" and room: "fs_room 0 s" and d: "length d = BSIZE"
  shows "\<exists>i s1 s2 s3. bread_f pid ROOTDEV b s = Ret (i, s1) \<and> data_f i s1 = vw b \<and> fstep {} H s s1 \<and>
    log_write_f i (store_f i d s1) = Ret s2 \<and> brelse_f pid i s2 = Ret s3 \<and>
    fs_abs pid s3 (vw(b := d)) H \<and> fstep {b} H s s3"
proof -
  obtain i s1 where s1: "bread_f pid ROOTDEV b s = Ret (i, s1)" "fs_abs pid s1 vw (insert b H)" "fstep {} H s s1"
      "buf_for (bc (fl s1)) i b" "data_f i s1 = vw b"
    using bread_f_spec [OF abs b(1)] spare [OF abs room] b(3) by auto
  have "fs_room 0 s1" using fstep_room [OF s1(3), of 0 0] room by simp
  then obtain s2 where s2: "log_write_f i (store_f i d s1) = Ret s2" "fs_abs pid s2 (vw(b := d)) (insert b H)" "fstep {b} (insert b H) s1 s2"
    using log_write_f_spec [OF s1(2) _ s1(4) _ d] b(2) fstep_area [OF s1(3)] by auto
  have "buf_for (bc (fl s2)) i b" "b \<in> lgd s2" using s2(3) s1(4) by (auto simp: fstep_def held_same_def)
  then obtain s3 where s3: "brelse_f pid i s2 = Ret s3" "fs_abs pid s3 (vw(b := d)) H" "fstep {} H s2 s3"
    using brelse_f_spec [OF s2(2) b(1)] by blast
  have "fstep ({} \<union> {b} \<union> {}) H s s3"
    by (intro fstep_trans [OF fstep_trans]) (use s1(3) s2(3) s3(3) fstep_mono in blast)+
  then show ?thesis using s1 s2 s3 by auto
qed

lemma bzero_spec:
  assumes "fs_abs pid s vw H" "b \<notin> H" "b \<notin> area s" "card H \<le> 1" "fs_room 0 s"
  shows "\<exists>s'. bzero pid ROOTDEV b s = Ret s' \<and> fs_abs pid s' (vw(b := replicate BSIZE 0)) H \<and> fstep {b} H s s'"
  using update_block [OF assms, of "replicate BSIZE 0"] by (auto simp: bzero_def)

section \<open>The free map\<close>

definition used :: "superblock \<Rightarrow> (u32 \<Rightarrow> block) \<Rightarrow> nat \<Rightarrow> bool" where
  "used sb vw n \<longleftrightarrow> bit (vw (BBLOCK n sb) ! (n mod BPB div 8)) (n mod 8)"

text \<open>
  The layout: the bitmap blocks are different blocks outside the log, and no block that is marked
  free is part of the log, of the bitmap or of the inode area, or is block 0.
\<close>

definition meta :: "superblock \<Rightarrow> u32 set" where
  "meta sb = (\<lambda>n. BBLOCK n sb) ` {..<unat (sb_size sb)} \<union> (\<lambda>i. IBLOCK (of_nat i) sb) ` {..<unat (sb_ninodes sb)} \<union> {0}"

definition fs_geom :: "superblock \<Rightarrow> u32 set \<Rightarrow> bool" where
  "fs_geom sb A \<longleftrightarrow> unat (sb_size sb) < 2 ^ 31 \<and> unat (sb_ninodes sb) < 2 ^ 31 \<and> meta sb \<inter> A = {} \<and>
     (\<forall>i n. i < unat (sb_ninodes sb) \<longrightarrow> n < unat (sb_size sb) \<longrightarrow> IBLOCK (of_nat i) sb \<noteq> BBLOCK n sb)"

definition free_ok :: "superblock \<Rightarrow> u32 set \<Rightarrow> (u32 \<Rightarrow> block) \<Rightarrow> bool" where
  "free_ok sb A vw \<longleftrightarrow> (\<forall>n < unat (sb_size sb). \<not> used sb vw n \<longrightarrow> of_nat n \<notin> A \<union> meta sb)"

definition set_used :: "nat \<Rightarrow> block \<Rightarrow> block" where
  "set_used bi d = d[bi div 8 := d ! (bi div 8) OR push_bit (bi mod 8) 1]"

definition set_free :: "nat \<Rightarrow> block \<Rightarrow> block" where
  "set_free bi d = d[bi div 8 := d ! (bi div 8) AND NOT (push_bit (bi mod 8) 1)]"

lemma BPB_mod: "n mod BPB mod 8 = n mod 8"
  by (simp add: BPB_def BSIZE_def mod_mod_cancel)

lemma byte_bit: "x AND push_bit k 1 = 0 \<longleftrightarrow> \<not> bit (x :: u8) k" if "k < 8"
proof -
  have "bit (x AND push_bit k 1) j \<longleftrightarrow> j = k \<and> bit x k" for j using that by (auto simp: bit_simps)
  then show ?thesis by (metis bit_0_eq bot_apply bot_bool_def bit_eqI)
qed

lemma bit_set_used:
  assumes "length d = BSIZE" "i < BPB" "bi < BPB"
  shows "bit (set_used bi d ! (i div 8)) (i mod 8) \<longleftrightarrow> i = bi \<or> bit (d ! (i div 8)) (i mod 8)"
    "bit (set_free bi d ! (i div 8)) (i mod 8) \<longleftrightarrow> i \<noteq> bi \<and> bit (d ! (i div 8)) (i mod 8)"
proof -
  have l: "i div 8 < length d" "bi div 8 < length d" using assms by (auto simp: BPB_def less_mult_imp_div_less)
  have e: "i div 8 = bi div 8 \<Longrightarrow> i mod 8 = bi mod 8 \<Longrightarrow> i = bi" by (metis div_mult_mod_eq)
  show "bit (set_used bi d ! (i div 8)) (i mod 8) \<longleftrightarrow> i = bi \<or> bit (d ! (i div 8)) (i mod 8)"
    "bit (set_free bi d ! (i div 8)) (i mod 8) \<longleftrightarrow> i \<noteq> bi \<and> bit (d ! (i div 8)) (i mod 8)"
    using l e by (cases "i div 8 = bi div 8"; auto simp: set_used_def set_free_def bit_simps)+
qed

lemma BBLOCK_eq:
  assumes "unat (sb_size sb) < 2 ^ 31" "m < unat (sb_size sb)" "n < unat (sb_size sb)"
  shows "BBLOCK m sb = BBLOCK n sb \<longleftrightarrow> m div BPB = n div BPB"
proof -
  have "m < 4294967296" "n < 4294967296" using assms by simp_all
  then have "m div BPB < 4294967296" "n div BPB < 4294967296"
    using div_le_dividend [of m BPB] div_le_dividend [of n BPB] by linarith+
  then have u: "unat (of_nat (m div BPB) :: u32) = m div BPB" "unat (of_nat (n div BPB) :: u32) = n div BPB"
    by (simp_all add: unat_of_nat)
  have "BBLOCK m sb = BBLOCK n sb \<longleftrightarrow> (of_nat (m div BPB) :: u32) = of_nat (n div BPB)" by (simp add: BBLOCK_def)
  then show ?thesis by (simp only: word_unat_eq_iff u)
qed

lemma used_upd:
  assumes g: "unat (sb_size sb) < 2 ^ 31" and n: "n < unat (sb_size sb)" "m < unat (sb_size sb)"
    and len: "length (vw (BBLOCK n sb)) = BSIZE"
  shows "used sb (vw(BBLOCK n sb := set_used (n mod BPB) (vw (BBLOCK n sb)))) m \<longleftrightarrow> m = n \<or> used sb vw m"
    "used sb (vw(BBLOCK n sb := set_free (n mod BPB) (vw (BBLOCK n sb)))) m \<longleftrightarrow> m \<noteq> n \<and> used sb vw m"
proof -
  have lt: "m mod BPB < BPB" "n mod BPB < BPB" by (simp_all add: BPB_def BSIZE_def)
  have e: "m div BPB = n div BPB \<Longrightarrow> m mod BPB = n mod BPB \<longleftrightarrow> m = n" by (metis div_mult_mod_eq)
  note b = bit_set_used [OF len lt, unfolded BPB_mod] and eq = BBLOCK_eq [OF g n(2,1)]
  show "used sb (vw(BBLOCK n sb := set_used (n mod BPB) (vw (BBLOCK n sb)))) m \<longleftrightarrow> m = n \<or> used sb vw m"
    "used sb (vw(BBLOCK n sb := set_free (n mod BPB) (vw (BBLOCK n sb)))) m \<longleftrightarrow> m \<noteq> n \<and> used sb vw m"
    using b e eq by (cases "m div BPB = n div BPB"; auto simp: used_def)+
qed

section \<open>Allocation\<close>

lemma balloc_bit_spec:
  "case balloc_bit d b sz k of
     Some bi \<Rightarrow> k \<le> bi \<and> bi < BPB \<and> b + bi < sz \<and> \<not> bit (d ! (bi div 8)) (bi mod 8) \<and>
       (\<forall>j. k \<le> j \<and> j < bi \<longrightarrow> bit (d ! (j div 8)) (j mod 8))
   | None \<Rightarrow> \<forall>j. k \<le> j \<and> j < BPB \<and> b + j < sz \<longrightarrow> bit (d ! (j div 8)) (j mod 8)"
proof (induction d b sz k rule: balloc_bit.induct)
  case (1 d b sz k)
  have k8: "k mod 8 < 8" by simp
  show ?case
  proof (cases "k < BPB \<and> b + k < sz \<and> bit (d ! (k div 8)) (k mod 8)")
    case True
    then have "balloc_bit d b sz k = balloc_bit d b sz (Suc k)" using byte_bit [OF k8] by (subst balloc_bit.simps) simp
    then show ?thesis using 1 True byte_bit [OF k8] by (auto split: option.splits simp: Suc_le_eq) (metis le_neq_implies_less)+
  next
    case False
    then show ?thesis using byte_bit [OF k8] by (subst balloc_bit.simps) auto
  qed
qed

definition alloc_pre :: "fs \<Rightarrow> (u32 \<Rightarrow> block) \<Rightarrow> u32 set \<Rightarrow> bool" where
  "alloc_pre s vw H \<longleftrightarrow> fs_geom (fsb s) (area s) \<and> free_ok (fsb s) (area s) vw \<and> H \<inter> meta (fsb s) = {} \<and> card H \<le> 1 \<and>
     (\<forall>n < unat (sb_size (fsb s)). \<not> used (fsb s) vw n \<longrightarrow> of_nat n \<notin> H)"

lemma meta_BBLOCK: "n < unat (sb_size sb) \<Longrightarrow> BBLOCK n sb \<in> meta sb"
  by (auto simp: meta_def)

lemma alloc_preD:
  assumes "alloc_pre s vw H" "n < unat (sb_size (fsb s))"
  shows "BBLOCK n (fsb s) \<notin> H" "BBLOCK n (fsb s) \<notin> area s"
    "\<not> used (fsb s) vw n \<Longrightarrow> of_nat n \<notin> H \<union> area s \<union> meta (fsb s)" "card H \<le> 1"
  using assms meta_BBLOCK [OF assms(2)] by (auto simp: alloc_pre_def fs_geom_def free_ok_def)

lemma fstep_pre: "fstep W H' s s' \<Longrightarrow> alloc_pre s' vw H = alloc_pre s vw H"
  using fstep_area [of W H' s s'] by (simp add: alloc_pre_def fstep_def)

definition allocated :: "superblock \<Rightarrow> nat \<Rightarrow> (u32 \<Rightarrow> block) \<Rightarrow> u32 \<Rightarrow> block" where
  "allocated sb n vw = vw(BBLOCK n sb := set_used (n mod BPB) (vw (BBLOCK n sb)), of_nat n := replicate BSIZE 0)"

lemma balloc_found:
  assumes abs: "fs_abs pid s vw H" and pre: "alloc_pre s vw H" and room: "fs_room 1 s"
    and b: "BPB dvd b" "balloc_bit (vw (BBLOCK b (fsb s))) b (unat (sb_size (fsb s))) 0 = Some bi"
      "b < unat (sb_size (fsb s))" "\<not> used (fsb s) vw (b + bi)" "bi < BPB" "b + bi < unat (sb_size (fsb s))"
  shows "\<exists>s'. balloc_loop pid ROOTDEV (unat (sb_size (fsb s))) b s = Ret (of_nat (b + bi), s') \<and>
    fs_abs pid s' (allocated (fsb s) (b + bi) vw) H \<and> fstep {BBLOCK (b + bi) (fsb s), of_nat (b + bi)} H s s'"
proof -
  let ?sb = "fsb s" and ?n = "b + bi"
  let ?B = "BBLOCK b ?sb"
  obtain q where "b = BPB * q" using b(1) by (elim dvdE)
  then have nb: "BBLOCK ?n ?sb = ?B" "?n mod BPB = bi" using b(5) by (simp_all add: BBLOCK_def)
  note P = alloc_preD [OF pre b(3)] and Q = alloc_preD(3) [OF pre b(6,4)]
  define d where "d = set_used bi (vw ?B)"
  have len: "length d = BSIZE" using bio_absD(2) [OF log_invD(6)] abs by (auto simp: d_def set_used_def fs_abs_def)
  obtain i s1 s2 s3 where u: "bread_f pid ROOTDEV ?B s = Ret (i, s1)" "data_f i s1 = vw ?B" "fstep {} H s s1"
      "log_write_f i (store_f i d s1) = Ret s2" "brelse_f pid i s2 = Ret s3" "fs_abs pid s3 (vw(?B := d)) H" "fstep {?B} H s s3"
    using update_block [OF abs P(1,2,4) fs_room_mono [OF room] len] by auto
  have "fs_room 0 s3" using fstep_room [OF u(7), of 1 0] room by simp
  moreover have "of_nat ?n \<notin> area s3" using Q fstep_area [OF u(7)] by simp
  ultimately obtain s4 where s4: "bzero pid ROOTDEV (of_nat ?n) s3 = Ret s4" "fs_abs pid s4 ((vw(?B := d))(of_nat ?n := replicate BSIZE 0)) H"
      "fstep {of_nat ?n} H s3 s4"
    using bzero_spec [OF u(6), of "of_nat ?n"] Q P(4) by auto
  have "balloc_loop pid ROOTDEV (unat (sb_size ?sb)) b s = Ret (of_nat ?n, s4)"
    using u s4(1) b(2,3) by (subst balloc_loop.simps) (simp add: Let_def d_def set_used_def)
  then show ?thesis using s4 fstep_trans [OF u(7) s4(3)] nb
    by (intro exI [of _ s4]) (simp add: allocated_def d_def insert_commute)
qed

text \<open>What \<open>balloc\<close> may return when it looks from block \<open>b\<close> on.\<close>

definition balloc_res :: "int \<Rightarrow> fs \<Rightarrow> (u32 \<Rightarrow> block) \<Rightarrow> u32 set \<Rightarrow> nat \<Rightarrow> (u32 \<times> fs) result \<Rightarrow> bool" where
  "balloc_res pid s vw H b r \<longleftrightarrow>
    (\<exists>n s'. b \<le> n \<and> n < unat (sb_size (fsb s)) \<and> \<not> used (fsb s) vw n \<and> (\<forall>m. b \<le> m \<and> m < n \<longrightarrow> used (fsb s) vw m) \<and>
      r = Ret (of_nat n, s') \<and> fs_abs pid s' (allocated (fsb s) n vw) H \<and> fstep {BBLOCK n (fsb s), of_nat n} H s s') \<or>
    (\<exists>s'. (\<forall>m. b \<le> m \<and> m < unat (sb_size (fsb s)) \<longrightarrow> used (fsb s) vw m) \<and>
      r = Ret (0, s') \<and> fs_abs pid s' vw H \<and> fstep {} H s s')"

lemma balloc_res_skip:
  assumes res: "balloc_res pid s2 vw H (b + BPB) r" and st: "fstep {} H s s2"
    and all: "\<And>m. b \<le> m \<Longrightarrow> m < b + BPB \<Longrightarrow> m < unat (sb_size (fsb s)) \<Longrightarrow> used (fsb s) vw m"
  shows "balloc_res pid s vw H b r"
proof -
  let ?sz = "unat (sb_size (fsb s))"
  have sb: "fsb s2 = fsb s" using st by (simp add: fstep_def)
  have tr: "fstep W H s s'" if "fstep W H s2 s'" for W s' using fstep_trans [OF st that] by simp
  have ext: "\<forall>m. b \<le> m \<and> m < k \<longrightarrow> used (fsb s) vw m" if "\<forall>m. b + BPB \<le> m \<and> m < k \<longrightarrow> used (fsb s) vw m" "k \<le> ?sz" for k
    using all that by (meson linorder_not_le order_less_le_trans)
  from res show ?thesis unfolding balloc_res_def sb
  proof (elim disjE exE conjE, goal_cases)
    case (1 n s')
    then show ?case using ext [OF 1(4)] tr by (intro disjI1 exI [of _ n] exI [of _ s']) simp
  next
    case (2 s')
    then show ?case using ext [OF 2(1)] tr by (intro disjI2 exI [of _ s']) simp
  qed
qed

lemma balloc_loop_spec:
  assumes "fs_abs pid s vw H" "alloc_pre s vw H" "fs_room 1 s" "BPB dvd b"
  shows "balloc_res pid s vw H b (balloc_loop pid ROOTDEV (unat (sb_size (fsb s))) b s)"
  using assms
proof (induction "unat (sb_size (fsb s)) - b" arbitrary: b s rule: less_induct)
  case less
  let ?sb = "fsb s" and ?sz = "unat (sb_size (fsb s))"
  let ?B = "BBLOCK b ?sb"
  show ?case
  proof (cases "b < ?sz")
    case False
    then show ?thesis using less.prems by (subst balloc_loop.simps) (auto simp: balloc_res_def)
  next
    case True
    obtain q where q: "b = BPB * q" using less.prems(4) by (elim dvdE)
    then have us: "used ?sb vw (b + j) \<longleftrightarrow> bit (vw ?B ! (j div 8)) (j mod 8)" if "j < BPB" for j
      using that by (simp add: used_def BBLOCK_def) (simp add: BPB_def BSIZE_def mod_mult_self4 add.commute mod_add_right_eq flip: mod_add_eq)
    note sp = balloc_bit_spec [where d = "vw ?B" and b = b and sz = ?sz and k = 0]
    show ?thesis
    proof (cases "balloc_bit (vw ?B) b ?sz 0")
      case (Some bi)
      then have bi: "bi < BPB" "b + bi < ?sz" "\<not> used ?sb vw (b + bi)" "\<And>j. j < bi \<Longrightarrow> used ?sb vw (b + j)" using sp us by auto
      define n where "n = b + bi"
      have "\<forall>m. b \<le> m \<and> m < n \<longrightarrow> used ?sb vw m"
        using bi(4) unfolding n_def by (metis le_add_diff_inverse nat_add_left_cancel_less)
      moreover have "b \<le> n" by (simp add: n_def)
      ultimately show ?thesis
        using balloc_found [OF less.prems(1-4) Some True bi(3,1,2)] bi(2,3) unfolding n_def [symmetric] balloc_res_def by blast
    next
      case None
      have all: "used ?sb vw m" if "b \<le> m" "m < b + BPB" "m < ?sz" for m
        using None sp us [of "m - b"] that by auto
      obtain i s1 s2 where r: "bread_f pid ROOTDEV ?B s = Ret (i, s1)" "data_f i s1 = vw ?B"
          "brelse_f pid i s1 = Ret s2" "fs_abs pid s2 vw H" "fstep {} H s s2"
        using read_block [OF less.prems(1) alloc_preD(1) [OF less.prems(2) True]] spare [OF less.prems(1,3)] alloc_preD(4) [OF less.prems(2) True] by auto
      have e: "balloc_loop pid ROOTDEV ?sz b s = balloc_loop pid ROOTDEV ?sz (b + BPB) s2"
        using True r None by (subst balloc_loop.simps) simp
      have sb: "fsb s2 = fsb s" using r(5) by (simp add: fstep_def)
      have "alloc_pre s2 vw H" "fs_room 1 s2" "BPB dvd b + BPB" "?sz - (b + BPB) < ?sz - b"
        using less.prems(2-4) fstep_pre [OF r(5)] fstep_room [OF r(5), of 0 1] True by (auto simp: BPB_def BSIZE_def)
      then have "balloc_res pid s2 vw H (b + BPB) (balloc_loop pid ROOTDEV ?sz b s)"
        using less.hyps [of s2 "b + BPB"] r(4) sb e by simp
      then show ?thesis using balloc_res_skip r(5) all by blast
    qed
  qed
qed

lemma vw_len: "fs_abs pid s vw H \<Longrightarrow> length (vw b) = BSIZE"
  using bio_absD(2) [OF log_invD(6)] by (simp add: fs_abs_def)

lemma fs_geom_size: "fs_geom sb A \<Longrightarrow> unat (sb_size sb) < 2 ^ 31"
  by (simp add: fs_geom_def)

lemma used_cong: "(\<And>n. n < unat (sb_size sb) \<Longrightarrow> vw (BBLOCK n sb) = vw' (BBLOCK n sb)) \<Longrightarrow> m < unat (sb_size sb) \<Longrightarrow> used sb vw m = used sb vw' m"
  by (simp add: used_def)

lemma used_allocated:
  assumes pre: "alloc_pre s vw H" and n: "n < unat (sb_size (fsb s))" "\<not> used (fsb s) vw n" and len: "\<And>b. length (vw b) = BSIZE"
    and m: "m < unat (sb_size (fsb s))"
  shows "used (fsb s) (allocated (fsb s) n vw) m \<longleftrightarrow> m = n \<or> used (fsb s) vw m"
proof -
  let ?sb = "fsb s"
  have "used ?sb (allocated ?sb n vw) m = used ?sb (vw(BBLOCK n ?sb := set_used (n mod BPB) (vw (BBLOCK n ?sb)))) m"
  proof (rule used_cong [OF _ m])
    fix k assume "k < unat (sb_size ?sb)"
    then have "BBLOCK k ?sb \<noteq> of_nat n" using alloc_preD(3) [OF pre n] meta_BBLOCK by (metis Un_iff)
    then show "allocated ?sb n vw (BBLOCK k ?sb) = (vw(BBLOCK n ?sb := set_used (n mod BPB) (vw (BBLOCK n ?sb)))) (BBLOCK k ?sb)"
      by (simp add: allocated_def)
  qed
  moreover have "unat (sb_size ?sb) < 2 ^ 31" using pre fs_geom_size by (auto simp: alloc_pre_def)
  ultimately show ?thesis using used_upd(1) [OF _ n(1) m len] by simp
qed

lemma allocated_other: "c \<noteq> BBLOCK n sb \<Longrightarrow> c \<noteq> of_nat n \<Longrightarrow> allocated sb n vw c = vw c"
  by (simp add: allocated_def)

lemma alloc_pre_allocated:
  assumes pre: "alloc_pre s vw H" and n: "n < unat (sb_size (fsb s))" "\<not> used (fsb s) vw n" and len: "\<And>b. length (vw b) = BSIZE"
  shows "alloc_pre s (allocated (fsb s) n vw) H"
proof -
  have "\<not> used (fsb s) vw m" if "m < unat (sb_size (fsb s))" "\<not> used (fsb s) (allocated (fsb s) n vw) m" for m
    using used_allocated [OF pre n len that(1)] that(2) by simp
  then show ?thesis using pre by (simp add: alloc_pre_def free_ok_def)
qed

lemma of_nat_block: "unat (sb_size sb) < 2 ^ 31 \<Longrightarrow> n < unat (sb_size sb) \<Longrightarrow> unat (of_nat n :: u32) = n"
  by (simp add: unat_of_nat)

lemma balloc_spec:
  assumes abs: "fs_abs pid s vw H" and pre: "alloc_pre s vw H" and room: "fs_room 1 s"
  shows "(\<exists>n s'. n < unat (sb_size (fsb s)) \<and> \<not> used (fsb s) vw n \<and> (\<forall>m < n. used (fsb s) vw m) \<and> n \<noteq> 0 \<and> (of_nat n :: u32) \<noteq> 0 \<and>
      balloc pid ROOTDEV s = Ret (of_nat n, s') \<and> fs_abs pid s' (allocated (fsb s) n vw) H \<and>
      alloc_pre s' (allocated (fsb s) n vw) H \<and> fstep {BBLOCK n (fsb s), of_nat n} H s s') \<or>
    (\<exists>s'. (\<forall>m < unat (sb_size (fsb s)). used (fsb s) vw m) \<and>
      balloc pid ROOTDEV s = Ret (0, s') \<and> fs_abs pid s' vw H \<and> alloc_pre s' vw H \<and> fstep {} H s s')"
proof -
  have "balloc_res pid s vw H 0 (balloc pid ROOTDEV s)" using balloc_loop_spec [OF assms, of 0] by (simp add: balloc_def)
  then show ?thesis unfolding balloc_res_def
  proof (elim disjE exE conjE, goal_cases)
    case (1 n s')
    have "of_nat n \<notin> meta (fsb s)" using alloc_preD(3) [OF pre 1(2,3)] by blast
    moreover have "0 \<in> meta (fsb s)" by (simp add: meta_def)
    ultimately have "(of_nat n :: u32) \<noteq> 0" by metis
    moreover from this have "n \<noteq> 0" by (rule contrapos_nn) simp
    moreover have "alloc_pre s' (allocated (fsb s) n vw) H"
      using alloc_pre_allocated [OF pre 1(2,3) vw_len [OF abs]] fstep_pre [OF 1(7)] by blast
    moreover have "\<forall>m < n. used (fsb s) vw m" using 1(4) by simp
    ultimately show ?case using 1(2,3,5-7) by blast
  next
    case (2 s')
    have "\<forall>m < unat (sb_size (fsb s)). used (fsb s) vw m" using 2(1) by simp
    moreover have "alloc_pre s' vw H" using pre fstep_pre [OF 2(4)] by blast
    ultimately show ?case using 2(2-4) by blast
  qed
qed

lemma bfree_spec:
  assumes abs: "fs_abs pid s vw H" and pre: "alloc_pre s vw H" and room: "fs_room 0 s" and b: "unat b < unat (sb_size (fsb s))"
  shows "if used (fsb s) vw (unat b)
    then \<exists>s'. bfree pid ROOTDEV b s = Ret s' \<and> fstep {BBLOCK (unat b) (fsb s)} H s s' \<and>
      fs_abs pid s' (vw(BBLOCK (unat b) (fsb s) := set_free (unat b mod BPB) (vw (BBLOCK (unat b) (fsb s))))) H
    else bfree pid ROOTDEV b s = Panic ''freeing free block''"
proof -
  let ?B = "BBLOCK (unat b) (fsb s)" and ?bi = "unat b mod BPB"
  note P = alloc_preD [OF pre b]
  have bt: "(vw ?B ! (?bi div 8) AND push_bit (?bi mod 8) 1 = 0) \<longleftrightarrow> \<not> used (fsb s) vw (unat b)"
    using byte_bit [of "?bi mod 8"] BPB_mod by (simp add: used_def)
  define d where "d = set_free ?bi (vw ?B)"
  have len: "length d = BSIZE" using vw_len [OF abs] by (simp add: d_def set_free_def)
  obtain i s1 s2 s3 where u: "bread_f pid ROOTDEV ?B s = Ret (i, s1)" "data_f i s1 = vw ?B"
      "log_write_f i (store_f i d s1) = Ret s2" "brelse_f pid i s2 = Ret s3" "fs_abs pid s3 (vw(?B := d)) H" "fstep {?B} H s s3"
    using update_block [OF abs P(1,2,4) room len] by auto
  show ?thesis
  proof (cases "used (fsb s) vw (unat b)")
    case True
    then have "bfree pid ROOTDEV b s = Ret s3" using u bt by (simp add: bfree_def Let_def d_def set_free_def)
    then show ?thesis using u True by (simp add: d_def)
  next
    case False
    then show ?thesis using u bt by (simp add: bfree_def Let_def)
  qed
qed

section \<open>A file system image\<close>

text \<open>
  The layout mkfs builds: the log in blocks 2 to 31, the inodes in 32 to 44 and the free map in 45,
  which marks these blocks and block 46, the only block of a file of five bytes. One system call is
  open.
\<close>

definition img :: "u32 \<Rightarrow> block" where
  "img = (\<lambda>_. replicate BSIZE 0)(45 := replicate 5 255 @ [127] @ replicate (BSIZE - 6) 0, 46 := [104, 101, 108, 108, 111] @ replicate (BSIZE - 5) 0)"

definition file_new :: inode where
  "file_new = \<lparr>i_dev = 1, i_inum = 2, i_ref = 1, i_lock = initsleeplock, i_valid = 1, i_type = 2, i_major = 0, i_minor = 0,
     i_nlink = 1, i_size = 0, i_addrs = replicate 13 0\<rparr>"

definition file_five :: inode where
  "file_five = file_new\<lparr>i_inum := 3, i_size := 5, i_addrs := 46 # replicate 12 0\<rparr>"

definition fs_img :: fs where
  "fs_img = \<lparr>fl = \<lparr>bc = binit (bio_zero\<lparr>disk := img\<rparr>), lg = log_zero\<lparr>outstanding := 1\<rparr>\<rparr>, fsb = sb_zero, itable = (\<lambda>_. file_new)(1 := file_five)\<rparr>"

lemma img_boot: "bio_boot (bio_zero\<lparr>disk := img\<rparr>)"
  by (simp add: bio_boot_def bio_zero_def img_def BSIZE_def)

lemma fs_img_abs: "fs_abs 3 fs_img img {}"
proof -
  have "bio_abs 3 (binit (bio_zero\<lparr>disk := img\<rparr>)) img {} {}" using binit_abs(1) [OF img_boot, of 3] by simp
  moreover have "hdr_n (disk (binit (bio_zero\<lparr>disk := img\<rparr>)) 2) = 0"
  proof -
    have "img 2 = replicate BSIZE 0" by (simp add: img_def)
    then show ?thesis by (simp add: binit_abs(3) [OF img_boot] hdr_n_def) (simp add: get32_def get_bytes_def BSIZE_def numeral_eq_Suc)
  qed
  ultimately show ?thesis
    by (simp add: fs_abs_def fs_img_def log_zero_def log_inv_def log_ok_def log_geom_def logged_def LOGSIZE_def MAXOPBLOCKS_def hblk_def)
qed

lemma sb_zero_BBLOCK: "n < 2000 \<Longrightarrow> BBLOCK n sb_zero = 45"
  by (simp add: BBLOCK_def sb_zero_def BPB_def BSIZE_def)

lemma img_used:
  assumes "n < 47" shows "used sb_zero img n"
proof -
  have b: "bit (255 :: u8) k" if "k < 8" for k using that by (auto simp: less_Suc_eq numeral_eq_Suc bit_simps)
  have c: "bit (127 :: u8) k" if "k < 7" for k using that by (auto simp: less_Suc_eq numeral_eq_Suc bit_simps)
  show ?thesis
  proof (cases "n < 40")
    case True
    then have "n div 8 < 5" by linarith
    then show ?thesis using assms b [of "n mod 8"] by (simp add: used_def sb_zero_BBLOCK img_def BPB_def BSIZE_def nth_append)
  next
    case False
    then have "n div 8 = 5" using assms by linarith
    moreover from this have "n mod 8 < 7" using assms mult_div_mod_eq [of 8 n] by linarith
    ultimately have "n div 8 = 5" "n mod 8 < 7" by simp_all
    then show ?thesis using assms c [of "n mod 8"] by (simp add: used_def sb_zero_BBLOCK img_def BPB_def BSIZE_def nth_append)
  qed
qed

lemma img_inodes:
  assumes "i < 200" shows "unat (IBLOCK (of_nat i) sb_zero) = i div 16 + 32" "i div 16 \<le> 12"
proof -
  show le: "i div 16 \<le> 12" using assms by linarith
  have "IBLOCK (of_nat i) sb_zero = of_nat (i div 16 + 32)"
    using assms by (simp add: IBLOCK_def IPB_def BSIZE_def sb_zero_def unat_of_nat)
  then show "unat (IBLOCK (of_nat i) sb_zero) = i div 16 + 32" using le by (simp add: unat_of_nat del: of_nat_add)
qed

lemma img_layout:
  shows "c \<in> meta sb_zero \<Longrightarrow> unat c \<in> {32..45} \<or> c = 0" "c \<in> area fs_img \<Longrightarrow> unat c \<in> {2..31}"
proof -
  assume "c \<in> meta sb_zero"
  then consider n where "n < 2000" "c = BBLOCK n sb_zero" | i where "i < 200" "c = IBLOCK (of_nat i) sb_zero" | "c = 0"
    by (auto simp: meta_def sb_zero_def)
  then show "unat c \<in> {32..45} \<or> c = 0" by cases (use img_inodes in \<open>auto simp: sb_zero_BBLOCK\<close>)
next
  assume "c \<in> area fs_img"
  then consider "c = 2" | j where "j < 29" "c = of_nat (3 + j)"
    by (auto simp: log_area_def hblk_def slot_def LOGSIZE_def MAXOPBLOCKS_def fs_img_def log_zero_def)
  then show "unat c \<in> {2..31}" by cases (auto simp: unat_of_nat simp del: of_nat_add)
qed

lemma img_data: "46 \<le> unat c \<Longrightarrow> c \<notin> area fs_img \<union> meta sb_zero"
  using img_layout [of c] by auto

lemma img_alloc_pre: "alloc_pre fs_img img {}"
proof -
  have sz: "unat (sb_size sb_zero) = 2000" "unat (sb_ninodes sb_zero) = 200" by (simp_all add: sb_zero_def)
  have "IBLOCK (of_nat i) sb_zero \<noteq> BBLOCK n sb_zero" if "i < 200" "n < 2000" for i n
    using img_inodes [OF that(1)] sb_zero_BBLOCK [OF that(2)] by (auto dest: arg_cong [of _ _ unat])
  moreover have "meta sb_zero \<inter> area fs_img = {}" using img_layout by force
  moreover have "(of_nat n :: u32) \<notin> area fs_img \<union> meta sb_zero" if "n < 2000" "\<not> used sb_zero img n" for n
  proof (rule img_data)
    have "46 \<le> n" using img_used [of n] that(2) by (cases "n < 46") auto
    then show "46 \<le> unat (of_nat n :: u32)" using that(1) by (simp add: unat_of_nat)
  qed
  ultimately show ?thesis unfolding alloc_pre_def fs_geom_def free_ok_def
    by (simp add: fs_img_def sz)
qed

lemma img_room: "k < 29 \<Longrightarrow> fs_room k fs_img"
  by (simp add: fs_room_def fs_img_def log_zero_def logged_def)

section \<open>Properties\<close>

text \<open>
  C28. The block allocator. Inside a transaction with room for two more blocks: when every block of
  the file system is marked in use, \<open>balloc\<close> returns 0 and changes nothing; otherwise it returns
  the lowest free block, which is never a block of the log, the bitmap or the inode area, marks
  exactly that block, fills it with zeros and leaves every other block as it was. \<open>bfree\<close> clears
  exactly the mark of its argument, and panics when the block is already free.
\<close>

theorem balloc_bfree:
  assumes abs: "fs_abs pid s vw H" and pre: "alloc_pre s vw H" and room: "fs_room 1 s" and b: "unat b < unat (sb_size (fsb s))"
  shows "(if \<exists>n < unat (sb_size (fsb s)). \<not> used (fsb s) vw n
      then \<exists>n s' vw'. n = (LEAST n. \<not> used (fsb s) vw n) \<and> balloc pid ROOTDEV s = Ret (of_nat n, s') \<and> fs_abs pid s' vw' H \<and>
        (of_nat n :: u32) \<notin> area s \<union> meta (fsb s) \<and> (\<forall>m < unat (sb_size (fsb s)). used (fsb s) vw' m \<longleftrightarrow> m = n \<or> used (fsb s) vw m) \<and>
        vw' (of_nat n) = replicate BSIZE 0 \<and> (\<forall>c. c \<noteq> BBLOCK n (fsb s) \<and> c \<noteq> of_nat n \<longrightarrow> vw' c = vw c)
      else \<exists>s'. balloc pid ROOTDEV s = Ret (0, s') \<and> fs_abs pid s' vw H) \<and>
    (if used (fsb s) vw (unat b)
      then \<exists>s' vw'. bfree pid ROOTDEV b s = Ret s' \<and> fs_abs pid s' vw' H \<and> (\<forall>c. c \<noteq> BBLOCK (unat b) (fsb s) \<longrightarrow> vw' c = vw c) \<and>
        (\<forall>m < unat (sb_size (fsb s)). used (fsb s) vw' m \<longleftrightarrow> m \<noteq> unat b \<and> used (fsb s) vw m)
      else bfree pid ROOTDEV b s = Panic ''freeing free block'')"
proof (rule conjI, goal_cases)
  case 1
  from balloc_spec [OF abs pre room] show ?case
  proof (elim disjE exE conjE, goal_cases)
    case (1 n s')
    have "(LEAST n. \<not> used (fsb s) vw n) = n" using 1(2,3) by (intro Least_equality) (auto simp: not_less [symmetric])
    moreover have "allocated (fsb s) n vw (of_nat n) = replicate BSIZE 0" by (simp add: allocated_def)
    moreover have "\<exists>n < unat (sb_size (fsb s)). \<not> used (fsb s) vw n" using 1(1,2) by blast
    moreover have "(of_nat n :: u32) \<notin> area s \<union> meta (fsb s)" using alloc_preD(3) [OF pre 1(1,2)] by simp
    moreover have "\<forall>m < unat (sb_size (fsb s)). used (fsb s) (allocated (fsb s) n vw) m \<longleftrightarrow> m = n \<or> used (fsb s) vw m"
      using used_allocated [OF pre 1(1,2) vw_len [OF abs]] by blast
    ultimately show ?case using 1(6,7) allocated_other [of _ n "fsb s" vw]
      by (simp only: if_True) (intro exI [of _ n] exI [of _ s'] exI [of _ "allocated (fsb s) n vw"], simp)
  next
    case (2 s')
    then show ?case by auto
  qed
next
  case 2
  have "unat (sb_size (fsb s)) < 2 ^ 31" using pre fs_geom_size by (auto simp: alloc_pre_def)
  note u = used_upd(2) [where vw = vw, OF this b _ vw_len [OF abs]]
  show ?case
  proof (cases "used (fsb s) vw (unat b)")
    case True
    then obtain s' where "bfree pid ROOTDEV b s = Ret s'"
        "fs_abs pid s' (vw(BBLOCK (unat b) (fsb s) := set_free (unat b mod BPB) (vw (BBLOCK (unat b) (fsb s))))) H"
      using bfree_spec [OF abs pre fs_room_mono [OF room] b] by auto
    moreover define vw' where "vw' = vw(BBLOCK (unat b) (fsb s) := set_free (unat b mod BPB) (vw (BBLOCK (unat b) (fsb s))))"
    moreover have "\<forall>c. c \<noteq> BBLOCK (unat b) (fsb s) \<longrightarrow> vw' c = vw c" by (simp add: vw'_def)
    ultimately show ?thesis using True u [folded vw'_def]
      by (simp only: if_True) (intro exI [of _ s'] exI [of _ vw'], simp)
  qed (use bfree_spec [OF abs pre fs_room_mono [OF room] b] in simp)
qed

theorem balloc_bfree_witness:
  "(\<exists>n s' vw'. balloc 3 ROOTDEV fs_img = Ret (of_nat n, s') \<and> fs_abs 3 s' vw' {} \<and> vw' (of_nat n) = replicate BSIZE 0) \<and>
   (\<exists>s'. bfree 3 ROOTDEV 45 fs_img = Ret s') \<and> bfree 3 ROOTDEV 50 fs_img = Panic ''freeing free block''"
proof -
  have sb: "fsb fs_img = sb_zero" "unat (sb_size sb_zero) = 2000" by (simp_all add: fs_img_def sb_zero_def)
  have f: "\<not> used sb_zero img 50" by (simp add: used_def sb_zero_BBLOCK img_def BPB_def BSIZE_def nth_append)
  have "\<exists>n < unat (sb_size sb_zero). \<not> used sb_zero img n" using f sb(2) by (intro exI [of _ 50]) simp
  then have "\<exists>n s' vw'. balloc 3 ROOTDEV fs_img = Ret (of_nat n, s') \<and> fs_abs 3 s' vw' {} \<and> vw' (of_nat n) = replicate BSIZE 0"
    using balloc_bfree [OF fs_img_abs img_alloc_pre img_room, of 0] sb by auto
  moreover have "\<exists>s'. bfree 3 ROOTDEV 45 fs_img = Ret s'" "bfree 3 ROOTDEV 50 fs_img = Panic ''freeing free block''"
    using balloc_bfree [OF fs_img_abs img_alloc_pre img_room, of 45] balloc_bfree [OF fs_img_abs img_alloc_pre img_room, of 50] img_used [of 45] f sb
    by auto
  ultimately show ?thesis by blast
qed

end
