(* ===== verification/Fs_Files.thy ===== *)
theory Fs_Files
  imports Fs_Blocks
begin

text \<open>
  File contents, kernel/fs.c: the block map of an inode (\<open>bmap\<close>) and, on top of it, \<open>readi\<close> and
  \<open>writei\<close> as operations on the bytes of the file.
\<close>

section \<open>The block map\<close>

definition blk :: "(u32 \<Rightarrow> block) \<Rightarrow> u32 list \<Rightarrow> nat \<Rightarrow> u32" where
  "blk vw A bn = (if bn < NDIRECT then A ! bn else if A ! NDIRECT = 0 then 0 else get32 (4 * (bn - NDIRECT)) (vw (A ! NDIRECT)))"

definition block_ok :: "superblock \<Rightarrow> u32 set \<Rightarrow> (u32 \<Rightarrow> block) \<Rightarrow> u32 \<Rightarrow> bool" where
  "block_ok sb L vw a \<longleftrightarrow> unat a < unat (sb_size sb) \<and> used sb vw (unat a) \<and> a \<notin> L \<union> meta sb"

text \<open>A write to a data block does not touch the free map.\<close>

lemma used_data:
  assumes "block_ok sb L v a" "m < unat (sb_size sb)" shows "used sb (vw(a := d)) m = used sb vw m"
proof (rule used_cong [OF _ assms(2)])
  fix j assume "j < unat (sb_size sb)"
  then have "BBLOCK j sb \<in> meta sb" by (rule meta_BBLOCK)
  then have "BBLOCK j sb \<noteq> a" using assms(1) unfolding block_ok_def by force
  then show "(vw(a := d)) (BBLOCK j sb) = vw (BBLOCK j sb)" by simp
qed

text \<open>Every address of the file is an allocated data block, and no block is used twice.\<close>

definition file_ok :: "superblock \<Rightarrow> u32 set \<Rightarrow> (u32 \<Rightarrow> block) \<Rightarrow> u32 list \<Rightarrow> bool" where
  "file_ok sb L vw A \<longleftrightarrow> length A = NDIRECT + 1 \<and> (A ! NDIRECT \<noteq> 0 \<longrightarrow> block_ok sb L vw (A ! NDIRECT)) \<and>
     (\<forall>k < MAXFILE. blk vw A k \<noteq> 0 \<longrightarrow> block_ok sb L vw (blk vw A k) \<and> blk vw A k \<noteq> A ! NDIRECT) \<and>
     (\<forall>j < MAXFILE. \<forall>k < MAXFILE. blk vw A j \<noteq> 0 \<longrightarrow> blk vw A j = blk vw A k \<longrightarrow> j = k)"

lemma file_okD:
  assumes "file_ok sb L vw A"
  shows "length A = NDIRECT + 1" "A ! NDIRECT \<noteq> 0 \<Longrightarrow> block_ok sb L vw (A ! NDIRECT)"
    "k < MAXFILE \<Longrightarrow> blk vw A k \<noteq> 0 \<Longrightarrow> block_ok sb L vw (blk vw A k)"
    "k < MAXFILE \<Longrightarrow> blk vw A k \<noteq> 0 \<Longrightarrow> blk vw A k \<noteq> A ! NDIRECT"
    "j < MAXFILE \<Longrightarrow> k < MAXFILE \<Longrightarrow> blk vw A j \<noteq> 0 \<Longrightarrow> blk vw A j = blk vw A k \<Longrightarrow> j = k"
  using assms unfolding file_ok_def by blast+

lemma blk_direct: "bn < NDIRECT \<Longrightarrow> blk vw A bn = A ! bn"
  by (simp add: blk_def)

lemma file_ok_mono:
  assumes ok: "file_ok sb L vw A" and ind: "A ! NDIRECT \<noteq> 0 \<Longrightarrow> vw' (A ! NDIRECT) = vw (A ! NDIRECT)"
    and us: "\<And>m. m < unat (sb_size sb) \<Longrightarrow> used sb vw m \<Longrightarrow> used sb vw' m"
  shows "file_ok sb L vw' A" "blk vw' A = blk vw A"
proof -
  show b: "blk vw' A = blk vw A" using ind by (auto simp: blk_def fun_eq_iff)
  have "block_ok sb L vw a \<Longrightarrow> block_ok sb L vw' a" for a using us by (auto simp: block_ok_def)
  then show "file_ok sb L vw' A" using ok unfolding file_ok_def b by blast
qed

text \<open>A new block \<open>n\<close> enters at index \<open>bn\<close>; every other index keeps its block.\<close>

lemma file_ok_extend:
  assumes ok: "file_ok sb L vw A" and n: "block_ok sb L vw' n" "n \<noteq> 0" "\<not> used sb vw (unat n)" and bn: "bn < MAXFILE"
    and len: "length A' = NDIRECT + 1" and ind: "A' ! NDIRECT \<noteq> 0 \<Longrightarrow> block_ok sb L vw' (A' ! NDIRECT) \<and> A' ! NDIRECT \<noteq> n"
    and fresh: "A' ! NDIRECT = A ! NDIRECT \<or> \<not> used sb vw (unat (A' ! NDIRECT))"
    and us: "\<And>m. m < unat (sb_size sb) \<Longrightarrow> used sb vw m \<Longrightarrow> used sb vw' m"
    and b: "\<And>k. k < MAXFILE \<Longrightarrow> blk vw' A' k = (if k = bn then n else blk vw A k)"
  shows "file_ok sb L vw' A'"
proof -
  have mono: "block_ok sb L vw a \<Longrightarrow> block_ok sb L vw' a" for a using us by (auto simp: block_ok_def)
  have old: "blk vw A k \<noteq> n \<and> blk vw A k \<noteq> A' ! NDIRECT" if k: "k < MAXFILE" "blk vw A k \<noteq> 0" for k
  proof
    have u: "used sb vw (unat (blk vw A k))" using file_okD(3) [OF ok k] by (simp add: block_ok_def)
    then show "blk vw A k \<noteq> n" using n(3) by metis
    show "blk vw A k \<noteq> A' ! NDIRECT" using fresh file_okD(4) [OF ok k] u by metis
  qed
  have 1: "block_ok sb L vw' (blk vw' A' k) \<and> blk vw' A' k \<noteq> A' ! NDIRECT" if k: "k < MAXFILE" "blk vw' A' k \<noteq> 0" for k
  proof (cases "k = bn")
    case True
    then show ?thesis using b [OF k(1)] n ind by fastforce
  next
    case False
    then show ?thesis using b [OF k(1)] k old [OF k(1)] mono [OF file_okD(3) [OF ok k(1)]] by simp
  qed
  have 2: "j = k" if jk: "j < MAXFILE" "k < MAXFILE" "blk vw' A' j \<noteq> 0" "blk vw' A' j = blk vw' A' k" for j k
  proof (cases "j = bn \<or> k = bn")
    case True
    then show ?thesis using b [OF jk(1)] b [OF jk(2)] jk(3,4) old [OF jk(1)] old [OF jk(2)] n(2) by (cases "j = bn"; cases "k = bn") auto
  next
    case False
    then have "blk vw A j \<noteq> 0" "blk vw A j = blk vw A k" using b [OF jk(1)] b [OF jk(2)] jk(3,4) by simp_all
    then show ?thesis by (rule file_okD(5) [OF ok jk(1,2)])
  qed
  show ?thesis unfolding file_ok_def using len ind 1 2 by blast
qed

section \<open>The map of a file grows\<close>

abbreviation addrs_of :: "fs \<Rightarrow> nat \<Rightarrow> u32 list" where "addrs_of s ip \<equiv> i_addrs (itable s ip)"

text \<open>A step that may also change the addresses of inode \<open>ip\<close>.\<close>

definition with_addrs :: "fs \<Rightarrow> nat \<Rightarrow> u32 list \<Rightarrow> fs" where
  "with_addrs s ip A = upd_inode ip (\<lambda>x. x\<lparr>i_addrs := A\<rparr>) s"

text \<open>The blocks of the free map.\<close>

definition bmb :: "superblock \<Rightarrow> u32 set" where
  "bmb sb = (\<lambda>n. BBLOCK n sb) ` {..<unat (sb_size sb)}"

text \<open>
  Room for a file to grow: the free map, the indirect block and \<open>k\<close> data blocks still fit into the
  open transaction.
\<close>

definition room_for :: "nat \<Rightarrow> fs \<Rightarrow> u32 list \<Rightarrow> bool" where
  "room_for k s A \<longleftrightarrow> 0 < outstanding (lg (fl s)) \<and>
     int (card (lgd s \<union> bmb (fsb s) \<union> ({A ! NDIRECT} - {0})) + (if A ! NDIRECT = 0 then 1 else 0) + k) < log_size (lg (fl s)) - 1"

lemma with_addrs_simps [simp]:
  "fl (with_addrs s ip A) = fl s" "fsb (with_addrs s ip A) = fsb s" "addrs_of (with_addrs s ip A) ip = A"
  "with_addrs (with_addrs s ip A) ip A' = with_addrs s ip A'" "with_addrs s ip (addrs_of s ip) = s"
  "i_dev (itable (with_addrs s ip A) ip) = i_dev (itable s ip)" "i_size (itable (with_addrs s ip A) ip) = i_size (itable s ip)"
  by (simp_all add: with_addrs_def upd_inode_def)

lemma fs_abs_addrs [simp]: "fs_abs pid (with_addrs s ip A) vw H = fs_abs pid s vw H"
  by (simp add: fs_abs_def)

lemma alloc_pre_addrs [simp]: "alloc_pre (with_addrs s ip A) vw H = alloc_pre s vw H"
  by (simp add: alloc_pre_def)

lemma fs_room_addrs [simp]: "fs_room k (with_addrs s ip A) = fs_room k s"
  by (simp add: fs_room_def)

lemma room_for_addrs [simp]: "room_for k (with_addrs s ip A) B = room_for k s B"
  by (simp add: room_for_def)

lemma set_addr_with: "set_addr ip k v s = with_addrs s ip ((addrs_of s ip)[k := v])"
  by (simp add: set_addr_def with_addrs_def upd_inode_def)

text \<open>What an allocation gives: a fresh data block.\<close>

lemma allocated_block:
  assumes pre: "alloc_pre s vw H" and n: "n < unat (sb_size (fsb s))" "\<not> used (fsb s) vw n" and len: "\<And>b. length (vw b) = BSIZE"
  defines "vw' \<equiv> allocated (fsb s) n vw"
  shows "block_ok (fsb s) (area s) vw' (of_nat n)" "\<not> used (fsb s) vw (unat (of_nat n :: u32))" "unat (of_nat n :: u32) = n"
    "\<And>m. m < unat (sb_size (fsb s)) \<Longrightarrow> used (fsb s) vw m \<Longrightarrow> used (fsb s) vw' m"
    "\<And>a. block_ok (fsb s) (area s) vw a \<Longrightarrow> vw' a = vw a \<and> a \<noteq> of_nat n" "vw' (of_nat n) = replicate BSIZE 0"
proof -
  have g: "unat (sb_size (fsb s)) < 2 ^ 31" using pre fs_geom_size by (auto simp: alloc_pre_def)
  show u: "unat (of_nat n :: u32) = n" by (rule of_nat_block [OF g n(1)])
  note us = used_allocated [OF pre n len] and out = alloc_preD(3) [OF pre n]
  have "used (fsb s) vw' n" using us n(1) by (simp add: vw'_def)
  then show "block_ok (fsb s) (area s) vw' (of_nat n)" using n(1) out u unfolding block_ok_def by simp
  show "\<not> used (fsb s) vw (unat (of_nat n :: u32))" using n(2) u by simp
  show "used (fsb s) vw' m" if "m < unat (sb_size (fsb s))" "used (fsb s) vw m" for m using us that by (simp add: vw'_def)
  show "vw' a = vw a \<and> a \<noteq> of_nat n" if a: "block_ok (fsb s) (area s) vw a" for a
  proof -
    have "a \<noteq> of_nat n" using a n(2) u by (auto simp: block_ok_def)
    moreover have "a \<noteq> BBLOCK n (fsb s)" using a meta_BBLOCK [OF n(1)] by (auto simp: block_ok_def)
    ultimately show ?thesis using allocated_other unfolding vw'_def by blast
  qed
  show "vw' (of_nat n) = replicate BSIZE 0" by (simp add: vw'_def allocated_def)
qed

lemma finite_bmb [simp]: "finite (bmb sb)"
  by (simp add: bmb_def)

lemma room_for_room:
  assumes "room_for k s A" shows "fs_room k s"
proof -
  have "card (lgd s) \<le> card (lgd s \<union> bmb (fsb s) \<union> ({A ! NDIRECT} - {0}))" by (rule card_mono) auto
  then show ?thesis using assms unfolding room_for_def fs_room_def by linarith
qed

lemma room_for_mono: "room_for k s A \<Longrightarrow> j \<le> k \<Longrightarrow> room_for j s A"
  by (auto simp: room_for_def)

text \<open>A step that logs blocks of the free map, the indirect block and one data block.\<close>

lemma room_for_step:
  assumes st: "fstep W H s s'" and W: "W \<subseteq> bmb (fsb s) \<union> {A' ! NDIRECT, c}" and ind: "A ! NDIRECT \<noteq> 0 \<Longrightarrow> A' ! NDIRECT = A ! NDIRECT"
    and c: "A' ! NDIRECT = 0 \<Longrightarrow> W \<subseteq> bmb (fsb s) \<union> {c}" and room: "room_for (Suc k) s A"
  shows "room_for k s' A'"
proof -
  let ?U = "lgd s \<union> bmb (fsb s) \<union> ({A ! NDIRECT} - {0})" and ?U' = "lgd s' \<union> bmb (fsb s') \<union> ({A' ! NDIRECT} - {0})"
  let ?z = "\<lambda>A. if A ! NDIRECT = 0 then 1 else 0 :: nat"
  have s': "fsb s' = fsb s" "lgd s' = lgd s \<union> W" "outstanding (lg (fl s')) = outstanding (lg (fl s))"
    "log_size (lg (fl s')) = log_size (lg (fl s))" using st by (simp_all add: fstep_def)
  have fin: "finite (insert c (insert (A' ! NDIRECT) ?U))" by simp
  have "card ?U' + ?z A' \<le> card ?U + ?z A + 1"
  proof (cases "A' ! NDIRECT = A ! NDIRECT \<or> A' ! NDIRECT = 0")
    case True
    then have "?U' \<subseteq> insert c ?U" using W c ind unfolding s' by (cases "A ! NDIRECT = 0") auto
    then have "card ?U' \<le> card ?U + 1" using card_mono [of "insert c ?U" ?U'] card_insert_le_m1 [of "card ?U + 1" ?U c] by simp
    moreover have "?z A' = ?z A" using True ind by auto
    ultimately show ?thesis by simp
  next
    case False
    have "?U' \<subseteq> insert c (insert (A' ! NDIRECT) ?U)" using W unfolding s' by auto
    then have "card ?U' \<le> card (insert c (insert (A' ! NDIRECT) ?U))" using card_mono [OF fin] by blast
    also have "\<dots> \<le> Suc (Suc (card ?U))" by (simp add: card_insert_if)
    finally show ?thesis using False ind by auto
  qed
  then show ?thesis using room unfolding room_for_def s'(3,4) by linarith
qed

lemma room_for_fresh:
  assumes st: "fstep W H s s'" and W: "W \<subseteq> bmb (fsb s) \<union> {I}" and I: "A ! NDIRECT = 0" "A' ! NDIRECT = I" "I \<noteq> 0" and room: "room_for k s A"
  shows "room_for k s' A'"
proof -
  let ?U = "lgd s \<union> bmb (fsb s)" and ?U' = "lgd s' \<union> bmb (fsb s') \<union> ({A' ! NDIRECT} - {0})"
  have s': "fsb s' = fsb s" "lgd s' = lgd s \<union> W" "outstanding (lg (fl s')) = outstanding (lg (fl s))"
    "log_size (lg (fl s')) = log_size (lg (fl s))" using st by (simp_all add: fstep_def)
  have "?U' \<subseteq> insert I ?U" using W I unfolding s' by auto
  then have "card ?U' \<le> card (insert I ?U)" by (rule card_mono [rotated]) simp
  also have "\<dots> \<le> Suc (card ?U)" by (simp add: card_insert_if)
  finally show ?thesis using room I unfolding room_for_def s'(3,4) by simp
qed

section \<open>\<open>bmap\<close>\<close>

lemma bmap_hit:
  assumes abs: "fs_abs pid s vw {}" and sp: "card (lgd s) < NBUF" and dev: "i_dev (itable s ip) = ROOTDEV"
    and bn: "bn < MAXFILE" "blk vw (addrs_of s ip) bn \<noteq> 0"
  shows "\<exists>s'. bmap pid ip bn s = Ret (blk vw (addrs_of s ip) bn, s') \<and> fs_abs pid s' vw {} \<and> fstep {} {} s s'"
proof (cases "bn < NDIRECT")
  case True
  then show ?thesis using bn(2) abs by (intro exI [of _ s]) (simp add: bmap_def bmap_slot_def blk_def)
next
  case False
  let ?I = "addrs_of s ip ! NDIRECT"
  have I: "?I \<noteq> 0" "blk vw (addrs_of s ip) bn = get32 (4 * (bn - NDIRECT)) (vw ?I)" "bn - NDIRECT < NINDIRECT"
    using False bn by (auto simp: blk_def MAXFILE_def)
  obtain i s1 s2 where r: "bread_f pid ROOTDEV ?I s = Ret (i, s1)" "data_f i s1 = vw ?I" "brelse_f pid i s1 = Ret s2"
      "fs_abs pid s2 vw {}" "fstep {} {} s s2"
    using read_block [OF abs, of ?I] sp by auto
  have "bmap pid ip bn s = Ret (blk vw (addrs_of s ip) bn, s2)"
    using False I bn(2) r dev by (simp add: bmap_def bmap_slot_def Let_def)
  then show ?thesis using r by blast
qed

text \<open>
  The map \<open>A\<close> of a file has become \<open>A'\<close> in a step that logs \<open>W\<close>: the free map, the indirect block
  and a new data block \<open>c\<close>. Nothing that was in use has changed, except the indirect block.
\<close>

definition grows :: "fs \<Rightarrow> (u32 \<Rightarrow> block) \<Rightarrow> u32 list \<Rightarrow> (u32 \<Rightarrow> block) \<Rightarrow> u32 list \<Rightarrow> u32 set \<Rightarrow> u32 \<Rightarrow> bool" where
  "grows s vw A vw' A' W c \<longleftrightarrow> file_ok (fsb s) (area s) vw' A' \<and> W \<subseteq> bmb (fsb s) \<union> ({A' ! NDIRECT} - {0}) \<union> ({c} - {0}) \<and>
     (if A ! NDIRECT \<noteq> 0 then A' ! NDIRECT = A ! NDIRECT else A' ! NDIRECT = 0 \<or> \<not> used (fsb s) vw (unat (A' ! NDIRECT))) \<and>
     (\<forall>d. block_ok (fsb s) (area s) vw d \<longrightarrow> d \<noteq> A' ! NDIRECT \<longrightarrow> vw' d = vw d) \<and>
     (\<forall>m < unat (sb_size (fsb s)). used (fsb s) vw m \<longrightarrow> used (fsb s) vw' m)"

lemma grows_refl: "file_ok (fsb s) (area s) vw A \<Longrightarrow> grows s vw A vw A {} 0"
  by (simp add: grows_def)

lemma grows_trans:
  assumes g: "grows s vw A vw1 A1 W1 0" and g': "grows s1 vw1 A1 vw2 A2 W2 c" and s: "fsb s1 = fsb s" "area s1 = area s"
  shows "grows s vw A vw2 A2 (W1 \<union> W2) c"
proof -
  have m: "block_ok (fsb s) (area s) vw1 d" if "block_ok (fsb s) (area s) vw d" for d using g that by (auto simp: grows_def block_ok_def)
  have W1: "W1 \<subseteq> bmb (fsb s) \<union> ({A2 ! NDIRECT} - {0})" using g g' by (auto simp: grows_def split: if_splits)
  have "vw2 d = vw d" if d: "block_ok (fsb s) (area s) vw d" "d \<noteq> A2 ! NDIRECT" for d
  proof -
    have "d \<noteq> A1 ! NDIRECT"
    proof
      assume e: "d = A1 ! NDIRECT"
      then have "A1 ! NDIRECT = 0" using g' d(2) by (auto simp: grows_def split: if_splits)
      then show False using d(1) e by (auto simp: block_ok_def meta_def)
    qed
    then have "vw1 d = vw d" using g d(1) by (simp add: grows_def)
    moreover have "vw2 d = vw1 d" using g' m [OF d(1)] d(2) s by (simp add: grows_def)
    ultimately show ?thesis by simp
  qed
  moreover have "if A ! NDIRECT \<noteq> 0 then A2 ! NDIRECT = A ! NDIRECT else A2 ! NDIRECT = 0 \<or> \<not> used (fsb s) vw (unat (A2 ! NDIRECT))"
  proof -
    have "A2 ! NDIRECT \<noteq> 0 \<Longrightarrow> unat (A2 ! NDIRECT) < unat (sb_size (fsb s))"
      using file_okD(2) [of "fsb s" "area s" vw2 A2] g' s by (simp add: grows_def block_ok_def)
    then show ?thesis using g g' s unfolding grows_def by metis
  qed
  ultimately show ?thesis using g g' W1 s unfolding grows_def by auto
qed

lemma fstep_addrs:
  assumes "fstep W H (with_addrs s ip A) t"
  shows "fstep W H s (with_addrs t ip (addrs_of s ip))" "with_addrs (with_addrs t ip (addrs_of s ip)) ip A = t"
  using assms by (auto simp: fstep_def with_addrs_def upd_inode_def fun_eq_iff intro!: fs.equality)

text \<open>Taking a fresh block for \<open>addrs[k]\<close>.\<close>

definition slot_new :: "int \<Rightarrow> fs \<Rightarrow> (u32 \<Rightarrow> block) \<Rightarrow> nat \<Rightarrow> nat \<Rightarrow> (u32 \<times> fs) result \<Rightarrow> bool" where
  "slot_new pid s vw ip k r \<longleftrightarrow>
    (\<exists>n s'. n < unat (sb_size (fsb s)) \<and> \<not> used (fsb s) vw n \<and> (of_nat n :: u32) \<noteq> 0 \<and>
      r = Ret (of_nat n, with_addrs s' ip ((addrs_of s ip)[k := of_nat n])) \<and> fs_abs pid s' (allocated (fsb s) n vw) {} \<and>
      alloc_pre s' (allocated (fsb s) n vw) {} \<and> fstep {BBLOCK n (fsb s), of_nat n} {} s s') \<or>
    (\<exists>s'. (\<forall>m < unat (sb_size (fsb s)). used (fsb s) vw m) \<and> r = Ret (0, s') \<and> fs_abs pid s' vw {} \<and> alloc_pre s' vw {} \<and> fstep {} {} s s')"

lemma slot_spec:
  assumes abs: "fs_abs pid s vw {}" and pre: "alloc_pre s vw {}" and room: "fs_room 1 s" and dev: "i_dev (itable s ip) = ROOTDEV"
    and k: "addrs_of s ip ! k = 0"
  shows "slot_new pid s vw ip k (bmap_slot pid ip k s)"
  using balloc_spec [OF abs pre room]
proof (elim disjE exE conjE, goal_cases)
  case (1 n s')
  have "itable s' = itable s" using 1(9) by (simp add: fstep_def)
  then have "bmap_slot pid ip k s = Ret (of_nat n, with_addrs s' ip ((addrs_of s ip)[k := of_nat n]))"
    using k dev 1(5,6) by (simp add: bmap_slot_def set_addr_with)
  then show ?case unfolding slot_new_def using 1(1,2,5,7-9) by blast
next
  case (2 s')
  then have "bmap_slot pid ip k s = Ret (0, s')" using k dev by (simp add: bmap_slot_def)
  then show ?case unfolding slot_new_def using 2 by blast
qed

definition bmap_res :: "int \<Rightarrow> nat \<Rightarrow> nat \<Rightarrow> fs \<Rightarrow> (u32 \<Rightarrow> block) \<Rightarrow> (u32 \<times> fs) result \<Rightarrow> bool" where
  "bmap_res pid ip bn s vw r \<longleftrightarrow> (\<exists>addr s' vw' A' W. r = Ret (addr, with_addrs s' ip A') \<and> fs_abs pid s' vw' {} \<and> alloc_pre s' vw' {} \<and>
     fstep W {} s s' \<and> grows s vw (addrs_of s ip) vw' A' W addr \<and> blk vw' A' bn = addr \<and>
     (\<forall>k < MAXFILE. k \<noteq> bn \<longrightarrow> blk vw' A' k = blk vw (addrs_of s ip) k) \<and>
     (if blk vw (addrs_of s ip) bn \<noteq> 0 then addr = blk vw (addrs_of s ip) bn
      else addr \<noteq> 0 \<longrightarrow> vw' addr = replicate BSIZE 0 \<and> \<not> used (fsb s) vw (unat addr)) \<and>
     (addr = 0 \<longrightarrow> (\<forall>m < unat (sb_size (fsb s)). used (fsb s) vw' m)))"

lemma bmap_resI:
  assumes "r = Ret (addr, with_addrs s' ip A')" "fs_abs pid s' vw' {}" "alloc_pre s' vw' {}" "fstep W {} s s'"
    "grows s vw (addrs_of s ip) vw' A' W addr" "blk vw' A' bn = addr"
    "\<And>k. k < MAXFILE \<Longrightarrow> k \<noteq> bn \<Longrightarrow> blk vw' A' k = blk vw (addrs_of s ip) k"
    "blk vw (addrs_of s ip) bn \<noteq> 0 \<Longrightarrow> addr = blk vw (addrs_of s ip) bn"
    "blk vw (addrs_of s ip) bn = 0 \<Longrightarrow> addr \<noteq> 0 \<Longrightarrow> vw' addr = replicate BSIZE 0 \<and> \<not> used (fsb s) vw (unat addr)"
    "\<And>m. addr = 0 \<Longrightarrow> m < unat (sb_size (fsb s)) \<Longrightarrow> used (fsb s) vw' m"
  shows "bmap_res pid ip bn s vw r"
  unfolding bmap_res_def
  by (intro exI [of _ addr] exI [of _ s'] exI [of _ vw'] exI [of _ A'] exI [of _ W] conjI) (use assms in simp_all)

lemma bmap_resE:
  assumes "bmap_res pid ip bn s vw r"
  obtains addr s' vw' A' W where "r = Ret (addr, with_addrs s' ip A')" "fs_abs pid s' vw' {}" "alloc_pre s' vw' {}" "fstep W {} s s'"
    "grows s vw (addrs_of s ip) vw' A' W addr" "blk vw' A' bn = addr"
    "\<And>k. k < MAXFILE \<Longrightarrow> k \<noteq> bn \<Longrightarrow> blk vw' A' k = blk vw (addrs_of s ip) k"
    "blk vw (addrs_of s ip) bn \<noteq> 0 \<Longrightarrow> addr = blk vw (addrs_of s ip) bn"
    "blk vw (addrs_of s ip) bn = 0 \<Longrightarrow> addr \<noteq> 0 \<Longrightarrow> vw' addr = replicate BSIZE 0 \<and> \<not> used (fsb s) vw (unat addr)"
    "\<And>m. addr = 0 \<Longrightarrow> m < unat (sb_size (fsb s)) \<Longrightarrow> used (fsb s) vw' m"
proof -
  obtain addr s' vw' A' W where r: "r = Ret (addr, with_addrs s' ip A')" "fs_abs pid s' vw' {}" "alloc_pre s' vw' {}" "fstep W {} s s'"
      "grows s vw (addrs_of s ip) vw' A' W addr" "blk vw' A' bn = addr"
      "\<forall>k < MAXFILE. k \<noteq> bn \<longrightarrow> blk vw' A' k = blk vw (addrs_of s ip) k"
      "if blk vw (addrs_of s ip) bn \<noteq> 0 then addr = blk vw (addrs_of s ip) bn
       else addr \<noteq> 0 \<longrightarrow> vw' addr = replicate BSIZE 0 \<and> \<not> used (fsb s) vw (unat addr)"
      "addr = 0 \<longrightarrow> (\<forall>m < unat (sb_size (fsb s)). used (fsb s) vw' m)"
    using assms unfolding bmap_res_def by blast
  show thesis by (rule that [OF r(1-6)]) (use r(7-9) in simp_all)
qed

lemma bmap_res_full:
  assumes "fs_abs pid s' vw {}" "alloc_pre s' vw {}" "fstep {} {} s s'" "file_ok (fsb s) (area s) vw (addrs_of s ip)"
    "blk vw (addrs_of s ip) bn = 0" "\<forall>m < unat (sb_size (fsb s)). used (fsb s) vw m"
  shows "bmap_res pid ip bn s vw (Ret (0, s'))"
proof -
  have "with_addrs s' ip (addrs_of s ip) = s'" using assms(3) with_addrs_simps(5) [of s' ip] by (simp add: fstep_def)
  then show ?thesis unfolding bmap_res_def using assms grows_refl [OF assms(4)]
    by (intro exI [of _ 0] exI [of _ s'] exI [of _ vw] exI [of _ "addrs_of s ip"] exI [of _ "{}"]) simp
qed

lemma ND_lt: "NDIRECT < MAXFILE" "bn < NDIRECT \<Longrightarrow> bn < MAXFILE"
  by (simp_all add: NDIRECT_def MAXFILE_def NINDIRECT_def BSIZE_def)

text \<open>A fresh block for a direct address.\<close>

lemma direct_grows:
  assumes pre: "alloc_pre s vw H" and ok: "file_ok (fsb s) (area s) vw A" and k: "k < NDIRECT" "A ! k = 0"
    and n: "n < unat (sb_size (fsb s))" "\<not> used (fsb s) vw n" "(of_nat n :: u32) \<noteq> 0" and len: "\<And>b. length (vw b) = BSIZE"
  defines "vw' \<equiv> allocated (fsb s) n vw" and "A' \<equiv> A[k := of_nat n]"
  shows "grows s vw A vw' A' {BBLOCK n (fsb s), of_nat n} (of_nat n)" "\<And>j. j < MAXFILE \<Longrightarrow> blk vw' A' j = (if j = k then of_nat n else blk vw A j)"
proof -
  note al = allocated_block [OF pre n(1,2) len, folded vw'_def]
  have A: "length A = NDIRECT + 1" by (rule file_okD(1) [OF ok])
  then have ND: "A' ! NDIRECT = A ! NDIRECT" "length A' = NDIRECT + 1" using k by (simp_all add: A'_def)
  show b: "blk vw' A' j = (if j = k then of_nat n else blk vw A j)" for j
  proof (cases "j < NDIRECT")
    case True
    then show ?thesis using k A by (simp add: blk_def A'_def nth_list_update)
  next
    case False
    then show ?thesis using k al(5) [OF file_okD(2) [OF ok]] by (auto simp: blk_def ND)
  qed
  have us: "used (fsb s) vw m \<Longrightarrow> used (fsb s) vw' m" if "m < unat (sb_size (fsb s))" for m by (rule al(4) [OF that])
  have m: "block_ok (fsb s) (area s) vw a \<Longrightarrow> block_ok (fsb s) (area s) vw' a" for a using us by (auto simp: block_ok_def)
  have "file_ok (fsb s) (area s) vw' A'"
    by (rule file_ok_extend [OF ok al(1) n(3) al(2) _ ND(2) _ _ us b]) (use k ND_lt(2) ND(1) al(5) m file_okD(2) [OF ok] in auto)
  then show "grows s vw A vw' A' {BBLOCK n (fsb s), of_nat n} (of_nat n)"
    unfolding grows_def using al(4,5) n ND by (auto simp: bmb_def)
qed

text \<open>A fresh indirect block, still empty.\<close>

lemma get32_zero: "off + 4 \<le> BSIZE \<Longrightarrow> get32 off (replicate BSIZE 0) = 0"
  by (simp add: get32_def get_bytes_def min_def numeral_eq_Suc)

lemma indirect_grows:
  assumes pre: "alloc_pre s vw H" and ok: "file_ok (fsb s) (area s) vw A" and k: "A ! NDIRECT = 0"
    and n: "n < unat (sb_size (fsb s))" "\<not> used (fsb s) vw n" "(of_nat n :: u32) \<noteq> 0" and len: "\<And>b. length (vw b) = BSIZE"
  defines "vw' \<equiv> allocated (fsb s) n vw" and "A' \<equiv> A[NDIRECT := of_nat n]"
  shows "grows s vw A vw' A' {BBLOCK n (fsb s), of_nat n} 0" "\<And>j. j < MAXFILE \<Longrightarrow> blk vw' A' j = blk vw A j"
proof -
  note al = allocated_block [OF pre n(1,2) len, folded vw'_def]
  have A: "length A = NDIRECT + 1" by (rule file_okD(1) [OF ok])
  then have ND: "A' ! NDIRECT = of_nat n" "length A' = NDIRECT + 1" by (simp_all add: A'_def)
  show b: "blk vw' A' j = blk vw A j" if "j < MAXFILE" for j
  proof (cases "j < NDIRECT")
    case False
    have "get32 (4 * (j - NDIRECT)) (vw' (of_nat n)) = 0"
      using that False get32_zero [of "4 * (j - NDIRECT)"] al(6) by (simp add: MAXFILE_def NINDIRECT_def BSIZE_def NDIRECT_def)
    then show ?thesis using False k by (simp add: blk_def ND)
  qed (simp add: blk_def A'_def)
  have us: "used (fsb s) vw m \<Longrightarrow> used (fsb s) vw' m" if "m < unat (sb_size (fsb s))" for m by (rule al(4) [OF that])
  have m: "block_ok (fsb s) (area s) vw a \<Longrightarrow> block_ok (fsb s) (area s) vw' a" for a using us by (auto simp: block_ok_def)
  have 1: "block_ok (fsb s) (area s) vw' (blk vw' A' j) \<and> blk vw' A' j \<noteq> A' ! NDIRECT" if j: "j < MAXFILE" "blk vw' A' j \<noteq> 0" for j
    using al(5) [OF file_okD(3) [OF ok j(1)]] m [OF file_okD(3) [OF ok j(1)]] b [OF j(1)] j(2) ND by simp
  have 2: "i = j" if j: "i < MAXFILE" "j < MAXFILE" "blk vw' A' i \<noteq> 0" "blk vw' A' i = blk vw' A' j" for i j
    by (rule file_okD(5) [OF ok j(1,2)]) (use j b [OF j(1)] b [OF j(2)] in simp_all)
  have "file_ok (fsb s) (area s) vw' A'"
    unfolding file_ok_def using ND al(1) 1 2 by auto
  then show "grows s vw A vw' A' {BBLOCK n (fsb s), of_nat n} 0"
    unfolding grows_def using al(2,4,5) n ND k by (auto simp: bmb_def)
qed

text \<open>A fresh block for an entry of the indirect block.\<close>

lemma entry_grows:
  assumes pre: "alloc_pre s vw H" and ok: "file_ok (fsb s) (area s) vw A" and I: "A ! NDIRECT \<noteq> 0"
    and k: "NDIRECT \<le> k" "k < MAXFILE" "blk vw A k = 0"
    and n: "n < unat (sb_size (fsb s))" "\<not> used (fsb s) vw n" "(of_nat n :: u32) \<noteq> 0" and len: "\<And>b. length (vw b) = BSIZE"
  defines "vw1 \<equiv> allocated (fsb s) n vw"
  defines "vw' \<equiv> vw1(A ! NDIRECT := put32 (4 * (k - NDIRECT)) (of_nat n) (vw1 (A ! NDIRECT)))"
  shows "grows s vw A vw' A {BBLOCK n (fsb s), of_nat n, A ! NDIRECT} (of_nat n)"
    "\<And>j. j < MAXFILE \<Longrightarrow> blk vw' A j = (if j = k then of_nat n else blk vw A j)" "vw' (of_nat n) = replicate BSIZE 0"
    "\<And>m. m < unat (sb_size (fsb s)) \<Longrightarrow> used (fsb s) vw' m = used (fsb s) vw1 m"
proof -
  let ?I = "A ! NDIRECT"
  note al = allocated_block [OF pre n(1,2) len, folded vw1_def] and okI = file_okD(2) [OF ok I]
  have I1: "vw1 ?I = vw ?I" "?I \<noteq> of_nat n" using al(5) [OF okI] by simp_all
  have lenI: "length (vw1 ?I) = BSIZE" using I1 len by simp
  show us': "used (fsb s) vw' m = used (fsb s) vw1 m" if "m < unat (sb_size (fsb s))" for m
    unfolding vw'_def by (rule used_data [OF okI that])
  show b: "blk vw' A j = (if j = k then of_nat n else blk vw A j)" if "j < MAXFILE" for j
  proof (cases "j < NDIRECT")
    case False
    have "4 * (j - NDIRECT) + 4 \<le> BSIZE" "4 * (k - NDIRECT) + 4 \<le> BSIZE"
      using that k by (auto simp: MAXFILE_def NINDIRECT_def BSIZE_def)
    moreover have "j \<noteq> k \<Longrightarrow> 4 * (j - NDIRECT) + 4 \<le> 4 * (k - NDIRECT) \<or> 4 * (k - NDIRECT) + 4 \<le> 4 * (j - NDIRECT)"
      using False k by auto
    ultimately show ?thesis using False k I I1 lenI get32_put32_other [of "4 * (k - NDIRECT)" "vw1 ?I" "4 * (j - NDIRECT)"]
      by (auto simp: blk_def vw'_def)
  qed (use k in \<open>simp add: blk_def\<close>)
  have us: "used (fsb s) vw m \<Longrightarrow> used (fsb s) vw' m" if "m < unat (sb_size (fsb s))" for m using al(4) [OF that] us' [OF that] by simp
  have m: "block_ok (fsb s) (area s) vw a \<Longrightarrow> block_ok (fsb s) (area s) vw' a" for a using us by (auto simp: block_ok_def)
  have n': "block_ok (fsb s) (area s) vw' (of_nat n)" using al(1) us' al(3) n(1) by (auto simp: block_ok_def)
  have "file_ok (fsb s) (area s) vw' A"
    by (rule file_ok_extend [OF ok n' n(3) al(2) k(2) file_okD(1) [OF ok] _ _ us b]) (use m [OF okI] I1 in auto)
  moreover have "vw' d = vw d" if "block_ok (fsb s) (area s) vw d" "d \<noteq> ?I" for d using al(5) [OF that(1)] that(2) by (simp add: vw'_def)
  ultimately show "grows s vw A vw' A {BBLOCK n (fsb s), of_nat n, A ! NDIRECT} (of_nat n)"
    unfolding grows_def using us n I by (auto simp: bmb_def)
  show "vw' (of_nat n) = replicate BSIZE 0" using al(6) I1 by (simp add: vw'_def)
qed

lemma fstep_same:
  assumes "fstep W H s s'" shows "itable s' = itable s" "fsb s' = fsb s" "area s' = area s"
  using assms fstep_area [OF assms] by (simp_all add: fstep_def)

lemma alloc_pre_hold: "alloc_pre s vw {} \<Longrightarrow> block_ok (fsb s) (area s) vw I \<Longrightarrow> alloc_pre s vw {I}"
  using of_nat_block [of "fsb s"] fs_geom_size by (auto simp: alloc_pre_def block_ok_def)

lemma alloc_pre_used:
  "alloc_pre s vw H \<Longrightarrow> (\<And>m. m < unat (sb_size (fsb s)) \<Longrightarrow> used (fsb s) vw' m = used (fsb s) vw m) \<Longrightarrow> alloc_pre s vw' H"
  by (simp add: alloc_pre_def free_ok_def)

lemma alloc_pre_unhold: "alloc_pre s vw H \<Longrightarrow> alloc_pre s vw {}"
  by (simp add: alloc_pre_def)

lemma bmap_entry:
  assumes abs: "fs_abs pid s vw {}" and pre: "alloc_pre s vw {}" and room: "room_for 1 s (addrs_of s ip)" and dev: "i_dev (itable s ip) = ROOTDEV"
    and ok: "file_ok (fsb s) (area s) vw (addrs_of s ip)" and I: "addrs_of s ip ! NDIRECT \<noteq> 0"
    and k: "NDIRECT \<le> bn" "bn < MAXFILE" "blk vw (addrs_of s ip) bn = 0"
  shows "bmap_res pid ip bn s vw (bmap pid ip bn s)"
proof -
  let ?A = "addrs_of s ip" let ?I = "?A ! NDIRECT" and ?o = "4 * (bn - NDIRECT)"
  have bn: "\<not> bn < NDIRECT" "bn - NDIRECT < NINDIRECT" "get32 ?o (vw ?I) = 0" using k I by (auto simp: MAXFILE_def blk_def)
  note okI = file_okD(2) [OF ok I] and r1 = room_for_room [OF room]
  obtain i s1 s2 where s1: "bread_f pid ROOTDEV ?I s = Ret (i, s1)" "data_f i s1 = vw ?I" "fstep {} {} s s1" "fs_abs pid s1 vw {?I}"
      "buf_for (bc (fl s1)) i ?I"
    using read_block [OF abs, of ?I] spare [OF abs r1] by auto
  note it = fstep_same [OF s1(3)]
  have pre1: "alloc_pre s1 vw {?I}" using alloc_pre_hold [OF pre okI] fstep_pre [OF s1(3)] by simp
  have room1: "fs_room 1 s1" using fstep_room [OF s1(3), of 0 1] r1 by simp
  from balloc_spec [OF s1(4) pre1 room1] show ?thesis
  proof (elim disjE exE conjE, goal_cases)
    case (1 n s2)
    note n = 1(1,2,5) [unfolded it] and g = entry_grows [OF pre ok I k 1(1,2,5) [unfolded it] vw_len [OF abs]]
    let ?vw1 = "allocated (fsb s) n vw" and ?n = "of_nat n :: u32"
    let ?d = "put32 ?o ?n (?vw1 ?I)"
    have st2: "fstep {BBLOCK n (fsb s), ?n} {?I} s1 s2" using 1(9) it by simp
    have buf2: "buf_for (bc (fl s2)) i ?I" using st2 s1(5) by (simp add: fstep_def held_same_def)
    have d2: "data_f i s2 = ?vw1 ?I" using held_valid [OF log_invD(6) _ buf2] 1(7) it by (simp add: fs_abs_def data_f_def data_l_def)
    have "room_for 0 s2 ?A" using room_for_step [OF fstep_trans [OF s1(3) fstep_mono [OF st2]], of ?A ?n ?A 0] room n by (auto simp: bmb_def)
    then have "fs_room 0 s2" by (rule room_for_room)
    moreover have "length ?d = BSIZE" using bn(2) vw_len [OF 1(7)] it by (simp add: NINDIRECT_def BSIZE_def)
    moreover have "?I \<notin> area s2" using okI fstep_area [OF st2] it by (simp add: block_ok_def)
    ultimately obtain s3 where s3: "log_write_f i (store_f i ?d s2) = Ret s3" "fs_abs pid s3 (?vw1(?I := ?d)) {?I}" "fstep {?I} {?I} s2 s3"
      using log_write_f_spec [OF 1(7) _ buf2, of ?d] it by auto
    have "buf_for (bc (fl s3)) i ?I" "?I \<in> lgd s3" using s3(3) buf2 by (auto simp: fstep_def held_same_def)
    then obtain s4 where s4: "brelse_f pid i s3 = Ret s4" "fs_abs pid s4 (?vw1(?I := ?d)) {}" "fstep {} {} s3 s4"
      using brelse_f_spec [OF s3(2)] by auto
    have "bmap pid ip bn s = Ret (?n, s4)" using bn I s1 1(6) d2 s3(1) s4(1) n(3) dev it by (simp add: bmap_def bmap_slot_def Let_def)
    moreover have st: "fstep {BBLOCK n (fsb s), ?n, ?I} {} s s4"
      using fstep_trans [OF fstep_trans [OF s1(3) fstep_mono [OF st2]] fstep_trans [OF fstep_mono [OF s3(3)] s4(3)]] by (simp add: insert_commute)
    moreover have "alloc_pre s4 (?vw1(?I := ?d)) {}"
      using alloc_pre_used [OF alloc_pre_allocated [OF pre n(1,2) vw_len [OF abs]] g(4)] fstep_pre [OF st] by simp
    moreover have "with_addrs s4 ip ?A = s4" using st with_addrs_simps(5) [of s4 ip] by (simp add: fstep_def)
    ultimately show ?case
      by (intro bmap_resI [OF _ s4(2) _ st g(1)]) (use g(2,3) k n(3) allocated_block(2) [OF pre n(1,2) vw_len [OF abs]] in simp_all)
  next
    case (2 s2)
    have buf2: "buf_for (bc (fl s2)) i ?I" using 2(5) s1(5) by (simp add: fstep_def held_same_def)
    have "?I \<in> lgd s \<or> vw ?I = disk (bc (fl s)) ?I" using bio_absD(10) [OF log_invD(6), of pid "fl s" vw "{}" ?I] abs by (auto simp: fs_abs_def)
    then have "?I \<in> lgd s2 \<or> vw ?I = disk (bc (fl s2)) ?I" using 2(5) s1(3) by (simp add: fstep_def)
    then obtain s3 where s3: "brelse_f pid i s2 = Ret s3" "fs_abs pid s3 vw {}" "fstep {} {} s2 s3"
      using brelse_f_spec [OF 2(3) _ buf2] by auto
    have "bmap pid ip bn s = Ret (0, s3)" using bn I s1 2(2) s3(1) dev it by (simp add: bmap_def bmap_slot_def Let_def)
    moreover have st: "fstep {} {} s s3" using fstep_trans [OF fstep_trans [OF s1(3) fstep_mono [OF 2(5)]] s3(3)] by simp
    moreover have "alloc_pre s3 vw {}" using pre fstep_pre [OF st] by simp
    ultimately show ?case using bmap_res_full [OF s3(2) _ st ok k(3)] 2(1) it by simp
  qed
qed

lemma bmap_indirect:
  assumes abs: "fs_abs pid s vw {}" and pre: "alloc_pre s vw {}" and room: "room_for 1 s (addrs_of s ip)" and dev: "i_dev (itable s ip) = ROOTDEV"
    and ok: "file_ok (fsb s) (area s) vw (addrs_of s ip)" and I: "addrs_of s ip ! NDIRECT = 0" and k: "NDIRECT \<le> bn" "bn < MAXFILE"
  shows "bmap_res pid ip bn s vw (bmap pid ip bn s)"
proof -
  let ?A = "addrs_of s ip"
  have bn: "\<not> bn < NDIRECT" "bn - NDIRECT < NINDIRECT" "blk vw ?A bn = 0" using k I by (auto simp: MAXFILE_def blk_def)
  from slot_spec [OF abs pre room_for_room [OF room] dev I] show ?thesis unfolding slot_new_def
  proof (elim disjE exE conjE, goal_cases)
    case (1 n s1)
    let ?vw1 = "allocated (fsb s) n vw" and ?A1 = "?A[NDIRECT := of_nat n]"
    let ?t = "with_addrs s1 ip ?A1"
    note g = indirect_grows [OF pre ok I 1(1-3) vw_len [OF abs]] and it = fstep_same [OF 1(7)]
    have A1: "?A1 ! NDIRECT = of_nat n" using file_okD(1) [OF ok] by simp
    have t: "bmap pid ip bn s = bmap pid ip bn ?t" "i_dev (itable ?t ip) = ROOTDEV"
      using bn 1(3,4) A1 dev it by (simp_all add: bmap_def [of pid ip bn] bmap_slot_def [of pid ip NDIRECT ?t] Let_def)
    have ok1: "file_ok (fsb ?t) (area ?t) ?vw1 (addrs_of ?t ip)" using g(1) it by (simp add: grows_def)
    have "room_for 1 s1 ?A1"
      using room_for_fresh [OF 1(7) _ I A1 1(3), of 1] room 1(1) by (auto simp: bmb_def)
    then have "bmap_res pid ip bn ?t ?vw1 (bmap pid ip bn ?t)"
      using bmap_entry [of pid ?t ?vw1 ip bn] 1(3,5,6) t(2) ok1 A1 k g(2) [OF k(2)] bn(3) by (simp add: room_for_def)
    then obtain addr s' vw' A' W where r: "bmap pid ip bn ?t = Ret (addr, with_addrs s' ip A')" "fs_abs pid s' vw' {}" "alloc_pre s' vw' {}"
      "fstep W {} ?t s'" "grows ?t ?vw1 (addrs_of ?t ip) vw' A' W addr" "blk vw' A' bn = addr"
      "\<And>k. k < MAXFILE \<Longrightarrow> k \<noteq> bn \<Longrightarrow> blk vw' A' k = blk ?vw1 (addrs_of ?t ip) k"
      "blk ?vw1 (addrs_of ?t ip) bn = 0 \<Longrightarrow> addr \<noteq> 0 \<Longrightarrow> vw' addr = replicate BSIZE 0 \<and> \<not> used (fsb ?t) ?vw1 (unat addr)"
      "\<And>m. addr = 0 \<Longrightarrow> m < unat (sb_size (fsb ?t)) \<Longrightarrow> used (fsb ?t) vw' m" by (rule bmap_resE) metis
    note st = fstep_addrs [OF r(4)]
    let ?s' = "with_addrs s' ip (addrs_of s1 ip)"
    have z: "blk ?vw1 (addrs_of ?t ip) bn = 0" using bn(3) g(2) [OF k(2)] by simp
    have "unat addr < unat (sb_size (fsb s))" if "addr \<noteq> 0"
      using file_okD(3) [of "fsb s" "area s" vw' A' bn] r(5,6) that k it by (simp add: grows_def block_ok_def)
    then have fresh: "vw' addr = replicate BSIZE 0 \<and> \<not> used (fsb s) vw (unat addr)" if "addr \<noteq> 0"
      using r(8) [OF z that] that allocated_block(4) [OF pre 1(1,2) vw_len [OF abs]] it by auto
    have gt: "grows ?t ?vw1 ?A1 vw' A' W addr" using r(5) by simp
    show ?case
      by (rule bmap_resI [OF _ _ _ fstep_trans [OF 1(7) st(1)] grows_trans [OF g(1) gt]])
        (use r(1-3,6,7,9) it t(1) g(2) bn(3) fresh in simp_all)
  next
    case (2 s1)
    then have "bmap pid ip bn s = Ret (0, s1)" using bn by (simp add: bmap_def)
    then show ?case using bmap_res_full [OF 2(3,4,5) ok bn(3) 2(1)] by simp
  qed
qed

lemma bmap_direct:
  assumes abs: "fs_abs pid s vw {}" and pre: "alloc_pre s vw {}" and room: "room_for 1 s (addrs_of s ip)" and dev: "i_dev (itable s ip) = ROOTDEV"
    and ok: "file_ok (fsb s) (area s) vw (addrs_of s ip)" and k: "bn < NDIRECT" "blk vw (addrs_of s ip) bn = 0"
  shows "bmap_res pid ip bn s vw (bmap pid ip bn s)"
proof -
  have z: "addrs_of s ip ! bn = 0" using k by (simp add: blk_def)
  have e: "bmap pid ip bn s = bmap_slot pid ip bn s" using k by (simp add: bmap_def)
  from slot_spec [OF abs pre room_for_room [OF room] dev z] show ?thesis unfolding slot_new_def
  proof (elim disjE exE conjE, goal_cases)
    case (1 n s1)
    note g = direct_grows [OF pre ok k(1) z 1(1-3) vw_len [OF abs]] and al = allocated_block [OF pre 1(1,2) vw_len [OF abs]]
    show ?case
      by (rule bmap_resI [OF _ 1(5-7) g(1)]) (use 1(3,4) e g(2) [OF ND_lt(2) [OF k(1)]] g(2) k(2) al(2,6) in simp_all)
  next
    case (2 s1)
    then show ?case using bmap_res_full [OF 2(3,4,5) ok k(2) 2(1)] e by simp
  qed
qed

lemma bmap_spec:
  assumes abs: "fs_abs pid s vw {}" and pre: "alloc_pre s vw {}" and room: "room_for 1 s (addrs_of s ip)" and dev: "i_dev (itable s ip) = ROOTDEV"
    and ok: "file_ok (fsb s) (area s) vw (addrs_of s ip)" and bn: "bn < MAXFILE"
  shows "bmap_res pid ip bn s vw (bmap pid ip bn s)"
proof (cases "blk vw (addrs_of s ip) bn = 0")
  case True
  consider "bn < NDIRECT" | "NDIRECT \<le> bn" "addrs_of s ip ! NDIRECT = 0" | "NDIRECT \<le> bn" "addrs_of s ip ! NDIRECT \<noteq> 0" by linarith
  then show ?thesis
    using bmap_direct [OF abs pre room dev ok _ True] bmap_indirect [OF abs pre room dev ok _ _ bn] bmap_entry [OF abs pre room dev ok _ _ bn True]
    by cases
next
  case False
  have "card (lgd s) < NBUF" using spare [OF abs room_for_room [OF room]] by simp
  then obtain s' where s': "bmap pid ip bn s = Ret (blk vw (addrs_of s ip) bn, s')" "fs_abs pid s' vw {}" "fstep {} {} s s'"
    using bmap_hit [OF abs _ dev bn False] by blast
  have g: "grows s vw (addrs_of s ip) vw (addrs_of s ip) {} (blk vw (addrs_of s ip) bn)" using ok by (simp add: grows_def)
  show ?thesis
    by (rule bmap_resI [OF _ s'(2) _ s'(3) g])
      (use s' pre fstep_pre [OF s'(3)] with_addrs_simps(5) [of s' ip] fstep_same(1) [OF s'(3)] False in simp_all)
qed

section \<open>The bytes of a file\<close>

definition fbyte :: "(u32 \<Rightarrow> block) \<Rightarrow> u32 list \<Rightarrow> nat \<Rightarrow> u8" where
  "fbyte vw A i = vw (blk vw A (i div BSIZE)) ! (i mod BSIZE)"

definition contents :: "(u32 \<Rightarrow> block) \<Rightarrow> inode \<Rightarrow> u8 list" where
  "contents vw x = map (fbyte vw (i_addrs x)) [0..<unat (i_size x)]"

text \<open>Every block below the size is there: a file has no holes.\<close>

definition no_holes :: "(u32 \<Rightarrow> block) \<Rightarrow> u32 list \<Rightarrow> nat \<Rightarrow> bool" where
  "no_holes vw A sz \<longleftrightarrow> sz \<le> MAXFILE * BSIZE \<and> (\<forall>k. k * BSIZE < sz \<longrightarrow> blk vw A k \<noteq> 0)"

text \<open>
  What \<open>readi\<close> relies on to copy out: consecutive pieces of the region of \<open>n\<close> bytes at \<open>dst\<close> are
  written one after the other.
\<close>

definition copies_out :: "(u64 \<Rightarrow> u8 list \<Rightarrow> 'm \<Rightarrow> (int \<times> 'm) result) \<Rightarrow> (u64 \<Rightarrow> u8 list \<Rightarrow> 'm \<Rightarrow> 'm) \<Rightarrow> u64 \<Rightarrow> nat \<Rightarrow> ('m \<Rightarrow> bool) \<Rightarrow> bool" where
  "copies_out out wr dst n P \<longleftrightarrow>
     (\<forall>i bs m. P m \<longrightarrow> i + length bs \<le> n \<longrightarrow> out (dst + of_nat i) bs m = Ret (0, wr (dst + of_nat i) bs m) \<and> P (wr (dst + of_nat i) bs m)) \<and>
     (\<forall>m. P m \<longrightarrow> wr (dst + of_nat n) [] m = m) \<and>
     (\<forall>i bs cs m. P m \<longrightarrow> i + length bs + length cs \<le> n \<longrightarrow>
        wr (dst + of_nat (i + length bs)) cs (wr (dst + of_nat i) bs m) = wr (dst + of_nat i) (bs @ cs) m)"

lemma in_block:
  assumes "off mod BSIZE + i < BSIZE"
  shows "(off + i) div BSIZE = off div BSIZE" "(off + i) mod BSIZE = off mod BSIZE + i"
proof -
  have e: "off = BSIZE * (off div BSIZE) + off mod BSIZE" by simp
  show d: "(off + i) div BSIZE = off div BSIZE"
  proof (rule div_nat_eqI)
    show "BSIZE * (off div BSIZE) \<le> off + i" using e by linarith
    show "off + i < BSIZE * Suc (off div BSIZE)" using e assms unfolding mult_Suc_right by linarith
  qed
  have "off + i = BSIZE * (off div BSIZE) + (off + i) mod BSIZE" using mult_div_mod_eq [of BSIZE "off + i"] unfolding d by simp
  then show "(off + i) mod BSIZE = off mod BSIZE + i" using e by linarith
qed

lemma chunk_bytes:
  assumes "off mod BSIZE + k \<le> BSIZE" "\<And>b. length (vw b) = BSIZE"
  shows "get_bytes (off mod BSIZE) k (vw (blk vw A (off div BSIZE))) = map (fbyte vw A) [off..<off + k]"
  using assms in_block by (intro nth_equalityI) (simp_all add: nth_get_bytes fbyte_def)

lemma copies_outD:
  assumes "copies_out out wr dst n P" "P m" "i + length bs \<le> n"
  shows "out (dst + of_nat i) bs m = Ret (0, wr (dst + of_nat i) bs m)" "P (wr (dst + of_nat i) bs m)"
    "i + length bs + length cs \<le> n \<Longrightarrow> wr (dst + of_nat (i + length bs)) cs (wr (dst + of_nat i) bs m) = wr (dst + of_nat i) (bs @ cs) m"
  using assms unfolding copies_out_def by blast+

lemma readi_loop_spec:
  assumes abs: "fs_abs pid s vw {}" and sp: "card (lgd s) < NBUF" and dev: "i_dev (itable s ip) = ROOTDEV"
    and nh: "no_holes vw (addrs_of s ip) sz" and le: "unat off + (unat n - unat tot) \<le> sz" "tot \<le> n"
    and out: "copies_out out wr dst (unat n) P" "P m"
  shows "\<exists>s'. readi_loop out pid ip n tot off (dst + of_nat (unat tot)) s m =
      Ret (sint n, s', wr (dst + of_nat (unat tot)) (map (fbyte vw (addrs_of s ip)) [unat off..<unat off + (unat n - unat tot)]) m) \<and>
    fs_abs pid s' vw {} \<and> fstep {} {} s s'"
  using assms
proof (induction "unat n - unat tot" arbitrary: tot off s m rule: less_induct)
  case less
  show ?case
  proof (cases "tot < n")
    case False
    then have "tot = n" using less.prems(6) by simp
    then show ?thesis using less.prems(1,7,8) by (subst readi_loop.simps) (auto simp: copies_out_def)
  next
    case True
    let ?A = "addrs_of s ip" and ?bn = "unat off div BSIZE"
    define k where "k = chunk_len n tot off"
    note kb = chunk_len_bounds [OF True, of off, folded k_def]
    have lt: "unat tot < unat n" using True by (simp add: word_less_nat_alt)
    have bn: "?bn * BSIZE < sz" using less.prems(5) lt div_times_less_eq_dividend [of "unat off" BSIZE] by linarith
    then have "?bn * BSIZE < MAXFILE * BSIZE" using nh unfolding no_holes_def by linarith
    then have bnm: "?bn < MAXFILE" by simp
    have nz: "blk vw ?A ?bn \<noteq> 0" using less.prems(4) bn by (simp add: no_holes_def)
    obtain s1 where s1: "bmap pid ip ?bn s = Ret (blk vw ?A ?bn, s1)" "fs_abs pid s1 vw {}" "fstep {} {} s s1"
      using bmap_hit [OF less.prems(1-3) bnm nz] by blast
    have sp1: "card (lgd s1 \<union> {}) < NBUF" using s1(3) less.prems(2) by (simp add: fstep_def)
    obtain i s2 s3 where r: "bread_f pid ROOTDEV (blk vw ?A ?bn) s1 = Ret (i, s2)" "data_f i s2 = vw (blk vw ?A ?bn)" "brelse_f pid i s2 = Ret s3"
        "fs_abs pid s3 vw {}" "fstep {} {} s1 s3"
      using read_block [OF s1(2) _ sp1] by blast
    let ?bs = "map (fbyte vw ?A) [unat off..<unat off + unat k]"
    let ?cs = "map (fbyte vw ?A) [unat off + unat k..<unat off + (unat n - unat tot)]"
    let ?d = "dst + of_nat (unat tot)"
    have ch: "get_bytes (unat off mod BSIZE) (unat k) (vw (blk vw ?A ?bn)) = ?bs"
      using kb(4) mod_less_divisor [of BSIZE "unat off"] vw_len [OF abs] by (intro chunk_bytes) (auto simp: BSIZE_def)
    note o = copies_outD [OF less.prems(7,8), of "unat tot" ?bs]
    have len: "unat tot + length ?bs \<le> unat n" using kb(3,5) by (simp add: word_le_nat_alt)
    have k64: "?d + ucast k = dst + of_nat (unat (tot + k))" unfolding kb(5) by simp
    have kn: "unat k \<le> unat n - unat tot" using kb(4) by simp
    then have "unat off + unat k \<le> 274432" using less.prems(4,5) by (simp add: no_holes_def MAXFILE_def NINDIRECT_def NDIRECT_def BSIZE_def)
    then have off': "unat (off + k) = unat off + unat k" by (subst unat_add_lem [THEN iffD1]) simp_all
    have st: "fstep {} {} s s3" using fstep_trans [OF s1(3) r(5)] by simp
    have e: "unat off + unat k + (unat n - unat (tot + k)) = unat off + (unat n - unat tot)" using kn kb(5) by simp
    have "\<exists>s'. readi_loop out pid ip n (tot + k) (off + k) (dst + of_nat (unat (tot + k))) s3 (wr ?d ?bs m) =
        Ret (sint n, s', wr (dst + of_nat (unat (tot + k))) (map (fbyte vw (addrs_of s3 ip)) [unat (off + k)..<unat (off + k) + (unat n - unat (tot + k))]) (wr ?d ?bs m)) \<and>
        fs_abs pid s' vw {} \<and> fstep {} {} s3 s'"
      by (rule less.hyps) (use chunk_len_less [OF True, of off] k_def r(4) less.prems st fstep_same [OF st] kb(3) o(2) [OF len] kn e off' in \<open>simp_all add: fstep_def\<close>)
    then obtain s' where s': "readi_loop out pid ip n (tot + k) (off + k) (dst + of_nat (unat (tot + k))) s3 (wr ?d ?bs m) =
        Ret (sint n, s', wr (dst + of_nat (unat (tot + k))) ?cs (wr ?d ?bs m))" "fs_abs pid s' vw {}" "fstep {} {} s3 s'"
      unfolding off' e fstep_same(1) [OF st] by blast
    have "?bs @ ?cs = map (fbyte vw ?A) [unat off..<unat off + (unat n - unat tot)]"
      using upt_add_eq_append [of "unat off" "unat off + unat k" "unat n - unat (tot + k)"] unfolding e by simp
    moreover have "wr (dst + of_nat (unat (tot + k))) ?cs (wr ?d ?bs m) = wr ?d (?bs @ ?cs) m"
      using o(3) [OF len, of ?cs] kn kb(5) lt by simp
    moreover have "readi_loop out pid ip n tot off ?d s m = readi_loop out pid ip n (tot + k) (off + k) (dst + of_nat (unat (tot + k))) s3 (wr ?d ?bs m)"
      using True s1(1) nz r(1-3) ch o(1) [OF len] less.prems(3) fstep_same(1) [OF s1(3)] k64
      by (subst readi_loop.simps) (simp add: k_def [symmetric] Let_def add.assoc)
    ultimately show ?thesis using s' fstep_trans [OF st s'(3)] by auto
  qed
qed

section \<open>Writing\<close>

definition fblocks :: "(u32 \<Rightarrow> block) \<Rightarrow> u32 list \<Rightarrow> u32 set" where
  "fblocks vw A = insert (A ! NDIRECT) (blk vw A ` {..<MAXFILE})"

text \<open>
  The bytes \<open>bs\<close> have been written at offset \<open>off\<close> of a file of \<open>sz\<close> bytes: they are there, every
  other byte is the old one, and no block in use outside the file has changed.
\<close>

definition wrote :: "superblock \<Rightarrow> u32 set \<Rightarrow> (u32 \<Rightarrow> block) \<Rightarrow> u32 list \<Rightarrow> nat \<Rightarrow> nat \<Rightarrow> u8 list \<Rightarrow> (u32 \<Rightarrow> block) \<Rightarrow> u32 list \<Rightarrow> bool" where
  "wrote sb L vw A sz off bs vw' A' \<longleftrightarrow> file_ok sb L vw' A' \<and> no_holes vw' A' (max sz (off + length bs)) \<and>
     (\<forall>i < max sz (off + length bs). fbyte vw' A' i = (if off \<le> i \<and> i < off + length bs then bs ! (i - off) else fbyte vw A i)) \<and>
     (\<forall>c. block_ok sb L vw c \<longrightarrow> c \<notin> fblocks vw A \<longrightarrow> vw' c = vw c \<and> c \<notin> fblocks vw' A') \<and>
     (\<forall>m < unat (sb_size sb). used sb vw m \<longrightarrow> used sb vw' m)"

lemma wrote_ok:
  assumes "wrote sb L vw A sz off bs vw' A'"
  shows "file_ok sb L vw' A'" "no_holes vw' A' (max sz (off + length bs))"
  using assms unfolding wrote_def by blast+

lemma wrote_trans:
  assumes w1: "wrote sb L vw A sz off bs vw1 A1" and w2: "wrote sb L vw1 A1 (max sz (off + length bs)) (off + length bs) cs vw2 A2"
  shows "wrote sb L vw A sz off (bs @ cs) vw2 A2"
proof -
  let ?o = "off + length bs"
  have e: "max (max sz ?o) (?o + length cs) = max sz (off + length (bs @ cs))" by simp
  have m: "block_ok sb L vw c \<Longrightarrow> block_ok sb L vw1 c" for c using w1 by (simp add: wrote_def block_ok_def)
  have b: "fbyte vw2 A2 i = (if off \<le> i \<and> i < off + length (bs @ cs) then (bs @ cs) ! (i - off) else fbyte vw A i)"
    if i: "i < max sz (off + length (bs @ cs))" for i
  proof (cases "?o \<le> i \<and> i < ?o + length cs")
    case True
    then have "fbyte vw2 A2 i = cs ! (i - ?o)" using w2 i e by (simp add: wrote_def)
    then show ?thesis using True by (auto simp: nth_append diff_diff_left)
  next
    case False
    then have "fbyte vw2 A2 i = fbyte vw1 A1 i" "i < max sz ?o" using w2 i e by (auto simp: wrote_def)
    then show ?thesis using w1 False by (auto simp: wrote_def nth_append)
  qed
  show ?thesis unfolding wrote_def using w1 w2 e b m by (simp add: wrote_def)
qed

lemma fbyte_keep:
  assumes ok: "file_ok sb L vw A" and nh: "no_holes vw A sz" and g: "grows s vw A vw' A' W c" "fsb s = sb" "area s = L"
    and b: "\<And>k. k < MAXFILE \<Longrightarrow> blk vw A k \<noteq> 0 \<Longrightarrow> blk vw' A' k = blk vw A k" and i: "i < sz"
  shows "fbyte vw' A' i = fbyte vw A i"
proof -
  let ?k = "i div BSIZE"
  have "?k * BSIZE < sz" using i div_times_less_eq_dividend [of i BSIZE] by linarith
  moreover from this have "?k * BSIZE < MAXFILE * BSIZE" using nh unfolding no_holes_def by linarith
  ultimately have k: "?k < MAXFILE" "blk vw A ?k \<noteq> 0" using nh by (simp_all add: no_holes_def)
  have "blk vw' A' ?k \<noteq> A' ! NDIRECT" using file_okD(4) [of sb L vw' A' ?k] g k b [OF k] by (simp add: grows_def)
  then show ?thesis using file_okD(3) [OF ok k] b [OF k] g unfolding grows_def fbyte_def by auto
qed

lemma grows_fblocks:
  assumes g: "grows s vw A vw' A' W c" and b: "\<And>k. k < MAXFILE \<Longrightarrow> blk vw' A' k = blk vw A k \<or> \<not> used (fsb s) vw (unat (blk vw' A' k)) \<or> blk vw' A' k = 0"
    and c: "block_ok (fsb s) (area s) vw x" "x \<notin> fblocks vw A"
  shows "vw' x = vw x \<and> x \<notin> fblocks vw' A'"
proof -
  have u: "used (fsb s) vw (unat x)" "x \<noteq> 0" using c(1) by (auto simp: block_ok_def meta_def)
  have "x \<noteq> A' ! NDIRECT" using g u c(2) by (auto simp: grows_def fblocks_def split: if_splits)
  moreover have "x \<noteq> blk vw' A' k" if "k < MAXFILE" for k using b [OF that] u c(2) that by (auto simp: fblocks_def)
  ultimately show ?thesis using g c(1) by (auto simp: grows_def fblocks_def)
qed

text \<open>One round of \<open>writei\<close>: the block is there or is taken, and the bytes go into it.\<close>

lemma fbyte_put:
  assumes ok: "file_ok sb L vw A" and bn: "off div BSIZE < MAXFILE" "blk vw A (off div BSIZE) \<noteq> 0" "i div BSIZE < MAXFILE"
    and bs: "off mod BSIZE + length bs \<le> BSIZE" and len: "length (vw (blk vw A (off div BSIZE))) = BSIZE"
  defines "vw' \<equiv> vw(blk vw A (off div BSIZE) := put_bytes (off mod BSIZE) bs (vw (blk vw A (off div BSIZE))))"
  shows "fbyte vw' A i = (if off \<le> i \<and> i < off + length bs then bs ! (i - off) else fbyte vw A i)"
proof -
  let ?bn = "off div BSIZE"
  have "blk vw A ?bn \<noteq> A ! NDIRECT" by (rule file_okD(4) [OF ok bn(1,2)])
  then have "vw' (A ! NDIRECT) = vw (A ! NDIRECT)" by (simp add: vw'_def)
  then have e: "blk vw' A = blk vw A" by (simp add: blk_def fun_eq_iff)
  have im: "i = i div BSIZE * BSIZE + i mod BSIZE" "off = ?bn * BSIZE + off mod BSIZE" "i mod BSIZE < BSIZE" by (simp_all add: BSIZE_def)
  show ?thesis
  proof (cases "off \<le> i \<and> i < off + length bs")
    case True
    define j where "j = i - off"
    have j: "i = off + j" "j < length bs" "off mod BSIZE + j < BSIZE" using True bs by (auto simp: j_def)
    have "put_bytes (off mod BSIZE) bs (vw (blk vw A ?bn)) ! (off mod BSIZE + j) = bs ! j"
      using j bs len by (subst nth_put_bytes) simp_all
    then show ?thesis using j in_block [OF j(3)] e by (simp add: fbyte_def) (simp add: vw'_def)
  next
    case False
    show ?thesis
    proof (cases "i div BSIZE = ?bn")
      case True
      then have "\<not> (off mod BSIZE \<le> i mod BSIZE \<and> i mod BSIZE < off mod BSIZE + length bs)" using False im(1,2) unfolding True by linarith
      then show ?thesis using False True im(3) bs len e by (auto simp: fbyte_def vw'_def nth_put_bytes)
    next
      case nb: False
      have "blk vw A (i div BSIZE) \<noteq> blk vw A ?bn" using file_okD(5) [OF ok bn(1,3,2)] nb by metis
      then show ?thesis using False e by (auto simp: fbyte_def vw'_def)
    qed
  qed
qed

lemma no_holes_extend:
  assumes nh: "no_holes vw A sz" and keep: "\<And>k. k < MAXFILE \<Longrightarrow> blk vw A k \<noteq> 0 \<Longrightarrow> blk vw' A' k \<noteq> 0" and new: "blk vw' A' (off div BSIZE) \<noteq> 0"
    and off: "off \<le> sz" "off mod BSIZE + n \<le> BSIZE" "off + n \<le> MAXFILE * BSIZE"
  shows "no_holes vw' A' (max sz (off + n))"
proof -
  have "blk vw' A' k \<noteq> 0" if k: "k * BSIZE < max sz (off + n)" for k
  proof (cases "k * BSIZE < sz")
    case True
    then have "k * BSIZE < MAXFILE * BSIZE" using nh unfolding no_holes_def by linarith
    then show ?thesis using keep [of k] nh True by (simp add: no_holes_def)
  next
    case False
    have dm: "off = off div BSIZE * BSIZE + off mod BSIZE" "off mod BSIZE < BSIZE" by (simp_all add: BSIZE_def)
    have "off \<le> k * BSIZE" "k * BSIZE < off + n" using False k off(1) by auto
    then have "off div BSIZE * BSIZE < Suc k * BSIZE" "k * BSIZE < Suc (off div BSIZE) * BSIZE" using off(2) dm unfolding mult_Suc by linarith+
    then have "off div BSIZE < Suc k" "k < Suc (off div BSIZE)" unfolding mult_less_cancel2 by blast+
    then show ?thesis using new by (metis less_antisym not_less_eq)
  qed
  then show ?thesis using nh off(3) by (simp add: no_holes_def)
qed

lemma wrote_chunk:
  assumes ok: "file_ok sb L vw A" and nh: "no_holes vw A sz" and g: "grows s vw A vw1 A1 W addr" "fsb s = sb" "area s = L" and addr: "addr \<noteq> 0"
    and bn: "off div BSIZE < MAXFILE" "blk vw1 A1 (off div BSIZE) = addr"
    and b: "\<And>k. k < MAXFILE \<Longrightarrow> k \<noteq> off div BSIZE \<Longrightarrow> blk vw1 A1 k = blk vw A k"
    and old: "blk vw A (off div BSIZE) \<noteq> 0 \<Longrightarrow> addr = blk vw A (off div BSIZE)" and new: "blk vw A (off div BSIZE) = 0 \<Longrightarrow> \<not> used sb vw (unat addr)"
    and off: "off \<le> sz" "off mod BSIZE + length bs \<le> BSIZE" "off + length bs \<le> MAXFILE * BSIZE" and len: "length (vw1 addr) = BSIZE"
  defines "vw2 \<equiv> vw1(addr := put_bytes (off mod BSIZE) bs (vw1 addr))"
  shows "wrote sb L vw A sz off bs vw2 A1" "\<And>m. m < unat (sb_size sb) \<Longrightarrow> used sb vw2 m = used sb vw1 m"
proof -
  let ?bn = "off div BSIZE"
  have ok1: "file_ok sb L vw1 A1" using g by (simp add: grows_def)
  have a: "block_ok sb L vw1 addr" "addr \<noteq> A1 ! NDIRECT" using file_okD(3,4) [OF ok1 bn(1)] bn(2) addr by simp_all
  show us: "used sb vw2 m = used sb vw1 m" if "m < unat (sb_size sb)" for m
    unfolding vw2_def by (rule used_data [OF a(1) that])
  have ok2: "file_ok sb L vw2 A1" "blk vw2 A1 = blk vw1 A1"
    by (rule file_ok_mono [OF ok1]; use us a(2) in \<open>simp add: vw2_def\<close>)+
  have keep: "blk vw1 A1 k = blk vw A k" if "k < MAXFILE" "blk vw A k \<noteq> 0" for k
    using b [OF that(1)] old bn(2) that(2) by (cases "k = ?bn") auto
  have nh2: "no_holes vw2 A1 (max sz (off + length bs))"
    by (rule no_holes_extend [OF nh _ _ off]) (use keep ok2(2) bn(2) addr in simp_all)
  have byte: "fbyte vw2 A1 i = (if off \<le> i \<and> i < off + length bs then bs ! (i - off) else fbyte vw A i)"
    if i: "i < max sz (off + length bs)" for i
  proof -
    have "i < MAXFILE * BSIZE" using i nh2 unfolding no_holes_def by linarith
    then have "i div BSIZE < MAXFILE" by (simp add: less_mult_imp_div_less)
    then have "fbyte vw2 A1 i = (if off \<le> i \<and> i < off + length bs then bs ! (i - off) else fbyte vw1 A1 i)"
      using fbyte_put [OF ok1 bn(1) _ _ off(2), of i] bn(2) addr len unfolding vw2_def by simp
    then show ?thesis using fbyte_keep [OF ok nh g keep, of i] i off(1) by (auto simp: less_max_iff_disj)
  qed
  have out: "vw2 c = vw c \<and> c \<notin> fblocks vw2 A1" if c: "block_ok sb L vw c" "c \<notin> fblocks vw A" for c
  proof -
    have "vw1 c = vw c \<and> c \<notin> fblocks vw1 A1"
    proof (rule grows_fblocks [OF g(1)])
      show "blk vw1 A1 k = blk vw A k \<or> \<not> used (fsb s) vw (unat (blk vw1 A1 k)) \<or> blk vw1 A1 k = 0" if "k < MAXFILE" for k
        using b [OF that] old new bn(2) g(2) by (cases "k = ?bn") auto
    qed (use c g in simp_all)
    moreover have "addr \<in> fblocks vw1 A1" using bn by (auto simp: fblocks_def)
    moreover have "fblocks vw2 A1 = fblocks vw1 A1" by (simp add: fblocks_def ok2(2))
    ultimately show ?thesis by (auto simp: vw2_def)
  qed
  have "used sb vw m \<longrightarrow> used sb vw2 m" if "m < unat (sb_size sb)" for m using us [OF that] g that by (auto simp: grows_def)
  then show "wrote sb L vw A sz off bs vw2 A1" unfolding wrote_def using ok2(1) nh2 byte out by blast
qed

definition nblk :: "nat \<Rightarrow> nat \<Rightarrow> nat" where
  "nblk off n = (if n = 0 then 0 else (off mod BSIZE + n - 1) div BSIZE + 1)"

lemma nblk_step:
  assumes "0 < n" "k = min n (BSIZE - off mod BSIZE)"
  shows "nblk off n = Suc (nblk (off + k) (n - k))"
proof (cases "n \<le> BSIZE - off mod BSIZE")
  case True
  then have "(off mod BSIZE + n - 1) div BSIZE = 0" using assms(1) mod_less_divisor [of BSIZE off] by (intro div_less) (auto simp: BSIZE_def)
  then show ?thesis using True assms by (simp add: nblk_def)
next
  case False
  have lt: "off mod BSIZE < BSIZE" by (simp add: BSIZE_def)
  have k: "k = BSIZE - off mod BSIZE" "k < n" using False assms by auto
  have "off + k = BSIZE * Suc (off div BSIZE)" using k(1) lt mult_div_mod_eq [of BSIZE off] unfolding mult_Suc_right by linarith
  then have z: "(off + k) mod BSIZE = 0" by simp
  have "off mod BSIZE + n - 1 = (n - k - 1) + BSIZE" using k lt by linarith
  moreover have "((n - k - 1) + BSIZE) div BSIZE = Suc ((n - k - 1) div BSIZE)" using lt by (simp add: div_add_self2)
  ultimately show ?thesis using k z assms(1) by (simp add: nblk_def)
qed

definition copies_in :: "(u64 \<Rightarrow> nat \<Rightarrow> (int \<times> u8 list) result) \<Rightarrow> u64 \<Rightarrow> u8 list \<Rightarrow> bool" where
  "copies_in inp src data \<longleftrightarrow> (\<forall>i k. i + k \<le> length data \<longrightarrow> inp (src + of_nat i) k = Ret (0, take k (drop i data)))"

text \<open>What the loop of \<open>writei\<close> has done when it has written \<open>tot'\<close> bytes, from \<open>tot\<close> on.\<close>

definition wloop_res :: "int \<Rightarrow> nat \<Rightarrow> fs \<Rightarrow> (u32 \<Rightarrow> block) \<Rightarrow> nat \<Rightarrow> u8 list \<Rightarrow> u32 \<Rightarrow> u32 \<Rightarrow> (u32 \<times> u32 \<times> fs) result \<Rightarrow> bool" where
  "wloop_res pid ip s vw sz data tot off r \<longleftrightarrow> (\<exists>tot' off' s' vw' A' W. r = Ret (tot', off', with_addrs s' ip A') \<and> tot \<le> tot' \<and>
     unat tot' \<le> length data \<and> unat off' = unat off + (unat tot' - unat tot) \<and> fs_abs pid s' vw' {} \<and> alloc_pre s' vw' {} \<and> fstep W {} s s' \<and>
     room_for 1 s' A' \<and> wrote (fsb s) (area s) vw (addrs_of s ip) sz (unat off) (take (unat tot' - unat tot) (drop (unat tot) data)) vw' A' \<and>
     (unat tot' < length data \<longrightarrow> (\<forall>m < unat (sb_size (fsb s)). used (fsb s) vw' m)))"

lemma wloop_resI:
  assumes "r = Ret (tot', off', with_addrs s' ip A')" "tot \<le> tot'" "unat tot' \<le> length data" "unat off' = unat off + (unat tot' - unat tot)"
    "fs_abs pid s' vw' {}" "alloc_pre s' vw' {}" "fstep W {} s s'" "room_for 1 s' A'"
    "wrote (fsb s) (area s) vw (addrs_of s ip) sz (unat off) (take (unat tot' - unat tot) (drop (unat tot) data)) vw' A'"
    "\<And>m. unat tot' < length data \<Longrightarrow> m < unat (sb_size (fsb s)) \<Longrightarrow> used (fsb s) vw' m"
  shows "wloop_res pid ip s vw sz data tot off r"
  unfolding wloop_res_def
  by (intro exI [of _ tot'] exI [of _ off'] exI [of _ s'] exI [of _ vw'] exI [of _ A'] exI [of _ W] conjI) (use assms in simp_all)

lemma wloop_resE:
  assumes "wloop_res pid ip s vw sz data tot off r"
  obtains tot' off' s' vw' A' W where "r = Ret (tot', off', with_addrs s' ip A')" "tot \<le> tot'" "unat tot' \<le> length data"
    "unat off' = unat off + (unat tot' - unat tot)" "fs_abs pid s' vw' {}" "alloc_pre s' vw' {}" "fstep W {} s s'" "room_for 1 s' A'"
    "wrote (fsb s) (area s) vw (addrs_of s ip) sz (unat off) (take (unat tot' - unat tot) (drop (unat tot) data)) vw' A'"
    "unat tot' < length data \<longrightarrow> (\<forall>m < unat (sb_size (fsb s)). used (fsb s) vw' m)"
  using assms unfolding wloop_res_def by blast

lemma wrote_nil:
  assumes ok: "file_ok sb L vw A" and nh: "no_holes vw A sz" and g: "grows s vw A vw1 A1 W 0" "fsb s = sb" "area s = L"
    and b: "\<And>k. k < MAXFILE \<Longrightarrow> blk vw1 A1 k = blk vw A k" and off: "off \<le> sz"
  shows "wrote sb L vw A sz off [] vw1 A1"
proof -
  have "blk vw1 A1 k \<noteq> 0" if "k * BSIZE < sz" for k
  proof -
    have "k * BSIZE < MAXFILE * BSIZE" using nh that unfolding no_holes_def by linarith
    then show ?thesis using b [of k] nh that by (simp add: no_holes_def)
  qed
  then have "no_holes vw1 A1 sz" using nh by (simp add: no_holes_def)
  then show ?thesis unfolding wrote_def using g fbyte_keep [OF ok nh g b] grows_fblocks [OF g(1) disjI1 [OF b]] off
    by (auto simp: max_def grows_def)
qed

lemma room_grows:
  assumes g: "grows s vw A vw' A' W c" and st: "fstep (W \<union> X) H s s'" and X: "X \<subseteq> {c}" and room: "room_for (Suc k) s A"
  shows "room_for k s' A'"
proof (rule room_for_step [OF st _ _ _ room, where c = c])
  show "W \<union> X \<subseteq> bmb (fsb s) \<union> {A' ! NDIRECT, c}" using g X by (auto simp: grows_def)
  show "A' ! NDIRECT = A ! NDIRECT" if "A ! NDIRECT \<noteq> 0" using g that by (simp add: grows_def)
  show "W \<union> X \<subseteq> bmb (fsb s) \<union> {c}" if "A' ! NDIRECT = 0" using g that X by (auto simp: grows_def)
qed

text \<open>One round: the disk is full, or \<open>k\<close> bytes more are written.\<close>

lemma writei_round:
  assumes abs: "fs_abs pid s vw {}" and pre: "alloc_pre s vw {}" and room: "room_for 2 s (addrs_of s ip)"
    and dev: "i_dev (itable s ip) = ROOTDEV" and ok: "file_ok (fsb s) (area s) vw (addrs_of s ip)" and nh: "no_holes vw (addrs_of s ip) sz"
    and off: "unat off \<le> sz" "tot < n" "unat off + (unat n - unat tot) \<le> MAXFILE * BSIZE"
    and inp: "copies_in inp src data" "length data = unat n"
  defines "k \<equiv> chunk_len n tot off"
  shows "(\<exists>s1 vw1 A1 W. writei_loop inp pid ip n tot off (src + of_nat (unat tot)) s = Ret (tot, off, with_addrs s1 ip A1) \<and>
      fs_abs pid s1 vw1 {} \<and> alloc_pre s1 vw1 {} \<and> fstep W {} s s1 \<and> room_for 1 s1 A1 \<and>
      wrote (fsb s) (area s) vw (addrs_of s ip) sz (unat off) [] vw1 A1 \<and> (\<forall>m < unat (sb_size (fsb s)). used (fsb s) vw1 m)) \<or>
    (\<exists>u vw2 A1 W. writei_loop inp pid ip n tot off (src + of_nat (unat tot)) s =
        writei_loop inp pid ip n (tot + k) (off + k) (src + of_nat (unat (tot + k))) (with_addrs u ip A1) \<and>
      fs_abs pid u vw2 {} \<and> alloc_pre u vw2 {} \<and> fstep W {} s u \<and> (\<forall>j. room_for (Suc j) s (addrs_of s ip) \<longrightarrow> room_for j u A1) \<and>
      wrote (fsb s) (area s) vw (addrs_of s ip) sz (unat off) (take (unat k) (drop (unat tot) data)) vw2 A1)"
proof -
  let ?A = "addrs_of s ip" and ?bn = "unat off div BSIZE" and ?bs = "take (unat k) (drop (unat tot) data)"
  note kb = chunk_len_bounds [OF off(2), of off, folded k_def]
  have lt: "unat tot < unat n" using off(2) by (simp add: word_less_nat_alt)
  have "?bn * BSIZE < MAXFILE * BSIZE" using off(3) lt div_times_less_eq_dividend [of "unat off" BSIZE] by linarith
  then have bn: "?bn < MAXFILE" by simp
  have kn: "unat tot + unat k \<le> length data" using kb(4) lt inp(2) by simp
  have bs: "length ?bs = unat k" "inp (src + of_nat (unat tot)) (unat k) = Ret (0, ?bs)"
    using kn inp(1) [unfolded copies_in_def, rule_format, OF kn] by simp_all
  from bmap_spec [OF abs pre room_for_mono [OF room] dev ok bn] obtain addr s1 vw1 A1 W where
    b: "bmap pid ip ?bn s = Ret (addr, with_addrs s1 ip A1)" "fs_abs pid s1 vw1 {}" "alloc_pre s1 vw1 {}" "fstep W {} s s1"
      "grows s vw ?A vw1 A1 W addr" "blk vw1 A1 ?bn = addr" "\<And>k. k < MAXFILE \<Longrightarrow> k \<noteq> ?bn \<Longrightarrow> blk vw1 A1 k = blk vw ?A k"
      "blk vw ?A ?bn \<noteq> 0 \<Longrightarrow> addr = blk vw ?A ?bn"
      "blk vw ?A ?bn = 0 \<Longrightarrow> addr \<noteq> 0 \<Longrightarrow> vw1 addr = replicate BSIZE 0 \<and> \<not> used (fsb s) vw (unat addr)"
      "\<And>m. addr = 0 \<Longrightarrow> m < unat (sb_size (fsb s)) \<Longrightarrow> used (fsb s) vw1 m" by (rule bmap_resE) auto
  note it = fstep_same [OF b(4)]
  have room1: "room_for 1 s1 A1" using room_grows [OF b(5), of "{}" "{}" s1 1] b(4) room by (simp add: numeral_2_eq_2)
  show ?thesis
  proof (cases "addr = 0")
    case z: True
    have "writei_loop inp pid ip n tot off (src + of_nat (unat tot)) s = Ret (tot, off, with_addrs s1 ip A1)"
      using off(2) b(1) z by (subst writei_loop.simps) simp
    moreover have "blk vw1 A1 j = blk vw ?A j" if "j < MAXFILE" for j using b(6-8) that z by (cases "j = ?bn") auto
    then have "wrote (fsb s) (area s) vw ?A sz (unat off) [] vw1 A1"
      by (intro wrote_nil [OF ok nh b(5) [unfolded z]]) (use off(1) in simp_all)
    ultimately show ?thesis using b(2-4) b(10) [OF z] room1 by blast
  next
    case nz: False
    let ?t = "with_addrs s1 ip A1" and ?d = "put_bytes (unat off mod BSIZE) ?bs (vw1 addr)"
    have "unat off mod BSIZE < BSIZE" by (simp add: BSIZE_def)
    then have mod: "unat off mod BSIZE + length ?bs \<le> BSIZE" using bs(1) kb(4) by linarith
    have end': "unat off + length ?bs \<le> MAXFILE * BSIZE" using bs(1) kb(4) off(3) by linarith
    note w = wrote_chunk [OF ok nh b(5) refl refl nz bn b(6-8) _ off(1) mod end' vw_len [OF b(2)]]
    have okA: "block_ok (fsb s) (area s) vw1 addr" using file_okD(3) [of "fsb s" "area s" vw1 A1 ?bn] b(5,6) bn nz by (simp add: grows_def)
    obtain i t1 t2 t3 where t: "bread_f pid ROOTDEV addr ?t = Ret (i, t1)" "data_f i t1 = vw1 addr" "fstep {} {} ?t t1"
        "log_write_f i (store_f i ?d t1) = Ret t2" "brelse_f pid i t2 = Ret t3" "fs_abs pid t3 (vw1(addr := ?d)) {}" "fstep {addr} {} ?t t3"
      using update_block [of pid ?t vw1 "{}" addr ?d] b(2) okA it room_for_room [OF room1] fs_room_mono [of 1 s1 0] vw_len [OF b(2)] mod
      by (auto simp: block_ok_def)
    note st = fstep_addrs [OF t(7)]
    let ?u = "with_addrs t3 ip (addrs_of s1 ip)"
    have src: "src + of_nat (unat tot) + ucast k = src + of_nat (unat (tot + k))" unfolding kb(5) by simp
    have "writei_loop inp pid ip n tot off (src + of_nat (unat tot)) s =
        writei_loop inp pid ip n (tot + k) (off + k) (src + of_nat (unat (tot + k))) (with_addrs ?u ip A1)"
      using off(2) b(1) nz t bs(2) dev it src st(2)
      by (subst writei_loop.simps) (simp add: k_def [symmetric] Let_def add.assoc)
    moreover have "fstep (W \<union> {addr}) {} s ?u" by (rule fstep_trans [OF b(4) st(1)])
    moreover have "alloc_pre ?u (vw1(addr := ?d)) {}"
      using alloc_pre_used [OF b(3)] w(2) fstep_pre [OF t(7)] b(9) nz it by simp
    ultimately show ?thesis using t(6) w(1) b(9) nz room_grows [OF b(5), of "{addr}" "{}" ?u]
      by (intro disjI2 exI [of _ ?u] exI [of _ "vw1(addr := ?d)"] exI [of _ A1] exI [of _ "W \<union> {addr}"]) auto
  qed
qed

lemma writei_loop_spec:
  assumes "fs_abs pid s vw {}" "alloc_pre s vw {}" "room_for (nblk (unat off) (unat n - unat tot) + 1) s (addrs_of s ip)"
    "i_dev (itable s ip) = ROOTDEV" "file_ok (fsb s) (area s) vw (addrs_of s ip)" "no_holes vw (addrs_of s ip) sz"
    "unat off \<le> sz" "tot \<le> n" "unat off + (unat n - unat tot) \<le> MAXFILE * BSIZE"
    and inp: "copies_in inp src data" "length data = unat n"
  shows "wloop_res pid ip s vw sz data tot off (writei_loop inp pid ip n tot off (src + of_nat (unat tot)) s)"
  using assms(1-9)
proof (induction "unat n - unat tot" arbitrary: tot off s vw sz rule: less_induct)
  case less
  let ?A = "addrs_of s ip" and ?r = "\<lambda>tot off s. writei_loop inp pid ip n tot off (src + of_nat (unat tot)) s"
  show ?case
  proof (cases "tot < n")
    case False
    then have e: "tot = n" using less.prems(8) by simp
    have r: "?r tot off s = Ret (tot, off, with_addrs s ip ?A)" using False by (subst writei_loop.simps) simp
    have "wrote (fsb s) (area s) vw ?A sz (unat off) [] vw ?A"
      by (rule wrote_nil [OF less.prems(5,6) grows_refl [OF less.prems(5)]]) (use less.prems(7) in simp_all)
    then show ?thesis
      by (intro wloop_resI [OF r _ _ _ less.prems(1,2) fstep_refl]) (use e less.prems(3) inp(2) in \<open>simp_all add: nblk_def\<close>)
  next
    case True
    define k where "k = chunk_len n tot off"
    note kb = chunk_len_bounds [OF True, of off, folded k_def]
    have lt: "unat tot < unat n" using True by (simp add: word_less_nat_alt)
    have nb: "nblk (unat off) (unat n - unat tot) = Suc (nblk (unat off + unat k) (unat n - unat tot - unat k))"
      by (rule nblk_step) (use lt kb(4) in simp_all)
    have "room_for 2 s ?A" by (rule room_for_mono [OF less.prems(3)]) (simp add: nb)
    from writei_round [OF less.prems(1,2) this less.prems(4-7) True less.prems(9) inp, folded k_def] show ?thesis
    proof (elim disjE exE conjE, goal_cases)
      case (1 s1 vw1 A1 W)
      show ?case by (rule wloop_resI [OF 1(1) _ _ _ 1(2-5)]) (use 1(6,7) lt inp(2) in simp_all)
    next
      case (2 u vw2 A1 W)
      let ?u = "with_addrs u ip A1" and ?bs = "take (unat k) (drop (unat tot) data)"
      have kn: "unat k \<le> unat n - unat tot" "length ?bs = unat k" using kb(4) inp(2) by simp_all
      then have "unat off + unat k \<le> 274432" using less.prems(9) by (simp add: MAXFILE_def NINDIRECT_def NDIRECT_def BSIZE_def)
      then have off': "unat (off + k) = unat off + unat k" by (subst unat_add_lem [THEN iffD1]) simp_all
      note it = fstep_same [OF 2(4)]
      have "wloop_res pid ip ?u vw2 (max sz (unat off + unat k)) data (tot + k) (off + k) (?r (tot + k) (off + k) ?u)"
      proof (rule less.hyps)
        show "room_for (nblk (unat (off + k)) (unat n - unat (tot + k)) + 1) ?u (addrs_of ?u ip)"
          using 2(5) less.prems(3) nb off' kb(5) by simp
        show "no_holes vw2 (addrs_of ?u ip) (max sz (unat off + unat k))" using 2(6) kn(2) by (simp add: wrote_def)
        show "unat n - unat (tot + k) < unat n - unat tot" unfolding k_def by (rule chunk_len_less [OF True])
        show "file_ok (fsb ?u) (area ?u) vw2 (addrs_of ?u ip)" using wrote_ok [OF 2(6)] it by simp
        show "unat (off + k) + (unat n - unat (tot + k)) \<le> MAXFILE * BSIZE" using less.prems(9) off' kb(5) kn(1) by simp
      qed (use 2(2,3) less.prems(4) it kb(3) off' in simp_all)
      then obtain tot' off' s' vw' A' W' where i: "?r (tot + k) (off + k) ?u = Ret (tot', off', with_addrs s' ip A')" "tot + k \<le> tot'"
          "unat tot' \<le> length data" "unat off' = unat (off + k) + (unat tot' - unat (tot + k))" "fs_abs pid s' vw' {}" "alloc_pre s' vw' {}"
          "fstep W' {} ?u s'" "room_for 1 s' A'"
          "wrote (fsb ?u) (area ?u) vw2 (addrs_of ?u ip) (max sz (unat off + unat k)) (unat (off + k)) (take (unat tot' - unat (tot + k)) (drop (unat (tot + k)) data)) vw' A'"
          "unat tot' < length data \<longrightarrow> (\<forall>m < unat (sb_size (fsb ?u)). used (fsb ?u) vw' m)" by (rule wloop_resE)
      note st = fstep_addrs [OF i(7)]
      let ?cs = "take (unat tot' - unat (tot + k)) (drop (unat (tot + k)) data)"
      have t': "unat tot + unat k \<le> unat tot'" using i(2) kb(5) by (simp add: word_le_nat_alt)
      have cs: "?bs @ ?cs = take (unat tot' - unat tot) (drop (unat tot) data)"
        using take_add [of "unat k" "unat tot' - unat (tot + k)" "drop (unat tot) data"] t' kb(5) by (simp add: add.commute)
      have "wrote (fsb s) (area s) vw ?A sz (unat off) (?bs @ ?cs) vw' A'"
        by (rule wrote_trans [OF 2(6)]) (use i(9) kn off' it in simp)
      then have w: "wrote (fsb s) (area s) vw ?A sz (unat off) (take (unat tot' - unat tot) (drop (unat tot) data)) vw' A'" unfolding cs .
      let ?s' = "with_addrs s' ip (addrs_of u ip)"
      have r: "?r tot off s = Ret (tot', off', with_addrs ?s' ip A')" using 2(1) i(1) by simp
      have "tot \<le> tot'" using t' by (simp add: word_le_nat_alt)
      moreover have "unat off' = unat off + (unat tot' - unat tot)" using i(4) off' kb(5) t' by simp
      moreover have "fs_abs pid ?s' vw' {}" "alloc_pre ?s' vw' {}" "room_for 1 ?s' A'" using i(5,6,8) by simp_all
      moreover have "used (fsb s) vw' m" if "unat tot' < length data" "m < unat (sb_size (fsb s))" for m using i(10) that it by simp
      ultimately show ?case using wloop_resI [OF r _ i(3) _ _ _ fstep_trans [OF 2(4) st(1)] _ w] by blast
    qed
  qed
qed

end
