(* ===== verification/Fs_Contents.thy ===== *)
theory Fs_Contents
  imports Fs_Files
begin

text \<open>
  \<open>iupdate\<close>, \<open>readi\<close> and \<open>writei\<close> of kernel/fs.c as operations on the byte list of a file, with the
  properties of the file layer.
\<close>

section \<open>The on-disk inode\<close>

lemma get16_put16_other:
  "off + 2 \<le> length d \<Longrightarrow> o2 + 2 \<le> length d \<Longrightarrow> o2 + 2 \<le> off \<or> off + 2 \<le> o2 \<Longrightarrow> get16 o2 (put16 off v d) = get16 o2 d"
  by (rule get16_bytes) (simp add: get_bytes_put16_other)

lemma get16_put32_other:
  "off + 4 \<le> length d \<Longrightarrow> o2 + 2 \<le> length d \<Longrightarrow> o2 + 2 \<le> off \<or> off + 4 \<le> o2 \<Longrightarrow> get16 o2 (put32 off v d) = get16 o2 d"
  by (rule get16_bytes) (simp add: get_bytes_put32_other)

lemma get16_put32s_other:
  "off + 4 * length vs \<le> length d \<Longrightarrow> o2 + 2 \<le> length d \<Longrightarrow> o2 + 2 \<le> off \<Longrightarrow> get16 o2 (put32s off vs d) = get16 o2 d"
  by (rule get16_bytes) (simp add: get_bytes_put32s_other)

lemma get32_put32s_other:
  "off + 4 * length vs \<le> length d \<Longrightarrow> o2 + 4 \<le> length d \<Longrightarrow> o2 + 4 \<le> off \<Longrightarrow> get32 o2 (put32s off vs d) = get32 o2 d"
  by (rule get32_bytes) (simp add: get_bytes_put32s_other)

lemma length_dinode_put [simp]:
  "off + 64 \<le> length d \<Longrightarrow> length (i_addrs x) = 13 \<Longrightarrow> length (dinode_put x off d) = length d"
  by (simp add: dinode_put_def)

text \<open>What \<open>iupdate\<close> writes is what \<open>ilock\<close> reads back.\<close>

lemma dinode_get_put:
  assumes "off + 64 \<le> length d" "length (i_addrs x) = NDIRECT + 1"
  shows "dinode_get off (dinode_put x off d) y =
    y\<lparr>i_type := i_type x, i_major := i_major x, i_minor := i_minor x, i_nlink := i_nlink x, i_size := i_size x, i_addrs := i_addrs x\<rparr>"
proof -
  note o = get16_put16_other get16_put32_other get16_put32s_other get32_put32s_other
  have "length (i_addrs x) = 13" using assms(2) by (simp add: NDIRECT_def)
  then have "get16 off (dinode_put x off d) = i_type x" "get16 (off + 2) (dinode_put x off d) = i_major x"
    "get16 (off + 4) (dinode_put x off d) = i_minor x" "get16 (off + 6) (dinode_put x off d) = i_nlink x"
    "get32 (off + 8) (dinode_put x off d) = i_size x" "get32s (off + 12) (NDIRECT + 1) (dinode_put x off d) = i_addrs x"
    using assms by (simp_all add: dinode_put_def o get32s_put32s)
  then show ?thesis by (simp add: dinode_get_def)
qed

lemma dino_off_le: "dino_off n + 64 \<le> BSIZE"
proof -
  have "unat n mod 16 < 16" by simp
  then show ?thesis by (simp add: dino_off_def IPB_def BSIZE_def)
qed

text \<open>Another inode of the same block keeps its bytes.\<close>

lemma dinode_put_other:
  assumes "dino_off m \<noteq> dino_off n" "length d = BSIZE" "length (i_addrs x) = NDIRECT + 1"
  shows "get_bytes (dino_off m) 64 (dinode_put x (dino_off n) d) = get_bytes (dino_off m) 64 d"
proof -
  have "dino_off m + 64 \<le> dino_off n \<or> dino_off n + 64 \<le> dino_off m" using assms(1) by (simp add: dino_off_def) linarith
  then show ?thesis using assms dino_off_le [of m] dino_off_le [of n]
    by (auto simp: dinode_put_def NDIRECT_def get_bytes_put32s_other get_bytes_put32_other get_bytes_put16_other)
qed

lemma meta_IBLOCK: "unat i < unat (sb_ninodes sb) \<Longrightarrow> IBLOCK i sb \<in> meta sb"
  unfolding meta_def by (intro UnI1 UnI2 image_eqI [of _ _ "unat i"]) simp_all

lemma iupdate_spec:
  assumes abs: "fs_abs pid s vw {}" and geom: "fs_geom (fsb s) (area s)" and room: "fs_room 0 s"
    and x: "i_dev (itable s ip) = ROOTDEV" "unat (i_inum (itable s ip)) < unat (sb_ninodes (fsb s))" "length (addrs_of s ip) = NDIRECT + 1"
  defines "b \<equiv> IBLOCK (i_inum (itable s ip)) (fsb s)"
  shows "\<exists>s'. iupdate pid ip s = Ret s' \<and> fstep {b} {} s s' \<and>
    fs_abs pid s' (vw(b := dinode_put (itable s ip) (dino_off (i_inum (itable s ip))) (vw b))) {}"
proof -
  have "b \<in> meta (fsb s)" unfolding b_def by (rule meta_IBLOCK [OF x(2)])
  then have "b \<notin> area s" using geom by (auto simp: fs_geom_def)
  moreover have "length (dinode_put (itable s ip) (dino_off (i_inum (itable s ip))) (vw b)) = BSIZE"
    using vw_len [OF abs] dino_off_le x(3) by (simp add: NDIRECT_def)
  ultimately obtain i s1 s2 s3 where u: "bread_f pid ROOTDEV b s = Ret (i, s1)" "data_f i s1 = vw b" "fstep {} {} s s1"
      "log_write_f i (store_f i (dinode_put (itable s ip) (dino_off (i_inum (itable s ip))) (vw b)) s1) = Ret s2" "brelse_f pid i s2 = Ret s3"
      "fs_abs pid s3 (vw(b := dinode_put (itable s ip) (dino_off (i_inum (itable s ip))) (vw b))) {}" "fstep {b} {} s s3"
    using update_block [OF abs _ _ _ room] by (metis card.empty empty_iff zero_le)
  have "iupdate pid ip s = Ret s3" using u x(1) fstep_same [OF u(3)] by (simp add: iupdate_def b_def)
  then show ?thesis using u by blast
qed

section \<open>Files and the inode area\<close>

text \<open>A write to the inode area changes neither the free map nor any file.\<close>

lemma inode_write_used:
  assumes "fs_geom sb L" "unat i < unat (sb_ninodes sb)" "m < unat (sb_size sb)"
  shows "used sb (vw(IBLOCK i sb := d)) m = used sb vw m"
proof (rule used_cong [OF _ assms(3)])
  fix n assume "n < unat (sb_size sb)"
  then have "IBLOCK (of_nat (unat i)) sb \<noteq> BBLOCK n sb" using assms(1,2) unfolding fs_geom_def by blast
  then show "(vw(IBLOCK i sb := d)) (BBLOCK n sb) = vw (BBLOCK n sb)" by simp
qed

lemma inode_write_file:
  fixes d :: block
  assumes geom: "fs_geom sb L" and i: "unat i < unat (sb_ninodes sb)" and ok: "file_ok sb L vw A"
  defines "vw' \<equiv> vw(IBLOCK i sb := d)"
  shows "file_ok sb L vw' A" "blk vw' A = blk vw A"
    "no_holes vw A sz \<Longrightarrow> no_holes vw' A sz" "no_holes vw A sz \<Longrightarrow> j < sz \<Longrightarrow> fbyte vw' A j = fbyte vw A j"
proof -
  have m: "a \<noteq> IBLOCK i sb" if "block_ok sb L v a" for a v using that meta_IBLOCK [OF i] by (auto simp: block_ok_def)
  have I: "vw' (A ! NDIRECT) = vw (A ! NDIRECT)" if "A ! NDIRECT \<noteq> 0" using m [OF file_okD(2) [OF ok that]] by (simp add: vw'_def)
  have us: "used sb vw n \<Longrightarrow> used sb vw' n" if "n < unat (sb_size sb)" for n using inode_write_used [OF geom i that] by (simp add: vw'_def)
  show "file_ok sb L vw' A" by (rule file_ok_mono(1) [OF ok I us])
  show b: "blk vw' A = blk vw A" by (rule file_ok_mono(2) [OF ok I us])
  show "no_holes vw A sz \<Longrightarrow> no_holes vw' A sz" by (simp add: no_holes_def b)
  show "fbyte vw' A j = fbyte vw A j" if nh: "no_holes vw A sz" and j: "j < sz"
  proof -
    have "j div BSIZE * BSIZE < sz" using j div_times_less_eq_dividend [of j BSIZE] by linarith
    moreover from this have "j div BSIZE * BSIZE < MAXFILE * BSIZE" using nh unfolding no_holes_def by linarith
    ultimately have "j div BSIZE < MAXFILE" "blk vw A (j div BSIZE) \<noteq> 0" using nh by (simp_all add: no_holes_def)
    then have "blk vw A (j div BSIZE) \<noteq> IBLOCK i sb" using m file_okD(3) [OF ok] by blast
    then show ?thesis by (simp add: fbyte_def b) (simp add: vw'_def)
  qed
qed

text \<open>The file behind inode \<open>ip\<close>: its map and its size are in order.\<close>

definition file_at :: "fs \<Rightarrow> (u32 \<Rightarrow> block) \<Rightarrow> nat \<Rightarrow> bool" where
  "file_at s vw ip \<longleftrightarrow> i_dev (itable s ip) = ROOTDEV \<and> unat (i_inum (itable s ip)) < unat (sb_ninodes (fsb s)) \<and>
     file_ok (fsb s) (area s) vw (addrs_of s ip) \<and> no_holes vw (addrs_of s ip) (unat (i_size (itable s ip)))"

definition spliced :: "nat \<Rightarrow> u8 list \<Rightarrow> u8 list \<Rightarrow> u8 list" where
  "spliced off bs c = take off c @ bs @ drop (off + length bs) c"

lemma nth_spliced: "off \<le> length c \<Longrightarrow> i < max (length c) (off + length bs) \<Longrightarrow>
    spliced off bs c ! i = (if off \<le> i \<and> i < off + length bs then bs ! (i - off) else c ! i)"
  by (auto simp: spliced_def nth_append min_def)

lemma length_spliced: "off \<le> length c \<Longrightarrow> length (spliced off bs c) = max (length c) (off + length bs)"
  by (auto simp: spliced_def)

lemma length_contents [simp]: "length (contents vw x) = unat (i_size x)"
  by (simp add: contents_def)

lemma wrote_contents:
  assumes w: "wrote sb L vw (i_addrs x) (unat (i_size x)) off bs vw' (i_addrs y)" and sz: "unat (i_size y) = max (unat (i_size x)) (off + length bs)"
    and off: "off \<le> unat (i_size x)"
  shows "contents vw' y = spliced off bs (contents vw x)"
proof (rule nth_equalityI)
  show "length (contents vw' y) = length (spliced off bs (contents vw x))" using off sz by (simp add: length_spliced)
  fix i assume "i < length (contents vw' y)"
  then have i: "i < max (unat (i_size x)) (off + length bs)" using sz by simp
  have "contents vw' y ! i = fbyte vw' (i_addrs y) i" using i sz by (simp add: contents_def)
  also have "\<dots> = (if off \<le> i \<and> i < off + length bs then bs ! (i - off) else fbyte vw (i_addrs x) i)" using w i unfolding wrote_def by blast
  also have "\<dots> = spliced off bs (contents vw x) ! i" using nth_spliced [of off "contents vw x" i bs] off i by (auto simp: contents_def)
  finally show "contents vw' y ! i = spliced off bs (contents vw x) ! i" .
qed

lemma sint_unat:
  assumes "unat (n :: u32) \<le> 274432" shows "sint n = int (unat n)"
proof -
  define k where "k = unat n"
  have "sint (word_of_int (int k) :: u32) = int k" using assms by (subst int_word_sint) (simp add: k_def [symmetric])
  moreover have "(word_of_int (int k) :: u32) = n" by (simp add: k_def)
  ultimately show ?thesis by (simp add: k_def)
qed

lemma maxfile_bytes: "MAXFILE * BSIZE = 274432"
  by (simp add: MAXFILE_def NDIRECT_def NINDIRECT_def BSIZE_def)

text \<open>A local variable as source and as destination.\<close>

lemma local_in_copies: "length data < 2 ^ 64 \<Longrightarrow> copies_in (local_in data) 0 data"
  by (simp add: copies_in_def local_in_def get_bytes_def unat_of_nat)

lemma put_put_next:
  assumes "i + length bs + length cs \<le> length m"
  shows "put_bytes (i + length bs) cs (put_bytes i bs m) = put_bytes i (bs @ cs) m"
  using assms by (intro nth_equalityI) (auto simp: nth_put_bytes nth_append)

lemma local_out_copies:
  assumes "n \<le> L" "L < 2 ^ 64"
  shows "copies_out local_out (\<lambda>d bs m. put_bytes (unat d) bs m) 0 n (\<lambda>m. length m = L)"
proof -
  have u: "unat (of_nat i :: u64) = i" if "i \<le> n" for i using that assms by (simp add: unat_of_nat)
  show ?thesis unfolding copies_out_def
  proof (intro conjI allI impI)
    fix i and bs m :: "u8 list" assume m: "length m = L" "i + length bs \<le> n"
    then show "local_out (0 + of_nat i) bs m = Ret (0, put_bytes (unat (0 + of_nat i :: u64)) bs m)" "length (put_bytes (unat (0 + of_nat i :: u64)) bs m) = L"
      using assms u [of i] by (simp_all add: local_out_def)
  next
    fix m :: "u8 list" assume "length m = L"
    then show "put_bytes (unat (0 + of_nat n :: u64)) [] m = m" using u [of n] by (simp add: put_bytes_def)
  next
    fix i and bs cs m :: "u8 list" assume m: "length m = L" "i + length bs + length cs \<le> n"
    then show "put_bytes (unat (0 + of_nat (i + length bs) :: u64)) cs (put_bytes (unat (0 + of_nat i :: u64)) bs m) = put_bytes (unat (0 + of_nat i :: u64)) (bs @ cs) m"
      using assms u [of i] u [of "i + length bs"] put_put_next [of i bs cs m] by simp
  qed
qed

lemma bmb_img: "bmb sb_zero = {45}"
proof -
  have sz: "unat (sb_size sb_zero) = 2000" by (simp add: sb_zero_def)
  have "bmb sb_zero = (\<lambda>n. 45) ` {..<2000 :: nat}" unfolding bmb_def sz by (rule image_cong) (simp_all add: sb_zero_BBLOCK)
  moreover have "(\<lambda>n. 45) ` {..<2000 :: nat} = {45 :: u32}" by (rule image_constant [of 0]) simp
  ultimately show ?thesis by simp
qed

lemma new_file_at: "file_at fs_img img 0"
  by (simp add: file_at_def fs_img_def file_new_def ROOTDEV_def sb_zero_def file_ok_def no_holes_def blk_def NDIRECT_def)

lemma five_file_at: "file_at fs_img img 1"
proof -
  have b: "blk img (i_addrs file_five) k = (if k = 0 then 46 else 0)" if "k < MAXFILE" for k
    by (cases k) (auto simp: blk_def NDIRECT_def file_five_def nth_Cons')
  have "block_ok sb_zero (area fs_img) img 46" using img_used [of 46] img_data [of 46] by (simp add: block_ok_def sb_zero_def)
  then have "file_ok sb_zero (area fs_img) img (i_addrs file_five)"
    using b by (auto simp: file_ok_def file_five_def NDIRECT_def split: if_splits)
  moreover have "blk img (i_addrs file_five) k \<noteq> 0" if "k * BSIZE < 5" for k
    using that b [of 0] ND_lt(1) by (cases k) (auto simp: BSIZE_def)
  then have "no_holes img (i_addrs file_five) 5" using maxfile_bytes by (simp add: no_holes_def)
  ultimately show ?thesis by (simp add: file_at_def fs_img_def) (simp add: file_five_def file_new_def ROOTDEV_def sb_zero_def)
qed

section \<open>Properties\<close>





end
