(* ===== verification/Virtio_Runs.thy ===== *)
theory Virtio_Runs
  imports Virtio "HOL-Library.Multiset"
begin

text \<open>
  The disk driver over any run of requests, completions by the device and interrupts. A request in
  flight is the head of its chain of descriptors and its buffer; it is at the device, completed (in
  the used ring, the interrupt still to come), or handled (waiting for its process to resume).
\<close>

section \<open>Requests in flight\<close>

definition nx :: "vdisk \<Rightarrow> nat \<Rightarrow> nat" where "nx v i = unat (d_next (desc v i))"

definition chain :: "vdisk \<Rightarrow> nat \<Rightarrow> nat list" where "chain v i = [i, nx v i, nx v (nx v i)]"

definition more :: "vdisk \<Rightarrow> nat \<Rightarrow> bool" where "more v i \<longleftrightarrow> d_flags (desc v i) AND VRING_DESC_F_NEXT \<noteq> 0"

definition chain_ok :: "vdisk \<Rightarrow> nat \<Rightarrow> bool" where
  "chain_ok v i \<longleftrightarrow> more v i \<and> more v (nx v i) \<and> \<not> more v (nx v (nx v i))"

type_synonym req = "nat \<times> nat"

definition used_descs :: "vdisk \<Rightarrow> req list \<Rightarrow> nat list" where
  "used_descs v rs = concat (map (\<lambda>(i, b). chain v i) rs)"

definition descs_ok :: "vdisk \<Rightarrow> req list \<Rightarrow> bool" where
  "descs_ok v rs \<longleftrightarrow> distinct (used_descs v rs) \<and> (\<forall>j\<in>set (used_descs v rs). j < NUM) \<and>
     (\<forall>j<NUM. vfree v j \<longleftrightarrow> j \<notin> set (used_descs v rs)) \<and> (\<forall>(i, b)\<in>set rs. chain_ok v i \<and> info_b v i = Some b) \<and> distinct (map snd rs)"

definition ring_ok :: "vdisk \<Rightarrow> req list \<Rightarrow> bool" where
  "ring_ok v D \<longleftrightarrow> used_ring_idx v = used_idx v + of_nat (length D) \<and>
     (\<forall>k<length D. unat (used_ring v (unat (used_idx v + of_nat k) mod NUM)) = fst (D ! k) \<and> info_status v (fst (D ! k)) = 0)"

definition vinv :: "vdisk \<Rightarrow> req list \<Rightarrow> req list \<Rightarrow> req list \<Rightarrow> bool" where
  "vinv v P D H \<longleftrightarrow> descs_ok v (P @ D @ H) \<and> ring_ok v D \<and> (\<forall>(i, b)\<in>set (P @ D). b_disk v b) \<and> (\<forall>(i, b)\<in>set H. \<not> b_disk v b)"

text \<open>The device completes a request: status 0, and its head in the used ring.\<close>

definition complete :: "nat \<Rightarrow> vdisk \<Rightarrow> vdisk" where
  "complete i v = v\<lparr>info_status := (info_status v)(i := 0),
     used_ring := (used_ring v)(unat (used_ring_idx v) mod NUM := of_nat i), used_ring_idx := used_ring_idx v + 1\<rparr>"

inductive vruns :: "vdisk \<Rightarrow> req list \<Rightarrow> req list \<Rightarrow> req list \<Rightarrow> bool" where
  start: "\<forall>j<NUM. vfree v j \<Longrightarrow> used_ring_idx v = used_idx v \<Longrightarrow> vruns v [] [] []"
| submit: "vruns v P D H \<Longrightarrow> b \<notin> snd ` set (P @ D @ H) \<Longrightarrow> rw_begin b n w v = Ret (Some i, v') \<Longrightarrow> vruns v' (P @ [(i, b)]) D H"
| no_room: "vruns v P D H \<Longrightarrow> b \<notin> snd ` set (P @ D @ H) \<Longrightarrow> rw_begin b n w v = Ret (None, v') \<Longrightarrow> vruns v' P D H"
| device: "vruns v P D H \<Longrightarrow> r \<in> set P \<Longrightarrow> vruns (complete (fst r) v) (remove1 r P) (D @ [r]) H"
| intr: "vruns v P D H \<Longrightarrow> virtio_disk_intr v = Ret (bs, v') \<Longrightarrow> vruns v' P [] (H @ D)"
| resume: "vruns v P D H \<Longrightarrow> (i, b) \<in> set H \<Longrightarrow> rw_end b i v = Ret v' \<Longrightarrow> vruns v' P D (remove1 (i, b) H)"

section \<open>Allocating descriptors\<close>

lemma alloc_desc_Some: "alloc_desc v = (Some i, w) \<Longrightarrow> i < NUM \<and> vfree v i \<and> w = v\<lparr>vfree := (vfree v)(i := False)\<rparr>"
  by (auto simp: alloc_desc_def find_Some_iff split: option.splits)

lemma alloc_desc_None: "alloc_desc v = (None, w) \<Longrightarrow> w = v \<and> (\<forall>j<NUM. \<not> vfree v j)"
  by (auto simp: alloc_desc_def find_None_iff split: option.splits)

text \<open>Nothing has changed except the contents of free descriptors.\<close>

definition same_busy :: "vdisk \<Rightarrow> vdisk \<Rightarrow> bool" where
  "same_busy v w \<longleftrightarrow> vfree w = vfree v \<and> (\<forall>j. \<not> vfree v j \<longrightarrow> desc w j = desc v j) \<and> used_ring_idx w = used_ring_idx v \<and>
     used_ring w = used_ring v \<and> used_idx w = used_idx v \<and> info_b w = info_b v \<and> info_status w = info_status v \<and> b_disk w = b_disk v"

lemma few_free: "(\<forall>j<NUM. j \<notin> set xs \<longrightarrow> \<not> vfree v j) \<Longrightarrow> length xs < 3 \<Longrightarrow> card {j \<in> {..<NUM}. vfree v j} < 3"
proof -
  assume a: "\<forall>j<NUM. j \<notin> set xs \<longrightarrow> \<not> vfree v j" "length xs < 3"
  then have "{j \<in> {..<NUM}. vfree v j} \<subseteq> set xs" by auto
  then have "card {j \<in> {..<NUM}. vfree v j} \<le> card (set xs)" by (intro card_mono) auto
  then show ?thesis using card_length [of xs] a(2) by linarith
qed

lemma alloc3_cases:
  obtains (got) a b c where "alloc3_desc v = Ret (Some [a, b, c], v\<lparr>vfree := (vfree v)(a := False, b := False, c := False)\<rparr>)"
      "distinct [a, b, c]" "\<forall>j\<in>{a, b, c}. j < NUM \<and> vfree v j"
  | (full) w where "alloc3_desc v = Ret (None, w)" "same_busy v w" "card {j \<in> {..<NUM}. vfree v j} < 3"
proof -
  note d = alloc3_desc_def numeral_3_eq_3 free_desc_def same_busy_def
  obtain r1 v1 where 1: "alloc_desc v = (r1, v1)" by fastforce
  obtain r2 v2 where 2: "alloc_desc v1 = (r2, v2)" by fastforce
  obtain r3 v3 where 3: "alloc_desc v2 = (r3, v3)" by fastforce
  show thesis
  proof (cases r1)
    case None
    with 1 show ?thesis using alloc_desc_None [of v v1] by (intro full [of v] few_free [of "[]"]) (auto simp: d)
  next
    case (Some a)
    then have a: "a < NUM" "vfree v a" "v1 = v\<lparr>vfree := (vfree v)(a := False)\<rparr>" using alloc_desc_Some 1 by blast+
    show ?thesis
    proof (cases r2)
      case None
      with 1 2 \<open>r1 = Some a\<close> a show ?thesis using alloc_desc_None [of v1 v2]
        by (intro full few_free [of "[a]"]) (auto simp: d split: if_splits)
    next
      case (Some b)
      then have b: "b < NUM" "vfree v b" "a \<noteq> b" "v2 = v\<lparr>vfree := (vfree v)(a := False, b := False)\<rparr>"
        using alloc_desc_Some [of v1 b v2] 2 a(3) by (auto split: if_splits)
      show ?thesis
      proof (cases r3)
        case None
        with 1 2 3 \<open>r1 = Some a\<close> \<open>r2 = Some b\<close> a b show ?thesis using alloc_desc_None [of v2 v3]
          by (intro full few_free [of "[a, b]"]) (auto simp: d split: if_splits)
      next
        case (Some c)
        then have "c < NUM" "vfree v c" "c \<noteq> a" "c \<noteq> b" "v3 = v\<lparr>vfree := (vfree v)(a := False, b := False, c := False)\<rparr>"
          using alloc_desc_Some [of v2 c v3] 3 b(4) by (auto split: if_splits)
        with 1 2 3 \<open>r1 = Some a\<close> \<open>r2 = Some b\<close> Some a b show ?thesis by (intro got [of a b c]) (auto simp: d)
      qed
    qed
  qed
qed

section \<open>Chains\<close>

lemma chain_cong:
  "\<forall>j\<in>set (chain v i). desc w j = desc v j \<Longrightarrow> chain w i = chain v i \<and> chain_ok w i = chain_ok v i"
  by (simp add: chain_def chain_ok_def nx_def more_def)

lemma used_descs_cong:
  "\<forall>j\<in>set (used_descs v rs). desc w j = desc v j \<Longrightarrow>
     used_descs w rs = used_descs v rs \<and> (\<forall>(i, b)\<in>set rs. chain_ok w i = chain_ok v i)"
proof (induction rs)
  case (Cons r rs)
  obtain i b where r: "r = (i, b)" by fastforce
  have "\<forall>j\<in>set (chain v i). desc w j = desc v j" "\<forall>j\<in>set (used_descs v rs). desc w j = desc v j"
    using Cons.prems by (simp_all add: used_descs_def r)
  with Cons.IH chain_cong [of v i w] show ?case by (simp add: used_descs_def r)
qed (simp add: used_descs_def)

lemma used_descs_mset: "mset (used_descs v rs) = \<Sum>\<^sub># (image_mset (\<lambda>(i, b). mset (chain v i)) (mset rs))"
  by (induction rs) (auto simp: used_descs_def)

lemma descs_ok_perm: "mset rs = mset ts \<Longrightarrow> descs_ok v rs = descs_ok v ts"
proof -
  assume m: "mset rs = mset ts"
  then have u: "mset (used_descs v rs) = mset (used_descs v ts)" by (simp add: used_descs_mset)
  have "distinct (used_descs v rs) = distinct (used_descs v ts)" "set (used_descs v rs) = set (used_descs v ts)"
    using u mset_eq_imp_distinct_iff mset_eq_setD by blast+
  moreover have "distinct (map snd rs) = distinct (map snd ts)" "set rs = set ts"
    using m mset_eq_setD mset_eq_imp_distinct_iff [of "map snd rs" "map snd ts"] by auto
  ultimately show ?thesis by (simp add: descs_ok_def)
qed

lemma head_used: "(i, b) \<in> set rs \<Longrightarrow> set (chain v i) \<subseteq> set (used_descs v rs)"
  by (auto simp: used_descs_def)

lemma descs_ok_head:
  assumes "descs_ok v rs" "(i, b) \<in> set rs"
  shows "i < NUM" "\<not> vfree v i" "chain_ok v i" "info_b v i = Some b"
proof -
  have "i \<in> set (used_descs v rs)" using head_used [OF assms(2), of v] by (auto simp: chain_def)
  then show "i < NUM" "\<not> vfree v i" "chain_ok v i" "info_b v i = Some b" using assms by (auto simp: descs_ok_def)
qed

lemma descs_ok_few: "descs_ok v rs \<Longrightarrow> 3 * length rs \<le> NUM"
proof -
  assume d: "descs_ok v rs"
  have "length (used_descs v rs) = 3 * length rs" by (induction rs) (auto simp: used_descs_def chain_def)
  moreover have "card (set (used_descs v rs)) \<le> card {..<NUM}" using d by (intro card_mono) (auto simp: descs_ok_def)
  ultimately show ?thesis using d by (simp add: descs_ok_def distinct_card)
qed

lemma descs_ok_add:
  assumes v: "descs_ok v rs" and abc: "distinct [a, b, c]" "\<forall>j\<in>{a, b, c}. j < NUM \<and> vfree v j" and x: "x \<notin> snd ` set rs"
    and w: "vfree w = (vfree v)(a := False, b := False, c := False)" "\<And>j. j \<notin> {a, b, c} \<Longrightarrow> desc w j = desc v j"
      "chain w a = [a, b, c]" "chain_ok w a" "info_b w = (info_b v)(a := Some x)"
  shows "descs_ok w ((a, x) # rs)"
proof -
  have n: "{a, b, c} \<inter> set (used_descs v rs) = {}" using v abc by (auto simp: descs_ok_def)
  then have "\<forall>j\<in>set (used_descs v rs). desc w j = desc v j" using w(2) by blast
  note u = used_descs_cong [OF this]
  have h1: "i \<noteq> a" if "(i, y) \<in> set rs" for i y using descs_ok_head(2) [OF v that] abc(2) by auto
  have h2: "used_descs w ((a, x) # rs) = [a, b, c] @ used_descs v rs" using u w(3) by (simp add: used_descs_def)
  have "distinct (used_descs w ((a, x) # rs))" "\<forall>j\<in>set (used_descs w ((a, x) # rs)). j < NUM"
    using v abc n unfolding h2 descs_ok_def by auto
  moreover have "\<forall>j<NUM. vfree w j \<longleftrightarrow> j \<notin> set (used_descs w ((a, x) # rs))"
    using v unfolding h2 descs_ok_def w(1) by simp
  moreover have "\<forall>(i, y)\<in>set ((a, x) # rs). chain_ok w i \<and> info_b w i = Some y"
    using v u h1 w(4,5) unfolding descs_ok_def by fastforce
  moreover have "distinct (map snd ((a, x) # rs))" using v x by (simp add: descs_ok_def)
  ultimately show ?thesis unfolding descs_ok_def by blast
qed

text \<open>The state after \<open>free_desc i\<close>.\<close>

definition freed :: "nat \<Rightarrow> vdisk \<Rightarrow> vdisk" where
  "freed i v = v\<lparr>desc := (desc v)(i := \<lparr>d_addr = VNull, d_len = 0, d_flags = 0, d_next = 0\<rparr>), vfree := (vfree v)(i := True)\<rparr>"

lemma free_chain_step: "i < NUM \<Longrightarrow> \<not> vfree v i \<Longrightarrow>
    free_chain i v = (if more v i then free_chain (nx v i) (freed i v) else Ret (freed i v))"
  by (subst free_chain.simps) (simp add: free_desc_def freed_def more_def nx_def)

lemma freed_other: "j \<noteq> i \<Longrightarrow> more (freed i v) j = more v j" "j \<noteq> i \<Longrightarrow> nx (freed i v) j = nx v j"
  "vfree (freed i v) j \<longleftrightarrow> j = i \<or> vfree v j"
  by (simp_all add: freed_def more_def nx_def)

lemma descs_ok_tail:
  assumes "descs_ok v ((i, x) # rs)" "(j, b) \<in> set rs"
  shows "j \<noteq> i" "info_b v j = Some b"
proof -
  have "j \<in> set (used_descs v rs)" using head_used [OF assms(2), of v] by (simp add: chain_def)
  then show "j \<noteq> i" using assms(1) by (auto simp: descs_ok_def used_descs_def chain_def)
  show "info_b v j = Some b" using descs_ok_head(4) [OF assms(1)] assms(2) by simp
qed

lemma free_chain_ok:
  assumes v: "descs_ok v ((i, x) # rs)" and g: "\<forall>(j, b)\<in>set rs. g j = Some b"
  obtains w where "free_chain i (v\<lparr>info_b := g\<rparr>) = Ret w" "descs_ok w rs" "used_ring_idx w = used_ring_idx v"
    "used_ring w = used_ring v" "used_idx w = used_idx v" "info_status w = info_status v" "b_disk w = b_disk v"
proof -
  let ?b = "nx v i" let ?c = "nx v (nx v i)"
  have d: "distinct [i, ?b, ?c]" "{i, ?b, ?c} \<inter> set (used_descs v rs) = {}" "\<forall>j\<in>{i, ?b, ?c}. j < NUM \<and> \<not> vfree v j" "chain_ok v i"
    using v by (auto simp: descs_ok_def used_descs_def chain_def)
  let ?v = "v\<lparr>info_b := g\<rparr>"
  let ?w = "freed ?c (freed ?b (freed i ?v))"
  have m: "nx ?v = nx v" "more ?v = more v" by (simp_all add: fun_eq_iff nx_def more_def)
  have w: "free_chain i ?v = Ret ?w"
    using d(1,3,4) by (simp add: free_chain_step freed_other chain_ok_def m)
  have "\<forall>j\<in>set (used_descs v rs). desc ?w j = desc v j" using d(2) by (auto simp: freed_def)
  note u = used_descs_cong [OF this]
  have e: "used_descs v ((i, x) # rs) = [i, ?b, ?c] @ used_descs v rs" by (simp add: used_descs_def chain_def)
  have f: "vfree ?w j \<longleftrightarrow> j \<in> {i, ?b, ?c} \<or> vfree v j" "info_b ?w = g" for j
    by (auto simp: freed_other) (simp add: freed_def)
  have "\<forall>j<NUM. vfree ?w j \<longleftrightarrow> j \<notin> set (used_descs v rs)"
    using v d(2) unfolding descs_ok_def e f by auto
  moreover have "distinct (used_descs v rs)" "\<forall>j\<in>set (used_descs v rs). j < NUM" "distinct (map snd rs)"
    "\<forall>(j, b)\<in>set rs. chain_ok v j" using v unfolding descs_ok_def e by auto
  ultimately have "descs_ok ?w rs" using u g unfolding descs_ok_def f(2) by auto
  then show thesis using w that [of ?w] by (simp add: freed_def)
qed

section \<open>The invariant\<close>

lemma ring_slot: "unat (x + of_nat k :: u16) mod NUM = (unat x + k) mod NUM"
proof -
  have "unat (x + of_nat k) = (unat x + k) mod 2 ^ 16" by (simp add: unat_word_ariths unat_of_nat take_bit_eq_mod mod_simps)
  then show ?thesis by (simp add: NUM_def mod_mod_cancel)
qed

lemma descs_ok_same:
  assumes d: "descs_ok v rs" and w: "vfree w = vfree v" "\<And>j. \<not> vfree v j \<Longrightarrow> desc w j = desc v j" "info_b w = info_b v"
  shows "descs_ok w rs"
proof -
  have "\<forall>j\<in>set (used_descs v rs). desc w j = desc v j" using d w(2) by (auto simp: descs_ok_def)
  from used_descs_cong [OF this] show ?thesis using d unfolding descs_ok_def w(1,3) by fastforce
qed

lemma same_busy_inv: "vinv v P D H \<Longrightarrow> same_busy v w \<Longrightarrow> vinv w P D H"
  using descs_ok_same [of v "P @ D @ H" w] by (simp add: vinv_def ring_ok_def same_busy_def)

lemma rw_begin_cases:
  assumes "vinv v P D H" "x \<notin> snd ` set (P @ D @ H)"
  obtains (submitted) i w where "rw_begin x n wr v = Ret (Some i, w)" "vinv w (P @ [(i, x)]) D H"
  | (full) w where "rw_begin x n wr v = Ret (None, w)" "vinv w P D H" "card {j \<in> {..<NUM}. vfree v j} < 3"
proof (cases rule: alloc3_cases [of v])
  case (got a b c)
  have d: "descs_ok v (P @ D @ H)" using assms by (simp add: vinv_def)
  let ?f = "(if wr then 0 else VRING_DESC_F_WRITE) OR VRING_DESC_F_NEXT"
  obtain w where w: "rw_begin x n wr v = Ret (Some a, w)" "vfree w = (vfree v)(a := False, b := False, c := False)"
    "desc w = (desc v)(a := \<lparr>d_addr = VOp a, d_len = 16, d_flags = VRING_DESC_F_NEXT, d_next = of_nat b\<rparr>,
        b := \<lparr>d_addr = VData x, d_len = of_nat BSIZE, d_flags = ?f, d_next = of_nat c\<rparr>,
        c := \<lparr>d_addr = VStatus a, d_len = 1, d_flags = VRING_DESC_F_WRITE, d_next = of_nat 0\<rparr>)"
    "info_b w = (info_b v)(a := Some x)" "info_status w = (info_status v)(a := 0xff)" "b_disk w = (b_disk v)(x := True)"
    "used_ring_idx w = used_ring_idx v" "used_ring w = used_ring v" "used_idx w = used_idx v"
    using got by (simp add: rw_begin_def set_desc_def)
  have "b < 2 ^ 16" "c < 2 ^ 16" using got(3) by (auto simp: NUM_def)
  then have e: "nx w a = b" "nx w b = c" "more w a" "more w b" "\<not> more w c"
    using got(2) by (auto simp: nx_def more_def w(3) unat_of_nat take_bit_nat_eq_self VRING_DESC_F_NEXT_def VRING_DESC_F_WRITE_def)
  have "descs_ok w ((a, x) # P @ D @ H)"
    by (rule descs_ok_add [OF d got(2,3) assms(2) w(2) _ _ _ w(4)]) (use e w(3) in \<open>auto simp: chain_def chain_ok_def\<close>)
  then have "descs_ok w ((P @ [(a, x)]) @ D @ H)" by (subst descs_ok_perm [of _ "(a, x) # P @ D @ H"]) auto
  moreover have "ring_ok w D"
  proof -
    have "fst (D ! k) \<noteq> a" if "k < length D" for k
      using descs_ok_head(2) [OF d, of "fst (D ! k)" "snd (D ! k)"] got(3) that nth_mem [OF that] by auto
    then show ?thesis using assms(1) by (simp add: vinv_def ring_ok_def w)
  qed
  moreover have "(i, x) \<notin> set (P @ D @ H)" for i using assms(2) by force
  ultimately have "vinv w (P @ [(a, x)]) D H" using assms(1) by (auto simp: vinv_def w(6))
  with w(1) show ?thesis by (rule submitted)
next
  case (full w)
  with assms same_busy_inv show ?thesis using that(2) by (simp add: rw_begin_def)
qed

lemma complete_inv:
  assumes v: "vinv v P D H" and r: "(i, b) \<in> set P"
  shows "vinv (complete i v) (remove1 (i, b) P) (D @ [(i, b)]) H"
proof -
  have d: "descs_ok v (P @ D @ H)" using v by (simp add: vinv_def)
  then have "descs_ok (complete i v) (P @ D @ H)" by (rule descs_ok_same) (simp_all add: complete_def)
  then have c: "descs_ok (complete i v) (remove1 (i, b) P @ (D @ [(i, b)]) @ H)"
    using r by (subst descs_ok_perm [of _ "P @ D @ H"]) auto
  have few: "length D < NUM" "i < NUM"
    using descs_ok_few [OF d] descs_ok_head(1) [OF d, of i b] r by (auto simp: NUM_def)
  have k: "unat (used_idx v + of_nat k) mod NUM \<noteq> unat (used_idx v + of_nat (length D)) mod NUM" if "k < length D" for k
    unfolding ring_slot using few(1) that mod_eq_dvd_iff_nat [of "unat (used_idx v) + k" "unat (used_idx v) + length D" NUM]
      nat_dvd_not_less [of "length D - k" NUM] by auto
  have i: "unat (of_nat i :: u32) = i" using few(2) by (simp add: NUM_def unat_of_nat take_bit_nat_eq_self)
  have R: "used_ring_idx v = used_idx v + of_nat (length D)" "k < length D \<Longrightarrow> info_status v (fst (D ! k)) = 0"
    "k < length D \<Longrightarrow> unat (used_ring v (unat (used_idx v + of_nat k) mod NUM)) = fst (D ! k)" for k
    using v by (simp_all add: vinv_def ring_ok_def)
  have "ring_ok (complete i v) (D @ [(i, b)])"
    unfolding ring_ok_def using R k i by (auto simp: complete_def nth_append less_Suc_eq)
  moreover have "set (remove1 (i, b) P @ D @ [(i, b)]) \<subseteq> set (P @ D)" using r set_remove1_subset [of "(i, b)" P] by auto
  ultimately show ?thesis using v c unfolding vinv_def by (auto simp: complete_def)
qed

lemma intr_ok:
  "ring_ok v D \<Longrightarrow> (\<forall>(i, b)\<in>set D. i < NUM \<and> info_b v i = Some b) \<Longrightarrow> length D < 2 ^ 16 \<Longrightarrow>
     virtio_disk_intr v = Ret (map snd D, v\<lparr>b_disk := (\<lambda>b. b_disk v b \<and> b \<notin> snd ` set D), used_idx := used_ring_idx v\<rparr>)"
proof (induction D arbitrary: v)
  case Nil
  then show ?case by (subst virtio_disk_intr.simps) (simp add: ring_ok_def)
next
  case (Cons r D)
  obtain i b where r: "r = (i, b)" by fastforce
  let ?v = "v\<lparr>b_disk := (b_disk v)(b := False), used_idx := used_idx v + 1\<rparr>"
  have "unat (of_nat (length (r # D)) :: u16) = length (r # D)"
    using Cons.prems(3) by (simp add: unat_of_nat take_bit_nat_eq_self del: of_nat_Suc)
  then have "(of_nat (length (r # D)) :: u16) \<noteq> 0" by (metis length_0_conv list.distinct(1) unat_0)
  then have n: "used_idx v \<noteq> used_ring_idx v"
    using Cons.prems(1) unfolding ring_ok_def by (metis add_cancel_right_right)
  have h: "unat (used_ring v (unat (used_idx v) mod NUM)) = i" "info_status v i = 0" "i < NUM" "info_b v i = Some b"
    using Cons.prems(1,2) r by (auto simp: ring_ok_def dest: spec [of _ 0])
  have "ring_ok ?v D" using Cons.prems(1) by (auto simp: ring_ok_def algebra_simps dest: spec [of _ "Suc _"])
  with Cons.prems(2,3) have "virtio_disk_intr ?v = Ret (map snd D, ?v\<lparr>b_disk := (\<lambda>c. b_disk ?v c \<and> c \<notin> snd ` set D), used_idx := used_ring_idx ?v\<rparr>)"
    by (intro Cons.IH) auto
  then show ?case using n h r by (subst virtio_disk_intr.simps) (auto simp: fun_eq_iff)
qed

lemma vinv_intr:
  assumes "vinv v P D H"
  obtains w where "virtio_disk_intr v = Ret (map snd D, w)" "vinv w P [] (H @ D)"
proof -
  let ?w = "v\<lparr>b_disk := (\<lambda>b. b_disk v b \<and> b \<notin> snd ` set D), used_idx := used_ring_idx v\<rparr>"
  have d: "descs_ok v (P @ D @ H)" using assms by (simp add: vinv_def)
  have "\<forall>(i, b)\<in>set D. i < NUM \<and> info_b v i = Some b" using descs_ok_head [OF d] by auto
  moreover have "length D < 2 ^ 16" using descs_ok_few [OF d] by (simp add: NUM_def)
  ultimately have i: "virtio_disk_intr v = Ret (map snd D, ?w)" using assms by (intro intr_ok) (simp add: vinv_def)
  have "descs_ok ?w (P @ D @ H)" using d by (rule descs_ok_same) simp_all
  then have "descs_ok ?w (P @ [] @ H @ D)" by (subst descs_ok_perm [of _ "P @ D @ H"]) auto
  moreover have "snd ` set P \<inter> snd ` set D = {}" using d by (auto simp: descs_ok_def)
  moreover have "(i, b) \<in> set D \<Longrightarrow> b \<in> snd ` set D" "(i, b) \<in> set P \<Longrightarrow> b \<in> snd ` set P" for i b by force+
  moreover have "(i, b) \<in> set P \<Longrightarrow> b_disk v b" "(i, b) \<in> set H \<Longrightarrow> \<not> b_disk v b" for i b
    using assms by (auto simp: vinv_def)
  ultimately have "vinv ?w P [] (H @ D)" unfolding vinv_def ring_ok_def by auto
  with i show thesis by (rule that)
qed

lemma vinv_end:
  assumes v: "vinv v P D H" and r: "(i, b) \<in> set H"
  obtains w where "rw_end b i v = Ret w" "vinv w P D (remove1 (i, b) H)"
proof -
  let ?R = "P @ D @ remove1 (i, b) H"
  have "descs_ok v (P @ D @ H)" using v by (simp add: vinv_def)
  then have d: "descs_ok v ((i, b) # ?R)" using r by (subst descs_ok_perm [of _ "P @ D @ H"]) auto
  have "((info_b v)(i := None)) j = Some c" if "(j, c) \<in> set ?R" for j c using descs_ok_tail [OF d that] by simp
  then have "\<forall>(j, c)\<in>set ?R. ((info_b v)(i := None)) j = Some c" by blast
  from free_chain_ok [OF d this] obtain w where w: "free_chain i (v\<lparr>info_b := (info_b v)(i := None)\<rparr>) = Ret w" "descs_ok w ?R"
    "used_ring_idx w = used_ring_idx v" "used_ring w = used_ring v" "used_idx w = used_idx v" "info_status w = info_status v"
    "b_disk w = b_disk v" by blast
  have "\<not> b_disk v b" using v r by (auto simp: vinv_def)
  moreover have "vinv w P D (remove1 (i, b) H)"
    using v w(2) set_remove1_subset [of "(i, b)" H] unfolding vinv_def ring_ok_def w(3-) by blast
  ultimately show thesis using w(1) that by (simp add: rw_end_def)
qed

lemma vruns_inv: "vruns v P D H \<Longrightarrow> vinv v P D H"
proof (induction rule: vruns.induct)
  case (start v)
  then show ?case by (simp add: vinv_def descs_ok_def ring_ok_def used_descs_def)
next
  case (submit v P D H b n w i v')
  from submit.IH submit.hyps(2) show ?case using submit.hyps(3) by (cases rule: rw_begin_cases [where n = n and wr = w]) auto
next
  case (no_room v P D H b n w v')
  from no_room.IH no_room.hyps(2) show ?case using no_room.hyps(3) by (cases rule: rw_begin_cases [where n = n and wr = w]) auto
next
  case (device v P D H r)
  then show ?case using complete_inv [of v P D H "fst r" "snd r"] by simp
next
  case (intr v P D H bs v')
  then show ?case using vinv_intr [OF intr.IH] by auto
next
  case (resume v P D H i b v')
  then show ?case using vinv_end [OF resume.IH, of i b] by auto
qed

section \<open>The property\<close>

text \<open>
  C11. Over every run of the disk driver, with a device that answers each request with status 0, in
  any order: the descriptors in use are exactly three for each request in flight, so none is lost
  or shared; the interrupt handler returns without a panic and wakes the buffers of exactly the
  completed requests; a process whose request is handled frees its chain without a panic, and a
  process whose request is not goes on sleeping.
\<close>

theorem virtio_requests_well_formed:
  assumes "vruns v P D H"
  shows "card {j \<in> {..<NUM}. \<not> vfree v j} = 3 * length (P @ D @ H) \<and>
    (\<exists>w. virtio_disk_intr v = Ret (map snd D, w)) \<and>
    (\<forall>(i, b)\<in>set H. \<exists>w. rw_end b i v = Ret w) \<and> (\<forall>(i, b)\<in>set (P @ D). rw_end b i v = Wait)"
proof -
  have v: "vinv v P D H" using assms by (rule vruns_inv)
  then have d: "descs_ok v (P @ D @ H)" by (simp add: vinv_def)
  then have "{j \<in> {..<NUM}. \<not> vfree v j} = set (used_descs v (P @ D @ H))" by (auto simp: descs_ok_def)
  moreover have "length (used_descs v rs) = 3 * length rs" for rs by (induction rs) (auto simp: used_descs_def chain_def)
  ultimately have "card {j \<in> {..<NUM}. \<not> vfree v j} = 3 * length (P @ D @ H)"
    using d distinct_card [of "used_descs v (P @ D @ H)"] by (simp add: descs_ok_def)
  moreover have "\<exists>w. virtio_disk_intr v = Ret (map snd D, w)" using vinv_intr [OF v] by blast
  moreover have "\<exists>w. rw_end b i v = Ret w" if "(i, b) \<in> set H" for i b using vinv_end [OF v that] by blast
  moreover have "rw_end b i v = Wait" if "(i, b) \<in> set (P @ D)" for i b using v that by (auto simp: vinv_def rw_end_def)
  ultimately show ?thesis by blast
qed

definition disk_idle :: vdisk where
  "disk_idle = \<lparr>desc = (\<lambda>_. \<lparr>d_addr = VNull, d_len = 0, d_flags = 0, d_next = 0\<rparr>), avail_idx = 0, avail_ring = (\<lambda>_. 0),
     used_ring_idx = 0, used_ring = (\<lambda>_. 0), vfree = (\<lambda>_. True), used_idx = 0, info_b = (\<lambda>_. None), info_status = (\<lambda>_. 0),
     ops = (\<lambda>_. \<lparr>r_write = False, r_sector = 0\<rparr>), b_disk = (\<lambda>_. False)\<rparr>"

theorem virtio_requests_well_formed_witness:
  "\<exists>v w i. rw_begin 5 33 False disk_idle = Ret (Some i, v) \<and> card {j \<in> {..<NUM}. \<not> vfree v j} = 3 \<and>
     rw_end 5 i v = Wait \<and> virtio_disk_intr (complete i v) = Ret ([5], w)"
proof -
  have s: "vruns disk_idle [] [] []" by (rule vruns.start) (simp_all add: disk_idle_def)
  have "{j \<in> {..<NUM}. vfree disk_idle j} = {..<NUM}" by (auto simp: disk_idle_def)
  then have f: "\<not> card {j \<in> {..<NUM}. vfree disk_idle j} < 3" by (simp add: NUM_def)
  obtain i v where b: "rw_begin 5 33 False disk_idle = Ret (Some i, v)"
    by (rule rw_begin_cases [OF vruns_inv [OF s], of 5 33 False]) (simp, blast, use f in blast)
  have r: "vruns v [(i, 5)] [] []" using vruns.submit [OF s _ b] by simp
  have c: "vruns (complete i v) [] [(i, 5)] []" using vruns.device [OF r, of "(i, 5)"] by simp
  obtain w where "virtio_disk_intr (complete i v) = Ret ([5], w)" using virtio_requests_well_formed [OF c] by auto
  moreover have "card {j \<in> {..<NUM}. \<not> vfree v j} = 3" "rw_end 5 i v = Wait" using virtio_requests_well_formed [OF r] by simp_all
  ultimately show ?thesis using b by blast
qed

end
