(* ===== verification/Kernel_Properties.thy ===== *)
theory Kernel_Properties
  imports Kernel_Steps Fs_Contents Virtio_Runs
begin

text \<open>
  What holds in every state the kernel reaches, from the invariant of the runs; the fairness of the
  scheduler's round; what a trace mask selects; a call of \<open>kill\<close> with identifier 0; and what \<open>exec\<close> leaves alone.
\<close>

section \<open>The first state\<close>

text \<open>The tables as the loader leaves them: zeroed, with \<open>nextpid = 1\<close>.\<close>

definition zeroed :: "kernel \<Rightarrow> bool" where
  "zeroed s \<longleftrightarrow> nextpid s = 1 \<and> (\<forall>i<NFILE. f_ref (ftable s i) = 0) \<and>
     (\<forall>p<NPROC. p_pid (procs s p) = 0 \<and> ofile (procs s p) = replicate NOFILE None)"

lemma procinit_loop_procs:
  "procs (procinit_loop n s) p =
     (if p < n then (procs s p)\<lparr>pstate := UNUSED, kstack := KSTACK p\<rparr> else procs s p)"
  "nextpid (procinit_loop n s) = nextpid s" "ftable (procinit_loop n s) = ftable s"
  by (induction n) (auto simp: upd_proc_def)

lemma procinit_inv: "zeroed s \<Longrightarrow> k_inv (\<lambda>_. 0) (procinit s)"
  by (auto simp: procinit_def zeroed_def k_inv_def files_ok_def pids_ok_def sleep_ok_def slots_def idle_def in_wait_def
      procinit_loop_procs)

lemma kruns_invD: "k_inv (\<lambda>_. 0) s \<Longrightarrow> kruns K s t \<Longrightarrow> files_ok (\<lambda>_. 0) t \<and> pids_ok t \<and> sleep_ok t"
  using system.runs_inv k_inv_def by blast

section \<open>A concrete kernel\<close>

text \<open>Process 0 runs; its child, process 1, is ready. Both have file 0 open.\<close>

definition proc_free :: proc where
  "proc_free = \<lparr>pstate = UNUSED, pchan = None, killed_flag = 0, xstate = 0, p_pid = 0, priority = 0, tracemask = 0,
     parent = None, kstack = 0, p_sz = 0, pagetable = 0, trapframe = 0, context_ra = 0, context_sp = 0,
     ofile = replicate 16 None, cwd = None, p_name = replicate 16 0, rtime = 0, ctime = 0, etime = 0\<rparr>"

definition file_free :: file_s where
  "file_free = \<lparr>f_type = FD_NONE, f_ref = 0, f_readable = False, f_writable = False, f_pipe = 0, f_ip = 0, f_off = 0, f_major = 0\<rparr>"

definition kern0 :: kernel where
  "kern0 = \<lparr>kfs = fs_img, km = cw_state, pipes = (\<lambda>_. pipe0),
     ftable = (\<lambda>_. file_free)(0 := file_free\<lparr>f_type := FD_DEVICE, f_ref := 2, f_readable := True, f_major := 1\<rparr>),
     procs = (\<lambda>_. proc_free)
       (0 := proc_free\<lparr>pstate := RUNNING, p_pid := 2, tracemask := 2 ^ 5, ofile := Some 0 # replicate 15 None\<rparr>,
        1 := proc_free\<lparr>pstate := RUNNABLE, p_pid := 4, parent := Some 0, ofile := Some 0 # replicate 15 None\<rparr>),
     ptable = (\<lambda>_. proc_free), nextpid = 5, ticks = 7, initproc = 0, con = cons0, console_out = [], devsw = (\<lambda>_. True),
     ku = uart0, kv = disk_idle, kernel_pagetable = 0\<rparr>"

definition image0 :: image where
  "image0 = \<lparr>kend = cw_end, trampoline = 0x80007000, forkret_pc = 0x80001000, etext = 0x80008000\<rparr>"

lemma kern0_procs:
  "procs kern0 p = (if p = 1 then proc_free\<lparr>pstate := RUNNABLE, p_pid := 4, parent := Some 0, ofile := Some 0 # replicate 15 None\<rparr>
     else if p = 0 then proc_free\<lparr>pstate := RUNNING, p_pid := 2, tracemask := 2 ^ 5, ofile := Some 0 # replicate 15 None\<rparr>
     else proc_free)"
  by (simp add: kern0_def)

lemma slots_kern0: "slots kern0 i = (if i = 0 then 2 else 0)"
proof -
  have "int (count_list (ofile (procs kern0 p)) (Some i)) =
    (if p = 0 then of_bool (i = 0) else 0) + (if p = 1 then of_bool (i = 0) else 0)" for p
    by (simp add: kern0_procs proc_free_def numeral_eq_Suc)
  then show ?thesis by (simp add: slots_def sum.distrib NPROC_def)
qed

lemma kern0_inv: "k_inv (\<lambda>_. 0) kern0"
proof -
  have "files_ok (\<lambda>_. 0) kern0"
    by (auto simp: files_ok_def slots_kern0 kern0_procs NOFILE_def NFILE_def idle_def proc_free_def)
      (auto simp: kern0_def file_free_def)
  moreover have "pids_ok kern0"
    by (simp add: pids_ok_def kern0_procs proc_free_def) (simp add: kern0_def)
  moreover have "sleep_ok kern0" by (simp add: sleep_ok_def kern0_procs in_wait_def zombie_child_def proc_free_def)
  ultimately show ?thesis by (simp add: k_inv_def)
qed

lemma kern0_child: "find_proc (\<lambda>x. parent x = Some 0) kern0 \<noteq> None"
proof -
  have "(1 :: nat) \<in> set [0..<NPROC]" "parent (procs kern0 1) = Some 0" by (simp_all add: NPROC_def kern0_procs)
  then show ?thesis unfolding find_proc_def by (auto simp only: find_None_iff)
qed

lemma kern0_wait: "wait image0 0 0 kern0 = Ret (WSleep, sleep_begin 0 (Proc_chan 0) kern0)"
proof -
  have "find_proc (zombie_child 0) kern0 = None"
    by (simp add: find_proc_def find_None_iff zombie_child_def kern0_procs proc_free_def)
  then show ?thesis using kern0_child by (simp add: wait_def killed_def kern0_procs proc_free_def)
qed

lemma kern0_runs: "kruns image0 kern0 (sleep_begin 0 (Proc_chan 0) kern0)"
  by (rule r_into_rtranclp, rule kstep.wait_on [OF _ _ kern0_wait]) (simp_all add: NPROC_def kern0_procs)

section \<open>Every reachable state\<close>



text \<open>
  C3. In every state the kernel reaches, the reference count of every entry of the file table is
  the number of descriptors, over all processes, that refer to it. So the entry of an open
  descriptor is never on offer to \<open>filealloc\<close> (its count is positive), an entry no descriptor refers
  to is free, and processes that are unused or zombies hold no descriptors.
\<close>

theorem file_reference_counts:
  assumes "k_inv (\<lambda>_. 0) s" "kruns K s t" "i < NFILE"
  shows "f_ref (ftable t i) = (\<Sum>p<NPROC. int (count_list (ofile (procs t p)) (Some i))) \<and>
    (\<forall>p<NPROC. Some i \<in> set (ofile (procs t p)) \<longrightarrow>
       0 < f_ref (ftable t i) \<and> pstate (procs t p) \<noteq> UNUSED \<and> pstate (procs t p) \<noteq> ZOMBIE)"
proof -
  have f: "files_ok (\<lambda>_. 0) t" using kruns_invD [OF assms(1,2)] by simp
  have "0 < slots t i" if "p < NPROC" "Some i \<in> set (ofile (procs t p))" for p
  proof -
    have "0 < int (count_list (ofile (procs t p)) (Some i))" using that(2) count_list_0_iff [of "ofile (procs t p)" "Some i"] by linarith
    also have "\<dots> \<le> slots t i" unfolding slots_def using that(1) by (intro member_le_sum) auto
    finally show ?thesis .
  qed
  then show ?thesis using f assms(3) by (fastforce simp: files_ok_def slots_def idle_def)
qed

theorem file_reference_counts_witness:
  "f_ref (ftable (sleep_begin 0 (Proc_chan 0) kern0) 0) = 2 \<and>
   (\<Sum>p<NPROC. int (count_list (ofile (procs (sleep_begin 0 (Proc_chan 0) kern0) p)) (Some 0))) = 2"
  using file_reference_counts [OF kern0_inv kern0_runs, of 0] by (simp add: NFILE_def sleep_begin_def upd_proc_def kern0_def)

text \<open>
  C5. No exit is missed: in every state the kernel reaches, a process asleep in \<open>wait\<close> or \<open>waitx\<close>
  has no child that is a zombie. The wake-up of \<open>exit\<close> and that of \<open>reparent\<close> cannot be lost
  between the parent's look at the process table and its going to sleep.
\<close>

theorem wait_misses_no_exit:
  assumes "k_inv (\<lambda>_. 0) s" "kruns K s t" "p < NPROC" "pstate (procs t p) = SLEEPING" "pchan (procs t p) = Some (Proc_chan p)"
    and "c < NPROC" "parent (procs t c) = Some p"
  shows "pstate (procs t c) \<noteq> ZOMBIE"
  using kruns_invD [OF assms(1,2)] assms(3-) by (auto simp: sleep_ok_def in_wait_def zombie_child_def)

theorem wait_misses_no_exit_witness:
  "pstate (procs (sleep_begin 0 (Proc_chan 0) kern0) 0) = SLEEPING \<and> parent (procs (sleep_begin 0 (Proc_chan 0) kern0) 1) = Some 0 \<and>
   pstate (procs (sleep_begin 0 (Proc_chan 0) kern0) 1) \<noteq> ZOMBIE"
  using wait_misses_no_exit [OF kern0_inv kern0_runs, of 0 1]
  by (simp add: NPROC_def sleep_begin_def upd_proc_def kern0_procs)

section \<open>The scheduler\<close>

lemma sched_round_ran: "distinct ps \<Longrightarrow> distinct (snd (sched_round run ps s)) \<and> set (snd (sched_round run ps s)) \<subseteq> set ps"
proof (induction ps arbitrary: s)
  case (Cons p ps)
  then have "distinct (snd (sched_round run ps t)) \<and> set (snd (sched_round run ps t)) \<subseteq> set ps" for t by simp
  with Cons.prems show ?case by (simp add: Let_def case_prod_beta) blast
qed simp

lemma sched_round_runs:
  assumes keep: "\<And>p q s. q \<noteq> p \<Longrightarrow> pstate (procs s q) = RUNNABLE \<Longrightarrow> pstate (procs (run p s) q) = RUNNABLE"
  shows "q \<in> set ps \<Longrightarrow> pstate (procs s q) = RUNNABLE \<Longrightarrow> q \<in> set (snd (sched_round run ps s))"
proof (induction ps arbitrary: s)
  case (Cons p ps)
  let ?u = "run p (upd_proc p (\<lambda>x. x\<lparr>pstate := RUNNING\<rparr>) s)"
  show ?case
  proof (cases "q = p")
    case False
    then have "q \<in> set (snd (sched_round run ps s))" "pstate (procs ?u q) = RUNNABLE" using Cons keep by (auto simp: upd_proc_def)
    moreover from this have "q \<in> set (snd (sched_round run ps ?u))" using False Cons by auto
    ultimately show ?thesis by (simp add: Let_def case_prod_beta)
  qed (use Cons.prems in \<open>simp add: Let_def case_prod_beta\<close>)
qed simp



section \<open>System call tracing\<close>

lemma print_longer: "print f a s = Ret t \<Longrightarrow> length (console_out s) \<le> length (console_out t)"
  by (cases "kprintf f a") (auto simp: print_def)

lemma print_char_longer: "c \<noteq> 0 \<Longrightarrow> c \<noteq> 37 \<Longrightarrow> print (c # f) a s = Ret t \<Longrightarrow> length (console_out s) < length (console_out t)"
  by (cases f; cases "kprintf f a"; cases "kprintf (c # f) a") (auto simp: print_def rbind_eq_Ret)

lemma print_args_longer: "print_args cur is s = Ret t \<Longrightarrow> length (console_out s) \<le> length (console_out t)"
proof (induction "is" arbitrary: s)
  case (Cons i "is")
  then obtain u v where "print (str ''%d '') [PInt u] s = Ret v" "print_args cur is v = Ret t"
    by (auto simp: rbind_eq_Ret)
  then show ?case using print_longer Cons.IH le_trans by blast
qed simp

lemma traced: "trace_call cur num s = Ret t \<Longrightarrow> drop_bit (nat num) (tracemask (procs s cur)) \<noteq> 0 \<Longrightarrow>
    length (console_out s) < length (console_out t)"
proof -
  assume "trace_call cur num s = Ret t" "drop_bit (nat num) (tracemask (procs s cur)) \<noteq> 0"
  then obtain a u v f where "print f a s = Ret u" "print_args cur [0..<syscallNos ! nat num] u = Ret v"
    "print (str '') -> %d'' @ [10]) [PInt (sint (ucast (tf_get cur TF_a0 v) :: u32))] v = Ret t"
    by (auto simp: trace_call_def Let_def rbind_eq_Ret split: if_splits)
  then show ?thesis using print_longer [of f a s u] print_args_longer [of cur _ u v]
    print_char_longer [of 41 _ _ v t] by (fastforce simp: str_def of_char_def)
qed

text \<open>
  C35. What a trace mask selects: with the mask \<open>1 << k\<close>, the output after a system call is silent
  exactly for the calls numbered above \<open>k\<close>. The test \<open>tracemask >> num\<close> does not look at the single
  bit of the call, so every call with a smaller number is reported too (or, for a number with no
  entry in the tables, reads outside them).
\<close>

theorem trace_mask_selects:
  assumes "tracemask (procs s cur) = 2 ^ k" "0 \<le> num" "num < 32"
  shows "trace_call cur num s = Ret s \<longleftrightarrow> int k < num"
proof -
  have "drop_bit (nat num) (2 ^ k :: int) = 0 \<longleftrightarrow> k < nat num"
    by (auto simp: drop_bit_eq_div zdiv_eq_0_iff)
  moreover have "\<not> trace_call cur num s = Ret s" if "drop_bit (nat num) (tracemask (procs s cur)) \<noteq> 0"
    using traced [OF _ that, of s] by auto
  ultimately show ?thesis using assms by (auto simp: trace_call_def Let_def)
qed

theorem trace_mask_selects_witness:
  "trace_call 0 11 kern0 = Ret kern0 \<and> trace_call 0 1 kern0 \<noteq> Ret kern0"
  using trace_mask_selects [of kern0 0 5 11] trace_mask_selects [of kern0 0 5 1] by (simp add: kern0_procs)

section \<open>Killing process 0\<close>

lemma find_proc_cong: "(\<And>p. p < NPROC \<Longrightarrow> P (procs s p) = Q (procs t p)) \<Longrightarrow> find_proc P s = find_proc Q t"
  unfolding find_proc_def by (rule find_cong) auto

lemma free_pid: "k_inv E s \<Longrightarrow> p < NPROC \<Longrightarrow> (p_pid (procs s p) = 0) = (pstate (procs s p) = UNUSED)"
  by (auto simp: k_inv_def pids_ok_def split: if_splits)


lemma find_Suc: "find P [m..<n] = (if m < n then if P m then Some m else find P [Suc m..<n] else None)"
  by (simp add: upt_conv_Cons)


section \<open>Failing exec\<close>

text \<open>The parts of the state that only a successful \<open>exec\<close> changes.\<close>

definition tables :: "kernel \<Rightarrow> (nat \<Rightarrow> proc) \<times> (nat \<Rightarrow> file_s) \<times> (u64 \<Rightarrow> pipe) \<times> int" where
  "tables s = (procs s, ftable s, pipes s, nextpid s)"

named_theorems tabs

lemma tabs_ops [tabs]:
  "tables s = T \<Longrightarrow> all_ret (\<lambda>(a, t). tables t = T) (on_km f s)" "tables s = T \<Longrightarrow> all_ret (\<lambda>t. tables t = T) (do_km g s)"
  "tables s = T \<Longrightarrow> all_ret (\<lambda>(a, t). tables t = T) (on_fs h s)" "tables s = T \<Longrightarrow> all_ret (\<lambda>t. tables t = T) (do_fs k s)"
  "tables s = T \<Longrightarrow> all_ret (\<lambda>t. tables t = T) (do_log l s)"
  by (auto simp: all_ret_def on_km_def do_km_def on_fs_def do_fs_def do_log_def tables_def result_simps)

lemma tabs_bind:
  "all_ret (\<lambda>(a, t). tables t = T) m \<Longrightarrow> (\<And>a t. tables t = T \<Longrightarrow> all_ret Q (f (a, t))) \<Longrightarrow> all_ret Q (rbind m f)"
  "all_ret (\<lambda>t. tables t = T) n \<Longrightarrow> (\<And>t. tables t = T \<Longrightarrow> all_ret Q (g t)) \<Longrightarrow> all_ret Q (rbind n g)"
  by (auto simp: all_ret_def result_simps)

lemma tabs_Ret: "tables s = T \<Longrightarrow> all_ret (\<lambda>(a, t). tables t = T) (Ret (a, s))"
  by simp

lemma tabs_read [tabs]:
  "tables s = T \<Longrightarrow> all_ret (\<lambda>(a, t). tables t = T) (readi_local cur ip off n s)"
  "tables s = T \<Longrightarrow> all_ret (\<lambda>(a, t). tables t = T) (readi_kernel K cur ip dst off m s)"
  by (auto simp: all_ret_def readi_local_def readi_kernel_def tables_def result_simps)

lemmas tabs_struct = tabs_bind tabs_Ret all_ret_if all_ret_option all_ret_pair all_ret_pair2 value_bind

lemma tabs_loadseg [tabs]: "tables s = T \<Longrightarrow> all_ret (\<lambda>(a, t). tables t = T) (loadseg_loop n K cur pt va ip off sz i s)"
proof (induction n arbitrary: s i)
  case (Suc n)
  show ?case unfolding loadseg_loop.simps by (simp only: prod.case Let_def | rule tabs_struct tabs Suc | assumption | simp)+
qed simp

lemma tabs_exec_bad [tabs]: "tables s = T \<Longrightarrow> all_ret (\<lambda>(a, t). tables t = T) (exec_bad K cur pt sz ip s)"
  unfolding exec_bad_def by (simp only: prod.case Let_def | rule tabs_struct tabs | assumption | simp)+

lemma tabs_exec_load [tabs]: "tables s = T \<Longrightarrow> all_ret (\<lambda>(a, t). tables t = T) (exec_load k K cur pt ip off sz s)"
proof (induction k arbitrary: s off sz)
  case (Suc k)
  show ?case unfolding exec_load.simps loadseg_def
    by (insert Suc.prems, (assumption | simp only: prod.case Let_def | rule tabs_struct tabs Suc.IH)+)
qed simp

text \<open>What \<open>exec\<close> may do to the tables: nothing, or replace the image of the current process.\<close>

definition exec_done :: "nat \<Rightarrow> kernel \<Rightarrow> int \<times> kernel \<Rightarrow> bool" where
  "exec_done cur s = (\<lambda>(r, t). if r < 0 then tables t = tables s
     else \<exists>name pt sz. tables t = ((procs s)(cur := (procs s cur)\<lparr>p_name := name, pagetable := pt, p_sz := sz, priority := 20\<rparr>),
       ftable s, pipes s, nextpid s))"

lemma exec_fails: "tables t = tables s \<Longrightarrow> all_ret (exec_done cur s) (exec_bad K cur pt sz ip t)"
  unfolding exec_bad_def exec_done_def
  by (simp only: prod.case Let_def | rule tabs_bind tabs all_ret_if all_ret_option | assumption | simp)+

lemma exec_stack_done: "tables t = tables s \<Longrightarrow> all_ret (exec_done cur s) (exec_stack K cur path argv elf pt sz t)"
proof -
  have fin: "all_ret (exec_done cur s) (rbind (do_km (proc_freepagetable K o1 o2) (upd_proc cur (\<lambda>x. x\<lparr>priority := 20\<rparr>)
      (tf_set cur TF_sp sp (tf_set cur TF_epc e (upd_proc cur (\<lambda>x. x\<lparr>pagetable := pt, p_sz := z\<rparr>)
      (upd_proc cur (\<lambda>x. x\<lparr>p_name := f x\<rparr>) (tf_set cur TF_a1 sp u))))))) (\<lambda>s. Ret (int n, s)))"
    if "tables u = tables s" for o1 o2 sp e z f u n
  proof (rule tabs_bind(2) [OF tabs_ops(2) [OF refl]])
    fix v
    assume "tables v = tables (upd_proc cur (\<lambda>x. x\<lparr>priority := 20\<rparr>)
      (tf_set cur TF_sp sp (tf_set cur TF_epc e (upd_proc cur (\<lambda>x. x\<lparr>pagetable := pt, p_sz := z\<rparr>)
      (upd_proc cur (\<lambda>x. x\<lparr>p_name := f x\<rparr>) (tf_set cur TF_a1 sp u))))))"
    then have "tables v = ((procs s)(cur := (procs s cur)\<lparr>p_name := f (procs s cur), pagetable := pt, p_sz := z, priority := 20\<rparr>),
       ftable s, pipes s, nextpid s)" using that by (simp add: tables_def upd_proc_def tf_set_def)
    then show "all_ret (exec_done cur s) (Ret (int n, v))" unfolding exec_done_def all_ret_simps by auto
  qed
  assume "tables t = tables s"
  then show ?thesis unfolding exec_stack_def
    by - (assumption | simp only: prod.case Let_def | rule fin exec_fails tabs_bind tabs all_ret_if all_ret_option all_ret_pair all_ret_pair2 all_ret_simps)+
qed

lemma exec_done: "all_ret (exec_done cur s) (exec K cur path argv s)"
proof -
  have r: "tables s = tables s" ..
  have f: "all_ret (exec_done cur s) (Ret (- 1, t))" if "tables t = tables s" for t using that by (simp add: exec_done_def)
  show ?thesis unfolding exec_def
    by (insert r, (assumption | simp only: prod.case Let_def
      | rule f exec_stack_done exec_fails tabs_bind tabs all_ret_if all_ret_option all_ret_pair all_ret_pair2 value_bind)+)
qed


definition kern1 :: kernel where
  "kern1 = upd_proc 0 (\<lambda>x. x\<lparr>cwd := Some 0\<rparr>) kern0"

lemma namei_not_dir:
  assumes "i_ref (itable f 0) = 1" "i_lock (itable f 0) = initsleeplock" "i_valid (itable f 0) = 1" "i_type (itable f 0) \<noteq> T_DIR"
  shows "\<exists>g. namei 2 0 [97] f = Ret (None, g) \<and> fl g = fl f"
proof -
  have "skipelem [97] = Some ([], [97])" by (simp add: skipelem_def chd_def DIRSIZ_def)
  then show ?thesis using assms
    by (simp add: namei_def namex_def chd_def idup_def namex_loop.simps ilock_def iunlockput_def iunlock_def iput_def upd_inode_def
        acquiresleep_def releasesleep_def holdingsleep_def initsleeplock_def)
qed

lemma kern1_exec: "\<exists>t. exec image0 0 [97] [] kern1 = Ret (- 1, t)"
proof -
  let ?l = "(fl fs_img)\<lparr>lg := log_zero\<lparr>outstanding := 2\<rparr>\<rparr>"
  have b: "begin_op (fl fs_img) = Ret ?l"
    by (simp add: begin_op_def fs_img_def log_zero_def MAXOPBLOCKS_def LOGSIZE_def)
  obtain g where g: "namei 2 0 [97] (fs_img\<lparr>fl := ?l\<rparr>) = Ret (None, g)" "fl g = ?l"
    using namei_not_dir [of "fs_img\<lparr>fl := ?l\<rparr>"] by (auto simp: fs_img_def file_new_def T_DIR_def)
  have e: "\<exists>l. end_op 2 ?l = Ret l" by (simp add: end_op_def log_zero_def)
  have k: "kfs kern1 = fs_img" "cwd (procs kern1 0) = Some 0" "p_pid (procs kern1 0) = 2"
    by (simp_all add: kern1_def upd_proc_def kern0_procs) (simp add: kern0_def)
  show ?thesis using b g e by (auto simp: exec_def cur_cwd_def do_log_def on_fs_def k cur_pid_def)
qed


end
