(* ===== verification/Start.thy ===== *)
theory Start
  imports Riscv
begin

text \<open>
  kernel/start.c, machine mode: the control registers as \<open>start\<close> leaves them before \<open>mret\<close>. \<open>main\<close>, \<open>timervec\<close>
  and the array \<open>timer_scratch\<close> are given by their addresses; the registers of the timer are memory
  words of the device.
\<close>

definition MSTATUS_MPP_MASK :: u64 where "MSTATUS_MPP_MASK = push_bit 11 3"

definition MSTATUS_MPP_S :: u64 where "MSTATUS_MPP_S = push_bit 11 1"

definition MSTATUS_MIE :: u64 where "MSTATUS_MIE = push_bit 3 1"

definition SIE_SEIE :: u64 where "SIE_SEIE = push_bit 9 1"

definition SIE_STIE :: u64 where "SIE_STIE = push_bit 5 1"

definition SIE_SSIE :: u64 where "SIE_SSIE = push_bit 1 1"

definition MIE_MTIE :: u64 where "MIE_MTIE = push_bit 7 1"

definition CLINT :: u64 where "CLINT = 0x2000000"

definition CLINT_MTIMECMP :: "u64 \<Rightarrow> u64" where "CLINT_MTIMECMP hartid = CLINT + 0x4000 + 8 * hartid"

definition CLINT_MTIME :: u64 where "CLINT_MTIME = CLINT + 0xBFF8"

record mregs =
  mstatus :: u64
  mepc :: u64
  m_satp :: u64
  medeleg :: u64
  mideleg :: u64
  m_sie :: u64
  pmpaddr0 :: u64
  pmpcfg0 :: u64
  mhartid :: u64
  tp :: u64
  mscratch :: u64
  mtvec :: u64
  mie :: u64
  word :: "u64 \<Rightarrow> u64"

text \<open>\<open>scr\<close> is the address of \<open>timer_scratch[id]\<close>.\<close>

definition timerinit :: "u64 \<Rightarrow> u64 \<Rightarrow> mregs \<Rightarrow> mregs" where
  "timerinit timervec scr r =
     (let i = mhartid r; interval = 1000000;
          r = r\<lparr>word := (word r)(CLINT_MTIMECMP i := word r CLINT_MTIME + interval)\<rparr>;
          r = r\<lparr>word := (word r)(scr + 24 := CLINT_MTIMECMP i, scr + 32 := interval)\<rparr>;
          r = r\<lparr>mscratch := scr, mtvec := timervec\<rparr>;
          r = r\<lparr>mstatus := mstatus r OR MSTATUS_MIE\<rparr>
      in r\<lparr>mie := mie r OR MIE_MTIE\<rparr>)"

definition start :: "u64 \<Rightarrow> u64 \<Rightarrow> u64 \<Rightarrow> mregs \<Rightarrow> mregs" where
  "start main timervec scr r =
     (let x = mstatus r; x = x AND NOT MSTATUS_MPP_MASK; x = x OR MSTATUS_MPP_S;
          r = r\<lparr>mstatus := x, mepc := main, m_satp := 0, medeleg := 0xffff, mideleg := 0xffff\<rparr>;
          r = r\<lparr>m_sie := m_sie r OR SIE_SEIE OR SIE_STIE OR SIE_SSIE\<rparr>;
          r = r\<lparr>pmpaddr0 := 0x3fffffffffffff, pmpcfg0 := 0xf\<rparr>;
          r = timerinit timervec scr r
      in r\<lparr>tp := mhartid r\<rparr>)"

text \<open>
  After \<open>start\<close>, \<open>mret\<close> enters \<open>main\<close> in supervisor mode with paging off, the timer interrupt is armed
  and enabled in machine mode, and \<open>tp\<close> holds the number of the CPU.
\<close>

lemma start_enters_main:
  assumes "CLINT_MTIMECMP (mhartid r) \<notin> {scr + 24, scr + 32}"
  shows "mstatus (start main tv scr r) AND MSTATUS_MPP_MASK = MSTATUS_MPP_S"
    "mstatus (start main tv scr r) AND MSTATUS_MIE \<noteq> 0" "mie (start main tv scr r) AND MIE_MTIE \<noteq> 0"
    "mepc (start main tv scr r) = main" "m_satp (start main tv scr r) = 0" "tp (start main tv scr r) = mhartid r"
    "word (start main tv scr r) (CLINT_MTIMECMP (mhartid r)) = word r CLINT_MTIME + 1000000"
proof -
  have m: "mstatus (start main tv scr r) = (mstatus r AND NOT MSTATUS_MPP_MASK OR MSTATUS_MPP_S) OR MSTATUS_MIE"
    "mie (start main tv scr r) = mie r OR MIE_MTIE"
    by (simp_all add: start_def timerinit_def Let_def)
  have c: "MSTATUS_MPP_S AND MSTATUS_MPP_MASK = MSTATUS_MPP_S" "MSTATUS_MIE AND MSTATUS_MPP_MASK = 0"
    "(mstatus r AND NOT MSTATUS_MPP_MASK) AND MSTATUS_MPP_MASK = 0"
    by (simp_all add: MSTATUS_MPP_MASK_def MSTATUS_MPP_S_def MSTATUS_MIE_def and.assoc)
  show "mstatus (start main tv scr r) AND MSTATUS_MPP_MASK = MSTATUS_MPP_S" unfolding m
    unfolding bit.conj_disj_distrib2 c by simp
  have "bit (mstatus (start main tv scr r) AND MSTATUS_MIE) 3" "bit (mie (start main tv scr r) AND MIE_MTIE) 7"
    unfolding m by (simp_all add: bit_simps MSTATUS_MIE_def MIE_MTIE_def)
  then show "mstatus (start main tv scr r) AND MSTATUS_MIE \<noteq> 0" "mie (start main tv scr r) AND MIE_MTIE \<noteq> 0" by auto
qed (use assms in \<open>simp_all add: start_def timerinit_def Let_def\<close>)

end
