(* ===== verification/Grep.thy ===== *)
theory Grep
  imports Fs
begin

text \<open>
  The program user/grep.c: the matcher for patterns with \<open>^\<close>, \<open>.\<close>, \<open>*\<close> and \<open>$\<close>, and the loop that
  filters the lines of a file through a buffer of 1024 bytes. A string is the list of its bytes up
  to the terminating zero. The system call \<open>read\<close> is a parameter.
\<close>

section \<open>The matcher\<close>

lemma chd_length: "chd xs \<noteq> 0 \<Longrightarrow> length (tl xs) < length xs"
  by (cases xs) (auto simp: chd_def)

function (sequential) matchhere :: "u8 list \<Rightarrow> u8 list \<Rightarrow> bool" and matchstar :: "u8 \<Rightarrow> u8 list \<Rightarrow> u8 list \<Rightarrow> bool" where
  "matchhere re text =
     (if chd re = 0 then True
      else if chd (tl re) = 42 then matchstar (chd re) (tl (tl re)) text
      else if chd re = 36 \<and> chd (tl re) = 0 then chd text = 0
      else if chd text \<noteq> 0 \<and> (chd re = 46 \<or> chd re = chd text) then matchhere (tl re) (tl text)
      else False)"
| "matchstar c re text =
     (if matchhere re text then True
      else if chd text \<noteq> 0 \<and> (chd text = c \<or> c = 46) then matchstar c re (tl text)
      else False)"
  by pat_completeness auto
termination
  by (relation "inv_image (less_than <*lex*> less_than <*lex*> less_than)
       (case_sum (\<lambda>(re, text). (length re, length text, 0)) (\<lambda>(c, re, text). (length re, length text, 1 :: nat)))")
     (auto simp del: length_tl intro: chd_length less_trans [OF chd_length chd_length])

declare matchhere.simps [simp del] matchstar.simps [simp del]

primrec match_from :: "u8 list \<Rightarrow> u8 list \<Rightarrow> bool" where
  "match_from re [] = matchhere re []"
| "match_from re (c # text) = (if matchhere re (c # text) then True else if c \<noteq> 0 then match_from re text else False)"

definition match :: "u8 list \<Rightarrow> u8 list \<Rightarrow> bool" where
  "match re text = (if chd re = 94 then matchhere (tl re) text else match_from re text)"

section \<open>The loop over the lines\<close>

text \<open>
  The inner loop on the bytes from \<open>p\<close> on: the bytes written, and those from the last \<open>p\<close> on. \<open>strchr\<close>
  stops at a zero byte.
\<close>

function grep_lines :: "u8 list \<Rightarrow> u8 list \<Rightarrow> u8 list \<times> u8 list" where
  "grep_lines pattern p =
     (let l = takeWhile (\<lambda>c. c \<noteq> 10 \<and> c \<noteq> 0) p; q = dropWhile (\<lambda>c. c \<noteq> 10 \<and> c \<noteq> 0) p in
      if chd q = 10 then
        let (out, r) = grep_lines pattern (tl q) in ((if match pattern l then l @ [10] else []) @ out, r)
      else ([], p))"
  by pat_completeness auto
termination
proof (relation "measure (\<lambda>(pattern, p). length p)", simp, simp)
  fix p :: "u8 list"
  assume "chd (dropWhile (\<lambda>c. c \<noteq> 10 \<and> c \<noteq> 0) p) = 10"
  then have "length (tl (dropWhile (\<lambda>c. c \<noteq> 10 \<and> c \<noteq> 0) p)) < length (dropWhile (\<lambda>c. c \<noteq> 10 \<and> c \<noteq> 0) p)"
    by (intro chd_length) simp
  then show "length (dropWhile (\<lambda>c. c \<noteq> 10 \<and> c \<noteq> 0) p) - Suc 0 < length p"
    using length_dropWhile_le [of "\<lambda>c. c \<noteq> 10 \<and> c \<noteq> 0" p] by simp
qed

declare grep_lines.simps [simp del]

text \<open>
  \<open>read f n\<close> is the bytes read, at most \<open>n\<close>, or \<open>None\<close> for an error, and the file afterwards. \<open>buf\<close>
  are the \<open>m\<close> bytes kept from before. The fuel bounds the number of reads.
\<close>

primrec grep :: "nat \<Rightarrow> ('f \<Rightarrow> nat \<Rightarrow> u8 list option \<times> 'f) \<Rightarrow> u8 list \<Rightarrow> u8 list \<Rightarrow> 'f \<Rightarrow> (u8 list \<times> 'f) option" where
  "grep 0 read pattern buf f = None"
| "grep (Suc n) read pattern buf f =
     (case read f (1023 - length buf) of
        (None, f) \<Rightarrow> Some ([], f)
      | (Some bs, f) \<Rightarrow>
          if bs = [] then Some ([], f)
          else
            let (out, buf) = grep_lines pattern (buf @ bs)
            in map_option (\<lambda>(out2, f). (out @ out2, f)) (grep n read pattern buf f))"

section \<open>What a pattern means\<close>

datatype item = Once u8 | Star u8 | Eol

fun items :: "u8 list \<Rightarrow> item list" where
  "items [] = []"
| "items [c] = (if c = 36 then [Eol] else [Once c])"
| "items (c # d # re) = (if d = 42 then Star c # items re else Once c # items (d # re))"

definition accepts :: "u8 \<Rightarrow> u8 \<Rightarrow> bool" where "accepts p c \<longleftrightarrow> p = 46 \<or> p = c"

text \<open>The items match the text up to the rest.\<close>

inductive consumes :: "item list \<Rightarrow> u8 list \<Rightarrow> u8 list \<Rightarrow> bool" where
  empty: "consumes [] t t"
| once: "accepts p c \<Longrightarrow> consumes is t r \<Longrightarrow> consumes (Once p # is) (c # t) r"
| star: "(\<forall>c\<in>set pre. accepts p c) \<Longrightarrow> consumes is t r \<Longrightarrow> consumes (Star p # is) (pre @ t) r"
| eol: "consumes is [] r \<Longrightarrow> consumes (Eol # is) [] r"

inductive_simps consumes_simps: "consumes [] t r" "consumes (Once p # is) t r" "consumes (Star p # is) t r" "consumes (Eol # is) t r"

lemma chd_simps [simp]: "chd [] = 0" "chd (c # t) = c"
  by (simp_all add: chd_def)

definition here :: "item list \<Rightarrow> u8 list \<Rightarrow> bool" where "here is t \<longleftrightarrow> (\<exists>r. consumes is t r)"

lemma here_simps:
  "here [] t" "here (Eol # is) t \<longleftrightarrow> t = [] \<and> here is []"
  "here (Once p # is) t \<longleftrightarrow> (\<exists>c u. t = c # u \<and> accepts p c \<and> here is u)"
  by (auto simp: here_def consumes_simps)

lemma here_star: "here (Star p # is) t \<longleftrightarrow> here is t \<or> (\<exists>c u. t = c # u \<and> accepts p c \<and> here (Star p # is) u)"
proof -
  have "here (Star p # is) t \<longleftrightarrow> (\<exists>pre u. t = pre @ u \<and> (\<forall>c\<in>set pre. accepts p c) \<and> here is u)" for t
    by (auto simp: here_def consumes_simps)
  note s = this
  show ?thesis
  proof
    assume "here (Star p # is) t"
    then obtain pre u where "t = pre @ u" "\<forall>c\<in>set pre. accepts p c" "here is u" using s by blast
    then show "here is t \<or> (\<exists>c u. t = c # u \<and> accepts p c \<and> here (Star p # is) u)"
      unfolding s by (cases pre) auto
  next
    assume "here is t \<or> (\<exists>c u. t = c # u \<and> accepts p c \<and> here (Star p # is) u)"
    then show "here (Star p # is) t"
    proof
      assume "here is t" then show ?thesis unfolding s by (intro exI [of _ "[]"] exI [of _ t]) simp
    next
      assume "\<exists>c u. t = c # u \<and> accepts p c \<and> here (Star p # is) u"
      then obtain c u pre v where "t = c # pre @ v" "accepts p c" "\<forall>c\<in>set pre. accepts p c" "here is v" using s by blast
      then show ?thesis unfolding s by (intro exI [of _ "c # pre"] exI [of _ v]) simp
    qed
  qed
qed

lemma matches_here:
  "0 \<notin> set re \<Longrightarrow> 0 \<notin> set tx \<Longrightarrow> matchhere re tx \<longleftrightarrow> here (items re) tx"
  "0 \<notin> set re \<Longrightarrow> 0 \<notin> set tx \<Longrightarrow> c \<noteq> 0 \<Longrightarrow> matchstar c re tx \<longleftrightarrow> here (Star c # items re) tx"
proof (induction re tx and c re tx rule: matchhere_matchstar.induct)
  case (1 re tx)
  then show ?case
    by (cases re rule: items.cases; cases tx) (auto simp: matchhere.simps here_simps accepts_def)
next
  case (2 c re tx)
  then show ?case
    by (cases tx) (auto simp: matchstar.simps here_star [of c "items re" "_ # _"] here_star [of c "items re" "[]"] accepts_def)
qed

lemma match_from_iff: "0 \<notin> set re \<Longrightarrow> 0 \<notin> set tx \<Longrightarrow> match_from re tx \<longleftrightarrow> (\<exists>pre t. tx = pre @ t \<and> here (items re) t)"
proof (induction tx)
  case (Cons c tx)
  then show ?case using matches_here(1) [of re "c # tx"] by (auto simp: Cons_eq_append_conv)
qed (simp add: matches_here)

text \<open>
  C20. The matcher decides exactly the language of the pattern: \<open>match\<close> holds if and only if the
  items of the pattern (a byte or \<open>.\<close>, possibly repeated by \<open>*\<close>, and \<open>$\<close> at the end) match some
  stretch of the text, which starts at its beginning when the pattern starts with \<open>^\<close>.
\<close>

theorem match_language:
  assumes "0 \<notin> set re" "0 \<notin> set tx"
  shows "match re tx \<longleftrightarrow>
    (if chd re = 94 then \<exists>rest. consumes (items (tl re)) tx rest
     else \<exists>pre t rest. tx = pre @ t \<and> consumes (items re) t rest)"
  using assms matches_here(1) [of "tl re" tx] match_from_iff [OF assms]
  by (cases re) (auto simp: match_def here_def)

theorem match_language_witness:
  "match [98, 46, 42, 100, 36] [97, 98, 99, 99, 100] \<and>
   (\<exists>pre t rest. [97, 98, 99, 99, 100] = pre @ t \<and> consumes (items [98, 46, 42, 100, 36]) t rest)"
proof -
  have "match [98, 46, 42, 100, 36] [97, 98, 99, 99, 100]" by (simp add: match_def matchhere.simps matchstar.simps)
  then show ?thesis using match_language [of "[98, 46, 42, 100, 36]" "[97, 98, 99, 99, 100]"] by simp
qed

section \<open>Filtering a file\<close>

text \<open>The complete lines of a file, without their newlines, and what follows the last newline.\<close>

primrec lines_of :: "u8 list \<Rightarrow> u8 list list \<times> u8 list" where
  "lines_of [] = ([], [])"
| "lines_of (c # xs) =
     (let (ls, r) = lines_of xs in
      if c = 10 then ([] # ls, r) else case ls of [] \<Rightarrow> ([], c # r) | l # ls \<Rightarrow> ((c # l) # ls, r))"

definition filtered :: "u8 list \<Rightarrow> u8 list list \<Rightarrow> u8 list" where
  "filtered pattern ls = concat (map (\<lambda>l. l @ [10]) (filter (match pattern) ls))"

definition short_lines :: "u8 list \<Rightarrow> bool" where
  "short_lines xs \<longleftrightarrow> (\<forall>l\<in>set (fst (lines_of xs)). length l < 1023) \<and> length (snd (lines_of xs)) < 1023"

lemma lines_of_none: "10 \<notin> set a \<Longrightarrow> lines_of a = ([], a)"
  by (induction a) auto

lemma lines_of_line: "10 \<notin> set a \<Longrightarrow> lines_of (a @ 10 # b) = (a # fst (lines_of b), snd (lines_of b))"
  by (induction a) (auto simp: case_prod_beta)

lemma first_line:
  obtains "10 \<notin> set xs" | a b where "xs = a @ 10 # b" "10 \<notin> set a"
  by (meson split_list_first)

lemma lines_of_last: "10 \<notin> set (snd (lines_of xs))"
  by (induction xs) (auto simp: case_prod_beta split: list.splits)

lemma lines_of_sub: "set (snd (lines_of xs)) \<subseteq> set xs"
  by (induction xs) (auto simp: case_prod_beta split: list.splits)

lemma lines_of_append:
  "lines_of (p @ q) = (fst (lines_of p) @ fst (lines_of (snd (lines_of p) @ q)), snd (lines_of (snd (lines_of p) @ q)))"
proof (induction "length p" arbitrary: p rule: less_induct)
  case less
  show ?case
  proof (cases rule: first_line [of p])
    case 1 then show ?thesis by (simp add: lines_of_none)
  next
    case (2 a b)
    then show ?thesis using less [of b] by (simp add: lines_of_line)
  qed
qed

lemma grep_lines_filter:
  "0 \<notin> set p \<Longrightarrow> grep_lines pattern p = (filtered pattern (fst (lines_of p)), snd (lines_of p))"
proof (induction "length p" arbitrary: p rule: less_induct)
  case less
  show ?case
  proof (cases rule: first_line [of p])
    case 1
    then have "\<forall>c\<in>set p. c \<noteq> 10 \<and> c \<noteq> 0" using less.prems by metis
    then have e: "dropWhile (\<lambda>c. c \<noteq> 10 \<and> c \<noteq> 0) p = []" by (simp add: dropWhile_eq_Nil_conv)
    show ?thesis using 1 by (subst grep_lines.simps) (simp only: e Let_def, simp add: lines_of_none filtered_def)
  next
    case (2 a b)
    then have "\<forall>c\<in>set a. c \<noteq> 10 \<and> c \<noteq> 0" using less.prems by auto
    then have "takeWhile (\<lambda>c. c \<noteq> 10 \<and> c \<noteq> 0) p = a" "dropWhile (\<lambda>c. c \<noteq> 10 \<and> c \<noteq> 0) p = 10 # b"
      using 2(1) by (simp_all add: takeWhile_append dropWhile_append)
    then show ?thesis using 2 less by (subst grep_lines.simps) (simp add: lines_of_line filtered_def)
  qed
qed

lemma short_lines_suffix: "short_lines (p @ q) \<Longrightarrow> short_lines (snd (lines_of p) @ q)"
  using lines_of_append [of p q] by (auto simp: short_lines_def)

lemma short_lines_prefix: "10 \<notin> set a \<Longrightarrow> short_lines (a @ q) \<Longrightarrow> length a < 1023"
proof (cases rule: first_line [of q])
  case 1
  moreover assume "10 \<notin> set a" "short_lines (a @ q)"
  ultimately show ?thesis by (simp add: short_lines_def lines_of_none)
next
  case (2 b c)
  moreover assume "10 \<notin> set a" "short_lines (a @ q)"
  ultimately show ?thesis using lines_of_line [of "a @ b" c] by (simp add: short_lines_def)
qed

text \<open>What \<open>read\<close> promises of an open file: \<open>rest f\<close> are the bytes after its offset.\<close>

definition reads :: "('f \<Rightarrow> nat \<Rightarrow> u8 list option \<times> 'f) \<Rightarrow> ('f \<Rightarrow> u8 list) \<Rightarrow> bool" where
  "reads read rest \<longleftrightarrow> (\<forall>f n. \<exists>bs f'. read f n = (Some bs, f') \<and> length bs \<le> n \<and> rest f = bs @ rest f' \<and>
     (bs = [] \<longrightarrow> n = 0 \<or> rest f = []))"

lemma grep_from:
  assumes rd: "reads read rest"
  shows "length (rest f) < n \<Longrightarrow> 0 \<notin> set (buf @ rest f) \<Longrightarrow> 10 \<notin> set buf \<Longrightarrow> short_lines (buf @ rest f) \<Longrightarrow>
    \<exists>f'. grep n read pattern buf f = Some (filtered pattern (fst (lines_of (buf @ rest f))), f')"
proof (induction n arbitrary: buf f)
  case (Suc n)
  obtain bs g where g: "read f (1023 - length buf) = (Some bs, g)" "rest f = bs @ rest g"
    "bs = [] \<longrightarrow> 1023 - length buf = 0 \<or> rest f = []" using rd unfolding reads_def by blast
  have room: "length buf < 1023" using short_lines_prefix Suc.prems by blast
  show ?case
  proof (cases "bs = []")
    case True
    then show ?thesis using g room Suc.prems by (simp add: lines_of_none filtered_def)
  next
    case False
    let ?b = "snd (lines_of (buf @ bs))"
    have gl: "grep_lines pattern (buf @ bs) = (filtered pattern (fst (lines_of (buf @ bs))), ?b)"
      using Suc.prems(2) g(2) by (intro grep_lines_filter) auto
    have sub: "set ?b \<subseteq> set (buf @ bs)" using lines_of_sub by blast
    have "length (rest g) < n" using Suc.prems(1) g(2) False by (cases bs) auto
    then have "\<exists>f'. grep n read pattern ?b g = Some (filtered pattern (fst (lines_of (?b @ rest g))), f')"
      using Suc.prems g(2) False sub short_lines_suffix [of "buf @ bs" "rest g"] lines_of_last
      by (intro Suc.IH) auto
    then show ?thesis using g False gl lines_of_append [of "buf @ bs" "rest g"] by (auto simp: filtered_def)
  qed
qed simp

text \<open>
  C31. \<open>grep\<close> filters: on a file without zero bytes whose lines fit into the buffer, however \<open>read\<close>
  cuts the file into pieces, the loop ends and has written exactly the complete lines that match
  the pattern, each with its newline, in the order of the file.
\<close>

theorem grep_filters:
  assumes "reads read rest" "0 \<notin> set (rest f)" "short_lines (rest f)" "length (rest f) < n"
  shows "\<exists>f'. grep n read pattern [] f = Some (filtered pattern (fst (lines_of (rest f))), f')"
  using grep_from [OF assms(1), of f n "[]"] assms(2-) by simp

theorem grep_filters_witness:
  "\<exists>f. grep 8 (\<lambda>f n. (Some (take (min n 2) f), drop (min n 2) f)) [98] [] [97, 98, 10, 97, 10, 98] = Some ([97, 98, 10], f)"
proof -
  have "reads (\<lambda>f n. (Some (take (min n 2) f), drop (min n 2) f)) (\<lambda>f. f)" by (auto simp: reads_def)
  moreover have "short_lines [97, 98, 10, 97, 10, 98]" by (simp add: short_lines_def)
  moreover have "filtered [98] (fst (lines_of [97, 98, 10, 97, 10, 98])) = [97, 98, 10]"
    by (simp add: filtered_def match_def matchhere.simps)
  ultimately show ?thesis using grep_filters [of _ "\<lambda>f. f" "[97, 98, 10, 97, 10, 98]" 8 "[98]"] by fastforce
qed

end
