(* ===== verification/Sh.thy ===== *)
theory Sh
  imports Fs
begin

text \<open>
  The parser of the shell, user/sh.c. The line is a list of bytes without zero, \<open>es\<close> is its length,
  and a pointer into it is an index; reading at \<open>es\<close> gives the terminating zero. A command is a tree;
  \<open>parseexec\<close> fills in the arguments of the innermost node while redirections are wrapped around it.
  \<open>malloc\<close> is taken to succeed.

  The four functions that call each other take fuel, one unit per nested call. \<open>parsecmd\<close> starts with
  four units for each byte of the line and four more, which is enough: no call is made with none left.
\<close>

section \<open>Tokens\<close>

definition MAXARGS :: nat where "MAXARGS = 10"

definition whitespace :: "u8 list" where "whitespace = [32, 9, 13, 10, 11]"

definition symbols :: "u8 list" where "symbols = [60, 124, 62, 38, 59, 40, 41]"

definition byte_at :: "u8 list \<Rightarrow> nat \<Rightarrow> u8" where "byte_at b s = (if s < length b then b ! s else 0)"

function skip_ws :: "u8 list \<Rightarrow> nat \<Rightarrow> nat" where
  "skip_ws b s = (if s < length b \<and> byte_at b s \<in> set whitespace then skip_ws b (s + 1) else s)"
  by pat_completeness auto
termination by (relation "measure (\<lambda>(b, s). length b - s)") auto

function word_end :: "u8 list \<Rightarrow> nat \<Rightarrow> nat" where
  "word_end b s = (if s < length b \<and> byte_at b s \<notin> set whitespace \<and> byte_at b s \<notin> set symbols then word_end b (s + 1) else s)"
  by pat_completeness auto
termination by (relation "measure (\<lambda>(b, s). length b - s)") auto

declare skip_ws.simps [simp del] word_end.simps [simp del]

text \<open>The token at \<open>s\<close> and its end.\<close>

definition token :: "u8 list \<Rightarrow> nat \<Rightarrow> u8 \<times> nat" where
  "token b s =
     (let c = byte_at b s in
      if c = 0 then (0, s)
      else if c \<in> set [124, 40, 41, 59, 38, 60] then (c, s + 1)
      else if c = 62 then (if byte_at b (s + 1) = 62 then (43, s + 2) else (62, s + 1))
      else (97, word_end b s))"

text \<open>The token, its start \<open>q\<close> and end \<open>eq\<close>, and the position after the spaces that follow it.\<close>

definition gettoken :: "u8 list \<Rightarrow> nat \<Rightarrow> u8 \<times> nat \<times> nat \<times> nat" where
  "gettoken b s = (let q = skip_ws b s; (ret, eq) = token b q in (ret, q, eq, skip_ws b eq))"

definition peek :: "u8 list \<Rightarrow> nat \<Rightarrow> u8 list \<Rightarrow> bool \<times> nat" where
  "peek b s toks = (let s = skip_ws b s in (byte_at b s \<noteq> 0 \<and> byte_at b s \<in> set toks, s))"

section \<open>Commands\<close>

datatype cmd = ExecCmd "(nat \<times> nat) list" | RedirCmd cmd nat nat int int | PipeCmd cmd cmd | ListCmd cmd cmd | BackCmd cmd

text \<open>\<open>cmd->argv[argc] = q; cmd->eargv[argc] = eq;\<close> on the node the redirections are wrapped around.\<close>

primrec add_arg :: "nat \<times> nat \<Rightarrow> cmd \<Rightarrow> cmd" where
  "add_arg a (ExecCmd as) = ExecCmd (as @ [a])"
| "add_arg a (RedirCmd c q eq mode fd) = RedirCmd (add_arg a c) q eq mode fd"
| "add_arg a (PipeCmd c d) = PipeCmd c d"
| "add_arg a (ListCmd c d) = ListCmd c d"
| "add_arg a (BackCmd c) = BackCmd c"

definition redir_tok :: "u8 \<Rightarrow> cmd \<Rightarrow> nat \<Rightarrow> nat \<Rightarrow> cmd" where
  "redir_tok tok c q eq =
     (if tok = 60 then RedirCmd c q eq 0 0
      else if tok = 62 then RedirCmd c q eq 0x601 1
      else if tok = 43 then RedirCmd c q eq 0x201 1
      else c)"

lemma skip_ws_bounds: "s \<le> skip_ws b s \<and> (s \<le> length b \<longrightarrow> skip_ws b s \<le> length b)"
proof (induction b s rule: skip_ws.induct)
  case (1 b s) then show ?case by (subst (1 2) skip_ws.simps) auto
qed

lemma word_end_bounds: "s \<le> word_end b s \<and> (s \<le> length b \<longrightarrow> word_end b s \<le> length b)"
proof (induction b s rule: word_end.induct)
  case (1 b s) then show ?case by (subst (1 2) word_end.simps) auto
qed

lemma at_less: "byte_at b s \<noteq> 0 \<Longrightarrow> s < length b"
  by (simp add: byte_at_def split: if_splits)

lemma skip_ws_stop: "byte_at b (skip_ws b s) \<notin> set whitespace"
proof (induction b s rule: skip_ws.induct)
  case (1 b s)
  then show ?case by (subst skip_ws.simps) (auto simp: byte_at_def whitespace_def)
qed

text \<open>A word: neither spaces nor symbols inside, one of them or the end of the line behind it.\<close>

definition word_at :: "u8 list \<Rightarrow> nat \<times> nat \<Rightarrow> bool" where
  "word_at b = (\<lambda>(q, e). q < e \<and> e \<le> length b \<and> (\<forall>i. q \<le> i \<and> i < e \<longrightarrow> byte_at b i \<notin> set (whitespace @ symbols)) \<and>
     (e < length b \<longrightarrow> byte_at b e \<in> set (whitespace @ symbols)))"

lemma word_end_word: "s \<le> i \<Longrightarrow> i < word_end b s \<Longrightarrow> byte_at b i \<notin> set (whitespace @ symbols)"
proof (induction b s rule: word_end.induct)
  case (1 b s)
  show ?case
  proof (cases "s < length b \<and> byte_at b s \<notin> set whitespace \<and> byte_at b s \<notin> set symbols")
    case True
    then show ?thesis using 1 word_end.simps [of b s] by (cases "i = s") auto
  next
    case False
    then have "word_end b s = s" by (subst word_end.simps) auto
    then show ?thesis using 1 by simp
  qed
qed

lemma word_end_stop: "word_end b s < length b \<Longrightarrow> byte_at b (word_end b s) \<in> set (whitespace @ symbols)"
proof (induction b s rule: word_end.induct)
  case (1 b s)
  then show ?case by (cases "s < length b \<and> byte_at b s \<notin> set whitespace \<and> byte_at b s \<notin> set symbols") (auto simp: word_end.simps [of b s])
qed

lemma token_bounds:
  assumes t: "token b s = (tok, e)" and s: "s \<le> length b" "byte_at b s \<notin> set whitespace"
  shows "s \<le> e" "e \<le> length b" "tok \<noteq> 0 \<Longrightarrow> s < e" "tok = 0 \<longleftrightarrow> byte_at b s = 0" "tok = 97 \<Longrightarrow> word_at b (s, e)"
proof -
  have n: "s + 1 \<le> length b" if "byte_at b s \<noteq> 0" using at_less [OF that] by simp
  have n2: "s + 2 \<le> length b" if "byte_at b (s + 1) = 62" using at_less [of b "s + 1"] that by simp
  have sy: "c \<in> set symbols \<longleftrightarrow> c \<in> set [124, 40, 41, 59, 38, 60] \<or> c = 62" for c by (auto simp: symbols_def)
  have w: "s < word_end b s" if "byte_at b s \<noteq> 0" "byte_at b s \<notin> set symbols"
    using word_end_bounds [of "s + 1" b] word_end.simps [of b s] at_less [OF that(1)] that s(2) by simp
  have wb: "word_end b s \<le> length b" using word_end_bounds s(1) by blast
  show "s \<le> e" "e \<le> length b" "tok \<noteq> 0 \<Longrightarrow> s < e" "tok = 0 \<longleftrightarrow> byte_at b s = 0"
    using t w wb n n2 s(1) unfolding sy by (auto simp: token_def Let_def split: if_splits)
  assume "tok = 97"
  then have "byte_at b s \<noteq> 0" "byte_at b s \<notin> set symbols" "e = word_end b s"
    using t unfolding sy by (auto simp: token_def Let_def split: if_splits)
  then show "word_at b (s, e)"
    using w wb word_end_word [of s _ b] word_end_stop [of b s] by (auto simp: word_at_def)
qed

lemma gettoken_bounds:
  assumes t: "gettoken b s = (tok, q, eq, s')" and s: "s \<le> length b"
  shows "s \<le> q" "q \<le> eq" "eq \<le> s'" "s' \<le> length b" "tok \<noteq> 0 \<Longrightarrow> q < eq" "q = skip_ws b s" "tok = 0 \<longleftrightarrow> byte_at b q = 0"
    "tok = 97 \<Longrightarrow> word_at b (q, eq)"
proof -
  have e: "q = skip_ws b s" "token b q = (tok, eq)" "s' = skip_ws b eq"
    using t by (auto simp: gettoken_def Let_def split: prod.splits)
  have q: "s \<le> q" "q \<le> length b" "byte_at b q \<notin> set whitespace"
    using skip_ws_bounds skip_ws_stop s unfolding e(1) by blast+
  note k = token_bounds [OF e(2) q(2,3)]
  show "s \<le> q" "q = skip_ws b s" by fact+
  show "q \<le> eq" "tok \<noteq> 0 \<Longrightarrow> q < eq" "tok = 0 \<longleftrightarrow> byte_at b q = 0" "tok = 97 \<Longrightarrow> word_at b (q, eq)" using k by simp_all
  show "eq \<le> s'" "s' \<le> length b" using skip_ws_bounds [of eq b] k(2) unfolding e(3) by auto
qed

section \<open>The parser\<close>

lemma skip_ws_none: "byte_at b s \<notin> set whitespace \<Longrightarrow> skip_ws b s = s"
  by (subst skip_ws.simps) simp

lemma peekD:
  assumes "peek b s toks = (True, t)" "s \<le> length b" "gettoken b t = (tok, q, eq, s')"
  shows "s < s'" "s' \<le> length b"
proof -
  have t: "t = skip_ws b s" "byte_at b t \<noteq> 0" using assms(1) by (auto simp: peek_def Let_def)
  then have l: "s \<le> t" "t < length b" using skip_ws_bounds assms(2) at_less by blast+
  note k = gettoken_bounds [OF assms(3)]
  have "q = t" using k(6) l(2) skip_ws_none [OF skip_ws_stop] unfolding t(1) by simp
  then show "s < s'" "s' \<le> length b" using k l t(2) by auto
qed

lemma peek_bounds: "peek b s toks = (x, t) \<Longrightarrow> s \<le> t \<and> (s \<le> length b \<longrightarrow> t \<le> length b)"
  using skip_ws_bounds by (auto simp: peek_def Let_def)

text \<open>The guard \<open>s \<le> length b\<close> always holds: \<open>ps\<close> never passes \<open>es\<close>.\<close>

function parseredirs :: "u8 list \<Rightarrow> cmd \<Rightarrow> nat \<Rightarrow> (cmd \<times> nat) result" where
  "parseredirs b c s =
     (if s > length b then Undef
      else case peek b s [60, 62] of
        (False, s) \<Rightarrow> Ret (c, s)
      | (True, s) \<Rightarrow>
          (case gettoken b s of (tok, _, _, s) \<Rightarrow>
          (case gettoken b s of (tok2, q, eq, s) \<Rightarrow>
             if tok2 \<noteq> 97 then Panic ''missing file for redirection''
             else parseredirs b (redir_tok tok c q eq) s)))"
  by pat_completeness auto
termination
proof (relation "measure (\<lambda>(b, c, s). length b - s)", simp, clarsimp)
  fix b s t tok q eq u tok2 q2 eq2 v
  assume a: "\<not> length b < s" "(True, t) = peek b s [60, 62]" "(tok, q, eq, u) = gettoken b t" "(97, q2, eq2, v) = gettoken b u"
  then have "s < u" "u \<le> length b" using peekD [of b s "[60, 62]" t] by (metis linorder_not_less)+
  moreover then have "u \<le> v" "v \<le> length b" using gettoken_bounds [OF a(4) [symmetric]] by linarith+
  ultimately show "length b - v < length b - s" by linarith
qed

declare parseredirs.simps [simp del]

function exec_loop :: "u8 list \<Rightarrow> nat \<Rightarrow> cmd \<Rightarrow> nat \<Rightarrow> (cmd \<times> nat) result" where
  "exec_loop b argc ret s =
     (case peek b s [124, 41, 38, 59] of
        (True, s) \<Rightarrow> Ret (ret, s)
      | (False, s) \<Rightarrow>
          (case gettoken b s of (tok, q, eq, s) \<Rightarrow>
             if tok = 0 then Ret (ret, s)
             else if tok \<noteq> 97 then Panic ''syntax''
             else if argc + 1 \<ge> MAXARGS then Panic ''too many args''
             else rbind (parseredirs b (add_arg (q, eq) ret) s) (\<lambda>(ret, s). exec_loop b (argc + 1) ret s)))"
  by pat_completeness auto
termination by (relation "measure (\<lambda>(b, argc, ret, s). MAXARGS - argc)") auto

function back_loop :: "u8 list \<Rightarrow> cmd \<Rightarrow> nat \<Rightarrow> (cmd \<times> nat) result" where
  "back_loop b c s =
     (if s > length b then Undef
      else case peek b s [38] of
        (False, s) \<Rightarrow> Ret (c, s)
      | (True, s) \<Rightarrow> (case gettoken b s of (_, _, _, s) \<Rightarrow> back_loop b (BackCmd c) s))"
  by pat_completeness auto
termination
proof (relation "measure (\<lambda>(b, c, s). length b - s)", simp, clarsimp)
  fix b s t tok q eq u
  assume a: "\<not> length b < s" "(True, t) = peek b s [38]" "(tok, q, eq, u) = gettoken b t"
  then have "s < u" "u \<le> length b" using peekD [of b s "[38]" t] by (metis linorder_not_less)+
  then show "length b - u < length b - s" by linarith
qed

declare exec_loop.simps [simp del] back_loop.simps [simp del]

fun parseline :: "nat \<Rightarrow> u8 list \<Rightarrow> nat \<Rightarrow> (cmd \<times> nat) result"
  and parsepipe :: "nat \<Rightarrow> u8 list \<Rightarrow> nat \<Rightarrow> (cmd \<times> nat) result"
  and parseblock :: "nat \<Rightarrow> u8 list \<Rightarrow> nat \<Rightarrow> (cmd \<times> nat) result"
  and parseexec :: "nat \<Rightarrow> u8 list \<Rightarrow> nat \<Rightarrow> (cmd \<times> nat) result" where
  "parseline 0 b s = Undef"
| "parseline (Suc n) b s =
     rbind (parsepipe n b s) (\<lambda>(c, s).
     rbind (back_loop b c s) (\<lambda>(c, s).
     case peek b s [59] of
       (True, s) \<Rightarrow> (case gettoken b s of (_, _, _, s) \<Rightarrow> rbind (parseline n b s) (\<lambda>(d, s). Ret (ListCmd c d, s)))
     | (False, s) \<Rightarrow> Ret (c, s)))"
| "parsepipe 0 b s = Undef"
| "parsepipe (Suc n) b s =
     rbind (parseexec n b s) (\<lambda>(c, s).
     case peek b s [124] of
       (True, s) \<Rightarrow> (case gettoken b s of (_, _, _, s) \<Rightarrow> rbind (parsepipe n b s) (\<lambda>(d, s). Ret (PipeCmd c d, s)))
     | (False, s) \<Rightarrow> Ret (c, s))"
| "parseblock 0 b s = Undef"
| "parseblock (Suc n) b s =
     (case peek b s [40] of
        (False, s) \<Rightarrow> Panic ''parseblock''
      | (True, s) \<Rightarrow> (case gettoken b s of (_, _, _, s) \<Rightarrow>
          rbind (parseline n b s) (\<lambda>(c, s).
          case peek b s [41] of
            (False, s) \<Rightarrow> Panic ''syntax - missing )''
          | (True, s) \<Rightarrow> (case gettoken b s of (_, _, _, s) \<Rightarrow> parseredirs b c s))))"
| "parseexec 0 b s = Undef"
| "parseexec (Suc n) b s =
     (case peek b s [40] of
        (True, s) \<Rightarrow> parseblock n b s
      | (False, s) \<Rightarrow> rbind (parseredirs b (ExecCmd []) s) (\<lambda>(ret, s). exec_loop b 0 ret s))"

text \<open>\<open>nulterminate\<close> on the buffer that holds the line and its terminating zero.\<close>

primrec nulterminate :: "cmd \<Rightarrow> u8 list \<Rightarrow> u8 list" where
  "nulterminate (ExecCmd as) b = fold (\<lambda>(q, eq) b. b[eq := 0]) as b"
| "nulterminate (RedirCmd c q eq mode fd) b = (nulterminate c b)[eq := 0]"
| "nulterminate (PipeCmd c d) b = nulterminate d (nulterminate c b)"
| "nulterminate (ListCmd c d) b = nulterminate d (nulterminate c b)"
| "nulterminate (BackCmd c) b = nulterminate c b"

definition parsecmd :: "u8 list \<Rightarrow> (cmd \<times> u8 list) result" where
  "parsecmd b =
     rbind (parseline (4 * length b + 4) b 0) (\<lambda>(c, s).
     case peek b s [] of (_, s) \<Rightarrow>
       if s \<noteq> length b then Panic ''syntax'' else Ret (c, nulterminate c (b @ [0])))"

section \<open>What the parser returns\<close>

primrec wf_cmd :: "u8 list \<Rightarrow> cmd \<Rightarrow> bool" where
  "wf_cmd b (ExecCmd as) \<longleftrightarrow> length as < MAXARGS \<and> list_all (word_at b) as"
| "wf_cmd b (RedirCmd c q eq mode fd) \<longleftrightarrow> wf_cmd b c \<and> word_at b (q, eq) \<and> fd \<in> {0, 1}"
| "wf_cmd b (PipeCmd c d) \<longleftrightarrow> wf_cmd b c \<and> wf_cmd b d"
| "wf_cmd b (ListCmd c d) \<longleftrightarrow> wf_cmd b c \<and> wf_cmd b d"
| "wf_cmd b (BackCmd c) \<longleftrightarrow> wf_cmd b c"

text \<open>The number of arguments of the innermost node, when it is an \<open>execcmd\<close>.\<close>

primrec nargs :: "cmd \<Rightarrow> nat option" where
  "nargs (ExecCmd as) = Some (length as)"
| "nargs (RedirCmd c q eq mode fd) = nargs c"
| "nargs (PipeCmd c d) = None"
| "nargs (ListCmd c d) = None"
| "nargs (BackCmd c) = None"

definition messages :: "string set" where
  "messages = {''missing file for redirection'', ''syntax'', ''too many args'', ''syntax - missing )'', ''parseblock''}"

definition parses :: "u8 list \<Rightarrow> nat \<Rightarrow> (cmd \<Rightarrow> bool) \<Rightarrow> (cmd \<times> nat) result \<Rightarrow> bool" where
  "parses b s Q r = (case r of Ret (c, t) \<Rightarrow> s \<le> t \<and> t \<le> length b \<and> wf_cmd b c \<and> Q c | Panic m \<Rightarrow> m \<in> messages | _ \<Rightarrow> False)"

lemma parses_simps:
  "parses b s Q (Ret (c, t)) \<longleftrightarrow> s \<le> t \<and> t \<le> length b \<and> wf_cmd b c \<and> Q c" "parses b s Q (Panic m) \<longleftrightarrow> m \<in> messages"
  by (simp_all add: parses_def)

lemma parses_bind:
  assumes "parses b s Q r" "\<And>c t. s \<le> t \<Longrightarrow> t \<le> length b \<Longrightarrow> wf_cmd b c \<Longrightarrow> Q c \<Longrightarrow> parses b s R (f (c, t))"
  shows "parses b s R (rbind r f)"
  using assms by (cases r) (auto simp: parses_def)

lemma parses_weaken: "parses b t Q r \<Longrightarrow> s \<le> t \<Longrightarrow> (\<And>c. Q c \<Longrightarrow> R c) \<Longrightarrow> parses b s R r"
  by (auto simp: parses_def split: result.splits)

lemma add_arg_wf: "wf_cmd b c \<Longrightarrow> nargs c = Some k \<Longrightarrow> k + 1 < MAXARGS \<Longrightarrow> word_at b a \<Longrightarrow>
    wf_cmd b (add_arg a c) \<and> nargs (add_arg a c) = Some (k + 1)"
  by (induction c) auto

lemma redir_tok_wf: "wf_cmd b c \<Longrightarrow> word_at b (q, eq) \<Longrightarrow> wf_cmd b (redir_tok tok c q eq) \<and> nargs (redir_tok tok c q eq) = nargs c"
  by (simp add: redir_tok_def)

lemma parseredirs_parses:
  "s \<le> length b \<Longrightarrow> wf_cmd b c \<Longrightarrow> parses b s (\<lambda>d. nargs d = nargs c) (parseredirs b c s)"
proof (induction "length b - s" arbitrary: c s rule: less_induct)
  case less
  obtain x t where p: "peek b s [60, 62] = (x, t)" by fastforce
  obtain tok q eq u where g: "gettoken b t = (tok, q, eq, u)" using prod_cases4 by blast
  obtain tok2 q2 eq2 v where h: "gettoken b u = (tok2, q2, eq2, v)" using prod_cases4 by blast
  show ?case
  proof (cases x)
    case False
    then show ?thesis using less p peek_bounds [OF p] by (subst parseredirs.simps) (simp add: parses_simps)
  next
    case True
    then have u: "s < u" "u \<le> length b" using peekD [of b s _ t] p g less(2) by auto
    note k = gettoken_bounds [OF h u(2)]
    have "parses b s (\<lambda>d. nargs d = nargs c) (parseredirs b (redir_tok tok c q2 eq2) v)" if "tok2 = 97"
    proof -
      have "word_at b (q2, eq2)" using k(8) that by simp
      note w = redir_tok_wf [OF less.prems(2) this, of tok]
      have "length b - v < length b - s" using k u by linarith
      from less(1) [OF this k(4) conjunct1 [OF w]] show ?thesis by (rule parses_weaken) (use k u w in auto)
    qed
    then show ?thesis using p g h True less(2) by (subst parseredirs.simps) (auto simp: parses_simps messages_def)
  qed
qed

lemma exec_loop_parses:
  "s \<le> length b \<Longrightarrow> wf_cmd b c \<Longrightarrow> nargs c = Some k \<Longrightarrow> k < MAXARGS \<Longrightarrow> parses b s (\<lambda>_. True) (exec_loop b k c s)"
proof (induction "MAXARGS - k" arbitrary: c s k rule: less_induct)
  case less
  obtain x t where p: "peek b s [124, 41, 38, 59] = (x, t)" by fastforce
  obtain tok q eq u where g: "gettoken b t = (tok, q, eq, u)" using prod_cases4 by blast
  have t: "s \<le> t" "t \<le> length b" using peek_bounds [OF p] less by auto
  note n = gettoken_bounds [OF g t(2)]
  have "parses b s (\<lambda>_. True) (rbind (parseredirs b (add_arg (q, eq) c) u) (\<lambda>(c, s). exec_loop b (k + 1) c s))"
    if "tok = 97" "k + 1 < MAXARGS"
  proof (rule parses_weaken [of b u "\<lambda>_. True"])
    have w: "wf_cmd b (add_arg (q, eq) c)" "nargs (add_arg (q, eq) c) = Some (k + 1)"
      using add_arg_wf less.prems that n(8) by blast+
    show "parses b u (\<lambda>_. True) (rbind (parseredirs b (add_arg (q, eq) c) u) (\<lambda>(c, s). exec_loop b (k + 1) c s))"
      by (rule parses_bind [OF parseredirs_parses [OF n(4) w(1)]], simp only: prod.case, rule parses_weaken [OF less(1)])
        (use w that in auto)
  qed (use n t in auto)
  then show ?case using p g n t less.prems
    by (subst exec_loop.simps) (auto simp: parses_simps messages_def split: bool.splits)
qed

lemma back_loop_parses: "s \<le> length b \<Longrightarrow> wf_cmd b c \<Longrightarrow> parses b s (\<lambda>_. True) (back_loop b c s)"
proof (induction "length b - s" arbitrary: c s rule: less_induct)
  case less
  obtain x t where p: "peek b s [38] = (x, t)" by fastforce
  obtain tok q eq u where g: "gettoken b t = (tok, q, eq, u)" using prod_cases4 by blast
  show ?case
  proof (cases x)
    case False
    then show ?thesis using less p peek_bounds [OF p] by (subst back_loop.simps) (simp add: parses_simps)
  next
    case True
    then have u: "s < u" "u \<le> length b" using peekD [of b s _ t] p g less(2) by auto
    have "parses b s (\<lambda>_. True) (back_loop b (BackCmd c) u)"
      by (rule parses_weaken [OF less(1)]) (use u less.prems in auto)
    then show ?thesis using p g True less(2) by (subst back_loop.simps) simp
  qed
qed

lemma peek_parses:
  assumes "s \<le> length b" "\<And>t. s \<le> t \<Longrightarrow> t \<le> length b \<Longrightarrow> parses b s Q (g t)"
    and "\<And>t tok q eq u. s < u \<Longrightarrow> u \<le> length b \<Longrightarrow> gettoken b t = (tok, q, eq, u) \<Longrightarrow> parses b s Q (h tok q eq u)"
  shows "parses b s Q (case peek b s toks of (True, s) \<Rightarrow> (case gettoken b s of (tok, q, eq, s) \<Rightarrow> h tok q eq s) | (False, s) \<Rightarrow> g s)"
proof -
  obtain x t where p: "peek b s toks = (x, t)" by fastforce
  obtain tok q eq u where k: "gettoken b t = (tok, q, eq, u)" using prod_cases4 by blast
  show ?thesis using assms(2) [of t] assms(3) [OF _ _ k] peek_bounds [OF p] peekD [of b s toks t, OF _ assms(1) k] p k assms(1)
    by (cases x) auto
qed

lemma then_parses:
  assumes t: "t \<le> length b" "wf_cmd b c" and mk: "\<And>d. wf_cmd b d \<Longrightarrow> wf_cmd b (mk d)"
    and P: "\<And>u. t < u \<Longrightarrow> u \<le> length b \<Longrightarrow> parses b u (\<lambda>_. True) (P u)"
  shows "parses b t (\<lambda>_. True) (case peek b t toks of (True, s) \<Rightarrow> (case gettoken b s of (_, _, _, s) \<Rightarrow>
        rbind (P s) (\<lambda>(d, s). Ret (mk d, s))) | (False, s) \<Rightarrow> Ret (c, s))"
proof (rule peek_parses [OF t(1)])
  fix u assume u: "t < u" "u \<le> length b"
  have "parses b t (\<lambda>_. True) (P u)" by (rule parses_weaken [OF P]) (use u in auto)
  then show "parses b t (\<lambda>_. True) (rbind (P u) (\<lambda>(d, s). Ret (mk d, s)))"
    by (rule parses_bind) (use mk in \<open>simp add: parses_simps\<close>)
qed (use t in \<open>simp add: parses_simps\<close>)

lemma close_parses:
  assumes "t \<le> length b" "wf_cmd b c"
  shows "parses b t (\<lambda>_. True) (case peek b t [41] of (True, s) \<Rightarrow> (case gettoken b s of (_, _, _, s) \<Rightarrow> parseredirs b c s)
        | (False, s) \<Rightarrow> Panic ''syntax - missing )'')"
  by (rule peek_parses [OF assms(1)]) (use assms in \<open>auto simp: parses_simps messages_def intro: parses_weaken [OF parseredirs_parses]\<close>)

lemma exec_parses:
  assumes "s \<le> t" "t \<le> length b"
  shows "parses b s (\<lambda>_. True) (rbind (parseredirs b (ExecCmd []) t) (\<lambda>(ret, s). exec_loop b 0 ret s))"
proof (rule parses_weaken [OF parses_bind assms(1)])
  have "wf_cmd b (ExecCmd [])" by (simp add: MAXARGS_def)
  from parseredirs_parses [OF assms(2) this]
  show "parses b t (\<lambda>c. nargs c = Some 0) (parseredirs b (ExecCmd []) t)" by simp
  show "parses b t (\<lambda>_. True) (case (c, u) of (ret, s) \<Rightarrow> exec_loop b 0 ret s)"
    if "t \<le> u" "u \<le> length b" "wf_cmd b c" "nargs c = Some 0" for c u
    unfolding prod.case by (rule parses_weaken [OF exec_loop_parses]) (use that in \<open>auto simp: MAXARGS_def\<close>)
qed simp

lemma parse_parses:
  "s \<le> length b \<Longrightarrow> 4 * (length b - s) + 3 < n \<Longrightarrow> parses b s (\<lambda>_. True) (parseline n b s)"
  "s \<le> length b \<Longrightarrow> 4 * (length b - s) + 2 < n \<Longrightarrow> parses b s (\<lambda>_. True) (parsepipe n b s)"
  "s \<le> length b \<Longrightarrow> 4 * (length b - s) < n \<Longrightarrow> parses b s (\<lambda>_. True) (parseblock n b s)"
  "s \<le> length b \<Longrightarrow> 4 * (length b - s) + 1 < n \<Longrightarrow> parses b s (\<lambda>_. True) (parseexec n b s)"
proof (induction n arbitrary: s)
  case (Suc n)
  have less: "4 * (length b - u) + 4 \<le> 4 * (length b - s)" if "s < u" "u \<le> length b" for u using that by linarith
  { case 1
    then have a: "parses b s (\<lambda>_. True) (parsepipe n b s)" by (intro Suc.IH(2)) auto
    have k: "parses b s (\<lambda>_. True) (back_loop b c t)" if "s \<le> t" "t \<le> length b" "wf_cmd b c" for c t
      using back_loop_parses [OF that(2,3)] that(1) by (rule parses_weaken)
    show ?case unfolding parseline.simps
      by (rule parses_bind [OF a], simp only: prod.case, rule parses_bind [OF k], assumption, assumption, assumption,
          simp only: prod.case, rule parses_weaken [OF then_parses])
        (use 1 less in \<open>force intro: Suc.IH(1)\<close>)+
  next
    case 2
    then have a: "parses b s (\<lambda>_. True) (parseexec n b s)" by (intro Suc.IH(4)) auto
    show ?case unfolding parsepipe.simps
      by (rule parses_bind [OF a], simp only: prod.case, rule parses_weaken [OF then_parses])
        (use 2 less in \<open>force intro: Suc.IH(2)\<close>)+
  next
    case 3
    show ?case unfolding parseblock.simps
    proof (rule peek_parses [OF 3(1)])
      fix u assume u: "s < u" "u \<le> length b"
      have "parses b s (\<lambda>_. True) (parseline n b u)"
        by (rule parses_weaken [OF Suc.IH(1)]) (use u 3 less [of u] in auto)
      then show "parses b s (\<lambda>_. True) (rbind (parseline n b u) (\<lambda>(c, s). case peek b s [41] of
            (False, s) \<Rightarrow> Panic ''syntax - missing )''
          | (True, s) \<Rightarrow> (case gettoken b s of (_, _, _, s) \<Rightarrow> parseredirs b c s)))"
        by (rule parses_bind) (simp only: prod.case, rule parses_weaken [OF close_parses]; simp)
    qed (simp add: parses_simps messages_def)
  next
    case 4
    obtain x t where p: "peek b s [40] = (x, t)" by fastforce
    have t: "s \<le> t" "t \<le> length b" using peek_bounds [OF p] 4 by auto
    have "parses b s (\<lambda>_. True) (parseblock n b t)"
      by (rule parses_weaken [OF Suc.IH(3)]) (use t 4 in auto)
    then show ?case using p exec_parses [OF t] by (cases x) auto
  }
qed simp_all

section \<open>The words of a command\<close>

primrec spans :: "cmd \<Rightarrow> (nat \<times> nat) list" where
  "spans (ExecCmd as) = as"
| "spans (RedirCmd c q eq mode fd) = (q, eq) # spans c"
| "spans (PipeCmd c d) = spans c @ spans d"
| "spans (ListCmd c d) = spans c @ spans d"
| "spans (BackCmd c) = spans c"

definition cstr :: "u8 list \<Rightarrow> nat \<Rightarrow> u8 list" where "cstr buf q = takeWhile (\<lambda>c. c \<noteq> 0) (drop q buf)"

lemma wf_spans: "wf_cmd b c \<Longrightarrow> a \<in> set (spans c) \<Longrightarrow> word_at b a"
  by (induction c) (auto simp: list_all_iff)

lemma nth_update: "i < length xs \<Longrightarrow> xs[k := v] ! i = (if i = k then v else xs ! i)"
  by (cases "i = k") auto

lemma fold_zero:
  "length (fold (\<lambda>(q, eq) b. b[eq := 0]) as b) = length b"
  "i < length b \<Longrightarrow> fold (\<lambda>(q, eq) b. b[eq := 0]) as b ! i = (if \<exists>q. (q, i) \<in> set as then 0 else b ! i)"
  by (induction as arbitrary: b) (auto simp: nth_update)

lemma nulterminate_length [simp]: "length (nulterminate c b) = length b"
  by (induction c arbitrary: b) (auto simp: fold_zero)

lemma nulterminate_nth: "i < length b \<Longrightarrow> nulterminate c b ! i = (if \<exists>q. (q, i) \<in> set (spans c) then 0 else b ! i)"
  by (induction c arbitrary: b) (auto simp: fold_zero nth_update)

lemma word_ends: "word_at b (q, e) \<Longrightarrow> word_at b (q', e') \<Longrightarrow> q \<le> e' \<Longrightarrow> e' < e \<Longrightarrow> False"
  by (auto simp: word_at_def)

lemma nulterminate_word:
  assumes "0 \<notin> set b" "wf_cmd b c" "(q, e) \<in> set (spans c)"
  shows "cstr (nulterminate c (b @ [0])) q = take (e - q) (drop q b)"
proof -
  let ?n = "nulterminate c (b @ [0])"
  have w: "word_at b (q, e)" using wf_spans assms by blast
  then have l: "q < e" "e \<le> length b" by (auto simp: word_at_def)
  have in_word: "?n ! i = b ! i" if "q \<le> i" "i < e" for i
    using nulterminate_nth [of i "b @ [0]" c] that l word_ends [OF w] wf_spans [OF assms(2)] by (fastforce simp: nth_append)
  have "?n ! e = 0" using nulterminate_nth [of e "b @ [0]" c] l assms(3) by force
  moreover have "take (e - q) (drop q ?n) = take (e - q) (drop q b)"
    by (rule nth_equalityI) (use l in_word in auto)
  moreover have "drop e ?n = ?n ! e # drop (Suc e) ?n" using l by (intro Cons_nth_drop_Suc [symmetric]) simp
  ultimately have "drop q ?n = take (e - q) (drop q b) @ 0 # drop (Suc e) ?n"
    using append_take_drop_id [of "e - q" "drop q ?n"] l by simp
  moreover have "0 \<notin> set (take (e - q) (drop q b))" using assms(1) by (meson in_set_dropD in_set_takeD)
  then have "takeWhile (\<lambda>c. c \<noteq> 0) (take (e - q) (drop q b) @ 0 # drop (Suc e) ?n) = take (e - q) (drop q b)"
    by (subst takeWhile_append2) auto
  ultimately show ?thesis unfolding cstr_def by simp
qed

lemma parsecmd_parses: "parses b 0 (\<lambda>_. True) (parseline (4 * length b + 4) b 0)"
  by (rule parse_parses(1)) auto

lemma parsecmd_wf: "parsecmd b = Ret (c, buf) \<Longrightarrow> wf_cmd b c"
  using parsecmd_parses [of b]
  by (cases "parseline (4 * length b + 4) b 0") (auto simp: parsecmd_def parses_def case_prod_beta split: if_splits)

text \<open>
  C18. The shell's parser ends on every line: for any bytes up to the terminating zero \<open>parsecmd\<close> either
  exits with one of its error messages or returns a command in which no node has more than
  \<open>MAXARGS - 1\<close> arguments, every argument and file name is a word of the line, free of spaces and
  symbols, and, once \<open>nulterminate\<close> has cut the line, is a string of exactly that word.
\<close>

theorem parsecmd_total:
  assumes "0 \<notin> set b"
  shows "case parsecmd b of
      Ret (c, buf) \<Rightarrow> wf_cmd b c \<and> list_all (\<lambda>(q, e). cstr buf q = take (e - q) (drop q b)) (spans c)
    | Panic m \<Rightarrow> m \<in> messages
    | _ \<Rightarrow> False"
proof -
  show ?thesis using parsecmd_parses [of b] nulterminate_word [OF assms]
    by (cases "parseline (4 * length b + 4) b 0") (auto simp: parsecmd_def parses_def messages_def list_all_iff split: prod.splits)
qed

theorem parsecmd_total_witness:
  "parsecmd [97, 32, 98, 62, 99] = Ret (RedirCmd (ExecCmd [(0, 1), (2, 3)]) 4 5 0x601 1, [97, 0, 98, 0, 99, 0]) \<and>
   cstr [97, 0, 98, 0, 99, 0] 2 = [98]"
proof -
  have "parsecmd [97, 32, 98, 62, 99] = Ret (RedirCmd (ExecCmd [(0, 1), (2, 3)]) 4 5 0x601 1, [97, 0, 98, 0, 99, 0])"
    by code_simp
  then show ?thesis using parsecmd_total [of "[97, 32, 98, 62, 99]"] by simp
qed

end
