(* ===== verification/Sh_Run.thy ===== *)
theory Sh_Run
  imports Sh
begin

text \<open>
  How the shell reads lines and runs commands: \<open>getcmd\<close>, \<open>main\<close> and \<open>runcmd\<close> of user/sh.c, and \<open>gets\<close>
  of user/ulib.c. \<open>runcmd\<close> only issues system calls and
  never returns; what a process does is a tree of calls, with the process \<open>fork\<close> creates as a subtree.
  \<open>plumb\<close> follows the descriptors of every process through this tree when all calls succeed, with the
  kernel's rule that a new descriptor is the lowest free one.
\<close>

section \<open>Running a command\<close>

text \<open>
  \<open>ExecA a as k\<close>: \<open>exec\<close> of program \<open>a\<close> with arguments \<open>as\<close>, \<open>k\<close> when it returns; \<open>OpenA q mode f k\<close>: \<open>f\<close> when
  it fails; \<open>PipeA f k\<close>: \<open>pipe(p)\<close>; \<open>DupA w k\<close> and \<open>ClosePA w k\<close>: on \<open>p[1]\<close> when \<open>w\<close>, on \<open>p[0]\<close> otherwise;
  \<open>ForkA c k\<close>: \<open>fork1\<close>, with the child \<open>c\<close>.
\<close>

datatype act = ExitA int | PanicA string | ExecA "nat \<times> nat" "(nat \<times> nat) list" act | CloseA int act | OpenA "nat \<times> nat" int act act
  | PipeA act act | DupA bool act | ClosePA bool act | ForkA act act | WaitA act | PrintA string "nat \<times> nat" act

primrec runcmd :: "cmd \<Rightarrow> act" where
  "runcmd (ExecCmd as) =
     (case as of [] \<Rightarrow> ExitA 1 | a # _ \<Rightarrow> ExecA a as (PrintA ''exec %s failed'' a (ExitA 0)))"
| "runcmd (RedirCmd c q eq mode fd) =
     CloseA fd (OpenA (q, eq) mode (PrintA ''open %s failed'' (q, eq) (ExitA 1)) (runcmd c))"
| "runcmd (ListCmd c d) = ForkA (runcmd c) (WaitA (runcmd d))"
| "runcmd (PipeCmd c d) =
     PipeA (PanicA ''pipe'')
       (ForkA (CloseA 1 (DupA True (ClosePA False (ClosePA True (runcmd c)))))
          (ForkA (CloseA 0 (DupA False (ClosePA False (ClosePA True (runcmd d)))))
             (ClosePA False (ClosePA True (WaitA (WaitA (ExitA 0)))))))"
| "runcmd (BackCmd c) = ForkA (runcmd c) (ExitA 0)"

section \<open>Reading commands\<close>

text \<open>
  \<open>gets\<close> of user/ulib.c on the bytes the standard input still delivers: the string read and the bytes
  left. A read that delivers nothing ends the string.
\<close>

primrec gets_loop :: "nat \<Rightarrow> u8 list \<Rightarrow> u8 list \<times> u8 list" where
  "gets_loop 0 inp = ([], inp)"
| "gets_loop (Suc k) inp =
     (case inp of
        [] \<Rightarrow> ([], [])
      | c # inp \<Rightarrow> if c = 10 \<or> c = 13 then ([c], inp) else let (l, inp) = gets_loop k inp in (c # l, inp))"

definition gets :: "nat \<Rightarrow> u8 list \<Rightarrow> u8 list \<times> u8 list" where
  "gets mx inp = gets_loop (mx - 1) inp"

definition getcmd :: "nat \<Rightarrow> u8 list \<Rightarrow> (u8 list \<times> u8 list) option" where
  "getcmd nbuf inp = (let (l, inp) = gets nbuf inp in if chd l = 0 then None else Some (cstr l 0, inp))"

datatype shell_act = Chdir "u8 list" | Run "act result"

definition sh_line :: "u8 list \<Rightarrow> shell_act" where
  "sh_line b =
     (if byte_at b 0 = 99 \<and> byte_at b 1 = 100 \<and> byte_at b 2 = 32 then Chdir (drop 3 (butlast b))
      else Run (rbind (parsecmd b) (\<lambda>(c, buf). Ret (runcmd c))))"

lemma gets_loop_rest: "length (snd (gets_loop k inp)) + length (fst (gets_loop k inp)) = length inp"
  by (induction k arbitrary: inp) (auto split: list.split simp: case_prod_beta)

lemma getcmd_shorter: "getcmd n inp = Some (l, inp') \<Longrightarrow> length inp' < length inp"
  using gets_loop_rest [of "n - 1" inp] by (cases "fst (gets_loop (n - 1) inp)")
    (auto simp: getcmd_def gets_def chd_def case_prod_beta split: if_splits)

text \<open>The loop of \<open>main\<close>, with what it does for each line.\<close>

function sh_main :: "u8 list \<Rightarrow> shell_act list" where
  "sh_main inp = (case getcmd 100 inp of None \<Rightarrow> [] | Some (l, inp) \<Rightarrow> sh_line l # sh_main inp)"
  by pat_completeness auto
termination
  by (relation "measure length") (auto dest: getcmd_shorter)

section \<open>Descriptors\<close>

text \<open>What a descriptor refers to: one of the shell's own, a file of the command, or an end of the pipe \<open>n\<close>.\<close>

datatype end_pt = Own nat | Named "nat \<times> nat" int | In_end nat | Out_end nat

type_synonym fds = "end_pt option list"

definition lowest :: "fds \<Rightarrow> nat" where "lowest t = length (takeWhile (\<lambda>x. x \<noteq> None) t)"

definition alloc :: "end_pt \<Rightarrow> fds \<Rightarrow> fds" where "alloc e t = t[lowest t := Some e]"

text \<open>
  The programs a process and its children execute, each with the descriptors it starts with, and
  the number of pipes made so far. \<open>p\<close> are the descriptors in the array \<open>p\<close>.
\<close>

primrec plumb :: "act \<Rightarrow> nat \<times> nat \<Rightarrow> fds \<Rightarrow> nat \<Rightarrow> ((nat \<times> nat) list \<times> fds) list \<times> nat" where
  "plumb (ExitA r) p t n = ([], n)"
| "plumb (PanicA m) p t n = ([], n)"
| "plumb (ExecA a as k) p t n = ([(as, t)], n)"
| "plumb (CloseA fd k) p t n = plumb k p (t[nat fd := None]) n"
| "plumb (OpenA q mode f k) p t n = plumb k p (alloc (Named q mode) t) n"
| "plumb (PipeA f k) p t n =
     (let r = lowest t; t = alloc (In_end n) t; w = lowest t; t = alloc (Out_end n) t in plumb k (r, w) t (n + 1))"
| "plumb (DupA w k) p t n = (case t ! (if w then snd p else fst p) of None \<Rightarrow> plumb k p t n | Some e \<Rightarrow> plumb k p (alloc e t) n)"
| "plumb (ClosePA w k) p t n = plumb k p (t[(if w then snd p else fst p) := None]) n"
| "plumb (ForkA c k) p t n = (let (xs, n) = plumb c p t n; (ys, n) = plumb k p t n in (xs @ ys, n))"
| "plumb (WaitA k) p t n = plumb k p t n"
| "plumb (PrintA m q k) p t n = plumb k p t n"

text \<open>What the grammar means: the programs of a command with their standard input and output.\<close>

primrec wiring :: "cmd \<Rightarrow> end_pt \<Rightarrow> end_pt \<Rightarrow> nat \<Rightarrow> ((nat \<times> nat) list \<times> end_pt \<times> end_pt) list \<times> nat" where
  "wiring (ExecCmd as) i o1 n = ((if as = [] then [] else [(as, i, o1)]), n)"
| "wiring (RedirCmd c q eq mode fd) i o1 n =
     wiring c (if fd = 0 then Named (q, eq) mode else i) (if fd = 0 then o1 else Named (q, eq) mode) n"
| "wiring (ListCmd c d) i o1 n = (let (xs, n) = wiring c i o1 n; (ys, n) = wiring d i o1 n in (xs @ ys, n))"
| "wiring (PipeCmd c d) i o1 n =
     (let (xs, m) = wiring c i (Out_end n) (n + 1); (ys, m) = wiring d (In_end n) o1 m in (xs @ ys, m))"
| "wiring (BackCmd c) i o1 n = wiring c i o1 n"

text \<open>A table with the three standard descriptors and nothing else.\<close>

definition std :: "end_pt \<Rightarrow> end_pt \<Rightarrow> fds" where
  "std i o1 = Some i # Some o1 # Some (Own 2) # replicate 13 None"

lemma lowest_simps [simp]: "lowest [] = 0" "lowest (None # t) = 0" "lowest (Some e # t) = Suc (lowest t)"
  by (simp_all add: lowest_def)

text \<open>The table after \<open>pipe(p)\<close>, with the ends at 3 and 4.\<close>

definition piped :: "end_pt \<Rightarrow> end_pt \<Rightarrow> nat \<Rightarrow> fds" where
  "piped i o1 n = Some i # Some o1 # Some (Own 2) # Some (In_end n) # Some (Out_end n) # replicate 11 None"

lemma replicate_numeral: "replicate (numeral k) x = x # replicate (pred_numeral k) x"
  by (simp add: numeral_eq_Suc)

lemma std_redir: "alloc e ((std i o1)[0 := None]) = std e o1" "alloc e ((std i o1)[Suc 0 := None]) = std i e"
  by (simp_all add: std_def alloc_def)

lemma std_pipe:
  "lowest (std i o1) = 3" "lowest (alloc (In_end n) (std i o1)) = 4" "alloc (Out_end n) (alloc (In_end n) (std i o1)) = piped i o1 n"
  by (simp_all add: std_def alloc_def piped_def replicate_numeral)

lemma piped_left: "(piped i o1 n)[Suc 0 := None] ! 4 = Some (Out_end n)"
  "(alloc (Out_end n) ((piped i o1 n)[Suc 0 := None]))[3 := None, 4 := None] = std i (Out_end n)"
  by (simp_all add: std_def alloc_def piped_def replicate_numeral numeral_eq_Suc)

lemma piped_right: "(piped i o1 n)[0 := None] ! 3 = Some (In_end n)"
  "(alloc (In_end n) ((piped i o1 n)[0 := None]))[3 := None, 4 := None] = std (In_end n) o1"
  by (simp_all add: std_def alloc_def piped_def replicate_numeral numeral_eq_Suc)

lemma runcmd_plumb:
  "wf_cmd b c \<Longrightarrow> plumb (runcmd c) p (std i o1) n =
     (map (\<lambda>(as, x, y). (as, std x y)) (fst (wiring c i o1 n)), snd (wiring c i o1 n))"
proof (induction c arbitrary: p i o1 n)
  case (ExecCmd as)
  then show ?case by (simp split: list.split)
next
  case (RedirCmd c q eq mode fd)
  from RedirCmd.prems have "wf_cmd b c" "fd = 0 \<or> fd = 1" by auto
  then show ?case using RedirCmd.IH by (elim disjE) (simp_all only: runcmd.simps plumb.simps wiring.simps, simp_all add: std_redir)
next
  case (PipeCmd c d)
  then show ?case by (simp add: Let_def std_pipe piped_left piped_right case_prod_beta)
next
  case (ListCmd c d)
  then show ?case by (simp add: case_prod_beta Let_def)
next
  case (BackCmd c)
  then show ?case by (simp add: case_prod_beta Let_def)
qed

text \<open>
  C19. The shell's plumbing: every program of a command the parser returned is executed with exactly
  three descriptors, its standard input and output being those the grammar gives it (the shell's own,
  a redirection, or the end of the pipe to its neighbour) and its standard error the shell's. No
  program is left with an end of a pipe it does not use, so readers see the end of their input.
\<close>

theorem runcmd_wiring:
  assumes "parsecmd line = Ret (c, buf)"
  shows "fst (plumb (runcmd c) p (std (Own 0) (Own 1)) 0) = map (\<lambda>(as, i, o1). (as, std i o1)) (fst (wiring c (Own 0) (Own 1) 0))"
proof -
  have "wf_cmd line c" using parsecmd_wf [OF assms] .
  from runcmd_plumb [OF this] show ?thesis by simp
qed

text \<open>The line \<open>a<f|b\<close>.\<close>

theorem runcmd_wiring_witness:
  "\<exists>c buf. parsecmd [97, 60, 102, 124, 98] = Ret (c, buf) \<and> fst (plumb (runcmd c) (0, 0) (std (Own 0) (Own 1)) 0) =
     [([(0, 1)], std (Named (2, 3) 0) (Out_end 0)), ([(4, 5)], std (In_end 0) (Own 1))]"
proof -
  have p: "parsecmd [97, 60, 102, 124, 98] =
      Ret (PipeCmd (RedirCmd (ExecCmd [(0, 1)]) 2 3 0 0) (ExecCmd [(4, 5)]), [97, 0, 102, 0, 98, 0])" by code_simp
  show ?thesis using runcmd_wiring [OF p, of "(0, 0)"] p by simp
qed

end
