(* ===== verification/Umalloc.thy ===== *)
theory Umalloc
  imports Syscall
begin

text \<open>
  user/umalloc.c, the allocator of the user library. A header is 16 bytes, its fields are kept by the
  address of the header; \<open>base\<close> is the address of the static header. The addresses of a process stay
  far below \<open>2^64\<close> and its size below \<open>2^32\<close> headers, so addresses and sizes are natural numbers; the
  argument of \<open>sbrk\<close> is an \<open>int\<close>, to which \<open>nu * sizeof(Header)\<close> is cut down. \<open>sbrk n b\<close> gives the answer of
  the system call for a process that ends at \<open>b\<close>, and its new end.
\<close>

section \<open>The functions\<close>

record uheap =
  hptr :: "nat \<Rightarrow> nat"
  hsize :: "nat \<Rightarrow> nat"
  freep :: nat
  brk :: nat

text \<open>\<open>hend h p\<close> is \<open>p + p->s.size\<close>.\<close>

definition hend :: "uheap \<Rightarrow> nat \<Rightarrow> nat" where "hend h p = p + 16 * hsize h p"

text \<open>The loop of \<open>free\<close>: the header after which the block \<open>bp\<close> belongs.\<close>

definition stops :: "uheap \<Rightarrow> nat \<Rightarrow> nat \<Rightarrow> bool" where
  "stops h bp p \<longleftrightarrow> bp > p \<and> bp < hptr h p \<or> p \<ge> hptr h p \<and> (bp > p \<or> bp < hptr h p)"

partial_function (option) free_find :: "uheap \<Rightarrow> nat \<Rightarrow> nat \<Rightarrow> nat option" where
  "free_find h bp p = (if stops h bp p then Some p else free_find h bp (hptr h p))"

definition free_link :: "nat \<Rightarrow> nat \<Rightarrow> uheap \<Rightarrow> uheap" where
  "free_link bp p h =
     (let h = (if hend h bp = hptr h p
               then h\<lparr>hsize := (hsize h)(bp := hsize h bp + hsize h (hptr h p)), hptr := (hptr h)(bp := hptr h (hptr h p))\<rparr>
               else h\<lparr>hptr := (hptr h)(bp := hptr h p)\<rparr>);
          h = (if hend h p = bp
               then h\<lparr>hsize := (hsize h)(p := hsize h p + hsize h bp), hptr := (hptr h)(p := hptr h bp)\<rparr>
               else h\<lparr>hptr := (hptr h)(p := bp)\<rparr>)
      in h\<lparr>freep := p\<rparr>)"

definition free :: "nat \<Rightarrow> uheap \<Rightarrow> uheap option" where
  "free ap h = (let bp = ap - 16 in map_option (\<lambda>p. free_link bp p h) (free_find h bp (freep h)))"

text \<open>\<open>None\<close> when the loop of \<open>free\<close> does not end; a null pointer is \<open>Some (None, h)\<close>.\<close>

definition morecore :: "(int \<Rightarrow> nat \<Rightarrow> nat option \<times> nat) \<Rightarrow> nat \<Rightarrow> uheap \<Rightarrow> (nat option \<times> uheap) option" where
  "morecore sbrk nu h =
     (let nu = (if nu < 4096 then 4096 else nu) in
      case sbrk (sint (of_nat (nu * 16) :: u32)) (brk h) of
        (None, b) \<Rightarrow> Some (None, h\<lparr>brk := b\<rparr>)
      | (Some p, b) \<Rightarrow>
          map_option (\<lambda>h. (Some (freep h), h)) (free (p + 16) (h\<lparr>brk := b, hsize := (hsize h)(p := nu)\<rparr>)))"

definition carve :: "nat \<Rightarrow> nat \<Rightarrow> nat \<Rightarrow> uheap \<Rightarrow> nat option \<times> uheap" where
  "carve nunits prevp p h =
     (let (p, h) =
        (if hsize h p = nunits then (p, h\<lparr>hptr := (hptr h)(prevp := hptr h p)\<rparr>)
         else
           let s = hsize h p - nunits; q = p + 16 * s
           in (q, h\<lparr>hsize := (hsize h)(p := s, q := nunits)\<rparr>))
      in (Some (p + 16), h\<lparr>freep := prevp\<rparr>))"

partial_function (option) malloc_loop ::
  "(int \<Rightarrow> nat \<Rightarrow> nat option \<times> nat) \<Rightarrow> nat \<Rightarrow> nat \<Rightarrow> nat \<Rightarrow> uheap \<Rightarrow> (nat option \<times> uheap) option" where
  "malloc_loop sbrk nunits prevp p h =
     (if hsize h p \<ge> nunits then Some (carve nunits prevp p h)
      else if p = freep h then
        (case morecore sbrk nunits h of
           None \<Rightarrow> None
         | Some (None, h) \<Rightarrow> Some (None, h)
         | Some (Some p, h) \<Rightarrow> malloc_loop sbrk nunits p (hptr h p) h)
      else malloc_loop sbrk nunits p (hptr h p) h)"

definition malloc :: "(int \<Rightarrow> nat \<Rightarrow> nat option \<times> nat) \<Rightarrow> nat \<Rightarrow> u32 \<Rightarrow> uheap \<Rightarrow> (nat option \<times> uheap) option" where
  "malloc sbrk base nbytes h =
     (let nunits = (unat nbytes + 16 - 1) div 16 + 1;
          h = (if freep h = 0 then h\<lparr>hptr := (hptr h)(base := base), freep := base, hsize := (hsize h)(base := 0)\<rparr> else h);
          prevp = freep h
      in malloc_loop sbrk nunits prevp (hptr h prevp) h)"

section \<open>Circular lists\<close>

fun path :: "(nat \<Rightarrow> nat) \<Rightarrow> nat \<Rightarrow> nat list \<Rightarrow> nat \<Rightarrow> bool" where
  "path f p [] q \<longleftrightarrow> f p = q"
| "path f p (x # xs) q \<longleftrightarrow> f p = x \<and> path f x xs q"

lemma path_append: "path f p (xs @ x # ys) q \<longleftrightarrow> path f p xs x \<and> path f x ys q"
  by (induction xs arbitrary: p) auto

lemma path_upd [simp]: "x \<notin> set (p # xs) \<Longrightarrow> path (f(x := v)) p xs q \<longleftrightarrow> path f p xs q"
  by (induction xs arbitrary: p) auto

lemma path_last: "path f p xs q \<Longrightarrow> f (last (p # xs)) = q"
  by (induction xs arbitrary: p) auto

lemma path_last_upd: "distinct (p # xs) \<Longrightarrow> path f p xs q \<Longrightarrow> path (f(last (p # xs) := v)) p xs v"
  by (induction xs arbitrary: p) auto

lemma path_hd: "path f p xs q \<Longrightarrow> f p = hd (xs @ [q])"
  by (cases xs) auto

text \<open>From any header of the circle every other one is reached.\<close>

lemma path_around:
  assumes "path f b xs b" "x \<in> set (b # xs)" "distinct (b # xs)"
  obtains ys where "path f x ys x" "set (x # ys) = set (b # xs)" "distinct (x # ys)"
proof (cases "x = b")
  case True
  then show ?thesis using assms that [of xs] by simp
next
  case False
  then obtain us vs where xs: "xs = us @ x # vs" using assms(2) split_list by (metis set_ConsD)
  then have "path f b us x" "path f x vs b" using assms(1) by (auto simp: path_append)
  then have "path f x (vs @ b # us) x" by (simp add: path_append)
  then show ?thesis by (rule that) (use assms(3) in \<open>auto simp: xs\<close>)
qed

section \<open>The invariant\<close>

definition apart :: "uheap \<Rightarrow> nat \<Rightarrow> nat \<Rightarrow> bool" where
  "apart h a b \<longleftrightarrow> hend h a \<le> b \<or> hend h b \<le> a"

text \<open>
  \<open>xs\<close> are the free blocks in the order of their addresses, \<open>A\<close> the blocks in use, both given by their
  headers.
\<close>

definition blocks_ok :: "uheap \<Rightarrow> nat \<Rightarrow> nat set \<Rightarrow> bool" where
  "blocks_ok h base S \<longleftrightarrow> (\<forall>a\<in>S. base < a \<and> 0 < hsize h a \<and> hend h a \<le> brk h) \<and> (\<forall>a\<in>S. \<forall>b\<in>S. a \<noteq> b \<longrightarrow> apart h a b)"

definition heap_ok :: "nat \<Rightarrow> uheap \<Rightarrow> nat list \<Rightarrow> nat set \<Rightarrow> bool" where
  "heap_ok base h xs A \<longleftrightarrow> 0 < base \<and> base < brk h \<and> path (hptr h) base xs base \<and> sorted_wrt (<) (base # xs) \<and> hsize h base = 0 \<and>
     freep h \<in> set (base # xs) \<and> set xs \<inter> A = {} \<and> blocks_ok h base (set xs \<union> A)"

text \<open>Where the block \<open>bp\<close> belongs in the list of free blocks.\<close>

lemma split_place:
  assumes "sorted_wrt (<) (base # xs)" "bp \<notin> set xs" "(base :: nat) < bp"
  obtains as cs where "xs = as @ cs" "\<forall>a\<in>set (base # as). a < bp" "\<forall>c\<in>set cs. bp < c"
proof -
  let ?as = "takeWhile (\<lambda>x. x < bp) xs" and ?cs = "dropWhile (\<lambda>x. x < bp) xs"
  have "bp < c" if c: "c \<in> set ?cs" for c
  proof -
    obtain y ys where cs: "?cs = y # ys" using c by (cases ?cs) auto
    then have "\<not> y < bp" using hd_dropWhile [of "\<lambda>x. x < bp" xs] by auto
    moreover have "y \<in> set xs" using cs set_dropWhileD [of y "\<lambda>x. x < bp" xs] by simp
    ultimately have "bp < y" using assms(2) by (metis linorder_neqE_nat)
    moreover have "sorted_wrt (<) (?as @ ?cs)" using assms(1) by simp
    then have "y \<le> c" using c cs by (auto simp: sorted_wrt_append)
    ultimately show ?thesis by simp
  qed
  moreover have "\<forall>a\<in>set ?as. a < bp" by (auto dest: set_takeWhileD)
  ultimately show ?thesis by (intro that [of ?as ?cs]) (use assms(3) in simp_all)
qed

lemma path_next: "path f p xs q \<Longrightarrow> p # xs = us @ x # vs \<Longrightarrow> f x = hd (vs @ [q])"
  by (cases us) (auto simp: path_append path_hd)

lemma stops_place:
  assumes l: "path (hptr h) base (as @ cs) base" "sorted_wrt (<) (base # as @ cs)"
    and b: "\<forall>a\<in>set (base # as). a < bp" "\<forall>c\<in>set cs. bp < c" and x: "x \<in> set (base # as @ cs)"
  shows "stops h bp x \<longleftrightarrow> x = last (base # as)"
proof (cases "x \<in> set cs")
  case True
  then obtain us vs where u: "cs = us @ x # vs" using split_list by fast
  have "hptr h x = hd (vs @ [base])" using path_next [OF l(1), of "base # as @ us" x vs] u by simp
  moreover have "\<forall>v\<in>set vs. x < v" using l(2) by (auto simp: u sorted_wrt_append)
  moreover have "bp < x" "base < bp" "last (base # as) < bp" using b True by auto
  ultimately show ?thesis by (cases vs) (auto simp: stops_def)
next
  case False
  then obtain us vs where u: "base # as = us @ x # vs" using x split_list [of x "base # as"] by auto
  then have e: "base # as @ cs = us @ x # vs @ cs" by simp
  have n: "hptr h x = hd ((vs @ cs) @ [base])" using path_next [OF l(1) e] .
  show ?thesis
  proof (cases vs)
    case Nil
    moreover have "base \<le> x" using l(2) x by (auto intro: less_imp_le)
    moreover have "last (base # as) = x" using u Nil by simp
    ultimately show ?thesis using n b u by (cases cs) (auto simp: stops_def)
  next
    case (Cons v ws)
    have "sorted_wrt (<) (us @ x # vs @ cs)" using l(2) unfolding e .
    then have "x < v" "\<forall>w\<in>set vs. x < w" using Cons by (auto simp: sorted_wrt_append)
    moreover have "last (base # as) = last vs" "last vs \<in> set vs" using u Cons by (simp_all add: last_append)
    moreover have "v < bp" using b(1) u Cons by simp
    ultimately show ?thesis using n Cons by (auto simp: stops_def)
  qed
qed

lemma free_find_path:
  "path (hptr h) p zs pl \<Longrightarrow> \<forall>x\<in>set (p # zs). stops h bp x \<longrightarrow> x = pl \<Longrightarrow> stops h bp pl \<Longrightarrow> free_find h bp p = Some pl"
proof (induction zs arbitrary: p)
  case Nil
  then show ?case by (subst free_find.simps) (auto simp: free_find.simps [of h bp pl])
next
  case (Cons z zs)
  then show ?case by (subst free_find.simps) auto
qed

lemma free_find_place:
  assumes l: "path (hptr h) base (as @ cs) base" "sorted_wrt (<) (base # as @ cs)"
    and b: "\<forall>a\<in>set (base # as). a < bp" "\<forall>c\<in>set cs. bp < c" and x: "x \<in> set (base # as @ cs)"
  shows "free_find h bp x = Some (last (base # as))"
proof -
  let ?pl = "last (base # as)"
  obtain ys where y: "path (hptr h) x ys x" "set (x # ys) = set (base # as @ cs)" using path_around [OF l(1) x] l(2) strict_sorted_iff by blast
  have pl: "?pl \<in> set (base # as @ cs)" by auto
  have st: "stops h bp z \<longleftrightarrow> z = ?pl" if "z \<in> set (base # as @ cs)" for z using stops_place [OF l b that] .
  show ?thesis
  proof (cases "x = ?pl")
    case True
    then show ?thesis using st [OF x] by (subst free_find.simps) simp
  next
    case False
    then obtain us vs where u: "ys = us @ ?pl # vs" using pl y(2) split_list by (metis set_ConsD)
    then have "path (hptr h) x us ?pl" using y(1) by (simp add: path_append)
    moreover have "set (x # us) \<subseteq> set (base # as @ cs)" unfolding y(2) [symmetric] u by auto
    then have "\<forall>z\<in>set (x # us). stops h bp z \<longrightarrow> z = ?pl" using st by blast
    ultimately show ?thesis using st [OF pl] by (intro free_find_path) auto
  qed
qed

section \<open>Freeing\<close>

lemma blocks_ok_sub: "blocks_ok h base S \<Longrightarrow> T \<subseteq> S \<Longrightarrow> blocks_ok h base T"
  by (auto simp: blocks_ok_def)

lemma blocks_ok_same:
  "blocks_ok h base S \<Longrightarrow> (\<And>a. a \<in> S \<Longrightarrow> hsize h' a = hsize h a) \<Longrightarrow> brk h' = brk h \<Longrightarrow> blocks_ok h' base S"
  by (simp add: blocks_ok_def apart_def hend_def)

lemma blocks_ok_brk: "blocks_ok h base S \<Longrightarrow> brk h \<le> b \<Longrightarrow> blocks_ok (h\<lparr>brk := b\<rparr>) base S"
  by (force simp: blocks_ok_def apart_def hend_def intro: le_trans)

lemma blocks_okD:
  assumes "blocks_ok h base S" "a \<in> S"
  shows "base < a" "0 < hsize h a" "hend h a \<le> brk h" "a < hend h a" "b \<in> S \<Longrightarrow> a \<noteq> b \<Longrightarrow> apart h a b"
  using assms by (auto simp: blocks_ok_def hend_def)

lemma apart_sym: "apart h a b \<longleftrightarrow> apart h b a"
  by (auto simp: apart_def)

lemma blocks_ok_insert:
  "blocks_ok h base (insert x T) \<longleftrightarrow> base < x \<and> 0 < hsize h x \<and> hend h x \<le> brk h \<and> blocks_ok h base T \<and> (\<forall>t\<in>T. t \<noteq> x \<longrightarrow> apart h x t)"
  unfolding blocks_ok_def using apart_sym [of h x] by (auto simp: apart_sym)

text \<open>Two blocks that touch become one.\<close>

lemma blocks_ok_merge:
  assumes S: "blocks_ok h base (insert x (insert y T))" "x \<notin> T" "y \<notin> T" "hend h x = y"
    and h': "hsize h' x = hsize h x + hsize h y" "\<And>a. a \<in> T \<Longrightarrow> hsize h' a = hsize h a" "brk h' = brk h"
  shows "blocks_ok h' base (insert x T)"
proof -
  have e: "hend h' x = hend h y" using S(4) h'(1) by (auto simp: hend_def)
  have T: "blocks_ok h base T" using S(1) by (rule blocks_ok_sub) blast
  have "apart h' x a" if a: "a \<in> T" for a
  proof -
    have n: "x \<noteq> a" "y \<noteq> a" using S(2,3) a by auto
    have "apart h x a" "apart h y a" using blocks_okD(5) [OF S(1)] a n by simp_all
    moreover have "hend h' a = hend h a" using h'(2) [OF a] by (simp add: hend_def)
    ultimately show ?thesis using S(4) blocks_okD(4) [OF T a] unfolding apart_def e by linarith
  qed
  moreover have "base < x" "0 < hsize h' x" "hend h' x \<le> brk h'"
    using blocks_okD [OF S(1), of x] blocks_okD(3) [OF S(1), of y] h'(1,3) unfolding e by simp_all
  ultimately show ?thesis using blocks_ok_same [OF T h'(2,3)] by (simp add: blocks_ok_insert)
qed

text \<open>The first half of \<open>free_link\<close>: the block and the free blocks behind it.\<close>

definition link_right :: "nat \<Rightarrow> nat \<Rightarrow> uheap \<Rightarrow> uheap" where
  "link_right bp p h =
     (if hend h bp = hptr h p
      then h\<lparr>hsize := (hsize h)(bp := hsize h bp + hsize h (hptr h p)), hptr := (hptr h)(bp := hptr h (hptr h p))\<rparr>
      else h\<lparr>hptr := (hptr h)(bp := hptr h p)\<rparr>)"

definition link_left :: "nat \<Rightarrow> nat \<Rightarrow> uheap \<Rightarrow> uheap" where
  "link_left bp p h =
     (if hend h p = bp
      then h\<lparr>hsize := (hsize h)(p := hsize h p + hsize h bp), hptr := (hptr h)(p := hptr h bp)\<rparr>
      else h\<lparr>hptr := (hptr h)(p := bp)\<rparr>)"

lemma free_link_halves: "free_link bp p h = (link_left bp p (link_right bp p h))\<lparr>freep := p\<rparr>"
  by (simp add: free_link_def link_right_def link_left_def Let_def)

lemma link_right_ok:
  assumes l: "path (hptr h) base (as @ cs) base" "sorted_wrt (<) (base # as @ cs)"
    and b: "\<forall>a\<in>set (base # as). a < bp" "\<forall>c\<in>set cs. bp < c"
    and S: "blocks_ok h base (insert bp (set (as @ cs)) \<union> A)" "bp \<notin> A" "set (as @ cs) \<inter> A = {}" and p: "last (base # as) = p"
  obtains g ds r where "link_right bp p h = g" "path (hptr g) bp ds base" "set ds \<subseteq> set cs" "sorted_wrt (<) ds"
    "path (hptr g) base as r" "blocks_ok g base (insert bp (set (as @ ds)) \<union> A)"
    "\<forall>a. a \<noteq> bp \<longrightarrow> hsize g a = hsize h a" "hsize h bp \<le> hsize g bp" "brk g = brk h"
proof -
  let ?g = "link_right bp p h"
  have nb: "bp \<notin> set (base # as)" "bp \<notin> set cs" "bp \<noteq> base" using b by auto
  have pre: "path (hptr h) base as (hd (cs @ [base]))" using l(1) by (cases cs) (auto simp: path_append)
  then have r: "hptr h p = hd (cs @ [base])" unfolding p [symmetric] by (rule path_last)
  have srt: "sorted_wrt (<) cs" using l(2) by (simp add: sorted_wrt_append)
  have bb: "base < bp" "bp \<le> hend h bp" using b by (auto simp: hend_def)
  show thesis
  proof (cases "hend h bp = hptr h p")
    case True
    then obtain c cs' where c: "cs = c # cs'" using r bb by (cases cs) auto
    have g: "?g = h\<lparr>hsize := (hsize h)(bp := hsize h bp + hsize h c), hptr := (hptr h)(bp := hptr h c)\<rparr>"
      using True r c by (simp add: link_right_def)
    have pc: "path (hptr h) c cs' base" using l(1) by (simp add: c path_append)
    then have "path (hptr ?g) bp cs' base" using nb(2) by (cases cs') (auto simp: g c)
    moreover have "blocks_ok ?g base (insert bp (set (as @ cs') \<union> A))"
    proof (rule blocks_ok_merge [where y = c])
      show "blocks_ok h base (insert bp (insert c (set (as @ cs') \<union> A)))" using S(1) by (auto simp: c elim: blocks_ok_sub)
      show "hend h bp = c" using True r c by simp
      show "c \<notin> set (as @ cs') \<union> A" using l(2) S(3) by (auto simp: c sorted_wrt_append)
      show "bp \<notin> set (as @ cs') \<union> A" using nb S(2) c by auto
    qed (use nb S(2) c in \<open>auto simp: g\<close>)
    ultimately show ?thesis using that [of ?g cs' "hd (cs @ [base])"] srt pre nb by (auto simp: g c)
  next
    case False
    then have g: "?g = h\<lparr>hptr := (hptr h)(bp := hd (cs @ [base]))\<rparr>" using r by (simp add: link_right_def)
    have "path (hptr ?g) bp cs base" using l(1) nb(2) by (cases cs) (auto simp: g path_append)
    moreover have "blocks_ok ?g base (insert bp (set (as @ cs)) \<union> A)" using S(1) by (rule blocks_ok_same) (simp_all add: g)
    ultimately show ?thesis using that [of ?g cs "hd (cs @ [base])"] srt pre nb by (auto simp: g)
  qed
qed

lemma link_left_ok:
  assumes g: "path (hptr g) bp ds base" "path (hptr g) base as r" "blocks_ok g base (insert bp (set (as @ ds)) \<union> A)"
    and b: "sorted_wrt (<) (base # as)" "sorted_wrt (<) ds" "\<forall>a\<in>set (base # as). a < bp" "\<forall>c\<in>set ds. bp < c"
    and S: "bp \<notin> A" "set (as @ ds) \<inter> A = {}" "hsize g base = 0" and p: "last (base # as) = p"
  obtains k ys where "link_left bp p g = k" "path (hptr k) base ys base" "sorted_wrt (<) (base # ys)" "hsize k base = 0"
    "p \<in> set (base # ys)" "set ys \<inter> A = {}" "blocks_ok k base (set ys \<union> A)" "brk k = brk g" "\<forall>a\<in>A. hsize k a = hsize g a"
    "\<exists>y\<in>set ys. hsize g bp \<le> hsize k y"
proof -
  let ?k = "link_left bp p g"
  have d: "distinct (base # as)" using b(1) strict_sorted_iff by blast
  have pm: "p \<in> set (base # as)" using p last_in_set [of "base # as"] by simp
  have lt: "a < c" if "a \<in> set (base # as)" "c \<in> set (bp # ds)" for a c using b(3,4) that by fastforce
  have nds: "p \<notin> set (bp # ds)" using lt [OF pm] by blast
  show thesis
  proof (cases "hend g p = bp")
    case True
    then have "p \<noteq> base" using S(3) b(3) by (auto simp: hend_def)
    then have pa: "p \<in> set as" using pm by simp
    have k: "?k = g\<lparr>hsize := (hsize g)(p := hsize g p + hsize g bp), hptr := (hptr g)(p := hptr g bp)\<rparr>"
      using True by (simp add: link_left_def)
    have "path (hptr ?k) base as (hptr g bp)" unfolding k using path_last_upd [OF d g(2), of "hptr g bp"] p by simp
    then have "path (hptr ?k) base (as @ ds) base" using g(1) nds by (cases ds) (auto simp: k path_append)
    moreover have "blocks_ok ?k base (insert p (set (as @ ds) - {p} \<union> A))"
    proof (rule blocks_ok_merge [where y = bp and h = g])
      show "blocks_ok g base (insert p (insert bp (set (as @ ds) - {p} \<union> A)))" by (rule blocks_ok_sub [OF g(3)]) (use pa in auto)
      show "p \<notin> set (as @ ds) - {p} \<union> A" using S(2) pa by auto
      show "bp \<notin> set (as @ ds) - {p} \<union> A" using S(1) b(3,4) by auto
    qed (use True S(2) pa in \<open>auto simp: k\<close>)
    moreover have "insert p (set (as @ ds) - {p} \<union> A) = set (as @ ds) \<union> A" using pa by auto
    moreover have "sorted_wrt (<) (base # as @ ds)" using b lt by (auto simp: sorted_wrt_append)
    moreover have "\<forall>a\<in>A. hsize ?k a = hsize g a" using S(2) pa by (auto simp: k)
    moreover have "\<exists>y\<in>set (as @ ds). hsize g bp \<le> hsize ?k y" using pa by (intro bexI [of _ p]) (simp_all add: k)
    moreover have "brk ?k = brk g" "hsize ?k base = 0" using S(3) \<open>p \<noteq> base\<close> by (simp_all add: k)
    ultimately show ?thesis using that [of ?k "as @ ds"] S(2) pm pa by simp
  next
    case False
    then have k: "?k = g\<lparr>hptr := (hptr g)(p := bp)\<rparr>" by (simp add: link_left_def)
    have "path (hptr ?k) base as bp" unfolding k using path_last_upd [OF d g(2), of bp] p by simp
    then have "path (hptr ?k) base (as @ bp # ds) base" using g(1) nds by (simp add: k path_append)
    moreover have "blocks_ok ?k base (set (as @ bp # ds) \<union> A)" by (rule blocks_ok_same [of g]) (use g(3) in \<open>simp_all add: k\<close>)
    moreover have "sorted_wrt (<) (base # as @ bp # ds)" using b lt by (auto simp: sorted_wrt_append)
    moreover have "brk ?k = brk g" "hsize ?k = hsize g" by (simp_all add: k)
    ultimately show ?thesis using that [of ?k "as @ bp # ds"] S pm by auto
  qed
qed

lemma free_link_ok:
  assumes l: "heap_ok base h (as @ cs) A" and b: "\<forall>a\<in>set (base # as). a < bp" "\<forall>c\<in>set cs. bp < c"
    and S: "blocks_ok h base (insert bp (set (as @ cs)) \<union> A)" "bp \<notin> A" and p: "last (base # as) = p"
  obtains ys where "heap_ok base (free_link bp p h) ys A" "brk (free_link bp p h) = brk h"
    "\<forall>a\<in>A. hsize (free_link bp p h) a = hsize h a" "\<exists>y\<in>set ys. hsize h bp \<le> hsize (free_link bp p h) y"
proof -
  have h: "path (hptr h) base (as @ cs) base" "sorted_wrt (<) (base # as @ cs)" "set (as @ cs) \<inter> A = {}" "hsize h base = 0" "0 < base \<and> base < brk h"
    using l by (auto simp: heap_ok_def)
  obtain g ds r where g: "link_right bp p h = g" "path (hptr g) bp ds base" "set ds \<subseteq> set cs" "sorted_wrt (<) ds"
    "path (hptr g) base as r" "blocks_ok g base (insert bp (set (as @ ds)) \<union> A)"
    "\<forall>a. a \<noteq> bp \<longrightarrow> hsize g a = hsize h a" "hsize h bp \<le> hsize g bp" "brk g = brk h"
    using link_right_ok [OF h(1,2) b S h(3) p] .
  have c: "sorted_wrt (<) (base # as)" "\<forall>c\<in>set ds. bp < c" "set (as @ ds) \<inter> A = {}" "hsize g base = 0"
    using h g(3,7) b by (auto simp: sorted_wrt_append)
  obtain k ys where k: "link_left bp p g = k" "path (hptr k) base ys base" "sorted_wrt (<) (base # ys)" "hsize k base = 0"
    "p \<in> set (base # ys)" "set ys \<inter> A = {}" "blocks_ok k base (set ys \<union> A)" "brk k = brk g" "\<forall>a\<in>A. hsize k a = hsize g a"
    "\<exists>y\<in>set ys. hsize g bp \<le> hsize k y"
    using link_left_ok [OF g(2,5,6) c(1) g(4) b(1) c(2) S(2) c(3,4) p] .
  have f: "free_link bp p h = k\<lparr>freep := p\<rparr>" using g(1) k(1) by (simp add: free_link_halves)
  have "blocks_ok (k\<lparr>freep := p\<rparr>) base (set ys \<union> A)" by (rule blocks_ok_same [OF k(7)]) simp_all
  then have "heap_ok base (free_link bp p h) ys A" using k g(9) h(5) by (simp add: f heap_ok_def)
  moreover have "\<forall>a\<in>A. hsize k a = hsize h a" using k(9) g(7) S(2) by auto
  moreover have "\<exists>y\<in>set ys. hsize h bp \<le> hsize k y" using k(10) g(8) le_trans by blast
  ultimately show thesis using that [of ys] k(8) g(9) by (simp add: f)
qed

lemma free_ok:
  assumes h: "heap_ok base h xs (insert bp A)" "bp \<notin> A"
  obtains h' ys where "free (bp + 16) h = Some h'" "heap_ok base h' ys A" "brk h' = brk h"
    "\<forall>a\<in>A. hsize h' a = hsize h a" "\<exists>y\<in>set ys. hsize h bp \<le> hsize h' y"
proof -
  have l: "path (hptr h) base xs base" "sorted_wrt (<) (base # xs)" "freep h \<in> set (base # xs)"
    "bp \<notin> set xs" "base < bp" "blocks_ok h base (insert bp (set xs) \<union> A)"
    using h(1) by (auto simp: heap_ok_def blocks_ok_insert)
  obtain as cs where x: "xs = as @ cs" and b: "\<forall>a\<in>set (base # as). a < bp" "\<forall>c\<in>set cs. bp < c"
    using split_place [OF l(2,4,5)] .
  have "free_find h bp (freep h) = Some (last (base # as))" using free_find_place [OF _ _ b] l x by simp
  then have f: "free (bp + 16) h = Some (free_link bp (last (base # as)) h)" by (simp add: free_def)
  have "heap_ok base h (as @ cs) A" using h(1) x by (auto simp: heap_ok_def blocks_ok_insert)
  then show thesis using free_link_ok [OF _ b _ h(2) refl] l(6) x that [OF f] by metis
qed

section \<open>Taking a block\<close>

text \<open>One block becomes two.\<close>

lemma blocks_ok_split:
  assumes S: "blocks_ok h base (insert x T)" "x \<notin> T" "q = x + 16 * s" "0 < s" "0 < n" "hsize h x = s + n"
    and h': "hsize h' x = s" "hsize h' q = n" "\<And>a. a \<in> T \<Longrightarrow> hsize h' a = hsize h a" "brk h' = brk h"
  shows "blocks_ok h' base (insert q (insert x T))"
proof -
  have e: "hend h' x = q" "hend h' q = hend h x" using S(3,6) h' by (auto simp: hend_def)
  have T: "blocks_ok h base T" using S(1) by (simp add: blocks_ok_insert)
  have x: "base < x" "hend h x \<le> brk h" "x < q" "q < hend h x" using S by (auto simp: blocks_ok_insert hend_def)
  have "apart h' x a \<and> apart h' q a" if a: "a \<in> T" for a
  proof -
    have "apart h x a" using S(1,2) a by (auto simp: blocks_ok_insert)
    moreover have "hend h' a = hend h a" using h'(3) [OF a] by (simp add: hend_def)
    ultimately show ?thesis using x(3,4) unfolding apart_def e by linarith
  qed
  moreover have "apart h' q x" using e(1) by (simp add: apart_def)
  moreover have "blocks_ok h' base T" using T h'(3,4) by (rule blocks_ok_same)
  moreover have "q \<noteq> x" "base < q" "hend h' q \<le> brk h'" "hend h' x \<le> brk h'" using x e h'(4) by auto
  ultimately show ?thesis using x(1) h'(1,2) S(4,5) by (simp add: blocks_ok_insert)
qed

lemma blocks_ok_inside:
  assumes "blocks_ok h base S" "x \<in> S" "x < q" "q < hend h x" shows "q \<notin> S"
proof
  assume q: "q \<in> S"
  then have "apart h x q" using blocks_okD(5) [OF assms(1,2) q] assms(3) by blast
  then show False using assms(3,4) blocks_okD(4) [OF assms(1) q] by (auto simp: apart_def)
qed

lemma carve_ok:
  assumes h: "heap_ok base h xs A" and q: "prevp \<in> set (base # xs)" "hptr h prevp = p" and n: "0 < n" "n \<le> hsize h p"
  obtains a h' ys where "carve n prevp p h = (Some (a + 16), h')" "heap_ok base h' ys (insert a A)" "a \<notin> A" "brk h' = brk h"
    "hsize h' a = n" "\<forall>x\<in>A. hsize h' x = hsize h x"
proof -
  have l: "path (hptr h) base xs base" "sorted_wrt (<) (base # xs)" "hsize h base = 0" "set xs \<inter> A = {}"
    "blocks_ok h base (set xs \<union> A)" "0 < base \<and> base < brk h" using h by (auto simp: heap_ok_def)
  have d: "distinct (base # xs)" using l(2) strict_sorted_iff by blast
  obtain us vs where u: "base # xs = us @ prevp # vs" using q(1) split_list by metis
  have "p = hd (vs @ [base])" using path_next [OF l(1) u] q(2) by simp
  moreover have "p \<noteq> base" using n l(3) by auto
  ultimately obtain ws where v: "vs = p # ws" by (cases vs) auto
  then have pm: "p \<in> set xs" using u by (cases us) auto
  show thesis
  proof (cases "hsize h p = n")
    case True
    let ?h = "h\<lparr>hptr := (hptr h)(prevp := hptr h p), freep := prevp\<rparr>"
    have "\<exists>as. base # as = us @ [prevp] \<and> xs = as @ p # ws" using u v by (cases us) auto
    then obtain as where as: "base # as = us @ [prevp]" and x1: "xs = as @ p # ws" by blast
    have x: "xs = as @ p # ws" "prevp = last (base # as)" using x1 unfolding as by simp_all
    have "path (hptr h) base as p" "path (hptr h) p ws base" using l(1) by (simp_all add: x(1) path_append)
    then have "path (hptr ?h) base as (hptr h p)" using path_last_upd [of base as] d x by simp
    moreover have "prevp \<notin> set (p # ws)" using d unfolding u v by simp
    ultimately have "path (hptr ?h) base (as @ ws) base"
      using \<open>path (hptr h) p ws base\<close> by (cases ws) (auto simp: path_append)
    moreover have "blocks_ok ?h base (set (as @ ws) \<union> insert p A)"
      by (rule blocks_ok_same [of h]) (use l(5) in \<open>auto simp: x(1) elim: blocks_ok_sub\<close>)
    moreover have "sorted_wrt (<) (base # as @ ws)" using l(2) by (auto simp: x(1) sorted_wrt_append)
    moreover have "prevp \<in> set (base # as @ ws)" using x(2) by auto
    moreover have "set (as @ ws) \<inter> insert p A = {}" using d l(4) by (auto simp: x(1))
    ultimately have "heap_ok base ?h (as @ ws) (insert p A)" using l by (simp add: heap_ok_def)
    then show ?thesis using that [of p ?h "as @ ws"] True pm l(4) by (auto simp: carve_def)
  next
    case False
    define s where "s = hsize h p - n"
    define a where "a = p + 16 * s"
    have s: "0 < s" "hsize h p = s + n" using False n(2) by (auto simp: s_def)
    let ?h = "h\<lparr>hsize := (hsize h)(p := s, a := n), freep := prevp\<rparr>"
    have i: "a \<notin> set xs \<union> A" using blocks_ok_inside [OF l(5), of p a] pm s n(1) by (simp add: a_def hend_def)
    have a: "a \<noteq> base" "p < a" using blocks_okD(1) [OF l(5), of p] pm s by (auto simp: a_def)
    have "blocks_ok ?h base (insert a (insert p (set xs \<union> A - {p})))"
      by (rule blocks_ok_split [of h _ p _ a s n]) (use l(5) pm s n a i a_def in \<open>auto simp: insert_absorb\<close>)
    then have "blocks_ok ?h base (set xs \<union> insert a A)" using pm by (simp add: insert_absorb)
    then have "heap_ok base ?h xs (insert a A)" using l i a pm q(1) \<open>p \<noteq> base\<close> by (auto simp: heap_ok_def)
    moreover have "carve n prevp p h = (Some (a + 16), ?h)" using False by (simp add: carve_def s_def a_def Let_def)
    moreover have "\<forall>x\<in>A. hsize ?h x = hsize h x" using i l(4) pm by auto
    ultimately show ?thesis using that [of a ?h xs] i by simp
  qed
qed

text \<open>The loop of \<open>malloc\<close> walks over the blocks that are too small.\<close>

lemma malloc_walk:
  "path (hptr h) prevp zs t \<Longrightarrow> \<forall>z\<in>set zs. hsize h z < n \<and> z \<noteq> freep h \<Longrightarrow>
   malloc_loop sbrk n prevp (hptr h prevp) h = malloc_loop sbrk n (last (prevp # zs)) t h \<and> hptr h (last (prevp # zs)) = t"
proof (induction zs arbitrary: prevp)
  case (Cons z zs)
  then have "malloc_loop sbrk n prevp z h = malloc_loop sbrk n z (hptr h z) h" by (subst malloc_loop.simps) auto
  then show ?case using Cons by auto
qed simp

lemma malloc_round:
  assumes h: "heap_ok base h xs A" "0 < n"
  obtains (fits) q where "q \<in> set (base # xs)" "n \<le> hsize h (hptr h q)"
      "malloc_loop sbrk n (freep h) (hptr h (freep h)) h = Some (carve n q (hptr h q) h)"
    | (none) "\<forall>x\<in>set xs. hsize h x < n"
      "malloc_loop sbrk n (freep h) (hptr h (freep h)) h =
        (case morecore sbrk n h of
           None \<Rightarrow> None
         | Some (None, h) \<Rightarrow> Some (None, h)
         | Some (Some p, h) \<Rightarrow> malloc_loop sbrk n p (hptr h p) h)"
proof -
  let ?f = "freep h"
  have "path (hptr h) base xs base" "?f \<in> set (base # xs)" "distinct (base # xs)"
    using h(1) strict_sorted_iff by (auto simp: heap_ok_def)
  then obtain ys where y: "path (hptr h) ?f ys ?f" "set (?f # ys) = set (base # xs)" "distinct (?f # ys)" by (rule path_around)
  have c: "path (hptr h) ?f zs t" if "ys @ [?f] = zs @ t # ws" for zs t ws
    using y(1) that by (cases ws rule: rev_cases) (auto simp: path_append)
  show thesis
  proof (cases "\<exists>x\<in>set (ys @ [?f]). n \<le> hsize h x")
    case True
    then obtain zs t ws where z: "ys @ [?f] = zs @ t # ws" "n \<le> hsize h t" "\<forall>z\<in>set zs. hsize h z < n"
      using split_list_first_prop [of "ys @ [?f]" "\<lambda>x. n \<le> hsize h x"] by (metis not_le)
    have sub: "set zs \<subseteq> set ys" using z(1) by (cases ws rule: rev_cases) auto
    then have "\<forall>z\<in>set zs. hsize h z < n \<and> z \<noteq> ?f" using z(3) y(3) by auto
    then have "malloc_loop sbrk n ?f (hptr h ?f) h = malloc_loop sbrk n (last (?f # zs)) t h \<and> hptr h (last (?f # zs)) = t"
      by (rule malloc_walk [OF c [OF z(1)]])
    moreover have "malloc_loop sbrk n q t h = Some (carve n q t h)" for q using z(2) by (subst malloc_loop.simps) simp
    moreover have "set (?f # zs) \<subseteq> set (base # xs)" using sub unfolding y(2) [symmetric] by auto
    then have "last (?f # zs) \<in> set (base # xs)" using last_in_set [of "?f # zs"] by blast
    ultimately show ?thesis using fits z(2) by simp
  next
    case False
    then have small: "\<forall>x\<in>set (?f # ys). hsize h x < n" by auto
    then have "\<forall>z\<in>set ys. hsize h z < n \<and> z \<noteq> ?f" using y(3) by auto
    then have "malloc_loop sbrk n ?f (hptr h ?f) h = malloc_loop sbrk n (last (?f # ys)) ?f h"
      using malloc_walk [OF y(1)] by blast
    moreover have "\<forall>x\<in>set xs. hsize h x < n" using small unfolding y(2) by simp
    ultimately show ?thesis using none small by (simp add: malloc_loop.simps [of _ _ _ ?f])
  qed
qed

section \<open>Growing\<close>

text \<open>
  What \<open>morecore\<close> relies on: \<open>sbrk\<close> with a positive argument either fails and leaves the process as it was,
  or returns the old end of the process and moves the end up by its argument.
\<close>

locale sbrk_service =
  fixes sbrk :: "int \<Rightarrow> nat \<Rightarrow> nat option \<times> nat"
  assumes sbrk_grows: "0 < n \<Longrightarrow> n < 2 ^ 31 \<Longrightarrow> b < 2 ^ 38 \<Longrightarrow> sbrk n b = (None, b) \<or> sbrk n b = (Some b, b + nat n)"

lemma heap_grow:
  assumes h: "heap_ok base h xs A" and n: "0 < n"
  shows "heap_ok base (h\<lparr>brk := brk h + 16 * n, hsize := (hsize h)(brk h := n)\<rparr>) xs (insert (brk h) A)" "brk h \<notin> A"
proof -
  let ?b = "brk h" and ?S = "set xs \<union> A"
  let ?h = "h\<lparr>brk := brk h + 16 * n, hsize := (hsize h)(brk h := n)\<rparr>"
  have S: "blocks_ok h base ?S" and bb: "base < ?b" using h by (auto simp: heap_ok_def)
  have lt: "a < ?b \<and> hend h a \<le> ?b" if "a \<in> ?S" for a using blocks_okD(3,4) [OF S that] by linarith
  then have nb: "?b \<notin> ?S" by blast
  have e: "hend ?h a = hend h a" if "a \<in> ?S" for a using nb that by (auto simp: hend_def)
  have "blocks_ok (h\<lparr>brk := brk h + 16 * n\<rparr>) base ?S" using S by (rule blocks_ok_brk) simp
  then have "blocks_ok ?h base ?S" by (rule blocks_ok_same) (use nb in auto)
  moreover have "\<forall>a\<in>?S. apart ?h ?b a" using lt e by (auto simp: apart_def)
  ultimately have "blocks_ok ?h base (insert ?b ?S)" using n bb by (simp add: blocks_ok_insert hend_def)
  then show "heap_ok base ?h xs (insert ?b A)" using h nb bb by (simp add: heap_ok_def)
  show "?b \<notin> A" using nb by blast
qed

text \<open>Between the calls: before the first \<open>malloc\<close> nothing is allocated.\<close>

definition uheap_inv :: "nat \<Rightarrow> uheap \<Rightarrow> nat set \<Rightarrow> bool" where
  "uheap_inv base h A \<longleftrightarrow> (if freep h = 0 then 0 < base \<and> base < brk h \<and> A = {} else \<exists>xs. heap_ok base h xs A)"

lemma heap_ok_brk: "heap_ok base h xs A \<Longrightarrow> brk h \<le> b \<Longrightarrow> heap_ok base (h\<lparr>brk := b\<rparr>) xs A"
  by (simp add: heap_ok_def blocks_ok_brk)

lemma heap_ok_inv: "heap_ok base h xs A \<Longrightarrow> uheap_inv base h A"
  by (auto simp: heap_ok_def uheap_inv_def)

context sbrk_service
begin

lemma morecore_ok:
  assumes h: "heap_ok base h xs A" "nu * 16 < 2 ^ 31" "brk h < 2 ^ 38"
  obtains (fails) "morecore sbrk nu h = Some (None, h)"
    | (grows) h' ys where "morecore sbrk nu h = Some (Some (freep h'), h')" "heap_ok base h' ys A" "brk h \<le> brk h'"
        "\<forall>a\<in>A. hsize h' a = hsize h a" "\<exists>y\<in>set ys. nu \<le> hsize h' y"
proof -
  define n where "n = (if nu < 4096 then 4096 else nu)"
  have n: "0 < n" "nu \<le> n" "n * 16 < 2 ^ 31" using h(2) by (auto simp: n_def)
  then have "sint (of_nat (n * 16) :: u32) = int n * 16" using int_word_sint [of "int (n * 16)", where 'a = 32] by simp
  then have m: "morecore sbrk nu h = (case sbrk (int n * 16) (brk h) of
        (None, b) \<Rightarrow> Some (None, h\<lparr>brk := b\<rparr>)
      | (Some p, b) \<Rightarrow> map_option (\<lambda>h. (Some (freep h), h)) (free (p + 16) (h\<lparr>brk := b, hsize := (hsize h)(p := n)\<rparr>)))"
    by (simp add: morecore_def n_def [symmetric] Let_def)
  from sbrk_grows [of "int n * 16" "brk h"] n(1,3) h(3)
  consider "sbrk (int n * 16) (brk h) = (None, brk h)" | "sbrk (int n * 16) (brk h) = (Some (brk h), brk h + 16 * n)"
    by (fastforce simp: nat_mult_distrib)
  then show thesis
  proof cases
    case 1
    then show ?thesis using m fails by simp
  next
    case 2
    obtain h' ys where k: "free (brk h + 16) (h\<lparr>brk := brk h + 16 * n, hsize := (hsize h)(brk h := n)\<rparr>) = Some h'"
      "heap_ok base h' ys A" "brk h' = brk h + 16 * n" "\<forall>a\<in>A. hsize h' a = ((hsize h)(brk h := n)) a" "\<exists>y\<in>set ys. n \<le> hsize h' y"
      using free_ok [OF heap_grow [OF h(1) n(1)]] by auto
    have "\<forall>a\<in>A. hsize h' a = hsize h a" using k(4) heap_grow(2) [OF h(1) n(1)] by auto
    moreover have "\<exists>y\<in>set ys. nu \<le> hsize h' y" using k(5) n(2) le_trans by blast
    ultimately show ?thesis using grows [OF _ k(2)] m 2 k(1,3) by simp
  qed
qed

text \<open>\<open>malloc\<close> returns, asks for memory at most once, and gives out a block that nobody has.\<close>

lemma malloc_loop_ok:
  assumes h: "heap_ok base h xs A" "0 < n" "n * 16 < 2 ^ 31" "brk h < 2 ^ 38"
  obtains (null) "malloc_loop sbrk n (freep h) (hptr h (freep h)) h = Some (None, h)"
    | (block) a h' ys where "malloc_loop sbrk n (freep h) (hptr h (freep h)) h = Some (Some (a + 16), h')"
        "heap_ok base h' ys (insert a A)" "a \<notin> A" "brk h \<le> brk h'" "hsize h' a = n" "\<forall>x\<in>A. hsize h' x = hsize h x"
  using h(1,2)
proof (cases rule: malloc_round [where sbrk = sbrk])
  case (fits q)
  then show ?thesis using carve_ok [OF h(1) _ refl h(2)] block by (metis order_refl)
next
  case none
  from h(1,3,4) show ?thesis
  proof (cases rule: morecore_ok)
    case fails
    then show ?thesis using none(2) null by simp
  next
    case (grows k ys)
    from grows(2) h(2) show ?thesis
    proof (cases rule: malloc_round [where sbrk = sbrk])
      case (fits q)
      obtain a h' zs where a: "carve n q (hptr k q) k = (Some (a + 16), h')" "heap_ok base h' zs (insert a A)" "a \<notin> A"
        "brk h' = brk k" "hsize h' a = n" "\<forall>x\<in>A. hsize h' x = hsize k x"
        using carve_ok [OF grows(2) fits(1) refl h(2) fits(2)] .
      then show ?thesis using block [OF _ a(2,3)] none(2) grows(1,3,4) fits(3) by simp
    next
      case none
      then show ?thesis using grows(5) by auto
    qed
  qed
qed

lemma malloc_ok:
  assumes h: "uheap_inv base h A" "unat nbytes + 32 \<le> 2 ^ 31" "brk h < 2 ^ 38"
  obtains (null) h' where "malloc sbrk base nbytes h = Some (None, h')" "uheap_inv base h' A" "brk h' = brk h" "\<forall>x\<in>A. hsize h' x = hsize h x"
    | (block) a h' where "malloc sbrk base nbytes h = Some (Some (a + 16), h')" "uheap_inv base h' (insert a A)" "a \<notin> A"
        "brk h \<le> brk h'" "unat nbytes + 16 \<le> 16 * hsize h' a" "\<forall>x\<in>A. hsize h' x = hsize h x"
proof -
  define n where "n = (unat nbytes + 16 - 1) div 16 + 1"
  define k where "k = (if freep h = 0 then h\<lparr>hptr := (hptr h)(base := base), freep := base, hsize := (hsize h)(base := 0)\<rparr> else h)"
  have "unat nbytes + 15 = 16 * (n - 1) + (unat nbytes + 15) mod 16"
    using mult_div_mod_eq [of 16 "unat nbytes + 15"] by (simp add: n_def add.commute)
  moreover have "(unat nbytes + 15) mod 16 < 16" "0 < n" by (simp_all add: n_def)
  ultimately have n: "0 < n" "unat nbytes + 16 \<le> 16 * n" "n * 16 < 2 ^ 31" using h(2) by linarith+
  have m: "malloc sbrk base nbytes h = malloc_loop sbrk n (freep k) (hptr k (freep k)) k"
    unfolding malloc_def Let_def n_def k_def by (rule refl)
  have "freep h = 0 \<Longrightarrow> heap_ok base k [] A" using h(1) by (simp add: uheap_inv_def k_def heap_ok_def blocks_ok_def)
  moreover have "freep h \<noteq> 0 \<Longrightarrow> \<exists>xs. heap_ok base k xs A" using h(1) by (simp add: uheap_inv_def k_def)
  ultimately obtain xs where k: "heap_ok base k xs A" by blast
  have e: "brk k = brk h" "\<forall>x\<in>A. hsize k x = hsize h x" using h(1) by (auto simp: k_def uheap_inv_def)
  have b: "brk k < 2 ^ 38" using e h(3) by simp
  show thesis
    using k n(1,3) b
  proof (cases rule: malloc_loop_ok)
    case null
    then show ?thesis using that(1) m k e heap_ok_inv by simp
  next
    case (block a h' ys)
    then show ?thesis using that(2) m n(2) e heap_ok_inv by simp
  qed
qed

end

section \<open>The system call\<close>

text \<open>The system call \<open>sbrk(n)\<close> of process \<open>cur\<close>, whose size is \<open>b\<close>, in the kernel state \<open>s\<close>.\<close>

definition kernel_sbrk :: "image \<Rightarrow> nat \<Rightarrow> kernel \<Rightarrow> int \<Rightarrow> nat \<Rightarrow> nat option \<times> nat" where
  "kernel_sbrk K cur s n b =
     (case sys_sbrk K cur (tf_set cur TF_a0 (of_int n) (upd_proc cur (\<lambda>x. x\<lparr>p_sz := of_nat b\<rparr>) s)) of
        Ret (a, t) \<Rightarrow> (if a = - 1 then None else Some (unat a), unat (p_sz (procs t cur)))
      | _ \<Rightarrow> (None, b))"

lemma uvmalloc_loop_size: "uvmalloc_loop ke pt oldsz a newsz xperm m = Ret (r, m') \<Longrightarrow> r = 0 \<or> r = newsz"
proof (induction ke pt oldsz a newsz xperm m rule: uvmalloc_loop.induct)
  case (1 ke pt oldsz a newsz xperm m)
  show ?case using 1(2) by (subst (asm) uvmalloc_loop.simps) (auto simp: result_simps split: if_splits dest: 1(1))
qed

lemma sys_sbrk_arg:
  assumes n: "- (2 ^ 31) \<le> n" "n < 2 ^ 31"
  shows "sys_sbrk K cur (tf_set cur TF_a0 (of_int n) s) =
    rbind (growproc K cur n (tf_set cur TF_a0 (of_int n) s)) (\<lambda>(r, t). if r < 0 then Ret (- 1, t) else Ret (p_sz (procs s cur), t))"
proof -
  have "ucast (of_int n :: u64) = (of_int n :: u32)" by transfer simp
  moreover have "sint (of_int n :: u32) = n" using n by (subst int_word_sint) simp
  ultimately show ?thesis by (simp add: sys_sbrk_def argint_def argraw_def tf_get_def tf_set_def result_simps Let_def)
qed

lemma kernel_sbrk_growproc:
  assumes "- (2 ^ 31) \<le> n" "n < 2 ^ 31"
  obtains s' where "p_sz (procs s' cur) = of_nat b" "kernel_sbrk K cur s n b =
    (case rbind (growproc K cur n s') (\<lambda>(r, t). if r < 0 then Ret (- 1, t) else Ret (of_nat b :: u64, t)) of
       Ret (a, t) \<Rightarrow> (if a = - 1 then None else Some (unat a), unat (p_sz (procs t cur))) | _ \<Rightarrow> (None, b))"
proof (rule that)
  let ?s = "tf_set cur TF_a0 (of_int n) (upd_proc cur (\<lambda>x. x\<lparr>p_sz := of_nat b\<rparr>) s)"
  show "p_sz (procs ?s cur) = of_nat b" by (simp add: tf_set_def upd_proc_def)
  show "kernel_sbrk K cur s n b =
    (case rbind (growproc K cur n ?s) (\<lambda>(r, t). if r < 0 then Ret (- 1, t) else Ret (of_nat b :: u64, t)) of
       Ret (a, t) \<Rightarrow> (if a = - 1 then None else Some (unat a), unat (p_sz (procs t cur))) | _ \<Rightarrow> (None, b))"
    using assms by (simp add: kernel_sbrk_def sys_sbrk_arg upd_proc_def cong: if_cong)
qed

lemma size_word:
  assumes "b < 2 ^ 38"
  shows "unat (of_nat b :: u64) = b" "(of_nat b :: u64) \<noteq> - 1"
proof -
  show z: "unat (of_nat b :: u64) = b" using assms by (simp add: unat_of_nat take_bit_nat_eq_self)
  have "unat (- 1 :: u64) = 2 ^ 64 - 1" by (simp add: unsigned_minus_1_eq_mask mask_eq_exp_minus_1)
  then show "(of_nat b :: u64) \<noteq> - 1" using assms z by auto
qed

lemma kernel_sbrk_grows:
  assumes n: "0 < n" "n < 2 ^ 31" and b: "b < 2 ^ 38"
  shows "kernel_sbrk K cur s n b = (None, b) \<or> kernel_sbrk K cur s n b = (Some b, b + nat n)"
proof -
  let ?z = "of_nat b :: u64"
  note z = size_word(1) [OF b] and m1 = size_word(2) [OF b]
  obtain s' where pz: "p_sz (procs s' cur) = ?z" and e: "kernel_sbrk K cur s n b =
    (case rbind (growproc K cur n s') (\<lambda>(r, t). if r < 0 then Ret (- 1, t) else Ret (?z, t)) of
       Ret (a, t) \<Rightarrow> (if a = - 1 then None else Some (unat a), unat (p_sz (procs t cur))) | _ \<Rightarrow> (None, b))"
    by (rule kernel_sbrk_growproc [of n]) (use n in simp_all)
  have "of_int n = (of_nat (nat n) :: u64)" using n(1) by simp
  then have zn: "?z + of_int n = of_nat (b + nat n)" by simp
  then have w: "unat (?z + of_int n) = b + nat n"
    unfolding zn using n b by (simp add: unat_of_nat take_bit_nat_eq_self del: of_nat_add)
  have le: "\<not> ?z + of_int n < ?z" using z w by (simp add: word_less_nat_alt)
  show ?thesis
  proof (cases "uvmalloc (kend K) (pagetable (procs s' cur)) ?z (?z + of_int n) PTE_W (km s')")
    case (Ret x)
    then obtain r m where x: "uvmalloc (kend K) (pagetable (procs s' cur)) ?z (?z + of_int n) PTE_W (km s') = Ret (r, m)" by (cases x) simp
    then have "r = 0 \<or> r = ?z + of_int n" using le uvmalloc_loop_size by (auto simp: uvmalloc_def)
    then show ?thesis using e x n pz z w m1
      by (auto simp: growproc_def on_km_def upd_proc_def result_simps Let_def simp del: of_int_of_nat_eq)
  qed (use e n pz in \<open>auto simp: growproc_def on_km_def result_simps Let_def\<close>)
qed

interpretation ksbrk: sbrk_service "kernel_sbrk K cur s" for K cur s
  by unfold_locales (rule kernel_sbrk_grows)

section \<open>A program that uses the allocator\<close>

text \<open>
  The heap and the pointers the program holds, each with the size it asked for. The program may also call
  \<open>sbrk\<close> itself to grow.
\<close>

inductive ustep :: "nat \<Rightarrow> uheap \<times> (nat \<rightharpoonup> u32) \<Rightarrow> uheap \<times> (nat \<rightharpoonup> u32) \<Rightarrow> bool" for base where
  malloc: "sbrk_service sbrk \<Longrightarrow> unat nbytes + 32 \<le> 2 ^ 31 \<Longrightarrow> brk h < 2 ^ 38 \<Longrightarrow>
    malloc sbrk base nbytes h = Some (Some ap, h') \<Longrightarrow> ustep base (h, A) (h', A(ap \<mapsto> nbytes))"
| malloc_null: "sbrk_service sbrk \<Longrightarrow> unat nbytes + 32 \<le> 2 ^ 31 \<Longrightarrow> brk h < 2 ^ 38 \<Longrightarrow>
    malloc sbrk base nbytes h = Some (None, h') \<Longrightarrow> ustep base (h, A) (h', A)"
| free: "ap \<in> dom A \<Longrightarrow> free ap h = Some h' \<Longrightarrow> ustep base (h, A) (h', A(ap := None))"
| grow: "brk h \<le> b \<Longrightarrow> ustep base (h, A) (h\<lparr>brk := b\<rparr>, A)"

definition uinit :: "nat \<Rightarrow> uheap \<times> (nat \<rightharpoonup> u32) \<Rightarrow> bool" where
  "uinit base = (\<lambda>(h, A). freep h = 0 \<and> 0 < base \<and> base < brk h \<and> A = Map.empty)"

definition headers :: "(nat \<rightharpoonup> u32) \<Rightarrow> nat set" where
  "headers A = {a. a + 16 \<in> dom A}"

definition sizes_ok :: "uheap \<Rightarrow> (nat \<rightharpoonup> u32) \<Rightarrow> bool" where
  "sizes_ok h A \<longleftrightarrow> (\<forall>ap n. A ap = Some n \<longrightarrow> 16 \<le> ap \<and> unat n + 16 \<le> 16 * hsize h (ap - 16))"

definition uclient_inv :: "nat \<Rightarrow> uheap \<times> (nat \<rightharpoonup> u32) \<Rightarrow> bool" where
  "uclient_inv base = (\<lambda>(h, A). uheap_inv base h (headers A) \<and> sizes_ok h A)"

lemma headers_upd [simp]: "headers (A(a + 16 \<mapsto> n)) = insert a (headers A)" "headers (A(a + 16 := None)) = headers A - {a}"
  by (auto simp: headers_def)

lemma sizes_ok_keep:
  assumes "sizes_ok h A" "\<forall>x\<in>headers B. hsize k x = hsize h x" "B \<subseteq>\<^sub>m A"
  shows "sizes_ok k B"
  unfolding sizes_ok_def
proof (intro allI impI)
  fix ap n
  assume a: "B ap = Some n"
  then have "A ap = Some n" using assms(3) by (auto simp: map_le_def dom_def)
  then have "16 \<le> ap" "unat n + 16 \<le> 16 * hsize h (ap - 16)" using assms(1) by (auto simp: sizes_ok_def)
  moreover have "ap - 16 \<in> headers B" using a \<open>16 \<le> ap\<close> by (auto simp: headers_def)
  ultimately show "16 \<le> ap \<and> unat n + 16 \<le> 16 * hsize k (ap - 16)" using assms(2) by simp
qed

lemma free_inv:
  assumes "uheap_inv base h A" "a \<in> A"
  obtains h' where "free (a + 16) h = Some h'" "uheap_inv base h' (A - {a})" "\<forall>x\<in>A - {a}. hsize h' x = hsize h x"
proof -
  obtain xs where "heap_ok base h xs (insert a (A - {a}))" using assms by (auto simp: uheap_inv_def insert_absorb split: if_splits)
  then obtain h' ys where "free (a + 16) h = Some h'" "heap_ok base h' ys (A - {a})" "\<forall>x\<in>A - {a}. hsize h' x = hsize h x"
    by (rule free_ok) auto
  then show thesis using that heap_ok_inv by blast
qed

lemma ustep_inv: "ustep base s t \<Longrightarrow> uclient_inv base s \<Longrightarrow> uclient_inv base t"
proof (induction rule: ustep.induct)
  case (malloc sbrk nbytes h ap h' A)
  then have i: "uheap_inv base h (headers A)" by (simp add: uclient_inv_def)
  from malloc(1) i malloc(2,3) show ?case
  proof (cases rule: sbrk_service.malloc_ok [consumes 4, case_names null block])
    case (block a k)
    then have "sizes_ok k A" using malloc(5) sizes_ok_keep [of h A A k] by (simp add: uclient_inv_def)
    then have "sizes_ok k (A(a + 16 \<mapsto> nbytes))" using block(5) by (auto simp: sizes_ok_def)
    moreover have "ap = a + 16" "h' = k" using malloc(4) block(1) by simp_all
    ultimately show ?thesis using block(2) by (simp add: uclient_inv_def)
  qed (use malloc(4) in simp)
next
  case (malloc_null sbrk nbytes h h' A)
  then have i: "uheap_inv base h (headers A)" by (simp add: uclient_inv_def)
  from malloc_null(1) i malloc_null(2,3) show ?case
  proof (cases rule: sbrk_service.malloc_ok [consumes 4, case_names null block])
    case (null k)
    then show ?thesis using malloc_null(4,5) sizes_ok_keep [of h A A k] by (simp add: uclient_inv_def)
  qed (use malloc_null(4) in simp)
next
  case (free ap A h h')
  then obtain a where a: "ap = a + 16" "a \<in> headers A" "uheap_inv base h (headers A)"
    using that [of "ap - 16"] by (auto simp: uclient_inv_def headers_def sizes_ok_def)
  from a(3,2) obtain k where k: "free (a + 16) h = Some k" "uheap_inv base k (headers A - {a})" "\<forall>x\<in>headers A - {a}. hsize k x = hsize h x"
    by (rule free_inv)
  have "sizes_ok k (A(a + 16 := None))"
    by (rule sizes_ok_keep [of h A]) (use free(3) k(3) in \<open>auto simp: uclient_inv_def map_le_def\<close>)
  then show ?case using k a(1) free(2) by (simp add: uclient_inv_def)
next
  case (grow h b A)
  have "uheap_inv base h S \<Longrightarrow> uheap_inv base (h\<lparr>brk := b\<rparr>) S" for S
    using grow(1) heap_ok_brk [OF _ grow(1)] by (cases "freep h = 0") (simp add: uheap_inv_def, simp add: uheap_inv_def, blast)
  then show ?case using grow(2) by (simp add: uclient_inv_def sizes_ok_def)
qed

lemma uinit_inv: "uinit base s \<Longrightarrow> uclient_inv base s"
  by (auto simp: uinit_def uclient_inv_def uheap_inv_def headers_def sizes_ok_def)

interpretation uheap: transitions "uinit base" "ustep base" "uclient_inv base" for base
  by unfold_locales (erule uinit_inv, erule (1) ustep_inv)

lemma uclient_blocks:
  assumes "uclient_inv base (h, A)" "A p = Some n"
  obtains a where "p = a + 16" "a \<in> headers A" "blocks_ok h base (headers A)" "a + 16 + unat n \<le> hend h a"
proof -
  have "a \<in> headers A \<Longrightarrow> blocks_ok h base (headers A)" for a
    using assms(1) by (auto simp: uclient_inv_def uheap_inv_def heap_ok_def elim: blocks_ok_sub split: if_splits)
  moreover have p: "16 \<le> p" "unat n + 16 \<le> 16 * hsize h (p - 16)" using assms by (auto simp: uclient_inv_def sizes_ok_def)
  then have "p - 16 \<in> headers A" using assms(2) by (auto simp: headers_def)
  moreover have "p = p - 16 + 16" "p - 16 + 16 + unat n \<le> hend h (p - 16)" using p by (simp_all add: hend_def)
  ultimately show thesis using that by blast
qed


definition sbrk0 :: "int \<Rightarrow> nat \<Rightarrow> nat option \<times> nat" where "sbrk0 n b = (Some b, b + nat n)"

definition heap0 :: uheap where "heap0 = \<lparr>hptr = \<lambda>_. 0, hsize = \<lambda>_. 0, freep = 0, brk = 8192\<rparr>"

definition heap1 :: uheap where
  "heap1 = \<lparr>hptr = (\<lambda>_. 0)(4096 := 8192, 8192 := 4096), hsize = (\<lambda>_. 0)(8192 := 4094, 73696 := 2), freep = 4096, brk = 73728\<rparr>"

definition heap2 :: uheap where
  "heap2 = heap1\<lparr>hsize := (hsize heap1)(8192 := 4086, 73568 := 8)\<rparr>"

lemma malloc_heap0: "malloc sbrk0 4096 10 heap0 = Some (Some 73712, heap1)"
  by (simp add: malloc_def malloc_loop.simps morecore_def sbrk0_def free_def free_find.simps stops_def free_link_def hend_def
      carve_def heap0_def heap1_def Let_def fun_eq_iff)

lemma malloc_heap1: "malloc sbrk0 4096 100 heap1 = Some (Some 73584, heap2)"
  by (simp add: malloc_def malloc_loop.simps carve_def heap1_def heap2_def Let_def fun_eq_iff)


section \<open>Large requests\<close>

text \<open>
  The number of bytes \<open>morecore\<close> asks for does not fit into the \<open>int\<close> of \<open>sbrk\<close> when a program wants two
  gigabytes: the process is asked to shrink below zero, \<open>uvmdealloc\<close> then leaves it as it is, \<open>sbrk\<close> succeeds,
  and \<open>malloc\<close> returns a block behind the end of the process.
\<close>

lemma kernel_sbrk_negative:
  assumes "b < 2 ^ 31 - 16"
  shows "kernel_sbrk K cur s (16 - 2 ^ 31) b = (Some b, b)"
proof -
  define n where "n = (16 - 2 ^ 31 :: int)"
  let ?z = "of_nat b :: u64"
  have b: "b < 2 ^ 38" using assms by simp
  obtain s' where pz: "p_sz (procs s' cur) = ?z" and e: "kernel_sbrk K cur s n b =
    (case rbind (growproc K cur n s') (\<lambda>(r, t). if r < 0 then Ret (- 1, t) else Ret (?z, t)) of
       Ret (a, t) \<Rightarrow> (if a = - 1 then None else Some (unat a), unat (p_sz (procs t cur))) | _ \<Rightarrow> (None, b))"
    by (rule kernel_sbrk_growproc [of n]) (simp_all add: n_def)
  have "?z + of_int n = of_nat (b + 18446744071562067984)" by (simp add: n_def)
  then have "unat (?z + of_int n) = b + 18446744071562067984"
    using assms by (simp add: unat_of_nat take_bit_nat_eq_self del: of_nat_add)
  then have le: "?z \<le> ?z + of_int n" using size_word(1) [OF b] by (simp add: word_le_nat_alt)
  moreover have "n < 0" by (simp add: n_def)
  ultimately have "kernel_sbrk K cur s n b = (Some b, b)" unfolding e using size_word [OF b] pz
    by (simp add: growproc_def on_km_def uvmdealloc_def upd_proc_def result_simps Let_def)
  then show ?thesis unfolding n_def .
qed

lemma malloc_past_end:
  assumes "freep h = 0" "0 < base" "base < brk h" "brk h < 2 ^ 31 - 16"
  shows "\<exists>h'. malloc (kernel_sbrk K cur s) base 0x80000000 h = Some (Some (brk h + 16), h') \<and> brk h' = brk h"
  using assms kernel_sbrk_negative [OF assms(4), of K cur s]
  by (simp add: malloc_def malloc_loop.simps morecore_def free_def free_find.simps stops_def free_link_def hend_def carve_def Let_def)

end
